(* ===== verification/Nccl_Prelude.thy ===== *)
theory Nccl_Prelude
  imports Main "HOL-Library.Word" "HOL-Library.Signed_Division"
begin

unbundle bit_operations_syntax

text \<open>
  Shared by every component: the result codes of \<^verbatim>\<open>nccl.h.in\<close>, the collections of
  automation facts, and generic lemmas on bit masks, words, lists and integer division that the
  component theories use.
\<close>

section \<open>Result codes\<close>

text \<open>\<^verbatim>\<open>ncclResult_t\<close> of \<^verbatim>\<open>src/src/nccl.h.in\<close>.\<close>

datatype ncclResult =
    ncclSuccess
  | ncclUnhandledCudaError
  | ncclSystemError
  | ncclInternalError
  | ncclInvalidArgument
  | ncclInvalidUsage
  | ncclRemoteError
  | ncclInProgress
  | ncclTimeout

text \<open>
  The macro \<^verbatim>\<open>NCCLCHECK\<close> returns the callee's code when it is neither
  \<^verbatim>\<open>ncclSuccess\<close> nor \<^verbatim>\<open>ncclInProgress\<close>; a function that can fail and
  otherwise produces a value is modelled by a sum whose left side is the returned code.
\<close>

type_synonym 'a nccl = "ncclResult + 'a"

definition ncclCheckFails :: "ncclResult \<Rightarrow> bool" where
  "ncclCheckFails r \<longleftrightarrow> r \<noteq> ncclSuccess \<and> r \<noteq> ncclInProgress"

type_synonym u8 = "8 word"
type_synonym u32 = "32 word"
type_synonym u64 = "64 word"

section \<open>Collections\<close>

named_theorems nccl_word \<open>facts moving word arithmetic to natural numbers\<close>
named_theorems nccl_inv \<open>preservation of component invariants\<close>

section \<open>Masks and alignment\<close>

lemma and_not_mask_eq_minus_mod:
  fixes x :: "'a::len word"
  shows "x AND NOT (mask k) = x - take_bit k x"
proof -
  have "x = (x AND NOT (mask k)) + (x AND mask k)"
    by (subst disjunctive_add) (auto simp: bit_simps intro: bit_eqI)
  then show ?thesis
    by (metis add_diff_cancel_right' take_bit_eq_mask)
qed

lemma unat_and_minus_pow2:
  fixes x :: "'a::len word"
  shows "unat (x AND - (2 ^ k)) = unat x - unat x mod 2 ^ k"
proof -
  have "x AND - (2 ^ k) = x - take_bit k x"
    by (simp add: minus_exp_eq_not_mask and_not_mask_eq_minus_mod)
  moreover have tb: "unat (take_bit k x) = unat x mod 2 ^ k"
    by (simp only: unsigned_take_bit_eq) (simp add: take_bit_eq_mod)
  moreover have "take_bit k x \<le> x"
    by (simp only: word_le_nat_alt tb mod_less_eq_dividend)
  ultimately show ?thesis
    by (simp only: unat_sub)
qed

lemma int_and_minus_pow2:
  fixes x :: int
  shows "x AND - (2 ^ k) = x - x mod 2 ^ k"
proof -
  have "x = (x AND NOT (mask k)) + (x AND mask k)"
    by (subst disjunctive_add) (auto simp: bit_simps intro: bit_eqI)
  then show ?thesis
    by (metis add_diff_cancel_right' minus_exp_eq_not_mask take_bit_eq_mask take_bit_eq_mod)
qed

lemma unat_pow2: "k < LENGTH('a) \<Longrightarrow> unat (2 ^ k :: 'a::len word) = 2 ^ k"
  by (simp add: nat_power_eq uint_2p unat_eq_nat_uint word_gt_0)

lemma unat_ucast_up [nccl_word]:
  fixes x :: "'a::len word"
  assumes "LENGTH('a) \<le> LENGTH('b::len)"
  shows "unat (ucast x :: 'b word) = unat x"
proof -
  have "unat x < 2 ^ LENGTH('b)"
    using unsigned_less [of x, where 'a = nat] power_increasing [OF assms, of "2::nat"]
    by (rule order_less_le_trans) simp_all
  then show ?thesis by (simp only: unsigned_ucast_eq take_bit_nat_eq_self)
qed

lemma unat_ucast_mod [nccl_word]:
  "unat (ucast (x :: 'a::len word) :: 'b::len word) = unat x mod 2 ^ LENGTH('b)"
  by (simp only: unsigned_ucast_eq take_bit_eq_mod)

lemma unat_drop_bit [nccl_word]: "unat (drop_bit n (x :: 'a::len word)) = unat x div 2 ^ n"
  by (subst unsigned_drop_bit_eq) (simp add: drop_bit_eq_div take_bit_nat_eq_self unsigned_less)

lemma unat_gt_1_iff: "1 < unat (y :: 'a::len word) \<longleftrightarrow> y \<noteq> 0 \<and> y \<noteq> 1"
  by (metis less_one linorder_neqE_nat not_less_iff_gr_or_eq unsigned_0 unsigned_1 word_unat_eq_iff)

lemmas unat_gt_Suc_0_iff = unat_gt_1_iff [unfolded One_nat_def]

lemma pow2_dvd_minus_mod: "(2::nat) ^ k dvd x - x mod 2 ^ k"
  by simp

lemma nat_and_pred_eq_0_iff: "0 < n \<Longrightarrow> and n (n - 1) = 0 \<longleftrightarrow> (\<exists>k. n = 2 ^ k)" for n :: nat
proof (induction n rule: less_induct)
  case (less n)
  show ?case
  proof (cases "even n")
    case True
    then obtain m where n: "n = 2 * m" by blast
    then have m: "0 < m" "m < n" using less.prems by auto
    have "(2 * m - 1) div 2 = m - 1" using m by presburger
    then have "and n (n - 1) = 2 * and m (m - 1)"
      using m by (subst and_rec) (simp add: n)
    moreover have "(\<exists>k. n = 2 ^ k) \<longleftrightarrow> (\<exists>k. m = 2 ^ k)"
    proof
      assume "\<exists>k. n = 2 ^ k"
      then obtain k where k: "n = 2 ^ k" by blast
      then have "k \<noteq> 0" using n by (cases k) auto
      then show "\<exists>k. m = 2 ^ k" using k n by (cases k) auto
    next
      assume "\<exists>k. m = 2 ^ k"
      then obtain k where "m = 2 ^ k" by blast
      then have "n = 2 ^ Suc k" using n by simp
      then show "\<exists>k. n = 2 ^ k" by blast
    qed
    ultimately show ?thesis using less.IH [OF m(2,1)] by simp
  next
    case False
    then obtain m where n: "n = 2 * m + 1" by (auto elim: oddE)
    have "and n (n - 1) = 2 * m" by (subst and_rec) (simp add: n)
    moreover have "(\<exists>k. n = 2 ^ k) \<longleftrightarrow> m = 0"
    proof
      assume "\<exists>k. n = 2 ^ k"
      then obtain k where k: "n = 2 ^ k" by blast
      then have "k = 0" using False by (cases k) auto
      then show "m = 0" using k n by simp
    next
      assume "m = 0"
      then have "n = 2 ^ 0" using n by simp
      then show "\<exists>k. n = 2 ^ k" by blast
    qed
    ultimately show ?thesis by simp
  qed
qed

lemma dvd_pow2: "d dvd 2 ^ k \<Longrightarrow> \<exists>i. d = 2 ^ i" for d :: nat
proof (induction k arbitrary: d)
  case 0
  then have "d = 2 ^ 0" by simp
  then show ?case by blast
next
  case (Suc k)
  show ?case
  proof (cases "even d")
    case True
    then obtain e where "d = 2 * e" by blast
    with Suc.prems have "e dvd 2 ^ k" by simp
    with Suc.IH obtain i where "e = 2 ^ i" by blast
    then have "d = 2 ^ Suc i" using \<open>d = 2 * e\<close> by simp
    then show ?thesis by blast
  next
    case False
    then have "coprime d 2" by simp
    with Suc.prems have "d dvd 2 ^ k" by (simp add: coprime_dvd_mult_right_iff)
    then show ?thesis by (rule Suc.IH)
  qed
qed

lemma pred_div_eq:
  fixes N y :: nat
  assumes "0 < y" "0 < N"
  shows "(N - 1) div y + (if y dvd N then 1 else 0) = N div y"
proof (cases "y dvd N")
  case True
  then obtain c where N: "N = y * c" by blast
  then have "0 < c" using assms by auto
  have "N - 1 = y * (c - 1) + (y - 1)"
    using assms \<open>0 < c\<close> N by (cases c) (simp_all add: algebra_simps)
  then have "(N - 1) div y = (y * (c - 1) + (y - 1)) div y" by simp
  also have "\<dots> = c - 1" using assms(1) by (simp only: div_mult_self4) simp
  finally show ?thesis using True N assms(1) \<open>0 < c\<close> by simp
next
  case False
  then show ?thesis
    using assms div_Suc [of "N - 1" y] by (simp add: dvd_eq_mod_eq_0)
qed

lemma unat_uminus_word:
  fixes w :: "'a::len word"
  assumes "w \<noteq> 0"
  shows "unat (- w) = 2 ^ LENGTH('a) - unat w"
proof -
  let ?N = "2 ^ LENGTH('a) :: nat"
  have "(unat (- w) + unat w) mod ?N = unat (- w + w)" by (simp only: unat_word_ariths)
  then have "?N dvd unat (- w) + unat w" by (simp add: dvd_eq_mod_eq_0)
  then obtain k where k: "unat (- w) + unat w = ?N * k" by blast
  have w: "0 < unat w" "unat w < ?N" "unat (- w) < ?N" using assms by (simp_all add: unat_gt_0)
  then have "k \<noteq> 0" using k by (metis add_is_0 mult_0_right not_gr_zero)
  moreover have "?N * k < ?N * 2" using k w by linarith
  then have "k < 2" by simp
  ultimately have "k = 1" by simp
  then show ?thesis using k by simp
qed

lemma or_add_nat: "m < 2 ^ b \<Longrightarrow> or (e * 2 ^ b) m = e * 2 ^ b + m" for e m :: nat
proof -
  assume "m < 2 ^ b"
  then have m: "take_bit b m = m" by (simp add: take_bit_nat_eq_self_iff)
  have "and (push_bit b e) (take_bit b m) = 0" by (auto simp: bit_eq_iff bit_simps)
  then have "push_bit b e + take_bit b m = or (push_bit b e) (take_bit b m)" by (rule disjunctive_add_eq_or)
  then show ?thesis by (simp add: m push_bit_eq_mult)
qed

lemma unat_push_bit: "unat w * 2 ^ b < 2 ^ LENGTH('a) \<Longrightarrow> unat (push_bit b w) = unat w * 2 ^ b" for w :: "'a::len word"
  by (subst unsigned_push_bit_eq) (simp add: push_bit_eq_mult take_bit_nat_eq_self)

lemma int_le_div_iff: "0 < s \<Longrightarrow> i \<le> x div s \<longleftrightarrow> i * s \<le> x" for i x s :: int
proof
  assume s: "0 < s" and "i \<le> x div s"
  then have "i * s \<le> x div s * s" by (intro mult_right_mono) simp_all
  also have "\<dots> \<le> x" using s div_mult_mod_eq [of x s] pos_mod_sign [OF s, of x] by linarith
  finally show "i * s \<le> x" .
next
  assume s: "0 < s" and "i * s \<le> x"
  then have "i * s div s \<le> x div s" by (intro zdiv_mono1)
  then show "i \<le> x div s" using s by simp
qed

lemma int_div_less_iff: "0 < s \<Longrightarrow> x div s < i \<longleftrightarrow> x < i * s" for i x s :: int
  using int_le_div_iff [of s i x] by linarith

lemma div_eq_iff_bounds: "0 < s \<Longrightarrow> i = x div s \<longleftrightarrow> i * s \<le> x \<and> x < (i + 1) * s" for i x s :: int
  using int_le_div_iff [of s i x] int_div_less_iff [of s x "i + 1"] by linarith

end
