(* ===== verification/Linked_Lists.thy ===== *)
theory Linked_Lists
  imports Nccl_Prelude
begin

text \<open>
  Linked lists in an explicit store.  The store gives the link of every object, an object is its address
  and the address 0 is the null pointer.  A list is described by the objects on its path; the walk along a
  list is the loop that the queues, pools and hash maps of the program share.
\<close>

type_synonym links = "nat \<Rightarrow> nat"

primrec path :: "links \<Rightarrow> nat \<Rightarrow> nat list \<Rightarrow> nat \<Rightarrow> bool" where
  "path n p [] q \<longleftrightarrow> p = q"
| "path n p (x # xs) q \<longleftrightarrow> p = x \<and> x \<noteq> 0 \<and> path n (n x) xs q"

text \<open>A loop that follows the links until the object at hand satisfies a condition, and remembers the object
before it.  On a circular list it does not return.\<close>

partial_function (option) walk :: "(nat \<Rightarrow> bool) \<Rightarrow> links \<Rightarrow> nat \<Rightarrow> nat \<Rightarrow> (nat \<times> nat) option" where
  "walk stop n prev cur = (if cur = 0 \<or> stop cur then Some (prev, cur) else walk stop n cur (n cur))"

lemma path_append: "path n p (xs @ ys) q \<longleftrightarrow> (\<exists>r. path n p xs r \<and> path n r ys q)"
  by (induction xs arbitrary: p) auto

lemma path_upd [simp]: "a \<notin> set xs \<Longrightarrow> path (n(a := v)) p xs q = path n p xs q"
  by (induction xs arbitrary: p) auto

lemma path_nonnull: "path n p xs q \<Longrightarrow> 0 \<notin> set xs"
  by (induction xs arbitrary: p) auto

lemma path_null_start [simp]: "path n 0 xs q \<longleftrightarrow> xs = [] \<and> q = 0"
  by (cases xs) auto

lemma path_start: "path n p xs 0 \<Longrightarrow> p \<noteq> 0 \<Longrightarrow> \<exists>ys. xs = p # ys \<and> path n (n p) ys 0"
  by (cases xs) auto

lemma path_start_iff: "path n p xs 0 \<Longrightarrow> p = 0 \<longleftrightarrow> xs = []"
  by (cases xs) auto

lemma path_last: "path n p xs q \<Longrightarrow> xs \<noteq> [] \<Longrightarrow> n (last xs) = q"
  by (induction xs arbitrary: p) auto

lemma path_unique: "path n p xs 0 \<Longrightarrow> path n p ys 0 \<Longrightarrow> xs = ys"
proof (induction xs arbitrary: p ys)
  case (Cons x xs)
  then show ?case by (cases ys) auto
qed auto

lemma path_suffix: "path n p (xs @ ys) 0 \<Longrightarrow> \<exists>r. path n r ys 0"
  by (auto simp: path_append)

text \<open>A list that ends in null has no object twice.\<close>

lemma path_distinct: "path n p xs 0 \<Longrightarrow> distinct xs"
proof (induction xs arbitrary: p)
  case (Cons x xs)
  have "x \<notin> set xs"
  proof
    assume "x \<in> set xs"
    then obtain ys zs where "xs = ys @ x # zs" by (meson split_list)
    then have "path n x (x # zs) 0" using Cons.prems by (auto simp: path_append)
    moreover have "path n x (x # xs) 0" using Cons.prems by simp
    ultimately have "x # zs = x # xs" by (rule path_unique)
    then show False using \<open>xs = ys @ x # zs\<close> by simp
  qed
  then show ?case using Cons by auto
qed simp

text \<open>Changing the link of the last object of a list changes the rest of the list.\<close>

lemma path_relink:
  assumes "path n p xs q" "distinct xs" "xs \<noteq> []"
  shows "path (n(last xs := r)) p xs r"
  using assms
proof (induction xs arbitrary: p)
  case (Cons x xs)
  then show ?case by (cases "xs = []") auto
qed simp

lemma walk_path:
  assumes "path n p xs 0"
  shows "walk stop n prev p = Some (last (prev # takeWhile (\<lambda>x. \<not> stop x) xs),
           (case dropWhile (\<lambda>x. \<not> stop x) xs of [] \<Rightarrow> 0 | y # ys \<Rightarrow> y))"
  using assms
proof (induction xs arbitrary: prev p)
  case Nil
  then show ?case by (simp add: walk.simps)
next
  case (Cons x xs)
  then show ?case using walk.simps [of stop n prev x] by auto
qed

lemma path_split:
  assumes "path n p (xs @ y # ys) 0"
  shows "path n p xs y" "n y = (case ys of [] \<Rightarrow> 0 | z # zs \<Rightarrow> z)" "path n (n y) ys 0" "y \<noteq> 0" "y \<notin> set xs" "y \<notin> set ys"
  using assms path_distinct [OF assms] by (auto simp: path_append split: list.split)

lemma path_cases_first:
  "path n p xs q \<Longrightarrow> p = (case xs of [] \<Rightarrow> q | x # _ \<Rightarrow> x)"
  by (cases xs) auto

text \<open>Inserting an object between two parts of a list, and removing one.\<close>

lemma path_insert:
  assumes "path next p (as @ bs) 0" "x \<notin> set as \<union> set bs" "x \<noteq> 0" "cur = (case bs of [] \<Rightarrow> 0 | y # _ \<Rightarrow> y)"
  shows "as = [] \<Longrightarrow> path (next(x := cur)) x (x # bs) 0"
    "as \<noteq> [] \<Longrightarrow> path (next(x := cur, last as := x)) p (as @ x # bs) 0"
proof -
  obtain r where r: "path next p as r" "path next r bs 0" using assms(1) by (auto simp: path_append)
  have cur: "r = cur" using path_cases_first [OF r(2)] assms(4) by simp
  have x: "path (next(x := cur)) cur bs 0" using r(2) assms(2) by (simp add: cur)
  then show "path (next(x := cur)) x (x # bs) 0" using assms(3) by simp
  assume as: "as \<noteq> []"
  have d: "distinct (as @ bs)" using path_distinct [OF assms(1)] .
  have "path (next(x := cur, last as := x)) p as x"
    using path_relink [of "next(x := cur)" p as cur x] r(1) assms(2) as d by (simp add: cur)
  moreover have "last as \<notin> set bs" "last as \<noteq> x" using d assms(2) last_in_set [OF as] by (auto simp del: last_in_set)
  ultimately show "path (next(x := cur, last as := x)) p (as @ x # bs) 0" using x assms(3) by (auto simp: path_append)
qed

lemma path_remove:
  assumes "path next p (as @ x # bs) 0"
  shows "as = [] \<Longrightarrow> path next (next x) bs 0" "as \<noteq> [] \<Longrightarrow> path (next(last as := next x)) p (as @ bs) 0"
proof -
  have d: "distinct (as @ x # bs)" using path_distinct [OF assms] .
  show "path next (next x) bs 0" using assms by (auto simp: path_append)
  assume as: "as \<noteq> []"
  have "last as \<notin> set bs" using d last_in_set [OF as] by (auto simp del: last_in_set)
  then show "path (next(last as := next x)) p (as @ bs) 0"
    using assms d as path_relink [of "next" p as x "next x"] by (auto simp: path_append)
qed

lemma last_nonnull: "0 \<notin> set xs \<Longrightarrow> xs \<noteq> [] \<Longrightarrow> last xs \<noteq> (0::nat)"
  by (metis last_in_set)

lemma path_cong: "(\<And>x. x \<in> set xs \<Longrightarrow> n x = n' x) \<Longrightarrow> path n p xs q = path n' p xs q"
  by (induction xs arbitrary: p) auto

end
