(* ===== verification/Address_Map.thy ===== *)
theory Address_Map
  imports Linked_Lists
begin

unbundle bit_operations_syntax

text \<open>
  The intrusive hash map from keys to objects (\<^verbatim>\<open>ncclIntruAddressMap\<close> of \<^verbatim>\<open>src/src/misc/utils.cc\<close>): a table of
  buckets, each a linked list through a field of the objects.  The store holds the link and the key field
  of every object.  The results of \<^verbatim>\<open>calloc\<close> and \<^verbatim>\<open>malloc\<close> are arguments; a walk along a circular
  bucket does not return.
\<close>

section \<open>The operations\<close>

record ncclIntruAddressMap =
  hbits :: nat
  count :: int
  table :: "nat list"

definition ncclHashPointer :: "nat \<Rightarrow> u64 \<Rightarrow> u64" where
  "ncclHashPointer hb key =
     (let h = key XOR drop_bit 32 key;
          h = h * 0x9e3779b97f4a7c13
      in drop_bit (64 - hb) h)"

definition readKey :: "(nat \<Rightarrow> u64) \<Rightarrow> int \<Rightarrow> nat \<Rightarrow> u64" where
  "readKey key keySize obj = take_bit (8 * nat keySize) (key obj)"

partial_function (option) rehashChain ::
    "(nat \<Rightarrow> u64) \<Rightarrow> nat \<Rightarrow> nat \<Rightarrow> links \<Rightarrow> nat list \<Rightarrow> (links \<times> nat list) option" where
  "rehashChain objKey newHbits obj next newTable =
     (if obj = 0 then Some (next, newTable)
      else let nxt = next obj;
               b = unat (ncclHashPointer newHbits (objKey obj))
           in rehashChain objKey newHbits nxt (next(obj := newTable ! b)) (newTable[b := obj]))"

fun rehashTable :: "(nat \<Rightarrow> u64) \<Rightarrow> nat \<Rightarrow> nat list \<Rightarrow> links \<Rightarrow> nat list \<Rightarrow> (links \<times> nat list) option" where
  "rehashTable objKey newHbits [] next newTable = Some (next, newTable)"
| "rehashTable objKey newHbits (obj # objs) next newTable =
     (case rehashChain objKey newHbits obj next newTable of None \<Rightarrow> None
      | Some (next, newTable) \<Rightarrow> rehashTable objKey newHbits objs next newTable)"

text \<open>
  The growth of the table before an insertion; \<open>Inl\<close> is the failure of \<^verbatim>\<open>malloc\<close>.  The sizes are values of \<^verbatim>\<open>int\<close>:
  a shift into the sign bit gives a negative number.  \<open>None\<close> is undefined behaviour, the overflow of
  the count or a write to the table of negative size, or a walk that does not return.
\<close>

definition asInt32 :: "int \<Rightarrow> int" where
  "asInt32 x = (x + 2 ^ 31) mod 2 ^ 32 - 2 ^ 31"

definition growTable :: "bool \<Rightarrow> (nat \<Rightarrow> u64) \<Rightarrow> links \<Rightarrow> ncclIntruAddressMap \<Rightarrow> (links \<times> ncclIntruAddressMap) nccl option" where
  "growTable mallocOk objKey next amap =
     (if count amap + 1 \<ge> 2 ^ 31 then None
      else if count amap + 1 > asInt32 (2 * 2 ^ hbits amap) then
        let oldSize = asInt32 (2 ^ hbits amap); newHbits = hbits amap + 1; newSize = asInt32 (2 ^ newHbits)
        in if \<not> mallocOk then Some (Inl ncclSystemError)
           else if newSize \<le> 0 then None
           else case rehashTable objKey newHbits (take (nat oldSize) (table amap)) next (replicate (nat newSize) 0) of None \<Rightarrow> None
                | Some (next, newTable) \<Rightarrow> Some (Inr (next, amap\<lparr>table := newTable, hbits := newHbits\<rparr>))
      else Some (Inr (next, amap)))"

definition ncclIntruAddressMapInsert_untyped ::
    "bool \<Rightarrow> bool \<Rightarrow> (nat \<Rightarrow> u64) \<Rightarrow> links \<Rightarrow> ncclIntruAddressMap option \<Rightarrow> int \<Rightarrow> u64 \<Rightarrow> nat
     \<Rightarrow> (ncclResult \<times> links \<times> ncclIntruAddressMap option) option" where
  "ncclIntruAddressMapInsert_untyped callocOk mallocOk keyField next amap keySize key object =
     (case amap of None \<Rightarrow> Some (ncclInvalidUsage, next, amap) | Some mp \<Rightarrow>
      if object = 0 then Some (ncclInvalidUsage, next, amap)
      else if keySize \<le> 0 \<or> keySize > 8 then Some (ncclInvalidUsage, next, amap)
      else if hbits mp = 0 \<and> \<not> callocOk then Some (ncclSystemError, next, Some (mp\<lparr>hbits := 0, table := []\<rparr>))
      else let mp = (if hbits mp = 0 then mp\<lparr>hbits := 4, table := replicate (2 ^ 4) 0\<rparr> else mp)
           in (case growTable mallocOk (readKey keyField keySize) next mp of None \<Rightarrow> None
              | Some (Inl e) \<Rightarrow> Some (e, next, Some mp)
              | Some (Inr (next, mp)) \<Rightarrow>
                  let b = unat (ncclHashPointer (hbits mp) key);
                      next = next(object := table mp ! b)
                  in Some (ncclSuccess, next, Some (mp\<lparr>table := (table mp)[b := object], count := count mp + 1\<rparr>))))"

definition ncclIntruAddressMapFind_untyped ::
    "(nat \<Rightarrow> u64) \<Rightarrow> links \<Rightarrow> ncclIntruAddressMap option \<Rightarrow> int \<Rightarrow> u64 \<Rightarrow> bool \<Rightarrow> (ncclResult \<times> nat option) option" where
  "ncclIntruAddressMapFind_untyped keyField next amap keySize key hasObject =
     (case amap of None \<Rightarrow> Some (ncclInvalidUsage, None) | Some mp \<Rightarrow>
      if \<not> hasObject then Some (ncclInvalidUsage, None)
      else if keySize \<le> 0 \<or> keySize > 8 then Some (ncclInvalidUsage, None)
      else if hbits mp = 0 then Some (ncclSuccess, Some 0)
      else let b = unat (ncclHashPointer (hbits mp) key)
           in (case walk (\<lambda>obj. readKey keyField keySize obj = key) next 0 (table mp ! b) of None \<Rightarrow> None
              | Some (_, obj) \<Rightarrow> if obj \<noteq> 0 then Some (ncclSuccess, Some obj) else Some (ncclSuccess, Some 0)))"

definition ncclIntruAddressMapRemove_untyped ::
    "(nat \<Rightarrow> u64) \<Rightarrow> links \<Rightarrow> ncclIntruAddressMap option \<Rightarrow> int \<Rightarrow> u64
     \<Rightarrow> (ncclResult \<times> links \<times> ncclIntruAddressMap option) option" where
  "ncclIntruAddressMapRemove_untyped keyField next amap keySize key =
     (case amap of None \<Rightarrow> Some (ncclInvalidUsage, next, amap) | Some mp \<Rightarrow>
      if keySize \<le> 0 \<or> keySize > 8 then Some (ncclInvalidUsage, next, amap)
      else if hbits mp = 0 then Some (ncclSuccess, next, amap)
      else let b = unat (ncclHashPointer (hbits mp) key)
           in (case walk (\<lambda>obj. readKey keyField keySize obj = key) next 0 (table mp ! b) of None \<Rightarrow> None
              | Some (prev, obj) \<Rightarrow>
                  if obj \<noteq> 0 then
                    let nxt = next obj;
                        (next, mp) = (if prev = 0 then (next, mp\<lparr>table := (table mp)[b := nxt]\<rparr>) else (next(prev := nxt), mp));
                        mp = mp\<lparr>count := count mp - 1\<rparr>;
                        mp = (if count mp = 0 then \<lparr>hbits = 0, count = 0, table = []\<rparr> else mp)
                    in Some (ncclSuccess, next, Some mp)
                  else Some (ncclSuccess, next, amap)))"

text \<open>The table is freed if there is one; the objects are not touched.\<close>

definition ncclIntruAddressMapDestruct :: "ncclIntruAddressMap \<Rightarrow> ncclIntruAddressMap" where
  "ncclIntruAddressMapDestruct mp =
     (let mp = (if table mp \<noteq> [] then mp\<lparr>table := []\<rparr> else mp)
      in mp\<lparr>hbits := 0, count := 0\<rparr>)"

section \<open>Buckets\<close>

lemma hash_bound: "hb \<le> 64 \<Longrightarrow> unat (ncclHashPointer hb key) < 2 ^ hb"
proof -
  assume hb: "hb \<le> 64"
  have "unat (drop_bit (64 - hb) w) < 2 ^ hb" for w :: u64
  proof -
    have "unat w < 2 ^ hb * 2 ^ (64 - hb)" using unsigned_less [of w, where 'a = nat] hb by (simp flip: power_add)
    then show ?thesis unfolding unat_drop_bit_eq unfolding drop_bit_eq_div by (rule less_mult_imp_div_less)
  qed
  then show ?thesis by (simp add: ncclHashPointer_def Let_def)
qed

definition bucket_rep :: "links \<Rightarrow> (nat \<Rightarrow> u64) \<Rightarrow> nat \<Rightarrow> nat list \<Rightarrow> (nat \<Rightarrow> nat list) \<Rightarrow> bool" where
  "bucket_rep next objKey hb tab B \<longleftrightarrow> hb \<le> 64 \<and> length tab = 2 ^ hb \<and>
     (\<forall>b < 2 ^ hb. path next (tab ! b) (B b) 0 \<and> (\<forall>x \<in> set (B b). unat (ncclHashPointer hb (objKey x)) = b))"

definition contents :: "nat \<Rightarrow> (nat \<Rightarrow> nat list) \<Rightarrow> nat set" where
  "contents hb B = (\<Union>b < 2 ^ hb. set (B b))"

lemma bucket_repD:
  assumes "bucket_rep next objKey hb tab B" "b < 2 ^ hb"
  shows "path next (tab ! b) (B b) 0" "x \<in> set (B b) \<Longrightarrow> unat (ncclHashPointer hb (objKey x)) = b" "distinct (B b)"
  using assms path_distinct by (auto simp: bucket_rep_def)

lemma contents_hash:
  assumes "bucket_rep next objKey hb tab B" "hb \<le> 64"
  shows "x \<in> contents hb B \<longleftrightarrow> x \<in> set (B (unat (ncclHashPointer hb (objKey x))))"
  using assms hash_bound [OF assms(2)] by (auto simp: contents_def bucket_rep_def)

lemma finite_contents: "finite (contents hb B)"
  by (simp add: contents_def)

lemma bucket_push:
  assumes "bucket_rep next objKey hb tab B" "x \<notin> contents hb B" "x \<noteq> 0" "b = unat (ncclHashPointer hb (objKey x))"
  shows "bucket_rep (next(x := tab ! b)) objKey hb (tab[b := x]) (B(b := x # B b))"
    "contents hb (B(b := x # B b)) = insert x (contents hb B)"
proof -
  have hb: "hb \<le> 64" using assms(1) by (simp add: bucket_rep_def)
  have b: "b < 2 ^ hb" using hash_bound [OF hb] assms(4) by simp
  have n: "x \<notin> set (B c)" if "c < 2 ^ hb" for c using assms(2) that by (auto simp: contents_def)
  show "contents hb (B(b := x # B b)) = insert x (contents hb B)"
    using b by (auto simp: contents_def split: if_splits)
  show "bucket_rep (next(x := tab ! b)) objKey hb (tab[b := x]) (B(b := x # B b))"
    unfolding bucket_rep_def
  proof (intro conjI allI impI ballI)
    show "length (tab[b := x]) = 2 ^ hb" using assms(1) by (simp add: bucket_rep_def)
    fix c :: nat assume c: "c < 2 ^ hb"
    have len: "length tab = 2 ^ hb" using assms(1) by (simp add: bucket_rep_def)
    note o = bucket_repD [OF assms(1)]
    show "path (next(x := tab ! b)) (tab[b := x] ! c) ((B(b := x # B b)) c) 0"
    proof (cases "c = b")
      case True
      then show ?thesis using o(1) [OF b] n [OF b] assms(3) b len by simp
    next
      case False
      then show ?thesis using o(1) [OF c] n [OF c] by simp
    qed
    show "unat (ncclHashPointer hb (objKey y)) = c" if "y \<in> set ((B(b := x # B b)) c)" for y
      using that o(2) [OF c, of y] assms(4) by (cases "c = b") auto
  qed (rule hb)
qed

lemma rehashChain_rep:
  assumes "path next obj xs 0" "bucket_rep next objKey hb tab B" "set xs \<inter> contents hb B = {}"
  shows "\<exists>next' tab' B'. rehashChain objKey hb obj next tab = Some (next', tab') \<and> bucket_rep next' objKey hb tab' B' \<and>
           contents hb B' = contents hb B \<union> set xs \<and> (\<forall>y. y \<notin> set xs \<longrightarrow> next' y = next y)"
  using assms
proof (induction xs arbitrary: obj "next" tab B)
  case Nil
  then show ?case by (auto simp: rehashChain.simps)
next
  case (Cons x xs)
  let ?b = "unat (ncclHashPointer hb (objKey x))"
  have x: "obj = x" "x \<noteq> 0" "path next (next x) xs 0" "x \<notin> contents hb B" "x \<notin> set xs"
    using Cons.prems path_distinct [OF Cons.prems(1)] by auto
  note push = bucket_push [OF Cons.prems(2) x(4,2) refl]
  have "path (next(x := tab ! ?b)) (next x) xs 0" "set xs \<inter> contents hb (B(?b := x # B ?b)) = {}"
    using x Cons.prems(3) by (auto simp: push(2))
  from Cons.IH [OF this(1) push(1) this(2)]
  obtain next' tab' B' where r: "rehashChain objKey hb (next x) (next(x := tab ! ?b)) (tab[?b := x]) = Some (next', tab')"
      "bucket_rep next' objKey hb tab' B'" "contents hb B' = insert x (contents hb B) \<union> set xs"
      "\<forall>y. y \<notin> set xs \<longrightarrow> next' y = (next(x := tab ! ?b)) y"
    unfolding push(2) by blast
  have "rehashChain objKey hb obj next tab = Some (next', tab')"
    using r(1) x(1,2) by (subst rehashChain.simps) (simp add: Let_def)
  moreover have "\<forall>y. y \<notin> set (x # xs) \<longrightarrow> next' y = next y" using r(4) by simp
  moreover have "contents hb B' = contents hb B \<union> set (x # xs)" using r(3) by simp
  ultimately show ?case using r(2) by blast
qed

lemma rehashTable_rep:
  assumes "list_all2 (\<lambda>obj xs. path next obj xs 0) objs xss" "bucket_rep next objKey hb tab B"
    "distinct (concat xss)" "set (concat xss) \<inter> contents hb B = {}"
  shows "\<exists>next' tab' B'. rehashTable objKey hb objs next tab = Some (next', tab') \<and> bucket_rep next' objKey hb tab' B' \<and>
           contents hb B' = contents hb B \<union> set (concat xss)"
  using assms
proof (induction objs arbitrary: xss "next" tab B)
  case Nil
  then show ?case by auto
next
  case (Cons obj objs xss0)
  obtain xs xss where xss: "xss0 = xs # xss" and p0: "path next obj xs 0" "list_all2 (\<lambda>obj xs. path next obj xs 0) objs xss"
    using Cons.prems(1) by (auto simp: list_all2_Cons1)
  have d: "distinct (concat xss)" "set xs \<inter> set (concat xss) = {}" "set xs \<inter> contents hb B = {}"
      "set (concat xss) \<inter> contents hb B = {}"
    using Cons.prems(3,4) by (auto simp: xss disjoint_iff)
  obtain n1 t1 B1 where r: "rehashChain objKey hb obj next tab = Some (n1, t1)" "bucket_rep n1 objKey hb t1 B1"
      "contents hb B1 = contents hb B \<union> set xs" "\<forall>y. y \<notin> set xs \<longrightarrow> n1 y = next y"
    using rehashChain_rep [OF p0(1) Cons.prems(2) d(3)] by blast
  have "list_all2 (\<lambda>obj xs. path n1 obj xs 0) objs xss"
    unfolding list_all2_conv_all_nth
  proof (intro conjI allI impI)
    show "length objs = length xss" using p0(2) by (rule list_all2_lengthD)
    fix i assume i: "i < length objs"
    then have "xss ! i \<in> set xss" using p0(2) list_all2_lengthD by fastforce
    then have "next y = n1 y" if "y \<in> set (xss ! i)" for y using that r(4) d(2) by (fastforce simp: disjoint_iff)
    then show "path n1 (objs ! i) (xss ! i) 0"
      using list_all2_nthD [OF p0(2) i] path_cong [of "xss ! i" "next" n1] by simp
  qed
  moreover have "set (concat xss) \<inter> contents hb B1 = {}" using d r(3) by auto
  ultimately obtain n2 t2 B2 where "rehashTable objKey hb objs n1 t1 = Some (n2, t2)" "bucket_rep n2 objKey hb t2 B2"
      "contents hb B2 = contents hb B1 \<union> set (concat xss)"
    using Cons.IH [OF _ r(2) d(1)] by blast
  then show ?case using r(1,3) by (auto simp: xss Un_assoc)
qed

lemma distinct_buckets:
  assumes "bucket_rep next objKey hb tab B" "k \<le> 2 ^ hb"
  shows "distinct (concat (map B [0..<k]))"
  using assms(2)
proof (induction k)
  case (Suc k)
  have "x \<notin> set (B k)" if "j < k" "x \<in> set (B j)" for j x
    using bucket_repD(2) [OF assms(1), of j x] bucket_repD(2) [OF assms(1), of k x] that Suc.prems by auto
  then have "set (concat (map B [0..<k])) \<inter> set (B k) = {}" by auto
  then show ?case using Suc bucket_repD(3) [OF assms(1), of k] by auto
qed simp

lemma bucket_rep_empty: "hb \<le> 64 \<Longrightarrow> bucket_rep next objKey hb (replicate (2 ^ hb) 0) (\<lambda>_. [])"
  by (simp add: bucket_rep_def)

lemma contents_empty [simp]: "contents hb (\<lambda>_. []) = {}"
  by (simp add: contents_def)

lemma rehash_all:
  assumes "bucket_rep next objKey hb tab B" "hb' \<le> 64"
  shows "\<exists>next' tab' B'. rehashTable objKey hb' (take (2 ^ hb) tab) next (replicate (2 ^ hb') 0) = Some (next', tab') \<and>
           bucket_rep next' objKey hb' tab' B' \<and> contents hb' B' = contents hb B"
proof -
  have len: "length tab = 2 ^ hb" using assms(1) by (simp add: bucket_rep_def)
  have "list_all2 (\<lambda>obj xs. path next obj xs 0) (take (2 ^ hb) tab) (map B [0..<2 ^ hb])"
    using bucket_repD(1) [OF assms(1)] len by (simp add: list_all2_conv_all_nth)
  moreover have "set (concat (map B [0..<2 ^ hb])) = contents hb B" by (auto simp: contents_def)
  ultimately show ?thesis
    using rehashTable_rep [OF _ bucket_rep_empty [OF assms(2)] distinct_buckets [OF assms(1) order_refl]]
    by fastforce
qed

section \<open>The set of objects\<close>

definition amap_rep :: "links \<Rightarrow> (nat \<Rightarrow> u64) \<Rightarrow> ncclIntruAddressMap \<Rightarrow> nat set \<Rightarrow> bool" where
  "amap_rep next objKey mp S \<longleftrightarrow> finite S \<and> count mp = int (card S) \<and> hbits mp < 30 \<and>
     (if hbits mp = 0 then S = {} else \<exists>B. bucket_rep next objKey (hbits mp) (table mp) B \<and> contents (hbits mp) B = S)"

text \<open>Below \<open>2 ^ 30\<close> objects no shift reaches the sign bit.\<close>

lemma asInt32_pow2: "n < 31 \<Longrightarrow> asInt32 (2 ^ n) = 2 ^ n"
proof -
  assume n: "n < 31"
  then have "(2::int) ^ n < 2 ^ 31" by (intro power_strict_increasing) simp_all
  then show ?thesis by (simp add: asInt32_def)
qed

lemma growTable_rep:
  assumes "amap_rep next objKey mp S" "hbits mp \<noteq> 0" "card S < 2 ^ 30"
  shows "\<exists>next' mp'. growTable True objKey next mp = Some (Inr (next', mp')) \<and> amap_rep next' objKey mp' S \<and> hbits mp' \<noteq> 0"
proof -
  have c: "count mp = int (card S)" and f: "finite S" and hb: "hbits mp < 30" using assms(1) by (simp_all add: amap_rep_def)
  have thr: "asInt32 (2 * 2 ^ hbits mp) = 2 ^ (hbits mp + 1)" "asInt32 (2 ^ hbits mp) = 2 ^ hbits mp"
    "asInt32 (2 ^ (hbits mp + 1)) = 2 ^ (hbits mp + 1)"
    using asInt32_pow2 [of "hbits mp + 1"] asInt32_pow2 [of "hbits mp"] hb by simp_all
  have small: "\<not> count mp + 1 \<ge> 2 ^ 31" using assms(3) c by simp
  show ?thesis
  proof (cases "count mp + 1 > 2 ^ (hbits mp + 1)")
    case False
    then have "growTable True objKey next mp = Some (Inr (next, mp))" unfolding growTable_def thr if_not_P [OF small] by simp
    then show ?thesis using assms by simp
  next
    case True
    obtain B where B: "bucket_rep next objKey (hbits mp) (table mp) B" "contents (hbits mp) B = S"
      using assms(1,2) by (auto simp: amap_rep_def)
    have "(2::int) ^ (hbits mp + 1) \<le> int (card S)" using True c by simp
    then have "2 ^ (hbits mp + 1) \<le> card S" by (metis of_nat_le_iff of_nat_numeral of_nat_power)
    then have "(2::nat) ^ (hbits mp + 1) < 2 ^ 30" using assms(3) by (rule le_less_trans)
    then have hb': "hbits mp + 1 < 30" using power_less_imp_less_exp [of "2::nat"] by (metis one_less_numeral_iff semiring_norm(76))
    then have "hbits mp + 1 \<le> 64" by simp
    from rehash_all [OF B(1) this] obtain n t B' where r:
        "rehashTable objKey (hbits mp + 1) (take (2 ^ hbits mp) (table mp)) next (replicate (2 ^ (hbits mp + 1)) 0) = Some (n, t)"
        "bucket_rep n objKey (hbits mp + 1) t B'" "contents (hbits mp + 1) B' = S"
      unfolding B(2) by blast
    then have "growTable True objKey next mp = Some (Inr (n, mp\<lparr>table := t, hbits := hbits mp + 1\<rparr>))"
      unfolding growTable_def Let_def thr if_not_P [OF small] if_P [OF True] by (simp add: nat_power_eq nat_mult_distrib)
    moreover have "amap_rep n objKey (mp\<lparr>table := t, hbits := hbits mp + 1\<rparr>) S"
      unfolding amap_rep_def using r(2,3) c f hb' by auto
    ultimately show ?thesis by auto
  qed
qed

lemma insert_rep:
  assumes "amap_rep next (readKey keyField keySize) mp S" "0 < keySize" "keySize \<le> 8" "object \<noteq> 0" "object \<notin> S"
    "key = readKey keyField keySize object" "card S < 2 ^ 30"
  shows "\<exists>next' mp'. ncclIntruAddressMapInsert_untyped True True keyField next (Some mp) keySize key object =
           Some (ncclSuccess, next', Some mp') \<and> amap_rep next' (readKey keyField keySize) mp' (insert object S)"
proof -
  let ?k = "readKey keyField keySize"
  define mp0 where "mp0 = (if hbits mp = 0 then mp\<lparr>hbits := 4, table := replicate (2 ^ 4) 0\<rparr> else mp)"
  have "amap_rep next ?k mp0 S" "hbits mp0 \<noteq> 0"
    using assms(1) bucket_rep_empty [of 4 "next" ?k] by (auto simp: amap_rep_def mp0_def)
  from growTable_rep [OF this assms(7)] obtain n1 mp1 where g:
    "growTable True ?k next mp0 = Some (Inr (n1, mp1))" "amap_rep n1 ?k mp1 S" "hbits mp1 \<noteq> 0" by blast
  then obtain B where B: "bucket_rep n1 ?k (hbits mp1) (table mp1) B" "contents (hbits mp1) B = S"
    by (auto simp: amap_rep_def)
  define b where "b = unat (ncclHashPointer (hbits mp1) key)"
  note push = bucket_push [OF B(1) _ assms(4), of b, unfolded B(2), OF assms(5)]
  have bd: "b = unat (ncclHashPointer (hbits mp1) (?k object))" by (simp add: b_def assms(6))
  define n2 mp2 where "n2 = n1(object := table mp1 ! b)"
    and "mp2 = mp1\<lparr>table := (table mp1)[b := object], count := count mp1 + 1\<rparr>"
  have "ncclIntruAddressMapInsert_untyped True True keyField next (Some mp) keySize key object = Some (ncclSuccess, n2, Some mp2)"
    unfolding ncclIntruAddressMapInsert_untyped_def using assms(2-4) g(1)
    by (simp add: mp0_def [symmetric] b_def [symmetric] n2_def mp2_def Let_def)
  moreover have "amap_rep n2 ?k mp2 (insert object S)"
    unfolding amap_rep_def using push [OF bd] g(2,3) assms(5) by (auto simp: n2_def mp2_def amap_rep_def)
  ultimately show ?thesis by blast
qed

text \<open>An insertion that fails leaves the objects of the map as they are.\<close>

lemma insert_fails:
  assumes "amap_rep next (readKey keyField keySize) mp S"
    "ncclIntruAddressMapInsert_untyped callocOk mallocOk keyField next (Some mp) keySize key object = Some (e, next', mp')"
    "e \<noteq> ncclSuccess"
  shows "next' = next \<and> (\<exists>mp''. mp' = Some mp'' \<and> amap_rep next (readKey keyField keySize) mp'' S)"
proof -
  define mp0 where "mp0 = (if hbits mp = 0 then mp\<lparr>hbits := 4, table := replicate (2 ^ 4) 0\<rparr> else mp)"
  have "amap_rep next (readKey keyField keySize) mp0 S"
    using assms(1) bucket_rep_empty [of 4 "next" "readKey keyField keySize"] by (auto simp: amap_rep_def mp0_def)
  moreover have "hbits mp = 0 \<Longrightarrow> amap_rep next (readKey keyField keySize) (mp\<lparr>hbits := 0, table := []\<rparr>) S"
    using assms(1) by (simp add: amap_rep_def)
  ultimately show ?thesis
    using assms unfolding ncclIntruAddressMapInsert_untyped_def
    by (auto simp: mp0_def [symmetric] Let_def split: if_splits option.splits sum.splits)
qed

lemma find_rep:
  assumes "amap_rep next (readKey keyField keySize) mp S" "0 < keySize" "keySize \<le> 8"
  shows "\<exists>obj. ncclIntruAddressMapFind_untyped keyField next (Some mp) keySize key True = Some (ncclSuccess, Some obj) \<and>
           (if \<exists>x \<in> S. readKey keyField keySize x = key then obj \<in> S \<and> obj \<noteq> 0 \<and> readKey keyField keySize obj = key else obj = 0)"
proof (cases "hbits mp = 0")
  case True
  then show ?thesis using assms by (simp add: ncclIntruAddressMapFind_untyped_def amap_rep_def)
next
  case False
  let ?k = "readKey keyField keySize"
  obtain B where B: "bucket_rep next ?k (hbits mp) (table mp) B" "contents (hbits mp) B = S"
    using assms(1) False by (auto simp: amap_rep_def)
  have hb: "hbits mp \<le> 64" using B(1) by (simp add: bucket_rep_def)
  define b where "b = unat (ncclHashPointer (hbits mp) key)"
  have b: "b < 2 ^ hbits mp" unfolding b_def by (rule hash_bound [OF hb])
  note p = bucket_repD(1) [OF B(1) b]
  have S: "x \<in> S \<Longrightarrow> ?k x = key \<Longrightarrow> x \<in> set (B b)" for x
    using contents_hash [OF B(1) hb, of x] by (simp add: B(2) b_def)
  have BS: "set (B b) \<subseteq> S" using b B(2) by (auto simp: contents_def)
  let ?d = "dropWhile (\<lambda>x. \<not> ?k x = key) (B b)"
  have f: "ncclIntruAddressMapFind_untyped keyField next (Some mp) keySize key True = Some (ncclSuccess, Some (case ?d of [] \<Rightarrow> 0 | y # ys \<Rightarrow> y))"
    unfolding ncclIntruAddressMapFind_untyped_def using assms(2,3) False walk_path [OF p, of "\<lambda>obj. ?k obj = key" 0]
    by (simp add: b_def [symmetric] Let_def)
  show ?thesis
  proof (cases ?d)
    case Nil
    then have "\<not> (\<exists>x \<in> S. ?k x = key)" using S by (auto simp: dropWhile_eq_Nil_conv)
    then show ?thesis using f Nil by simp
  next
    case (Cons y ys)
    then have y: "?k y = key" by (simp add: dropWhile_eq_Cons_conv)
    have "y \<in> set (B b)" using Cons set_dropWhileD [of y] by (metis list.set_intros(1))
    then have "y \<in> S" "y \<noteq> 0" using BS path_nonnull [OF p] by (auto intro: ccontr)
    then show ?thesis using f Cons y by auto
  qed
qed

lemma bucket_pop:
  assumes "bucket_rep next objKey hb tab B" "b < 2 ^ hb" "B b = as @ x # bs"
  defines "next' \<equiv> (if as = [] then next else next(last as := next x))"
  defines "tab' \<equiv> (if as = [] then tab[b := next x] else tab)"
  shows "bucket_rep next' objKey hb tab' (B(b := as @ bs))" "contents hb (B(b := as @ bs)) = contents hb B - {x}"
proof -
  note o = bucket_repD [OF assms(1)]
  have h: "y \<in> set (B b) \<Longrightarrow> c < 2 ^ hb \<Longrightarrow> c \<noteq> b \<Longrightarrow> y \<notin> set (B c)" for y c
    using o(2) [OF assms(2), of y] o(2) [of c y] by blast
  have p: "path next (tab ! b) (as @ x # bs) 0" "distinct (as @ x # bs)" using o(1,3) [OF assms(2)] by (simp_all add: assms(3))
  have l: "as \<noteq> [] \<Longrightarrow> last as \<in> set (B b)" using assms(3) by simp
  have len: "length tab = 2 ^ hb" "hb \<le> 64" using assms(1) by (simp_all add: bucket_rep_def)
  show "bucket_rep next' objKey hb tab' (B(b := as @ bs))"
    unfolding bucket_rep_def
  proof (intro conjI allI impI ballI)
    show "length tab' = 2 ^ hb" using len by (simp add: tab'_def)
    fix c :: nat assume c: "c < 2 ^ hb"
    show "path next' (tab' ! c) ((B(b := as @ bs)) c) 0"
    proof (cases "c = b")
      case True
      then show ?thesis using path_remove [OF p(1)] len assms(2) by (cases "as = []") (simp_all add: next'_def tab'_def)
    next
      case False
      then have "as \<noteq> [] \<Longrightarrow> last as \<notin> set (B c)" using h [OF l c False] by simp
      then show ?thesis using o(1) [OF c] False by (simp add: next'_def tab'_def)
    qed
    show "unat (ncclHashPointer hb (objKey y)) = c" if "y \<in> set ((B(b := as @ bs)) c)" for y
      using that o(2) [OF c, of y] assms(3) by (cases "c = b") auto
  qed (rule len)
  have "x \<in> set (B b)" using assms(3) by simp
  then have "x \<notin> set (B c)" if "c < 2 ^ hb" "c \<noteq> b" for c using h that by blast
  then have "set ((B(b := as @ bs)) c) = set (B c) - {x}" if "c < 2 ^ hb" for c
    using that p(2) assms(3) by (cases "c = b") auto
  then show "contents hb (B(b := as @ bs)) = contents hb B - {x}" unfolding contents_def by auto
qed

lemma remove_rep:
  assumes "amap_rep next (readKey keyField keySize) mp S" "0 < keySize" "keySize \<le> 8"
  shows "\<exists>next' mp' S'. ncclIntruAddressMapRemove_untyped keyField next (Some mp) keySize key = Some (ncclSuccess, next', Some mp') \<and>
           amap_rep next' (readKey keyField keySize) mp' S' \<and>
           (if \<exists>x \<in> S. readKey keyField keySize x = key then \<exists>x \<in> S. readKey keyField keySize x = key \<and> S' = S - {x} else S' = S)"
proof (cases "hbits mp = 0")
  case True
  then have "S = {}" "ncclIntruAddressMapRemove_untyped keyField next (Some mp) keySize key = Some (ncclSuccess, next, Some mp)"
    using assms by (simp_all add: ncclIntruAddressMapRemove_untyped_def amap_rep_def)
  then show ?thesis using assms(1) by simp
next
  case False
  let ?k = "readKey keyField keySize"
  have c: "count mp = int (card S)" "finite S" "hbits mp < 30" using assms(1) by (simp_all add: amap_rep_def)
  obtain B where B: "bucket_rep next ?k (hbits mp) (table mp) B" "contents (hbits mp) B = S"
    using assms(1) False by (auto simp: amap_rep_def)
  have hb: "hbits mp \<le> 64" using B(1) by (simp add: bucket_rep_def)
  define b where "b = unat (ncclHashPointer (hbits mp) key)"
  have b: "b < 2 ^ hbits mp" unfolding b_def by (rule hash_bound [OF hb])
  note p = bucket_repD(1) [OF B(1) b]
  have S: "x \<in> S \<Longrightarrow> ?k x = key \<Longrightarrow> x \<in> set (B b)" for x
    using contents_hash [OF B(1) hb, of x] by (simp add: B(2) b_def)
  have BS: "set (B b) \<subseteq> S" using b B(2) by (auto simp: contents_def)
  define as ds where ad: "as = takeWhile (\<lambda>x. \<not> ?k x = key) (B b)" "ds = dropWhile (\<lambda>x. \<not> ?k x = key) (B b)"
  have w: "walk (\<lambda>obj. ?k obj = key) next 0 (table mp ! b) = Some (last (0 # as), case ds of [] \<Rightarrow> 0 | y # _ \<Rightarrow> y)"
    using walk_path [OF p, of "\<lambda>obj. ?k obj = key" 0] by (simp add: ad)
  show ?thesis
  proof (cases ds)
    case Nil
    then have "\<not> (\<exists>x \<in> S. ?k x = key)" using S by (auto simp: ad dropWhile_eq_Nil_conv)
    moreover have "ncclIntruAddressMapRemove_untyped keyField next (Some mp) keySize key = Some (ncclSuccess, next, Some mp)"
      unfolding ncclIntruAddressMapRemove_untyped_def using assms(2,3) False w Nil by (simp add: b_def [symmetric])
    ultimately show ?thesis using assms(1) by auto
  next
    case (Cons y ys)
    then have y: "?k y = key" by (simp add: ad dropWhile_eq_Cons_conv)
    have Bb: "B b = as @ y # ys" using Cons takeWhile_dropWhile_id [of _ "B b"] by (metis ad)
    then have "y \<in> S" "y \<noteq> 0" and as0: "last (0 # as) = 0 \<longleftrightarrow> as = []" using BS path_nonnull [OF p] last_nonnull [of as] by auto
    note pop = bucket_pop [OF B(1) b Bb, unfolded B(2)]
    define n' where "n' = (if as = [] then next else next(last as := next y))"
    define mp1 where "mp1 = mp\<lparr>table := (if as = [] then (table mp)[b := next y] else table mp), count := count mp - 1\<rparr>"
    define mp' where "mp' = (if count mp1 = 0 then \<lparr>hbits = 0, count = 0, table = []\<rparr> else mp1)"
    have "ncclIntruAddressMapRemove_untyped keyField next (Some mp) keySize key = Some (ncclSuccess, n', Some mp')"
      unfolding ncclIntruAddressMapRemove_untyped_def using assms(2,3) False w Cons \<open>y \<noteq> 0\<close> as0
      by (cases "as = []") (simp_all add: b_def [symmetric] n'_def mp1_def mp'_def Let_def)
    moreover have "amap_rep n' ?k mp' (S - {y})"
    proof (cases "count mp1 = 0")
      case True
      then have "card (S - {y}) = 0" using c \<open>y \<in> S\<close> by (simp add: mp1_def)
      then have e: "S - {y} = {}" using c(2) by (metis card_0_eq finite_Diff)
      show ?thesis unfolding e using True by (simp add: amap_rep_def mp'_def)
    next
      case ne: False
      have "0 < card S" using c(2) \<open>y \<in> S\<close> by (auto simp: card_gt_0_iff)
      then have "count mp1 = int (card (S - {y}))"
        using c \<open>y \<in> S\<close> by (simp add: mp1_def of_nat_diff)
      moreover have e: "hbits mp' = hbits mp" "count mp' = count mp1" "table mp' = (if as = [] then (table mp)[b := next y] else table mp)"
        using ne by (simp_all add: mp'_def mp1_def)
      moreover have "bucket_rep n' ?k (hbits mp) (if as = [] then (table mp)[b := next y] else table mp) (B(b := as @ ys))"
        unfolding n'_def by (rule pop(1))
      ultimately show ?thesis unfolding amap_rep_def e if_not_P [OF False] using pop(2) c(2,3) by (intro conjI exI) simp_all
    qed
    ultimately show ?thesis using y \<open>y \<in> S\<close> by auto
  qed
qed

section \<open>The contract of a map\<close>

text \<open>What the users of the map rely on: objects with pairwise different keys are found under their keys until they
are removed.\<close>

datatype 'k map_op = Insert nat | Remove 'k

fun spec_op :: "(nat \<Rightarrow> 'k) \<Rightarrow> 'k map_op \<Rightarrow> ('k \<rightharpoonup> nat) \<Rightarrow> ('k \<rightharpoonup> nat)" where
  "spec_op keyOf (Insert x) m = m(keyOf x \<mapsto> x)"
| "spec_op keyOf (Remove k) m = m(k := None)"

fun map_ops_ok :: "(nat \<Rightarrow> 'k) \<Rightarrow> 'k map_op list \<Rightarrow> ('k \<rightharpoonup> nat) \<Rightarrow> bool" where
  "map_ops_ok keyOf [] m = True"
| "map_ops_ok keyOf (Insert x # ops) m = (x \<noteq> 0 \<and> m (keyOf x) = None \<and> map_ops_ok keyOf ops (m(keyOf x \<mapsto> x)))"
| "map_ops_ok keyOf (Remove k # ops) m = map_ops_ok keyOf ops (m(k := None))"

text \<open>A run stops at the first call that does not return or whose result is an error.\<close>

fun run_map :: "('s \<Rightarrow> nat \<Rightarrow> (ncclResult \<times> 's) option) \<Rightarrow> ('s \<Rightarrow> 'k \<Rightarrow> (ncclResult \<times> 's) option) \<Rightarrow> 'k map_op list \<Rightarrow> 's \<Rightarrow> 's option" where
  "run_map ins rem [] s = Some s"
| "run_map ins rem (Insert x # ops) s =
     (case ins s x of None \<Rightarrow> None | Some (r, s) \<Rightarrow> if r = ncclSuccess then run_map ins rem ops s else None)"
| "run_map ins rem (Remove k # ops) s =
     (case rem s k of None \<Rightarrow> None | Some (r, s) \<Rightarrow> if r = ncclSuccess then run_map ins rem ops s else None)"

locale object_map =
  fixes rep :: "'s \<Rightarrow> nat set \<Rightarrow> bool" and keyOf :: "nat \<Rightarrow> 'k" and room :: nat
    and ins :: "'s \<Rightarrow> nat \<Rightarrow> (ncclResult \<times> 's) option" and find :: "'s \<Rightarrow> 'k \<Rightarrow> (ncclResult \<times> nat option) option"
    and rem :: "'s \<Rightarrow> 'k \<Rightarrow> (ncclResult \<times> 's) option"
  assumes rep_finite: "rep s S \<Longrightarrow> finite S"
    and ins_rep: "rep s S \<Longrightarrow> x \<noteq> 0 \<Longrightarrow> x \<notin> S \<Longrightarrow> card S < room \<Longrightarrow> \<exists>s'. ins s x = Some (ncclSuccess, s') \<and> rep s' (insert x S)"
    and find_none: "rep s S \<Longrightarrow> \<forall>x \<in> S. keyOf x \<noteq> k \<Longrightarrow> find s k = Some (ncclSuccess, Some 0)"
    and find_some: "rep s S \<Longrightarrow> \<exists>x \<in> S. keyOf x = k \<Longrightarrow> \<exists>x \<in> S. find s k = Some (ncclSuccess, Some x) \<and> keyOf x = k"
    and rem_rep: "rep s S \<Longrightarrow> inj_on keyOf S \<Longrightarrow> \<exists>s'. rem s k = Some (ncclSuccess, s') \<and> rep s' {x \<in> S. keyOf x \<noteq> k}"
begin

definition represents :: "'s \<Rightarrow> ('k \<rightharpoonup> nat) \<Rightarrow> bool" where
  "represents s m \<longleftrightarrow> rep s (ran m) \<and> (\<forall>k x. m k = Some x \<longrightarrow> keyOf x = k)"

lemma find_represents:
  assumes "represents s m"
  shows "find s k = Some (ncclSuccess, Some (case m k of None \<Rightarrow> 0 | Some x \<Rightarrow> x))"
proof (cases "m k")
  case None
  then have "\<forall>x \<in> ran m. keyOf x \<noteq> k" using assms by (auto simp: represents_def ran_def)
  then show ?thesis using assms None find_none [of s "ran m" k] by (simp add: represents_def)
next
  case (Some x)
  then have "\<exists>x \<in> ran m. keyOf x = k" using assms by (auto simp: represents_def intro: ranI)
  then obtain y where "find s k = Some (ncclSuccess, Some y)" "y \<in> ran m" "keyOf y = k"
    using find_some [of s "ran m" k] assms by (auto simp: represents_def)
  then show ?thesis using assms Some by (auto simp: represents_def ran_def)
qed

lemma represents_insert:
  assumes "represents s m" "x \<noteq> 0" "m (keyOf x) = None" "card (ran m) < room"
  shows "\<exists>s'. ins s x = Some (ncclSuccess, s') \<and> represents s' (m(keyOf x \<mapsto> x))"
proof -
  have "x \<notin> ran m" using assms(1,3) by (auto simp: represents_def ran_def)
  then obtain s' where "ins s x = Some (ncclSuccess, s')" "rep s' (insert x (ran m))"
    using ins_rep [of s "ran m" x] assms by (auto simp: represents_def)
  moreover have "ran (m(keyOf x \<mapsto> x)) = insert x (ran m)" using assms(3) by (rule ran_map_upd)
  ultimately show ?thesis using assms(1) by (auto simp: represents_def)
qed

lemma represents_remove:
  assumes "represents s m"
  shows "\<exists>s'. rem s k = Some (ncclSuccess, s') \<and> represents s' (m(k := None))"
proof -
  have r: "rep s (ran m)" and k: "\<And>k x. m k = Some x \<Longrightarrow> keyOf x = k" using assms by (simp_all add: represents_def)
  have "inj_on keyOf (ran m)"
  proof (rule inj_onI)
    fix x y assume xy: "x \<in> ran m" "y \<in> ran m" "keyOf x = keyOf y"
    then obtain i j where "m i = Some x" "m j = Some y" by (auto simp: ran_def)
    then show "x = y" using k [of i x] k [of j y] xy(3) by simp
  qed
  then obtain s' where "rem s k = Some (ncclSuccess, s')" "rep s' {x \<in> ran m. keyOf x \<noteq> k}" using rem_rep [OF r] by blast
  moreover have "ran (m(k := None)) = {x \<in> ran m. keyOf x \<noteq> k}" using k by (auto simp: ran_def split: if_splits)
  ultimately show ?thesis using k by (auto simp: represents_def split: if_splits)
qed

lemma map_run:
  assumes "represents s m" "map_ops_ok keyOf ops m" "card (ran m) + length ops \<le> room"
  shows "\<exists>s'. run_map ins rem ops s = Some s' \<and> represents s' (fold (spec_op keyOf) ops m)"
  using assms
proof (induction ops arbitrary: s m)
  case (Cons a ops)
  have fin: "finite (ran m)" using Cons.prems(1) rep_finite by (auto simp: represents_def)
  show ?case
  proof (cases a)
    case (Insert x)
    have "card (ran (m(keyOf x \<mapsto> x))) \<le> Suc (card (ran m))"
      using Cons.prems(2) Insert fin by (simp add: ran_map_upd card_insert_if)
    then have "card (ran (m(keyOf x \<mapsto> x))) + length ops \<le> room" using Cons.prems(3) by simp
    moreover obtain s1 where "ins s x = Some (ncclSuccess, s1)" "represents s1 (m(keyOf x \<mapsto> x))"
      using represents_insert [OF Cons.prems(1), of x] Cons.prems(2,3) Insert by auto
    moreover have "map_ops_ok keyOf ops (m(keyOf x \<mapsto> x))" using Cons.prems(2) Insert by simp
    ultimately show ?thesis using Cons.IH [of s1] Insert by simp
  next
    case (Remove k)
    have "card (ran (m(k := None))) \<le> card (ran m)" using fin by (intro card_mono) (auto simp: ran_def split: if_splits)
    then have "card (ran (m(k := None))) + length ops \<le> room" using Cons.prems(3) by simp
    moreover obtain s1 where "rem s k = Some (ncclSuccess, s1)" "represents s1 (m(k := None))"
      using represents_remove [OF Cons.prems(1), of k] by auto
    moreover have "map_ops_ok keyOf ops (m(k := None))" using Cons.prems(2) Remove by simp
    ultimately show ?thesis using Cons.IH [of s1] Remove by simp
  qed
qed simp

end

text \<open>The operations of the map as a client calls them, with memory available: the result code, the links and the map.\<close>

definition amap_insert :: "(nat \<Rightarrow> u64) \<Rightarrow> int \<Rightarrow> links \<times> ncclIntruAddressMap \<Rightarrow> nat \<Rightarrow> (ncclResult \<times> links \<times> ncclIntruAddressMap) option" where
  "amap_insert kf ks s x =
     (case ncclIntruAddressMapInsert_untyped True True kf (fst s) (Some (snd s)) ks (readKey kf ks x) x of
        Some (r, next, Some mp) \<Rightarrow> Some (r, next, mp) | _ \<Rightarrow> None)"

definition amap_find :: "(nat \<Rightarrow> u64) \<Rightarrow> int \<Rightarrow> links \<times> ncclIntruAddressMap \<Rightarrow> u64 \<Rightarrow> (ncclResult \<times> nat option) option" where
  "amap_find kf ks s k = ncclIntruAddressMapFind_untyped kf (fst s) (Some (snd s)) ks k True"

definition amap_remove :: "(nat \<Rightarrow> u64) \<Rightarrow> int \<Rightarrow> links \<times> ncclIntruAddressMap \<Rightarrow> u64 \<Rightarrow> (ncclResult \<times> links \<times> ncclIntruAddressMap) option" where
  "amap_remove kf ks s k =
     (case ncclIntruAddressMapRemove_untyped kf (fst s) (Some (snd s)) ks k of
        Some (r, next, Some mp) \<Rightarrow> Some (r, next, mp) | _ \<Rightarrow> None)"

text \<open>The contract holds for every size of keys from one to eight bytes.\<close>

interpretation amap: object_map "\<lambda>s. amap_rep (fst s) (readKey kf (int (Suc (n mod 8)))) (snd s)" "readKey kf (int (Suc (n mod 8)))"
  "2 ^ 30" "amap_insert kf (int (Suc (n mod 8)))" "amap_find kf (int (Suc (n mod 8)))" "amap_remove kf (int (Suc (n mod 8)))"
  for kf n
proof unfold_locales
  let ?ks = "int (Suc (n mod 8))"
  have ks: "0 < ?ks" "?ks \<le> 8" by (simp, linarith)
  fix s :: "links \<times> ncclIntruAddressMap" and S k x
  assume r: "amap_rep (fst s) (readKey kf ?ks) (snd s) S"
  show "finite S" using r by (simp add: amap_rep_def)
  show "\<exists>s'. amap_insert kf ?ks s x = Some (ncclSuccess, s') \<and> amap_rep (fst s') (readKey kf ?ks) (snd s') (insert x S)"
    if "x \<noteq> 0" "x \<notin> S" "card S < 2 ^ 30"
    using insert_rep [OF r ks that(1,2) refl that(3)] by (auto simp: amap_insert_def)
  show "amap_find kf ?ks s k = Some (ncclSuccess, Some 0)" if "\<forall>x \<in> S. readKey kf ?ks x \<noteq> k"
    using find_rep [OF r ks, of k] that by (auto simp: amap_find_def)
  show "\<exists>x \<in> S. amap_find kf ?ks s k = Some (ncclSuccess, Some x) \<and> readKey kf ?ks x = k" if "\<exists>x \<in> S. readKey kf ?ks x = k"
    using find_rep [OF r ks, of k] that by (auto simp: amap_find_def)
  show "\<exists>s'. amap_remove kf ?ks s k = Some (ncclSuccess, s') \<and> amap_rep (fst s') (readKey kf ?ks) (snd s') {x \<in> S. readKey kf ?ks x \<noteq> k}"
    if inj: "inj_on (readKey kf ?ks) S"
  proof -
    obtain n' mp' S' where rm: "ncclIntruAddressMapRemove_untyped kf (fst s) (Some (snd s)) ?ks k = Some (ncclSuccess, n', Some mp')"
        "amap_rep n' (readKey kf ?ks) mp' S'"
        "if \<exists>x \<in> S. readKey kf ?ks x = k then \<exists>x \<in> S. readKey kf ?ks x = k \<and> S' = S - {x} else S' = S"
      using remove_rep [OF r ks, of k] by blast
    have "S' = {x \<in> S. readKey kf ?ks x \<noteq> k}" using rm(3) inj by (auto simp: inj_on_def split: if_splits)
    then show ?thesis using rm(1,2) by (simp add: amap_remove_def)
  qed
qed

lemma amap_represents_empty: "amap.represents kf n (next, \<lparr>hbits = 0, count = 0, table = []\<rparr>) Map.empty"
  unfolding amap.represents_def by (simp add: amap_rep_def)

text \<open>C31: the intrusive address map is a map.  From the zero-initialised state, with memory available, every insertion of an
object under a new key and every removal of a sequence of at most \<open>2 ^ 30\<close> of them returns success, with growth and disposal
of the table as the code does it.  Afterwards a search under any key returns, with success, the object a
mathematical map holds, and null if it holds none.\<close>

theorem addressMap_refines_map:
  assumes "0 < keySize" "keySize \<le> 8" "map_ops_ok (readKey keyField keySize) ops Map.empty" "length ops \<le> 2 ^ 30"
  shows "\<exists>next' mp. run_map (amap_insert keyField keySize) (amap_remove keyField keySize) ops (next, \<lparr>hbits = 0, count = 0, table = []\<rparr>) = Some (next', mp) \<and>
           (\<forall>k. ncclIntruAddressMapFind_untyped keyField next' (Some mp) keySize k True =
              Some (ncclSuccess, Some (case fold (spec_op (readKey keyField keySize)) ops Map.empty k of None \<Rightarrow> 0 | Some x \<Rightarrow> x)))"
proof -
  have ks: "keySize = int (Suc ((nat keySize - 1) mod 8))" using assms(1,2) by simp
  obtain s where "run_map (amap_insert keyField keySize) (amap_remove keyField keySize) ops (next, \<lparr>hbits = 0, count = 0, table = []\<rparr>) = Some s"
      "amap.represents keyField (nat keySize - 1) s (fold (spec_op (readKey keyField keySize)) ops Map.empty)"
    using amap.map_run [OF amap_represents_empty [of keyField "nat keySize - 1" "next"], of ops] assms(3,4)
    unfolding ks [symmetric] by auto
  moreover from amap.find_represents [OF this(2)] have
      "ncclIntruAddressMapFind_untyped keyField (fst s) (Some (snd s)) keySize k True =
       Some (ncclSuccess, Some (case fold (spec_op (readKey keyField keySize)) ops Map.empty k of None \<Rightarrow> 0 | Some x \<Rightarrow> x))" for k
    unfolding ks [symmetric] amap_find_def .
  ultimately show ?thesis by (cases s) auto
qed

theorem addressMap_refines_map_witness:
  "\<exists>next mp. run_map (amap_insert (\<lambda>x. of_nat (x mod 16)) 8) (amap_remove (\<lambda>x. of_nat (x mod 16)) 8)
     [Insert 16, Insert 33, Remove 0, Insert 48] (\<lambda>_. 0, \<lparr>hbits = 0, count = 0, table = []\<rparr>) = Some (next, mp) \<and>
     ncclIntruAddressMapFind_untyped (\<lambda>x. of_nat (x mod 16)) next (Some mp) 8 0 True = Some (ncclSuccess, Some 48) \<and>
     ncclIntruAddressMapFind_untyped (\<lambda>x. of_nat (x mod 16)) next (Some mp) 8 7 True = Some (ncclSuccess, Some 0)"
proof -
  let ?kf = "\<lambda>x. of_nat (x mod 16) :: u64"
  have k: "readKey ?kf 8 = ?kf" by (rule ext) (simp add: readKey_def take_bit_word_eq_self)
  have ok: "map_ops_ok (readKey ?kf 8) [Insert 16, Insert 33, Remove 0, Insert 48] Map.empty" unfolding k by simp
  show ?thesis
    using addressMap_refines_map [OF _ _ ok, of "\<lambda>_. 0"] unfolding k by fastforce
qed

end
