(* ===== verification/Host_Strings.thy ===== *)
theory Host_Strings
  imports Nccl_Prelude
begin

unbundle bit_operations_syntax

text \<open>
  The strings of the host: PCI bus identifiers, the interface lists that select network devices,
  and the printing of bit sets, of \<^verbatim>\<open>src/src/misc/utils.cc\<close>. A C string is the
  list of its characters before the terminating zero; reading the terminator is reaching the end
  of the list.
\<close>

section \<open>Bus identifiers\<close>

definition hexDigit :: "nat \<Rightarrow> char" where
  "hexDigit d = char_of (if d < 10 then 48 + d else 87 + d)"

fun hexDigits :: "nat \<Rightarrow> string" where
  "hexDigits n = (if n < 16 then [hexDigit n] else hexDigits (n div 16) @ [hexDigit (n mod 16)])"

declare hexDigits.simps [simp del]

text \<open>The conversion \<^verbatim>\<open>%0wlx\<close> of \<^verbatim>\<open>sprintf\<close>.\<close>

definition printHex :: "nat \<Rightarrow> nat \<Rightarrow> string" where
  "printHex w n = replicate (w - length (hexDigits n)) (CHR ''0'') @ hexDigits n"

text \<open>
  The identifier is a signed 64 bit number: \<^verbatim>\<open>id >> 20\<close> copies the sign bit, and its
  conversion to \<^verbatim>\<open>unsigned long\<close> keeps the pattern.
\<close>

definition int64ToBusId :: "u64 \<Rightarrow> string" where
  "int64ToBusId ident =
     printHex 4 (unat (signed_drop_bit 20 ident)) @ '':'' @
     printHex 2 (unat (drop_bit 12 (ident AND 0xff000))) @ '':'' @
     printHex 2 (unat (drop_bit 4 (ident AND 0xff0))) @ ''.'' @
     printHex 1 (unat (ident AND 0xf))"

definition isHexDigit :: "char \<Rightarrow> bool" where
  "isHexDigit c =
     (let v = of_char c :: nat
      in 48 \<le> v \<and> v \<le> 57 \<or> 65 \<le> v \<and> v \<le> 70 \<or> 97 \<le> v \<and> v \<le> 102)"

definition hexValue :: "char \<Rightarrow> nat" where
  "hexValue c =
     (let v = of_char c :: nat
      in if v \<le> 57 then v - 48 else if v \<le> 70 then v - 55 else v - 87)"

text \<open>
  The loop of \<^verbatim>\<open>busIdToInt64\<close>: it ends when sixteen digits have been stored, or at the
  first character that is neither a digit nor a separator.
\<close>

fun collectHex :: "nat \<Rightarrow> string \<Rightarrow> string" where
  "collectHex hexOffset [] = []"
| "collectHex hexOffset (c # cs) =
     (if \<not> hexOffset < 16 then []
      else if c = CHR ''.'' \<or> c = CHR '':'' then collectHex hexOffset cs
      else if isHexDigit c then c # collectHex (hexOffset + 1) cs
      else [])"

definition hexNumber :: "string \<Rightarrow> nat" where
  "hexNumber = foldl (\<lambda>v c. v * 16 + hexValue c) 0"

text \<open>\<^verbatim>\<open>strtol\<close> in base 16 on a string of digits saturates at the largest long.\<close>

definition hexToLong :: "string \<Rightarrow> u64" where
  "hexToLong hexStr =
     word_of_nat (min (hexNumber hexStr) (2 ^ 63 - 1))"

definition busIdToInt64 :: "string \<Rightarrow> u64" where
  "busIdToInt64 busId = hexToLong (collectHex 0 busId)"

text \<open>
  \<^verbatim>\<open>pciPathToInt64\<close> drops one trailing slash and reads the last component of the path. A
  path without a slash before its last component runs past the start of the string, an undefined
  access that is the result None.
\<close>

definition pciPathToInt64 :: "string \<Rightarrow> u64 option" where
  "pciPathToInt64 path =
     (let p = (if path \<noteq> [] \<and> last path = CHR ''/'' then butlast path else path);
          component = rev (takeWhile (\<lambda>c. c \<noteq> CHR ''/'') (rev p))
      in if path = [] \<or> CHR ''/'' \<notin> set p then None
         else Some (busIdToInt64 (component @ drop (length p) path)))"

lemma hexNumber_simps [simp]:
  shows "hexNumber [] = 0" and "hexNumber (cs @ [c]) = hexNumber cs * 16 + hexValue c"
  by (simp_all add: hexNumber_def)

lemma hexNumber_append:
  "hexNumber (as @ bs) = hexNumber as * 16 ^ length bs + hexNumber bs"
proof (induction bs rule: rev_induct)
  case (snoc b bs)
  have "hexNumber ((as @ bs) @ [b]) = hexNumber (as @ bs) * 16 + hexValue b"
    by (rule hexNumber_simps)
  also have "\<dots> = hexNumber as * 16 ^ length (bs @ [b]) + hexNumber (bs @ [b])"
    by (simp add: snoc.IH algebra_simps)
  finally show ?case
    by simp
qed simp

lemma of_char_hexDigit:
  "d < 16 \<Longrightarrow> of_char (hexDigit d) = (if d < 10 then 48 + d else 87 + d :: nat)"
  by (simp add: hexDigit_def)

lemma hexDigit_props:
  assumes "d < 16"
  shows "isHexDigit (hexDigit d)" and "hexValue (hexDigit d) = d"
    and "hexDigit d \<noteq> CHR ''.''" and "hexDigit d \<noteq> CHR '':''"
proof -
  show "isHexDigit (hexDigit d)" and "hexValue (hexDigit d) = d"
    using assms unfolding isHexDigit_def hexValue_def of_char_hexDigit [OF assms] Let_def
    by (auto split: if_splits)
  have "of_char (hexDigit d) \<noteq> (46::nat)" and "of_char (hexDigit d) \<noteq> (58::nat)"
    unfolding of_char_hexDigit [OF assms] by auto
  moreover have "of_char CHR ''.'' = (46::nat)" and "of_char CHR '':'' = (58::nat)"
    by simp_all
  ultimately show "hexDigit d \<noteq> CHR ''.''" and "hexDigit d \<noteq> CHR '':''"
    by metis+
qed

lemma hexNumber_single [simp]: "hexNumber [c] = hexValue c"
  by (simp add: hexNumber_def)

lemma hexDigits_value: "hexNumber (hexDigits n) = n"
proof (induction n rule: hexDigits.induct)
  case (1 n)
  show ?case
  proof (cases "n < 16")
    case True
    then show ?thesis
      by (simp add: hexDigits.simps [of n] hexDigit_props)
  next
    case False
    then show ?thesis
      using 1 by (simp add: hexDigits.simps [of n] hexDigit_props)
  qed
qed

lemma hexDigits_length:
  "0 < k \<Longrightarrow> length (hexDigits n) \<le> k \<longleftrightarrow> n < 16 ^ k"
proof (induction n arbitrary: k rule: hexDigits.induct)
  case (1 n)
  show ?case
  proof (cases "n < 16")
    case True
    then have "n < 16 ^ k"
      using 1(2) by (cases k) (auto intro: less_le_trans [of _ "16 * 1"])
    then show ?thesis
      using True 1(2) by (simp add: hexDigits.simps [of n] Suc_leI)
  next
    case False
    show ?thesis
    proof (cases "k = 1")
      case True
      then show ?thesis
        using False by (simp add: hexDigits.simps [of n] hexDigits.simps [of "n div 16"])
    next
      case k: False
      then obtain j where j: "k = Suc j" "0 < j"
        using 1(2) by (cases k) auto
      have "length (hexDigits n) \<le> k \<longleftrightarrow> n div 16 < 16 ^ j"
        using 1(1) [OF False j(2)] False j(1) by (simp add: hexDigits.simps [of n])
      then show ?thesis
        using j(1) by (simp add: div_less_iff_less_mult mult.commute)
    qed
  qed
qed

definition plainHex :: "char \<Rightarrow> bool" where
  "plainHex c \<longleftrightarrow> isHexDigit c \<and> c \<noteq> CHR ''.'' \<and> c \<noteq> CHR '':''"

lemma plainHex_hexDigit: "d < 16 \<Longrightarrow> plainHex (hexDigit d)"
  by (simp add: plainHex_def hexDigit_props)

lemma plainHex_0: "plainHex (CHR ''0'')"
  by (simp add: plainHex_def isHexDigit_def)

lemma hexDigits_all: "list_all plainHex (hexDigits n)"
proof (induction n rule: hexDigits.induct)
  case (1 n)
  then show ?case
    by (cases "n < 16") (simp_all add: hexDigits.simps [of n] plainHex_hexDigit)
qed

lemma printHex_all: "list_all plainHex (printHex w n)"
  using hexDigits_all [of n] plainHex_0 by (auto simp: printHex_def list_all_iff)

lemma foldl_hex_zeros:
  "hexNumber (replicate k (CHR ''0'') @ cs) = hexNumber cs"
  by (induction k) (simp_all add: hexNumber_def hexValue_def)

lemma printHex_value:
  "hexNumber (printHex w n) = n"
  by (simp add: printHex_def foldl_hex_zeros hexDigits_value)

lemma printHex_length:
  assumes "0 < w" and "n < 16 ^ w"
  shows "length (printHex w n) = w"
  using assms hexDigits_length [of w n] by (simp add: printHex_def)

lemma collectHex_digits:
  assumes "list_all plainHex ds"
    and "k + length ds \<le> 16"
  shows "collectHex k (ds @ rest) = ds @ collectHex (k + length ds) rest"
  using assms by (induction ds arbitrary: k) (simp_all add: plainHex_def)

lemma collectHex_full:
  assumes "list_all plainHex ds"
    and "k + length ds = 16"
  shows "collectHex k (ds @ rest) = ds"
proof -
  have "collectHex 16 rest = []"
    by (cases rest) simp_all
  then show ?thesis
    using collectHex_digits [OF assms(1), of k rest] assms(2) by simp
qed

lemma collectHex_sep:
  "collectHex k (CHR ''.'' # cs) = (if k < 16 then collectHex k cs else [])"
  "collectHex k (CHR '':'' # cs) = (if k < 16 then collectHex k cs else [])"
  by simp_all

lemma busId_digits:
  assumes "a < 16 ^ 11" and "b < 256" and "c < 256" and "d < 16"
  shows "collectHex 0 (printHex 4 a @ '':'' @ printHex 2 b @ '':'' @ printHex 2 c @ ''.'' @
           printHex 1 d) = printHex 4 a @ printHex 2 b @ printHex 2 c @ printHex 1 d"
proof -
  have "length (printHex 4 a) \<le> 11"
    using hexDigits_length [of 11 a] assms(1) by (simp add: printHex_def)
  moreover have "length (printHex 2 b) = 2" "length (printHex 2 c) = 2" "length (printHex 1 d) = 1"
    using assms by (simp_all add: printHex_length)
  ultimately show ?thesis
    using collectHex_digits [OF printHex_all [of 1 d], of "Suc (Suc (Suc (Suc (length (printHex 4 a)))))" "[]"]
    by (simp add: collectHex_digits [OF printHex_all] del: collectHex.simps(2)
        add: collectHex_sep)
qed

lemma busId_number:
  assumes "b < 256" and "c < 256" and "d < 16"
  shows "hexNumber (printHex 4 a @ printHex 2 b @ printHex 2 c @ printHex 1 d) =
           a * 2 ^ 20 + b * 2 ^ 12 + c * 2 ^ 4 + d"
  using assms by (simp add: hexNumber_append printHex_value printHex_length)

lemma unat_and_field:
  fixes x :: u64
  shows "unat (x AND 0xff000) = unat x div 2 ^ 12 mod 256 * 2 ^ 12"
    and "unat (x AND 0xff0) = unat x div 2 ^ 4 mod 256 * 2 ^ 4"
    and "unat (x AND 0xf) = unat x mod 16"
proof -
  have eq: "0xff000 = push_bit 12 (mask 8 :: nat)" "0xff0 = push_bit 4 (mask 8 :: nat)"
    "0xf = (mask 4 :: nat)"
    by (simp_all add: mask_eq_exp_minus_1 push_bit_eq_mult)
  have field: "n AND push_bit k (mask 8) = n div 2 ^ k mod 256 * 2 ^ k" for n k :: nat
    unfolding push_bit_eq_mult [symmetric] drop_bit_eq_div [symmetric]
    by (rule bit_eqI) (auto simp: bit_simps take_bit_eq_mod [of 8, simplified, symmetric])
  show "unat (x AND 0xff000) = unat x div 2 ^ 12 mod 256 * 2 ^ 12"
    using field [of "unat x" 12] unfolding eq [symmetric] by (simp add: unsigned_and_eq)
  show "unat (x AND 0xff0) = unat x div 2 ^ 4 mod 256 * 2 ^ 4"
    using field [of "unat x" 4] unfolding eq [symmetric] by (simp add: unsigned_and_eq)
  show "unat (x AND 0xf) = unat x mod 16"
    using take_bit_eq_mask [of 4 "unat x"] unfolding eq [symmetric]
    by (simp add: unsigned_and_eq take_bit_eq_mod)
qed

lemma unat_of_sint:
  fixes x :: u64
  shows "0 \<le> sint x \<Longrightarrow> int (unat x) = sint x \<and> unat x < 2 ^ 63"
    and "sint x < 0 \<Longrightarrow> int (unat x) = sint x + 2 ^ 64"
proof -
  have u: "int (unat x) = sint x mod 2 ^ 64"
    by (simp add: uint_sint take_bit_eq_mod)
  have r: "- (2 ^ 63) \<le> sint x" "sint x < 2 ^ 63"
    using sint_ge [of x] sint_lt [of x] by simp_all
  show "int (unat x) = sint x \<and> unat x < 2 ^ 63" if "0 \<le> sint x"
  proof -
    have "sint x mod 2 ^ 64 = sint x"
      using that r(2) by (intro mod_pos_pos_trivial) auto
    then have "int (unat x) = sint x"
      using u by metis
    moreover have "int (unat x) < int (2 ^ 63)"
      using r(2) calculation by simp
    ultimately show ?thesis
      using of_nat_less_iff by blast
  qed
  show "int (unat x) = sint x + 2 ^ 64" if "sint x < 0"
  proof -
    have "(sint x + 2 ^ 64) mod 2 ^ 64 = sint x + 2 ^ 64"
      using that r(1) by (intro mod_pos_pos_trivial) auto
    then show ?thesis
      using u by (metis mod_add_self2)
  qed
qed

lemma unat_signed_drop_bit:
  fixes x :: u64
  shows "0 \<le> sint x \<Longrightarrow> unat (signed_drop_bit 20 x) = unat x div 2 ^ 20"
    and "sint x < 0 \<Longrightarrow> 2 ^ 63 \<le> unat (signed_drop_bit 20 x)"
proof -
  have s: "sint (signed_drop_bit 20 x) = sint x div 2 ^ 20"
    by (simp add: sint_signed_drop_bit_eq drop_bit_eq_div)
  have pos: "(0::int) < 2 ^ 20"
    by simp
  show "unat (signed_drop_bit 20 x) = unat x div 2 ^ 20" if x: "0 \<le> sint x"
  proof -
    have "0 \<le> sint (signed_drop_bit 20 x)"
      unfolding s using x pos_imp_zdiv_nonneg_iff [OF pos] by blast
    then have "int (unat (signed_drop_bit 20 x)) = int (unat x) div int (2 ^ 20)"
      using unat_of_sint(1) s x by simp
    then show ?thesis
      unfolding zdiv_int [symmetric] of_nat_eq_iff .
  qed
  show "2 ^ 63 \<le> unat (signed_drop_bit 20 x)" if x: "sint x < 0"
  proof -
    have "sint (signed_drop_bit 20 x) < 0"
      unfolding s using x pos_imp_zdiv_neg_iff [OF pos] by blast
    moreover have "- (2 ^ 63) \<le> sint (signed_drop_bit 20 x)"
      using sint_ge [of "signed_drop_bit 20 x"] by simp
    ultimately have "int (2 ^ 63) \<le> int (unat (signed_drop_bit 20 x))"
      using unat_of_sint(2) [of "signed_drop_bit 20 x"] by simp
    then show ?thesis
      unfolding of_nat_le_iff .
  qed
qed

lemma busId_fields:
  fixes n :: nat
  shows "n div 2 ^ 20 * 2 ^ 20 + n div 2 ^ 12 mod 256 * 2 ^ 12 + n div 2 ^ 4 mod 256 * 2 ^ 4
      + n mod 16 = n"
proof -
  define a where "a = n div 16"
  define b where "b = a div 256"
  have eq: "n div 2 ^ 20 = b div 256" "n div 2 ^ 12 = b" "n div 2 ^ 4 = a"
    by (simp_all add: a_def b_def flip: div_mult2_eq)
  define q r where "q = b div 256" and "r = b mod 256"
  have "b = q * 256 + r" "a = b * 256 + a mod 256" "n = a * 16 + n mod 16"
    unfolding a_def b_def q_def r_def by simp_all
  then show ?thesis
    unfolding eq q_def [symmetric] r_def [symmetric] by simp
qed

lemma busId_nonneg:
  assumes "0 \<le> sint ident"
  shows "busIdToInt64 (int64ToBusId ident) = ident"
proof -
  define n where "n = unat ident"
  have n: "n < 2 ^ 63"
    using unat_of_sint(1) [OF assms] by (simp add: n_def)
  have fields: "unat (drop_bit 12 (ident AND 0xff000)) = n div 2 ^ 12 mod 256"
    "unat (drop_bit 4 (ident AND 0xff0)) = n div 2 ^ 4 mod 256" "unat (ident AND 0xf) = n mod 16"
    "unat (signed_drop_bit 20 ident) = n div 2 ^ 20"
    using unat_signed_drop_bit(1) [OF assms]
    by (simp_all only: unat_drop_bit unat_and_field n_def) simp_all
  have top: "n div 2 ^ 20 < 16 ^ 11"
    using n by (simp add: div_less_iff_less_mult)
  have "n div 2 ^ 20 * 2 ^ 20 + n div 2 ^ 12 mod 256 * 2 ^ 12 + n div 2 ^ 4 mod 256 * 2 ^ 4
      + n mod 16 = n"
    by (rule busId_fields)
  then have "collectHex 0 (int64ToBusId ident) =
      printHex 4 (n div 2 ^ 20) @ printHex 2 (n div 2 ^ 12 mod 256) @
      printHex 2 (n div 2 ^ 4 mod 256) @ printHex 1 (n mod 16)"
    and "hexNumber (printHex 4 (n div 2 ^ 20) @ printHex 2 (n div 2 ^ 12 mod 256) @
      printHex 2 (n div 2 ^ 4 mod 256) @ printHex 1 (n mod 16)) = n"
    using busId_digits [OF top, of "n div 2 ^ 12 mod 256" "n div 2 ^ 4 mod 256" "n mod 16"]
      busId_number [of "n div 2 ^ 12 mod 256" "n div 2 ^ 4 mod 256" "n mod 16" "n div 2 ^ 20"]
    by (simp_all only: int64ToBusId_def fields mod_less_divisor zero_less_numeral)
  then show ?thesis
    using n by (simp add: busIdToInt64_def hexToLong_def n_def)
qed

lemma busId_negative:
  assumes "sint ident < 0"
  shows "busIdToInt64 (int64ToBusId ident) = 2 ^ 63 - 1"
proof -
  define m where "m = unat (signed_drop_bit 20 ident)"
  have m: "2 ^ 63 \<le> m" "m < 16 ^ 16"
    using unat_signed_drop_bit(2) [OF assms] unsigned_less [of "signed_drop_bit 20 ident"]
    by (simp_all add: m_def)
  have "\<not> length (hexDigits m) \<le> 15" and "length (hexDigits m) \<le> 16"
    using m hexDigits_length [of 15 m] hexDigits_length [of 16 m] by simp_all
  then have "length (printHex 4 m) = 16"
    by (simp add: printHex_def)
  then have "collectHex 0 (int64ToBusId ident) = printHex 4 m"
    unfolding int64ToBusId_def m_def [symmetric] by (intro collectHex_full printHex_all) simp
  then have "busIdToInt64 (int64ToBusId ident) = word_of_nat (min m (2 ^ 63 - 1))"
    by (simp only: busIdToInt64_def hexToLong_def printHex_value)
  also have "min m (2 ^ 63 - 1) = 2 ^ 63 - 1"
    using m(1) by simp
  finally show ?thesis
    by simp
qed

text \<open>
  Reading back the printed form of an identifier gives the identifier exactly when it is not
  negative; every negative one is read as the largest long, because its sixteen leading digits
  fill the buffer.
\<close>

theorem busId_roundtrip:
  "busIdToInt64 (int64ToBusId ident) = (if sint ident < 0 then 2 ^ 63 - 1 else ident)"
  by (simp add: busId_negative busId_nonneg)

section \<open>Interface lists\<close>

text \<open>\<^verbatim>\<open>struct netIf\<close>: the port is an int, rail and plane are 16 bit.\<close>

record netIf =
  ifPrefix :: string
  ifPort :: u32
  ifRail :: "16 word"
  ifPlane :: "16 word"

text \<open>
  \<^verbatim>\<open>atoi\<close> skips white space, takes an optional sign and the digits that follow,
  saturates as \<^verbatim>\<open>strtol\<close> does and keeps the low 32 bits.
\<close>

definition isSpace :: "char \<Rightarrow> bool" where
  "isSpace c = (let v = of_char c :: nat in v = 32 \<or> 9 \<le> v \<and> v \<le> 13)"

definition isDigit :: "char \<Rightarrow> bool" where
  "isDigit c = (let v = of_char c :: nat in 48 \<le> v \<and> v \<le> 57)"

definition atoi :: "string \<Rightarrow> u32" where
  "atoi s =
     (let t = dropWhile isSpace s;
          negative = (t \<noteq> [] \<and> hd t = CHR ''-'');
          u = (if t \<noteq> [] \<and> (hd t = CHR ''-'' \<or> hd t = CHR ''+'') then tl t else t);
          v = foldl (\<lambda>a c. a * 10 + (of_char c - 48)) (0::int) (takeWhile isDigit u)
      in word_of_int (max (- (2 ^ 63)) (min (2 ^ 63 - 1) (if negative then - v else v))))"

text \<open>
  \<^verbatim>\<open>strtok_r\<close> with the delimiter comma: leading commas are skipped, the token ends before
  the next comma, which is consumed.
\<close>

definition strtok :: "string \<Rightarrow> (string \<times> string) option" where
  "strtok str =
     (let t = dropWhile (\<lambda>c. c = CHR '','') str
      in if t = [] then None
         else Some (takeWhile (\<lambda>c. c \<noteq> CHR '','') t, drop 1 (dropWhile (\<lambda>c. c \<noteq> CHR '','') t)))"

text \<open>\<^verbatim>\<open>ncclOsStrSep\<close> with the delimiter colon; empty tokens are kept.\<close>

definition ncclOsStrSep :: "string option \<Rightarrow> string option \<times> string option" where
  "ncclOsStrSep stringp =
     (case stringp of
        None \<Rightarrow> (None, None)
      | Some s \<Rightarrow>
          (Some (takeWhile (\<lambda>c. c \<noteq> CHR '':'') s),
           if CHR '':'' \<in> set s then Some (drop 1 (dropWhile (\<lambda>c. c \<noteq> CHR '':'') s)) else None))"

definition numberOr :: "string option \<Rightarrow> u32" where
  "numberOr tok = (case tok of Some s \<Rightarrow> (if s \<noteq> [] then atoi s else - 1) | None \<Rightarrow> - 1)"

text \<open>The body of the loop of \<^verbatim>\<open>parseStringList\<close> on one entry.\<close>

definition parseEntry :: "string \<Rightarrow> netIf option" where
  "parseEntry entry =
     (let (tok, c1) = ncclOsStrSep (Some entry)
      in if tok \<noteq> None \<and> the tok \<noteq> []
         then let (tok1, c2) = ncclOsStrSep c1;
                  (tok2, c3) = ncclOsStrSep c2;
                  (tok3, c4) = ncclOsStrSep c3
              in Some \<lparr>ifPrefix = take 63 (the tok), ifPort = numberOr tok1,
                       ifRail = ucast (numberOr tok2), ifPlane = ucast (numberOr tok3)\<rparr>
         else None)"

lemma strtok_shorter:
  assumes "strtok str = Some (entry, rest)"
  shows "length rest < length str"
proof -
  define t where "t = dropWhile (\<lambda>c. c = CHR '','') str"
  have "t \<noteq> []" and "rest = drop 1 (dropWhile (\<lambda>c. c \<noteq> CHR '','') t)"
    using assms unfolding strtok_def t_def [symmetric] Let_def by (simp_all split: if_splits)
  then have "length rest < length t"
    using length_dropWhile_le [of "\<lambda>c. c \<noteq> CHR '',''" t] by (cases t) auto
  then show ?thesis
    using length_dropWhile_le [of "\<lambda>c. c = CHR '',''" str] unfolding t_def by linarith
qed

function parseLoop :: "nat \<Rightarrow> string \<Rightarrow> netIf list \<Rightarrow> netIf list" where
  "parseLoop maxList save ifList =
     (case strtok save of
        None \<Rightarrow> ifList
      | Some (entry, rest) \<Rightarrow>
          if length ifList < maxList
          then parseLoop maxList rest
                 (ifList @ (case parseEntry entry of Some e \<Rightarrow> [e] | None \<Rightarrow> []))
          else ifList)"
  by auto
termination
  by (relation "measure (\<lambda>(m, save, l). length save)") (auto dest: strtok_shorter)

declare parseLoop.simps [simp del]

definition parseStringList :: "string option \<Rightarrow> nat \<Rightarrow> netIf list" where
  "parseStringList str maxList =
     (case str of None \<Rightarrow> [] | Some s \<Rightarrow> parseLoop maxList s [])"

text \<open>Equality under \<^verbatim>\<open>strncmp\<close>: at most n characters, stopping at a terminator.\<close>

fun strncmpEq :: "nat \<Rightarrow> string \<Rightarrow> string \<Rightarrow> bool" where
  "strncmpEq 0 s r = True"
| "strncmpEq (Suc n) [] [] = True"
| "strncmpEq (Suc n) [] (d # ds) = False"
| "strncmpEq (Suc n) (c # cs) [] = False"
| "strncmpEq (Suc n) (c # cs) (d # ds) = (c = d \<and> strncmpEq n cs ds)"

definition matchIf :: "string \<Rightarrow> string \<Rightarrow> bool \<Rightarrow> bool" where
  "matchIf str ref matchExact =
     strncmpEq (if matchExact then length str + 1 else length ref) str ref"

definition matchPort :: "u32 \<Rightarrow> u32 \<Rightarrow> bool" where
  "matchPort port1 port2 =
     (if port1 = - 1 then True else if port2 = - 1 then True else port1 = port2)"

fun matchFrom :: "nat \<Rightarrow> string \<Rightarrow> u32 \<Rightarrow> netIf list \<Rightarrow> bool \<Rightarrow> bool \<times> int" where
  "matchFrom i str port [] matchExact = (False, - 1)"
| "matchFrom i str port (e # es) matchExact =
     (if matchIf str (ifPrefix e) matchExact \<and> matchPort port (ifPort e) then (True, int i)
      else matchFrom (i + 1) str port es matchExact)"

text \<open>The result and the index stored through \<^verbatim>\<open>ifId\<close>.\<close>

definition matchIfList :: "string \<Rightarrow> u32 \<Rightarrow> netIf list \<Rightarrow> bool \<Rightarrow> bool \<times> int" where
  "matchIfList str port ifList matchExact =
     (if ifList = [] then (True, - 1) else matchFrom 0 str port ifList matchExact)"

text \<open>
  The reference reading of a list: the entries are the parts between commas, the fields of an
  entry the parts between colons; an entry with an empty name is dropped.
\<close>

fun splitOn :: "char \<Rightarrow> string \<Rightarrow> string list" where
  "splitOn d [] = [[]]"
| "splitOn d (c # cs) =
     (if c = d then [] # splitOn d cs
      else (c # hd (splitOn d cs)) # tl (splitOn d cs))"

definition entryField :: "nat \<Rightarrow> string list \<Rightarrow> u32" where
  "entryField i fs = (if i < length fs \<and> fs ! i \<noteq> [] then atoi (fs ! i) else - 1)"

definition entrySpec :: "string \<Rightarrow> netIf option" where
  "entrySpec entry =
     (let fs = splitOn (CHR '':'') entry
      in if hd fs = [] then None
         else Some \<lparr>ifPrefix = take 63 (hd fs), ifPort = entryField 1 fs,
                    ifRail = ucast (entryField 2 fs), ifPlane = ucast (entryField 3 fs)\<rparr>)"

definition ifListSpec :: "nat \<Rightarrow> string \<Rightarrow> netIf list" where
  "ifListSpec maxList str = take maxList (List.map_filter entrySpec (splitOn (CHR '','') str))"

definition ifSelects :: "string \<Rightarrow> u32 \<Rightarrow> bool \<Rightarrow> netIf \<Rightarrow> bool" where
  "ifSelects str port matchExact e \<longleftrightarrow>
     (if matchExact then str = ifPrefix e else take (length (ifPrefix e)) str = ifPrefix e) \<and>
     (port = - 1 \<or> ifPort e = - 1 \<or> port = ifPort e)"

lemma splitOn_step:
  "splitOn d s = takeWhile (\<lambda>c. c \<noteq> d) s #
     (if d \<in> set s then splitOn d (drop 1 (dropWhile (\<lambda>c. c \<noteq> d) s)) else [])"
  by (induction s) auto

text \<open>The text left for the next field, and the fields still to be read from it.\<close>

definition sepFields :: "string option \<Rightarrow> string list" where
  "sepFields c = (case c of None \<Rightarrow> [] | Some s \<Rightarrow> splitOn (CHR '':'') s)"

lemma ncclOsStrSep_fields:
  "ncclOsStrSep c = (tok, c') \<Longrightarrow>
     tok = (if sepFields c = [] then None else Some (hd (sepFields c))) \<and>
     sepFields c' = tl (sepFields c)"
proof (cases c)
  case (Some s)
  assume *: "ncclOsStrSep c = (tok, c')"
  show ?thesis
  proof (cases "CHR '':'' \<in> set s")
    case True
    then show ?thesis
      using * Some splitOn_step [of "CHR '':''" s] by (auto simp: sepFields_def ncclOsStrSep_def)
  next
    case False
    then show ?thesis
      using * Some splitOn_step [of "CHR '':''" s] by (auto simp: sepFields_def ncclOsStrSep_def)
  qed
qed (auto simp: sepFields_def ncclOsStrSep_def)

lemma numberOr_field:
  "numberOr (if drop i fs = [] then None else Some (hd (drop i fs))) = entryField i fs"
  by (auto simp: numberOr_def entryField_def hd_drop_conv_nth)

lemma parseEntry_spec: "parseEntry entry = entrySpec entry"
proof -
  define fs where "fs = splitOn (CHR '':'') entry"
  have ne: "fs \<noteq> []"
    unfolding fs_def by (subst splitOn_step) simp
  obtain tok c1 tok1 c2 tok2 c3 tok3 c4 where sep:
    "ncclOsStrSep (Some entry) = (tok, c1)" "ncclOsStrSep c1 = (tok1, c2)"
    "ncclOsStrSep c2 = (tok2, c3)" "ncclOsStrSep c3 = (tok3, c4)"
    by (metis surj_pair)
  have "sepFields (Some entry) = fs"
    by (simp add: sepFields_def fs_def)
  then have "tok = Some (hd fs)" "sepFields c1 = drop 1 fs" "sepFields c2 = drop 2 fs"
    "sepFields c3 = drop 3 fs"
    using sep [THEN ncclOsStrSep_fields] ne by (simp_all add: drop_Suc numeral_eq_Suc tl_drop)
  moreover have "tok1 = (if sepFields c1 = [] then None else Some (hd (sepFields c1)))"
    "tok2 = (if sepFields c2 = [] then None else Some (hd (sepFields c2)))"
    "tok3 = (if sepFields c3 = [] then None else Some (hd (sepFields c3)))"
    using sep [THEN ncclOsStrSep_fields] by blast+
  ultimately have "tok = Some (hd fs)" "numberOr tok1 = entryField 1 fs"
    "numberOr tok2 = entryField 2 fs" "numberOr tok3 = entryField 3 fs"
    by (simp_all only: numberOr_field)
  then show ?thesis
    by (simp add: parseEntry_def entrySpec_def sep Let_def fs_def [symmetric])
qed

lemma map_filter_entries_step:
  "List.map_filter parseEntry (splitOn (CHR '','') s) =
     (case parseEntry (takeWhile (\<lambda>c. c \<noteq> CHR '','') s) of Some e \<Rightarrow> [e] | None \<Rightarrow> []) @
     List.map_filter parseEntry (splitOn (CHR '','') (drop 1 (dropWhile (\<lambda>c. c \<noteq> CHR '','') s)))"
proof -
  have "parseEntry [] = None"
    by (simp add: parseEntry_def ncclOsStrSep_def)
  then have empty: "List.map_filter parseEntry (splitOn (CHR '','') []) = []"
    by (simp add: List.map_filter_def)
  show ?thesis
  proof (cases "CHR '','' \<in> set s")
    case True
    then show ?thesis
      using splitOn_step [of "CHR '',''" s]
      by (simp add: List.map_filter_simps split: option.splits)
  next
    case False
    then have d: "dropWhile (\<lambda>c. c \<noteq> CHR '','') s = []"
      and one: "splitOn (CHR '','') s = [takeWhile (\<lambda>c. c \<noteq> CHR '','') s]"
      using splitOn_step [of "CHR '',''" s] by (auto simp: dropWhile_eq_Nil_conv)
    show ?thesis
      unfolding d one using empty by (simp add: List.map_filter_simps split: option.splits)
  qed
qed

lemma map_filter_entries_skip:
  "List.map_filter parseEntry (splitOn (CHR '','') (dropWhile (\<lambda>c. c = CHR '','') s)) =
   List.map_filter parseEntry (splitOn (CHR '','') s)"
proof (induction s)
  case (Cons c s)
  have "parseEntry [] = None"
    by (simp add: parseEntry_def ncclOsStrSep_def)
  then show ?case
    using Cons by (simp add: List.map_filter_def)
qed simp

lemma strtok_entries:
  "List.map_filter parseEntry (splitOn (CHR '','') s) =
     (case strtok s of
        None \<Rightarrow> []
      | Some (entry, rest) \<Rightarrow>
          (case parseEntry entry of Some e \<Rightarrow> [e] | None \<Rightarrow> []) @
          List.map_filter parseEntry (splitOn (CHR '','') rest))"
proof -
  define t where "t = dropWhile (\<lambda>c. c = CHR '','') s"
  have eq: "List.map_filter parseEntry (splitOn (CHR '','') s) =
      List.map_filter parseEntry (splitOn (CHR '','') t)"
    unfolding t_def by (rule map_filter_entries_skip [symmetric])
  show ?thesis
  proof (cases "t = []")
    case True
    then show ?thesis
      using eq by (simp add: strtok_def t_def [symmetric] List.map_filter_def parseEntry_def
          ncclOsStrSep_def)
  next
    case False
    then show ?thesis
      using eq map_filter_entries_step [of t] by (simp add: strtok_def t_def [symmetric])
  qed
qed

lemma parseLoop_entries:
  "length acc \<le> m \<Longrightarrow>
   parseLoop m s acc =
     acc @ take (m - length acc) (List.map_filter parseEntry (splitOn (CHR '','') s))"
proof (induction m s acc rule: parseLoop.induct)
  case (1 m s acc)
  show ?case
  proof (cases "strtok s")
    case None
    then show ?thesis
      using strtok_entries [of s] by (simp add: parseLoop.simps [of m s])
  next
    case (Some er)
    obtain entry rest where er: "er = (entry, rest)"
      by (cases er)
    show ?thesis
    proof (cases "length acc < m")
      case True
      show ?thesis
        using 1(1) [OF Some er [symmetric] True] True Some er strtok_entries [of s]
        by (cases "parseEntry entry") (auto simp: parseLoop.simps [of m s] take_Cons' Suc_diff_Suc)
    next
      case False
      then show ?thesis
        using 1(2) Some er by (simp add: parseLoop.simps [of m s])
    qed
  qed
qed

lemma parseStringList_spec: "parseStringList (Some s) m = ifListSpec m s"
proof -
  have "parseEntry = entrySpec"
    by (rule ext) (rule parseEntry_spec)
  then show ?thesis
    by (simp add: parseStringList_def ifListSpec_def parseLoop_entries)
qed

lemma strncmpEq_iff:
  "strncmpEq n s r \<longleftrightarrow> take n s = take n r"
  by (induction n s r rule: strncmpEq.induct) auto

lemma matchIf_iff:
  "matchIf str ref matchExact \<longleftrightarrow>
     (if matchExact then str = ref else take (length ref) str = ref)"
proof -
  have "take (length str + 1) ref = str \<longleftrightarrow> str = ref"
    by (metis Suc_eq_plus1 Suc_n_not_le_n length_take min.absorb_iff2 min_def nat_le_linear take_all)
  then show ?thesis
    by (auto simp: matchIf_def strncmpEq_iff)
qed

lemma matchFrom_first:
  "matchFrom i str port es matchExact =
     (if \<exists>e \<in> set es. ifSelects str port matchExact e
      then (True, int (i + length (takeWhile (\<lambda>e. \<not> ifSelects str port matchExact e) es)))
      else (False, - 1))"
  by (induction es arbitrary: i)
    (auto simp: ifSelects_def matchIf_iff matchPort_def)

text \<open>
  C36: A user's interface list selects devices as documented. The list that is read has the first
  maxList entries with a name, fields that are absent or empty being -1; a device is accepted when
  the list is empty or some entry matches its name (equal to it, or a prefix of it) and its port,
  and the index reported is that of the first such entry.
\<close>

theorem interface_list_selects:
  "matchIfList str port (parseStringList (Some s) m) matchExact =
     (let es = ifListSpec m s; sel = ifSelects str port matchExact
      in if es = [] then (True, - 1)
         else if \<exists>e \<in> set es. sel e then (True, int (length (takeWhile (\<lambda>e. \<not> sel e) es)))
         else (False, - 1))"
  by (simp add: parseStringList_spec matchIfList_def matchFrom_first Let_def)

section \<open>Printing a bit set\<close>

text \<open>
  \<^verbatim>\<open>snprintf(buf + pos, size, "%s", str)\<close>. The memory is indexed from the start of the
  buffer and continues behind it, so that a write past the end is visible.
\<close>

definition snprintfAt :: "(nat \<Rightarrow> char) \<Rightarrow> nat \<Rightarrow> u64 \<Rightarrow> string \<Rightarrow> (nat \<Rightarrow> char)" where
  "snprintfAt mem pos sz str =
     (if sz = 0 then mem
      else let n = min (length str) (unat sz - 1)
           in (\<lambda>i. if pos \<le> i \<and> i < pos + n then str ! (i - pos)
                   else if i = pos + n then CHR 0x00 else mem i))"

text \<open>
  The loop over the bits; \<^verbatim>\<open>bufLen - pos\<close> is computed in \<^verbatim>\<open>size_t\<close>.
\<close>

function bitsLoop ::
    "(int \<Rightarrow> string) \<Rightarrow> u64 \<Rightarrow> int \<Rightarrow> u32 \<Rightarrow> nat \<Rightarrow> (nat \<Rightarrow> char) \<Rightarrow> (nat \<Rightarrow> char)" where
  "bitsLoop toStr bufLen i bits pos mem =
     (if bits = 0 then mem
      else if bits AND 1 \<noteq> 0
      then let (pos1, mem1) =
                 (if pos > 0
                  then (pos + 1, snprintfAt mem pos (bufLen - word_of_nat pos) ''|'')
                  else (pos, mem))
           in bitsLoop toStr bufLen (i + 1) (drop_bit 1 bits) (pos1 + length (toStr i))
                (snprintfAt mem1 pos1 (bufLen - word_of_nat pos1) (toStr i))
      else bitsLoop toStr bufLen (i + 1) (drop_bit 1 bits) pos mem)"
  by auto
termination
  by (relation "measure (\<lambda>(t, l, i, bits, p, m). unat bits)")
    (auto simp: unat_drop_bit unat_gt_0 split: if_splits)

declare bitsLoop.simps [simp del]

definition ncclBitsToString ::
    "u32 \<Rightarrow> u32 \<Rightarrow> (int \<Rightarrow> string) \<Rightarrow> (nat \<Rightarrow> char) option \<Rightarrow> u64 \<Rightarrow> string option \<Rightarrow> (nat \<Rightarrow> char) nccl" where
  "ncclBitsToString bits bitMask toStr buf bufLen wildcard =
     (case buf of
        None \<Rightarrow> Inl ncclInvalidArgument
      | Some mem \<Rightarrow>
          if bufLen = 0 then Inl ncclInvalidArgument
          else let bits' = bits AND bitMask
               in case wildcard of
                    Some w \<Rightarrow>
                      if bits' = bitMask then Inr (snprintfAt mem 0 bufLen w)
                      else Inr (bitsLoop toStr bufLen 0 bits' 0 mem)
                  | None \<Rightarrow> Inr (bitsLoop toStr bufLen 0 bits' 0 mem))"

text \<open>The string the routine is meant to leave in the buffer.\<close>

definition joinName :: "string \<Rightarrow> string \<Rightarrow> string" where
  "joinName acc name = (if acc = [] then name else acc @ ''|'' @ name)"

definition joinFrom :: "(int \<Rightarrow> string) \<Rightarrow> int \<Rightarrow> u32 \<Rightarrow> string \<Rightarrow> string" where
  "joinFrom toStr i bits acc =
     foldl joinName acc (map (\<lambda>k. toStr (i + int k)) (filter (bit bits) [0..<32]))"

definition holdsString :: "(nat \<Rightarrow> char) \<Rightarrow> string \<Rightarrow> bool" where
  "holdsString mem str \<longleftrightarrow> (\<forall>k < length str. mem k = str ! k) \<and> mem (length str) = CHR 0x00"

lemma snprintfAt_fits:
  assumes "length pre + length str < unat bufLen" and "\<forall>k < length pre. mem k = pre ! k"
  shows "holdsString (snprintfAt mem (length pre) (bufLen - word_of_nat (length pre)) str) (pre @ str)"
    and "length pre + length str < k \<Longrightarrow>
         snprintfAt mem (length pre) (bufLen - word_of_nat (length pre)) str k = mem k"
proof -
  have "unat bufLen < 2 ^ 64"
    by (rule order.strict_trans2 [OF unsigned_less]) simp
  then have "unat (word_of_nat (length pre) :: u64) = length pre"
    using assms(1) by (simp add: unat_of_nat)
  then have room: "unat (bufLen - word_of_nat (length pre)) = unat bufLen - length pre"
    using assms(1) by (simp add: unat_sub word_le_nat_alt)
  then have "bufLen - word_of_nat (length pre) \<noteq> 0"
    using assms(1) by (metis add_lessD1 unsigned_0 zero_less_diff less_irrefl)
  then have eq: "snprintfAt mem (length pre) (bufLen - word_of_nat (length pre)) str =
      (\<lambda>i. if length pre \<le> i \<and> i < length pre + length str then str ! (i - length pre)
           else if i = length pre + length str then CHR 0x00 else mem i)"
    using assms(1) room by (simp add: snprintfAt_def Let_def min_absorb1)
  show "holdsString (snprintfAt mem (length pre) (bufLen - word_of_nat (length pre)) str) (pre @ str)"
    unfolding eq using assms(2) by (auto simp: holdsString_def nth_append)
  show "snprintfAt mem (length pre) (bufLen - word_of_nat (length pre)) str k = mem k"
    if "length pre + length str < k"
    unfolding eq using that by auto
qed

lemma filter_bits_step:
  fixes bits :: u32
  shows "filter (bit bits) [0..<32] =
    (if bits AND 1 \<noteq> 0 then [0] else []) @ map Suc (filter (bit (drop_bit 1 bits)) [0..<32])"
proof -
  have low: "bits AND 1 \<noteq> 0 \<longleftrightarrow> bit bits 0"
    by (simp add: and_one_eq bit_0 odd_iff_mod_2_eq_one)
  have "[0..<32] = 0 # map Suc [0..<31]"
    by (simp add: upt_conv_Cons map_Suc_upt)
  then have "filter (bit bits) [0..<32] =
      (if bit bits 0 then [0] else []) @ map Suc (filter (bit (drop_bit 1 bits)) [0..<31])"
    by (simp add: filter_map comp_def bit_drop_bit_eq)
  moreover have "[0..<32] = [0..<31] @ [31]" "\<not> bit (drop_bit 1 bits) 31"
    using bit_imp_le_length [of bits 32]
    by (auto simp: upt_Suc_append [symmetric] bit_drop_bit_eq)
  ultimately show ?thesis
    using low by simp
qed

lemma joinFrom_0: "joinFrom toStr i 0 acc = acc"
  by (simp add: joinFrom_def)

lemma joinFrom_step:
  "joinFrom toStr i bits acc =
   joinFrom toStr (i + 1) (drop_bit 1 bits) (if bits AND 1 \<noteq> 0 then joinName acc (toStr i) else acc)"
  unfolding joinFrom_def
  by (subst filter_bits_step) (simp add: comp_def add.assoc add.commute [of 1])

lemma joinFrom_length: "length acc \<le> length (joinFrom toStr i bits acc)"
proof -
  have "length acc \<le> length (foldl joinName acc ns)" for ns
  proof (induction ns arbitrary: acc)
    case (Cons n ns)
    have "length acc \<le> length (joinName acc n)"
      by (simp add: joinName_def)
    then show ?case
      using Cons [of "joinName acc n"] by simp
  qed simp
  then show ?thesis
    by (simp add: joinFrom_def)
qed

lemma bitsLoop_fits:
  assumes "length (joinFrom toStr i bits cur) < unat bufLen"
    and "\<forall>k < length cur. mem k = cur ! k"
    and "bits \<noteq> 0 \<or> holdsString mem cur"
  shows "holdsString (bitsLoop toStr bufLen i bits (length cur) mem) (joinFrom toStr i bits cur) \<and>
    (\<forall>k > length (joinFrom toStr i bits cur).
       bitsLoop toStr bufLen i bits (length cur) mem k = mem k)"
  using assms
proof (induction "unat bits" arbitrary: bits i cur mem rule: less_induct)
  case less
  show ?case
  proof (cases "bits = 0")
    case True
    then show ?thesis
      using less.prems by (simp add: bitsLoop.simps [of _ _ _ 0] joinFrom_0)
  next
    case False
    let ?b = "drop_bit 1 bits"
    have dec: "unat ?b < unat bits"
      using False by (simp add: unat_drop_bit unat_gt_0)
    show ?thesis
    proof (cases "bits AND 1 = 0")
      case True
      have "?b \<noteq> 0"
      proof
        assume "?b = 0"
        then have "unat bits div 2 = 0"
          using unat_drop_bit [of 1 bits] by simp
        then have "unat bits = 1"
          using False unat_gt_0 [of bits] by simp
        then show False
          using True by (metis and.idem unat_1 word_unat_eq_iff zero_neq_one)
      qed
      then show ?thesis
        using less.hyps [OF dec, of "i + 1" cur mem] less.prems True False joinFrom_step [of toStr i bits cur]
        by (simp add: bitsLoop.simps [of _ _ _ bits])
    next
      case odd: False
      define pre where "pre = (if cur = [] then [] else cur @ ''|'')"
      define mem1 where "mem1 = (if length cur > 0 then
        snprintfAt mem (length cur) (bufLen - word_of_nat (length cur)) ''|'' else mem)"
      define mem2 where "mem2 = snprintfAt mem1 (length pre) (bufLen - word_of_nat (length pre)) (toStr i)"
      have join: "joinFrom toStr i bits cur = joinFrom toStr (i + 1) ?b (pre @ toStr i)"
        using joinFrom_step [of toStr i bits cur] odd by (simp add: pre_def joinName_def)
      then have len: "length (pre @ toStr i) < unat bufLen"
        using less.prems(1) joinFrom_length [of "pre @ toStr i" toStr "i + 1" ?b] by simp
      have pre1: "\<forall>k < length pre. mem1 k = pre ! k" and out1: "\<forall>k > length pre. mem1 k = mem k"
        using snprintfAt_fits [of cur "''|''" bufLen mem] len less.prems(2)
        by (auto simp: pre_def mem1_def holdsString_def)
      have step: "bitsLoop toStr bufLen i bits (length cur) mem =
          bitsLoop toStr bufLen (i + 1) ?b (length (pre @ toStr i)) mem2"
        using False odd by (simp add: bitsLoop.simps [of _ _ _ bits] mem2_def mem1_def pre_def)
      have mem2: "holdsString mem2 (pre @ toStr i)" "\<forall>k > length (pre @ toStr i). mem2 k = mem k"
        using snprintfAt_fits [of pre "toStr i" bufLen mem1] len pre1 out1 by (auto simp: mem2_def)
      then show ?thesis
        using less.hyps [OF dec, of "i + 1" "pre @ toStr i" mem2] less.prems(1) join step
          joinFrom_length [of "pre @ toStr i" toStr "i + 1" ?b]
        by (simp add: holdsString_def)
    qed
  qed
qed

text \<open>
  Printing a set of bits is safe when the buffer has room for the joined names: the buffer
  holds the wildcard when every bit of a masked set is present, the names of the set bits joined by
  bars otherwise, and nothing behind the terminator changes. A null buffer or a buffer without
  room is refused.
\<close>

theorem ncclBitsToString_fits:
  assumes "bits AND bitMask \<noteq> 0"
    and "length (joinFrom toStr 0 (bits AND bitMask) []) < unat bufLen"
    and "length w < unat bufLen"
  shows "ncclBitsToString bits bitMask toStr None bufLen (Some w) = Inl ncclInvalidArgument \<and>
    ncclBitsToString bits bitMask toStr (Some mem) 0 (Some w) = Inl ncclInvalidArgument \<and>
    (\<exists>mem'. ncclBitsToString bits bitMask toStr (Some mem) bufLen (Some w) = Inr mem' \<and>
       holdsString mem' (if bits AND bitMask = bitMask then w
                         else joinFrom toStr 0 (bits AND bitMask) []) \<and>
       (\<forall>k. unat bufLen \<le> k \<longrightarrow> mem' k = mem k))"
proof -
  have "bufLen \<noteq> 0"
    using assms(3) by auto
  then show ?thesis
    using bitsLoop_fits [of toStr 0 "bits AND bitMask" "[]" bufLen mem] assms
      snprintfAt_fits [of "[]" w bufLen mem]
    by (auto simp: ncclBitsToString_def Let_def)
qed

theorem ncclBitsToString_fits_witness:
  "\<exists>mem'. ncclBitsToString 13 7 (\<lambda>i. if i = 0 then ''RING'' else ''TREE'')
     (Some (\<lambda>_. CHR ''x'')) 32 (Some ''*'') = Inr mem' \<and> holdsString mem' ''RING|TREE''"
proof -
  let ?toStr = "\<lambda>i::int. if i = 0 then ''RING'' else ''TREE''"
  have join: "joinFrom ?toStr 0 5 [] = ''RING|TREE''"
    by code_simp
  have "(13 AND 7 :: u32) = 5"
    by simp
  then show ?thesis
    using ncclBitsToString_fits [of 13 7 ?toStr 32 "''*''" "\<lambda>_. CHR ''x''"] join by auto
qed

text \<open>
  Without room the position passes the length of the buffer, \<^verbatim>\<open>bufLen - pos\<close> wraps to
  a huge size and the next name is written behind the buffer.
\<close>

lemma ncclBitsToString_overrun:
  "\<exists>mem'. ncclBitsToString 7 15 (\<lambda>i. ''abc'') (Some (\<lambda>_. CHR ''x'')) 4 (Some ''*'') = Inr mem' \<and>
     mem' 7 = CHR ''|''"
proof -
  have "ncclBitsToString 7 15 (\<lambda>i. ''abc'') (Some (\<lambda>_. CHR ''x'')) 4 (Some ''*'') =
      Inr (bitsLoop (\<lambda>i. ''abc'') 4 0 7 0 (\<lambda>_. CHR ''x''))"
    by (simp add: ncclBitsToString_def)
  moreover have "bitsLoop (\<lambda>i. ''abc'') 4 0 7 0 (\<lambda>_. CHR ''x'') 7 = CHR ''|''"
    by (simp add: bitsLoop.simps snprintfAt_def unsigned_minus_1_eq_mask)
  ultimately show ?thesis
    by blast
qed

end
