(* ===== verification/Intru_Queue.thy ===== *)
theory Intru_Queue
  imports Linked_Lists
begin

text \<open>
  The intrusive queue (\<^verbatim>\<open>ncclIntruQueue\<close> of \<^verbatim>\<open>src/src/include/utils.h\<close>): a linked list through a field of the
  queued objects, with its head, its tail and the number of its elements.  The store holds the link fields;
  every operation that writes links returns the new store.  A null pointer that is followed is \<open>None\<close>.
\<close>

section \<open>The operations\<close>

record ncclIntruQueue =
  head :: nat
  tail :: nat
  nElems :: int

definition ncclIntruQueueConstruct :: ncclIntruQueue where
  "ncclIntruQueueConstruct = \<lparr>head = 0, tail = 0, nElems = 0\<rparr>"

definition ncclIntruQueueEmpty :: "ncclIntruQueue \<Rightarrow> bool" where
  "ncclIntruQueueEmpty me \<longleftrightarrow> head me = 0"

definition ncclIntruQueueHead :: "ncclIntruQueue \<Rightarrow> nat" where
  "ncclIntruQueueHead me = head me"

definition ncclIntruQueueTail :: "ncclIntruQueue \<Rightarrow> nat" where
  "ncclIntruQueueTail me = tail me"

definition ncclIntruQueueEnqueue :: "links \<Rightarrow> ncclIntruQueue \<Rightarrow> nat \<Rightarrow> links \<times> ncclIntruQueue" where
  "ncclIntruQueueEnqueue next me x =
     (let next = next(x := 0);
          (next, me) = (if head me \<noteq> 0 then (next(tail me := x), me) else (next, me\<lparr>head := x\<rparr>));
          me = me\<lparr>tail := x\<rparr>
      in (next, me\<lparr>nElems := nElems me + 1\<rparr>))"

definition ncclIntruQueueEnqueueFront :: "links \<Rightarrow> ncclIntruQueue \<Rightarrow> nat \<Rightarrow> links \<times> ncclIntruQueue" where
  "ncclIntruQueueEnqueueFront next me x =
     (let me = (if head me = 0 then me\<lparr>tail := x\<rparr> else me);
          next = next(x := head me);
          me = me\<lparr>head := x\<rparr>
      in (next, me\<lparr>nElems := nElems me + 1\<rparr>))"

definition ncclIntruQueueInsertSorted ::
    "links \<Rightarrow> ncclIntruQueue \<Rightarrow> nat \<Rightarrow> (nat \<Rightarrow> nat \<Rightarrow> bool) \<Rightarrow> (links \<times> ncclIntruQueue) option" where
  "ncclIntruQueueInsertSorted next me x lt =
     (case walk (\<lambda>cur. \<not> lt cur x) next 0 (head me) of None \<Rightarrow> None
      | Some (prev, cur) \<Rightarrow>
          let next = next(x := cur);
              (next, me) = (if prev \<noteq> 0 then (next(prev := x), me) else (next, me\<lparr>head := x\<rparr>));
              me = (if cur = 0 then me\<lparr>tail := x\<rparr> else me)
          in Some (next, me\<lparr>nElems := nElems me + 1\<rparr>))"

definition ncclIntruQueueDeleteNext :: "links \<Rightarrow> ncclIntruQueue \<Rightarrow> nat \<Rightarrow> nat \<times> links \<times> ncclIntruQueue" where
  "ncclIntruQueueDeleteNext next me prev =
     (if prev = 0 \<or> next prev = 0 then (0, next, me)
      else let x = next prev;
               next = next(prev := next x);
               me = (if tail me = x then me\<lparr>tail := prev\<rparr> else me)
           in (x, next, me\<lparr>nElems := nElems me - 1\<rparr>))"

definition ncclIntruQueueDequeue :: "links \<Rightarrow> ncclIntruQueue \<Rightarrow> (nat \<times> ncclIntruQueue) option" where
  "ncclIntruQueueDequeue next me =
     (let ans = head me
      in if ans = 0 then None
         else let me = me\<lparr>head := next ans\<rparr>;
                  me = (if head me = 0 then me\<lparr>tail := 0\<rparr> else me)
              in Some (ans, me\<lparr>nElems := nElems me - 1\<rparr>))"

definition ncclIntruQueueDelete ::
    "links \<Rightarrow> ncclIntruQueue \<Rightarrow> nat \<Rightarrow> (nat \<Rightarrow> nat \<Rightarrow> bool) \<Rightarrow> (nat \<times> links \<times> ncclIntruQueue) option" where
  "ncclIntruQueueDelete next me x cmp =
     (case walk (\<lambda>cur. cmp cur x) next 0 (head me) of None \<Rightarrow> None
      | Some (prev, cur) \<Rightarrow>
          let found = cur \<noteq> 0
          in if found then
               let (next, me) = (if prev = 0 then (next, me\<lparr>head := next cur\<rparr>) else (next(prev := next cur), me));
                   me = (if cur = tail me then me\<lparr>tail := prev\<rparr> else me)
               in Some (cur, next, me\<lparr>nElems := nElems me - 1\<rparr>)
             else Some (cur, next, me))"

definition ncclIntruQueueTryDequeue :: "links \<Rightarrow> ncclIntruQueue \<Rightarrow> nat \<times> ncclIntruQueue" where
  "ncclIntruQueueTryDequeue next me =
     (let ans = head me
      in if ans \<noteq> 0 then
           let me = me\<lparr>head := next ans\<rparr>;
               me = (if head me = 0 then me\<lparr>tail := 0\<rparr> else me)
           in (ans, me\<lparr>nElems := nElems me - 1\<rparr>)
         else (ans, me))"

text \<open>
  The transfer writes the member called \<^verbatim>\<open>next\<close> of the last element, where the other operations go through the
  field the queue is declared with.  The first argument says whether that field is this member, as it is for
  every queue transferred; otherwise the write does not change the links of the queue.
\<close>

definition ncclIntruQueueTransfer ::
    "bool \<Rightarrow> links \<Rightarrow> ncclIntruQueue \<Rightarrow> ncclIntruQueue \<Rightarrow> links \<times> ncclIntruQueue \<times> ncclIntruQueue" where
  "ncclIntruQueueTransfer isNext next dst src =
     (let (next, dst) = (if tail dst \<noteq> 0 then (if isNext then next(tail dst := head src) else next, dst) else (next, dst\<lparr>head := head src\<rparr>));
          dst = (if tail src \<noteq> 0 then dst\<lparr>tail := tail src\<rparr> else dst);
          dst = dst\<lparr>nElems := nElems dst + nElems src\<rparr>
      in (next, dst, \<lparr>head = 0, tail = 0, nElems = 0\<rparr>))"

section \<open>Correctness on represented lists\<close>

definition queue_rep :: "links \<Rightarrow> ncclIntruQueue \<Rightarrow> nat list \<Rightarrow> bool" where
  "queue_rep next me xs \<longleftrightarrow> path next (head me) xs 0 \<and> tail me = (if xs = [] then 0 else last xs) \<and>
     nElems me = int (length xs)"

lemma queue_repD:
  assumes "queue_rep next me xs"
  shows "path next (head me) xs 0" "distinct xs" "0 \<notin> set xs" "head me = 0 \<longleftrightarrow> xs = []"
  using assms path_distinct path_nonnull path_start_iff by (auto simp: queue_rep_def)

lemma queue_construct: "queue_rep next ncclIntruQueueConstruct []"
  by (simp add: queue_rep_def ncclIntruQueueConstruct_def)

lemma queue_frame: "queue_rep next me xs \<Longrightarrow> a \<notin> set xs \<Longrightarrow> queue_rep (next(a := v)) me xs"
  by (simp add: queue_rep_def)

lemma queue_enqueue:
  assumes "queue_rep next me xs" "x \<notin> set xs" "x \<noteq> 0"
  shows "queue_rep (fst (ncclIntruQueueEnqueue next me x)) (snd (ncclIntruQueueEnqueue next me x)) (xs @ [x])"
proof (cases "xs = []")
  case True
  then show ?thesis using assms by (simp add: queue_rep_def ncclIntruQueueEnqueue_def Let_def)
next
  case False
  note q = queue_repD [OF assms(1)]
  have "path (next(x := 0, last xs := x)) (head me) xs x"
    using path_relink [of "next(x := 0)" "head me" xs 0 x] q False assms(2) by simp
  moreover have "last xs \<noteq> x" using False assms(2) last_in_set by metis
  ultimately show ?thesis using assms q False
    by (auto simp: queue_rep_def ncclIntruQueueEnqueue_def Let_def path_append)
qed

lemma queue_enqueueFront:
  assumes "queue_rep next me xs" "x \<notin> set xs" "x \<noteq> 0"
  shows "queue_rep (fst (ncclIntruQueueEnqueueFront next me x)) (snd (ncclIntruQueueEnqueueFront next me x)) (x # xs)"
  using assms queue_repD [OF assms(1)]
  by (auto simp: queue_rep_def ncclIntruQueueEnqueueFront_def Let_def)

lemma queue_tryDequeue:
  assumes "queue_rep next me xs"
  shows "fst (ncclIntruQueueTryDequeue next me) = (case xs of [] \<Rightarrow> 0 | x # _ \<Rightarrow> x) \<and>
         queue_rep next (snd (ncclIntruQueueTryDequeue next me)) (tl xs)"
proof (cases xs)
  case Nil
  then show ?thesis using assms by (simp add: queue_rep_def ncclIntruQueueTryDequeue_def Let_def)
next
  case (Cons x ys)
  then show ?thesis using assms path_start_iff [of "next" "next x" ys]
    by (auto simp: queue_rep_def ncclIntruQueueTryDequeue_def Let_def)
qed

lemma queue_dequeue:
  assumes "queue_rep next me xs"
  shows "ncclIntruQueueDequeue next me = (if xs = [] then None else Some (ncclIntruQueueTryDequeue next me))"
  using queue_repD(4) [OF assms] by (simp add: ncclIntruQueueDequeue_def ncclIntruQueueTryDequeue_def Let_def)

lemma queue_insert_at:
  assumes "queue_rep next me (as @ bs)" "x \<notin> set as \<union> set bs" "x \<noteq> 0"
    "prev = last (0 # as)" "cur = (case bs of [] \<Rightarrow> 0 | y # _ \<Rightarrow> y)"
  shows "queue_rep (if prev \<noteq> 0 then next(x := cur, prev := x) else next(x := cur))
           \<lparr>head = (if prev \<noteq> 0 then head me else x), tail = (if cur = 0 then x else tail me), nElems = nElems me + 1\<rparr>
           (as @ x # bs)"
proof -
  note q = queue_repD [OF assms(1)]
  have cur: "cur = 0 \<longleftrightarrow> bs = []" using q(3) assms(5) by (cases bs) auto
  have prev: "prev = 0 \<longleftrightarrow> as = []" using q(3) assms(4) last_nonnull [of as] by (cases "as = []") auto
  note ins = path_insert [OF q(1) assms(2,3,5)]
  show ?thesis using ins assms(1) cur prev assms(4)
    by (cases "as = []"; cases "bs = []") (auto simp: queue_rep_def)
qed

lemma queue_delete_at:
  assumes "queue_rep next me (as @ x # bs)" "prev = last (0 # as)"
  shows "queue_rep (if prev = 0 then next else next(prev := next x))
           \<lparr>head = (if prev = 0 then next x else head me), tail = (if x = tail me then prev else tail me), nElems = nElems me - 1\<rparr>
           (as @ bs)"
proof -
  note q = queue_repD [OF assms(1)]
  have prev: "prev = 0 \<longleftrightarrow> as = []" using q(3) assms(2) last_nonnull [of as] by (cases "as = []") auto
  have x: "x = tail me \<longleftrightarrow> bs = []"
    using assms(1) q(2) last_in_set [of bs] by (cases "bs = []") (auto simp: queue_rep_def)
  note rem = path_remove [OF q(1)]
  show ?thesis using rem assms(1) x prev assms(2)
    by (cases "as = []"; cases "bs = []") (auto simp: queue_rep_def)
qed

lemma queue_insertSorted:
  assumes "queue_rep next me xs" "x \<notin> set xs" "x \<noteq> 0"
  shows "\<exists>next' me'. ncclIntruQueueInsertSorted next me x lt = Some (next', me') \<and>
           queue_rep next' me' (takeWhile (\<lambda>y. lt y x) xs @ x # dropWhile (\<lambda>y. lt y x) xs)"
proof -
  define as bs where ab: "as = takeWhile (\<lambda>y. lt y x) xs" "bs = dropWhile (\<lambda>y. lt y x) xs"
  have xs: "xs = as @ bs" by (simp add: ab)
  have w: "walk (\<lambda>cur. \<not> lt cur x) next 0 (head me) = Some (last (0 # as), (case bs of [] \<Rightarrow> 0 | y # ys \<Rightarrow> y))"
    using walk_path [OF queue_repD(1) [OF assms(1)], of "\<lambda>cur. \<not> lt cur x" 0] by (simp add: ab)
  have "x \<notin> set as \<union> set bs" using assms(2) by (simp add: xs)
  moreover define prev cur where pc: "prev = last (0 # as)" "cur = (case bs of [] \<Rightarrow> 0 | y # ys \<Rightarrow> y)"
  ultimately have "queue_rep (if prev \<noteq> 0 then next(x := cur, prev := x) else next(x := cur))
           \<lparr>head = (if prev \<noteq> 0 then head me else x), tail = (if cur = 0 then x else tail me), nElems = nElems me + 1\<rparr>
           (as @ x # bs)"
    using queue_insert_at [OF assms(1) [unfolded xs] _ assms(3)] by blast
  then show ?thesis unfolding ncclIntruQueueInsertSorted_def w ab [symmetric] pc [symmetric]
    by (cases "prev = 0"; cases "cur = 0") (simp_all add: Let_def queue_rep_def)
qed

lemma queue_delete:
  assumes "queue_rep next me xs"
  shows "\<exists>next' me'. ncclIntruQueueDelete next me x cmp =
           Some (case dropWhile (\<lambda>y. \<not> cmp y x) xs of [] \<Rightarrow> 0 | y # _ \<Rightarrow> y, next', me') \<and>
           queue_rep next' me' (takeWhile (\<lambda>y. \<not> cmp y x) xs @ tl (dropWhile (\<lambda>y. \<not> cmp y x) xs))"
proof -
  define as bs where ab: "as = takeWhile (\<lambda>y. \<not> cmp y x) xs" "bs = dropWhile (\<lambda>y. \<not> cmp y x) xs"
  have xs: "xs = as @ bs" by (simp add: ab)
  have w: "walk (\<lambda>cur. cmp cur x) next 0 (head me) = Some (last (0 # as), (case bs of [] \<Rightarrow> 0 | y # ys \<Rightarrow> y))"
    using walk_path [OF queue_repD(1) [OF assms], of "\<lambda>cur. cmp cur x" 0] by (simp add: ab)
  show ?thesis
  proof (cases bs)
    case Nil
    then show ?thesis unfolding ncclIntruQueueDelete_def w ab [symmetric] using assms xs by (simp add: Let_def)
  next
    case (Cons c cs)
    have "c \<noteq> 0" using queue_repD(3) [OF assms] by (simp add: xs Cons)
    moreover define prev where pc: "prev = last (0 # as)"
    ultimately show ?thesis
      unfolding ncclIntruQueueDelete_def w ab [symmetric] pc [symmetric] Cons list.case list.sel
      using queue_delete_at [OF assms [unfolded xs Cons] pc]
      by (cases "prev = 0"; cases "c = tail me") (simp_all add: Let_def queue_rep_def)
  qed
qed

lemma queue_deleteNext:
  assumes "queue_rep next me (as @ prev # bs)"
  shows "\<exists>next' me'. ncclIntruQueueDeleteNext next me prev = (case bs of [] \<Rightarrow> 0 | x # _ \<Rightarrow> x, next', me') \<and>
           queue_rep next' me' (as @ prev # tl bs)"
proof -
  note q = queue_repD [OF assms]
  have n: "next prev = (case bs of [] \<Rightarrow> 0 | x # _ \<Rightarrow> x)" using path_split(2) [OF q(1)] by simp
  show ?thesis
  proof (cases bs)
    case Nil
    then show ?thesis using n assms by (simp add: ncclIntruQueueDeleteNext_def)
  next
    case (Cons c cs)
    then have "queue_rep next me ((as @ [prev]) @ c # cs)" using assms by simp
    from queue_delete_at [OF this refl] show ?thesis
      using n q(3) Cons by (auto simp: ncclIntruQueueDeleteNext_def Let_def queue_rep_def)
  qed
qed

lemma queue_transfer:
  assumes "queue_rep next dst xs" "queue_rep next src ys" "set xs \<inter> set ys = {}"
  shows "\<exists>next' dst' src'. ncclIntruQueueTransfer True next dst src = (next', dst', src') \<and>
           queue_rep next' dst' (xs @ ys) \<and> queue_rep next' src' []"
proof (cases "xs = []")
  case True
  then show ?thesis using assms queue_repD(3) [OF assms(2)] last_nonnull [of ys]
    by (auto simp: ncclIntruQueueTransfer_def Let_def queue_rep_def)
next
  case False
  note q = queue_repD [OF assms(1)]
  have l: "last xs \<notin> set ys" "last xs \<noteq> 0" using False assms(3) q(3) last_in_set [OF False] by (auto simp del: last_in_set)
  have "path (next(last xs := head src)) (head dst) xs (head src)" using path_relink [OF q(1,2) False] .
  then have "path (next(last xs := head src)) (head dst) (xs @ ys) 0"
    using l(1) assms(2) by (auto simp: path_append queue_rep_def)
  then show ?thesis using assms False l queue_repD(3) [OF assms(2)] last_nonnull [of ys]
    by (auto simp: ncclIntruQueueTransfer_def Let_def queue_rep_def)
qed

section \<open>First in, first out\<close>

text \<open>Sequences of insertions and removals, for any implementation of the two operations.\<close>

datatype queue_op = Enq nat | Deq

fun run_ops :: "('s \<Rightarrow> nat \<Rightarrow> 's) \<Rightarrow> ('s \<Rightarrow> nat \<times> 's) \<Rightarrow> queue_op list \<Rightarrow> 's \<Rightarrow> nat list \<times> 's" where
  "run_ops enq deq [] s = ([], s)"
| "run_ops enq deq (Enq x # ops) s = run_ops enq deq ops (enq s x)"
| "run_ops enq deq (Deq # ops) s =
     (let (x, s) = deq s; (ys, s) = run_ops enq deq ops s in (x # ys, s))"

definition list_enq :: "nat list \<Rightarrow> nat \<Rightarrow> nat list" where
  "list_enq xs x = xs @ [x]"

definition list_deq :: "nat list \<Rightarrow> nat \<times> nat list" where
  "list_deq xs = (case xs of [] \<Rightarrow> (0, []) | x # ys \<Rightarrow> (x, ys))"

text \<open>An object is queued only while it is not in the queue.\<close>

fun ops_ok :: "queue_op list \<Rightarrow> nat list \<Rightarrow> bool" where
  "ops_ok [] xs = True"
| "ops_ok (Enq x # ops) xs = (x \<noteq> 0 \<and> x \<notin> set xs \<and> ops_ok ops (xs @ [x]))"
| "ops_ok (Deq # ops) xs = ops_ok ops (tl xs)"

locale fifo_queue =
  fixes rep :: "'s \<Rightarrow> nat list \<Rightarrow> bool" and enq :: "'s \<Rightarrow> nat \<Rightarrow> 's" and deq :: "'s \<Rightarrow> nat \<times> 's"
  assumes enq_rep: "rep s xs \<Longrightarrow> x \<noteq> 0 \<Longrightarrow> x \<notin> set xs \<Longrightarrow> rep (enq s x) (xs @ [x])"
    and deq_value: "rep s xs \<Longrightarrow> fst (deq s) = (case xs of [] \<Rightarrow> 0 | x # _ \<Rightarrow> x)"
    and deq_rep: "rep s xs \<Longrightarrow> rep (snd (deq s)) (tl xs)"
begin

lemma fifo_run:
  assumes "rep s xs" "ops_ok ops xs"
  shows "fst (run_ops enq deq ops s) = fst (run_ops list_enq list_deq ops xs) \<and>
         rep (snd (run_ops enq deq ops s)) (snd (run_ops list_enq list_deq ops xs))"
  using assms
proof (induction ops arbitrary: s xs)
  case (Cons a ops)
  show ?case
  proof (cases a)
    case (Enq x)
    then show ?thesis using Cons enq_rep [of s xs x] by (simp add: list_enq_def)
  next
    case Deq
    have "list_deq xs = (fst (deq s), tl xs)"
      using deq_value [OF Cons.prems(1)] by (cases xs) (simp_all add: list_deq_def)
    then show ?thesis
      using Cons.IH [OF deq_rep [OF Cons.prems(1)]] Cons.prems(2) Deq
      by (simp add: case_prod_beta Let_def)
  qed
qed simp

end

interpretation intru_queue: fifo_queue "\<lambda>(next, me). queue_rep next me"
  "\<lambda>(next, me). ncclIntruQueueEnqueue next me" "\<lambda>(next, me). let (x, me) = ncclIntruQueueTryDequeue next me in (x, next, me)"
proof unfold_locales
  fix s :: "links \<times> ncclIntruQueue" and xs :: "nat list"
  assume r: "(case s of (next, me) \<Rightarrow> queue_rep next me) xs"
  obtain "next" me where s: "s = (next, me)" by (cases s)
  then have q: "queue_rep next me xs" using r by simp
  show "(case (case s of (next, me) \<Rightarrow> ncclIntruQueueEnqueue next me) x of (next, me) \<Rightarrow> queue_rep next me) (xs @ [x])"
    if "x \<noteq> 0" "x \<notin> set xs" for x
    using queue_enqueue [OF q that(2,1)] by (simp add: s case_prod_beta)
  show "fst (case s of (next, me) \<Rightarrow> let (x, me) = ncclIntruQueueTryDequeue next me in (x, next, me)) = (case xs of [] \<Rightarrow> 0 | x # _ \<Rightarrow> x)"
    using queue_tryDequeue [OF q] by (simp add: s case_prod_beta)
  show "(case snd (case s of (next, me) \<Rightarrow> let (x, me) = ncclIntruQueueTryDequeue next me in (x, next, me)) of (next, me) \<Rightarrow> queue_rep next me) (tl xs)"
    using queue_tryDequeue [OF q] by (simp add: s case_prod_beta)
qed

text \<open>C29: the intrusive queue is first in, first out: from an empty queue, any sequence of insertions and removals that
never inserts an object already queued returns what a list with insertion at its end returns, null for an empty queue,
and the linked objects, the tail and the count describe that list at the end.\<close>

theorem intruQueue_fifo:
  assumes "ops_ok ops []"
  shows "let run = run_ops (\<lambda>(next, me). ncclIntruQueueEnqueue next me)
                 (\<lambda>(next, me). let (x, me) = ncclIntruQueueTryDequeue next me in (x, next, me))
                 ops (next, ncclIntruQueueConstruct);
             spec = run_ops list_enq list_deq ops []
         in fst run = fst spec \<and> queue_rep (fst (snd run)) (snd (snd run)) (snd spec)"
  using intru_queue.fifo_run [of "(next, ncclIntruQueueConstruct)" "[]" ops] assms queue_construct
  by (simp add: Let_def case_prod_beta)

theorem intruQueue_fifo_witness:
  "ops_ok [Enq 3, Enq 5, Deq, Enq 3, Deq, Deq, Deq] [] \<and>
   fst (run_ops (\<lambda>(next, me). ncclIntruQueueEnqueue next me)
          (\<lambda>(next, me). let (x, me) = ncclIntruQueueTryDequeue next me in (x, next, me))
          [Enq 3, Enq 5, Deq, Enq 3, Deq, Deq, Deq] (\<lambda>_. 7, ncclIntruQueueConstruct)) = [3, 5, 3, 0]"
proof -
  have ok: "ops_ok [Enq 3, Enq 5, Deq, Enq 3, Deq, Deq, Deq] []" by simp
  show ?thesis using intruQueue_fifo [OF ok, of "\<lambda>_. 7"] ok
    by (simp add: Let_def list_enq_def list_deq_def)
qed

section \<open>Sorted insertion and deletion\<close>

fun insert_all :: "links \<Rightarrow> ncclIntruQueue \<Rightarrow> nat list \<Rightarrow> (nat \<Rightarrow> nat \<Rightarrow> bool) \<Rightarrow> (links \<times> ncclIntruQueue) option" where
  "insert_all next me [] lt = Some (next, me)"
| "insert_all next me (x # xs) lt =
     (case ncclIntruQueueInsertSorted next me x lt of None \<Rightarrow> None | Some (next, me) \<Rightarrow> insert_all next me xs lt)"

lemma sorted_takeWhile_insert:
  assumes "sorted_wrt (\<lambda>a b. \<not> lt b a) xs"
    "\<And>a b. lt a b \<Longrightarrow> \<not> lt b a" "\<And>a b c. \<not> lt a b \<Longrightarrow> \<not> lt b c \<Longrightarrow> \<not> lt a c"
  shows "sorted_wrt (\<lambda>a b. \<not> lt b a) (takeWhile (\<lambda>y. lt y x) xs @ x # dropWhile (\<lambda>y. lt y x) xs)"
  using assms(1)
proof (induction xs)
  case (Cons y ys)
  show ?case
  proof (cases "lt y x")
    case True
    have "set (takeWhile (\<lambda>y. lt y x) ys) \<union> set (dropWhile (\<lambda>y. lt y x) ys) = set ys"
      by (metis set_append takeWhile_dropWhile_id)
    then show ?thesis using Cons True assms(2) by auto
  next
    case False
    then show ?thesis using Cons.prems assms(3) by auto
  qed
qed simp

lemma insert_all_sorted:
  assumes "queue_rep next me ys" "sorted_wrt (\<lambda>a b. \<not> lt b a) ys" "distinct (xs @ ys)" "0 \<notin> set xs"
    "\<And>a b. lt a b \<Longrightarrow> \<not> lt b a" "\<And>a b c. \<not> lt a b \<Longrightarrow> \<not> lt b c \<Longrightarrow> \<not> lt a c"
  shows "\<exists>next' me' zs. insert_all next me xs lt = Some (next', me') \<and> queue_rep next' me' zs \<and>
           set zs = set xs \<union> set ys \<and> sorted_wrt (\<lambda>a b. \<not> lt b a) zs"
  using assms(1-4)
proof (induction xs arbitrary: "next" me ys)
  case (Cons x xs)
  let ?zs = "takeWhile (\<lambda>y. lt y x) ys @ x # dropWhile (\<lambda>y. lt y x) ys"
  have zs: "set ?zs = insert x (set ys)" 
    using set_append [of "takeWhile (\<lambda>y. lt y x) ys" "dropWhile (\<lambda>y. lt y x) ys"] by auto
  obtain n1 m1 where i: "ncclIntruQueueInsertSorted next me x lt = Some (n1, m1)" "queue_rep n1 m1 ?zs"
    using queue_insertSorted [OF Cons.prems(1), of x lt] Cons.prems(3,4) by auto
  have "distinct (xs @ ?zs)" using queue_repD(2) [OF i(2)] zs Cons.prems(3) by auto
  moreover have "0 \<notin> set xs" using Cons.prems(4) by simp
  moreover have "sorted_wrt (\<lambda>a b. \<not> lt b a) ?zs"
    by (rule sorted_takeWhile_insert [OF Cons.prems(2)]; use assms(5,6) in blast)
  ultimately obtain n2 m2 ws where w: "insert_all n1 m1 xs lt = Some (n2, m2)" "queue_rep n2 m2 ws"
      "set ws = set xs \<union> set ?zs" "sorted_wrt (\<lambda>a b. \<not> lt b a) ws"
    using Cons.IH [OF i(2)] by blast
  have "set ws = set (x # xs) \<union> set ys" using w(3) unfolding zs by auto
  then show ?case using i(1) w by auto
qed auto

text \<open>C30: a queue that is filled by sorted insertion alone stays sorted: for a strict weak order, inserting distinct
objects always returns and gives a queue of exactly these objects in which no object comes before a smaller one.\<close>

theorem intruQueue_insertSorted_sorted:
  assumes "distinct xs" "0 \<notin> set xs" "\<And>a b. lt a b \<Longrightarrow> \<not> lt b a" "\<And>a b c. \<not> lt a b \<Longrightarrow> \<not> lt b c \<Longrightarrow> \<not> lt a c"
  shows "\<exists>next' me' zs. insert_all next ncclIntruQueueConstruct xs lt = Some (next', me') \<and> queue_rep next' me' zs \<and>
           set zs = set xs \<and> sorted_wrt (\<lambda>a b. \<not> lt b a) zs"
proof -
  have "sorted_wrt (\<lambda>a b. \<not> lt b a) []" "distinct (xs @ [])" using assms(1) by simp_all
  then have "\<exists>next' me' zs. insert_all next ncclIntruQueueConstruct xs lt = Some (next', me') \<and> queue_rep next' me' zs \<and>
      set zs = set xs \<union> set [] \<and> sorted_wrt (\<lambda>a b. \<not> lt b a) zs"
    by (rule insert_all_sorted [OF queue_construct]; use assms(2-4) in blast)
  then show ?thesis by simp
qed

theorem intruQueue_insertSorted_sorted_witness:
  "\<exists>next' me' zs. insert_all (\<lambda>_. 0) ncclIntruQueueConstruct [4, 2, 9] (<) = Some (next', me') \<and> queue_rep next' me' zs \<and>
     set zs = {2, 4, 9} \<and> sorted_wrt (\<lambda>a b. \<not> b < a) zs"
proof -
  have *: "distinct [4, 2, 9 :: nat]" "(0::nat) \<notin> set [4, 2, 9]" by simp_all
  show ?thesis
    using intruQueue_insertSorted_sorted [OF *, of "(<)" "\<lambda>_. 0"] by (simp add: insert_commute)
qed

text \<open>Deletion by a comparison function removes the first matching object and returns it, or returns null and
changes nothing of the list when no object matches; it returns for every queue.\<close>

theorem intruQueue_delete_first:
  assumes "queue_rep next me xs"
  shows "\<exists>next' me'. ncclIntruQueueDelete next me x cmp =
           Some (case dropWhile (\<lambda>y. \<not> cmp y x) xs of [] \<Rightarrow> 0 | y # _ \<Rightarrow> y, next', me') \<and>
           queue_rep next' me' (takeWhile (\<lambda>y. \<not> cmp y x) xs @ tl (dropWhile (\<lambda>y. \<not> cmp y x) xs))"
  using assms by (rule queue_delete)

theorem intruQueue_delete_first_witness:
  "\<exists>next' me'. ncclIntruQueueDelete ((\<lambda>_. 0)(4 := 6, 6 := 8)) \<lparr>head = 4, tail = 8, nElems = 3\<rparr> 6 (=) = Some (6, next', me') \<and>
     queue_rep next' me' [4, 8]"
proof -
  have q: "queue_rep ((\<lambda>_. 0)(4 := 6, 6 := 8)) \<lparr>head = 4, tail = 8, nElems = 3\<rparr> [4, 6, 8]" by (simp add: queue_rep_def)
  show ?thesis using intruQueue_delete_first [OF q, of 6 "(=)"] by simp
qed

end
