(* ===== verification/Mpsc_Queue.thy ===== *)
theory Mpsc_Queue
  imports Linked_Lists
begin

unbundle bit_operations_syntax

text \<open>
  The intrusive queue with several producers and one consumer (\<^verbatim>\<open>ncclIntruQueueMpsc\<close>, include/utils.h) as a step
  relation: every access to memory that threads share is one step, and the steps of the threads interleave.  Addresses are
  numbers; 0 is the null pointer and the values up to 2 mark the states of an empty queue: idle, waited for, abandoned.
\<close>

section \<open>Model\<close>

text \<open>An enqueue operation: before the exchange of the tail, before the link, and the way to wake the consumer.\<close>

datatype producer = PIdle | PExchange nat | PLink nat nat | PLock | PHeld | PNotify

text \<open>The operations of the consumer; the last argument says whether the queue is to be abandoned.\<close>

datatype consumer = CIdle | CLoad bool | CLoop bool | CCas bool | CWait | CSleep | CWake | CReload bool
  | CTake nat bool | CExchange nat bool | CWalk nat "nat list" nat nat bool | AStart | ASpin

datatype mutex = Free | ByConsumer | ByProducer nat

text \<open>The shared memory, the state of the threads, the elements that no operation owns, and the logs of the elements in the
order of the exchanges, of the returned elements, and of the elements for which the enqueue operation returned false.\<close>

record mpsc =
  mpsc_head :: nat
  mpsc_tail :: nat
  mpsc_waiting :: bool
  mpsc_next :: "nat \<Rightarrow> nat"
  mpsc_mutex :: mutex
  producers :: "nat \<Rightarrow> producer"
  theConsumer :: consumer
  owned :: "nat set"
  entered :: "nat list"
  delivered :: "nat list"
  refused :: "nat list"

definition ncclIntruQueueMpscConstruct :: "nat set \<Rightarrow> mpsc" where
  "ncclIntruQueueMpscConstruct xs = \<lparr>mpsc_head = 0, mpsc_tail = 0, mpsc_waiting = False, mpsc_next = (\<lambda>_. 0), mpsc_mutex = Free,
     producers = (\<lambda>_. PIdle), theConsumer = CIdle, owned = xs, entered = [], delivered = [], refused = []\<rparr>"

definition ncclIntruQueueMpscEmpty :: "mpsc \<Rightarrow> bool" where
  "ncclIntruQueueMpscEmpty s \<longleftrightarrow> mpsc_tail s \<le> 2"

text \<open>\<^verbatim>\<open>ncclIntruQueueMpscEnqueue\<close>: the call stores null in the link of the element.\<close>

definition enqueueCall :: "nat \<Rightarrow> nat \<Rightarrow> mpsc \<Rightarrow> mpsc option" where
  "enqueueCall p x s =
     (if producers s p = PIdle \<and> x \<in> owned s \<and> 2 < x
      then Some (s\<lparr>mpsc_next := (mpsc_next s)(x := 0), producers := (producers s)(p := PExchange x), owned := owned s - {x}\<rparr>) else None)"

definition enqueueStep :: "nat \<Rightarrow> mpsc \<Rightarrow> mpsc option" where
  "enqueueStep p s =
     (case producers s p of
        PIdle \<Rightarrow> None
      | PExchange x \<Rightarrow> Some (s\<lparr>mpsc_tail := x, producers := (producers s)(p := PLink x (mpsc_tail s)), entered := entered s @ [x]\<rparr>)
      | PLink x utail \<Rightarrow>
          let s = (if utail \<le> 2 then s\<lparr>mpsc_head := x\<rparr> else s\<lparr>mpsc_next := (mpsc_next s)(utail := x)\<rparr>)
          in Some (s\<lparr>producers := (producers s)(p := if utail = 1 then PLock else PIdle), refused := refused s @ (if utail = 2 then [x] else [])\<rparr>)
      | PLock \<Rightarrow> if mpsc_mutex s = Free \<and> mpsc_waiting s then Some (s\<lparr>mpsc_mutex := ByProducer p, producers := (producers s)(p := PHeld)\<rparr>) else None
      | PHeld \<Rightarrow> Some (s\<lparr>mpsc_mutex := Free, producers := (producers s)(p := PNotify)\<rparr>)
      | PNotify \<Rightarrow> Some (s\<lparr>producers := (producers s)(p := PIdle), theConsumer := (if theConsumer s = CSleep then CWake else theConsumer s)\<rparr>))"

definition dequeueAllCall :: "bool \<Rightarrow> mpsc \<Rightarrow> mpsc option" where
  "dequeueAllCall waitSome s = (if theConsumer s = CIdle then Some (s\<lparr>theConsumer := CLoad waitSome\<rparr>) else None)"

definition abandonCall :: "mpsc \<Rightarrow> mpsc option" where
  "abandonCall s = (if theConsumer s = CIdle then Some (s\<lparr>theConsumer := AStart\<rparr>) else None)"

text \<open>The first part of \<^verbatim>\<open>ncclIntruQueueMpscDequeueAll\<close>: load the head, spin or sleep until there is one.  The choice says that
the time to spin has passed, or that the wait on the condition ends without a notification.  Taking the lock and setting
\<^verbatim>\<open>waiting\<close>, which only the consumer writes, is one step.\<close>

definition awaitStep :: "bool \<Rightarrow> mpsc \<Rightarrow> mpsc option" where
  "awaitStep choice s =
     (case theConsumer s of
        CLoad waitSome \<Rightarrow>
          Some (s\<lparr>theConsumer := (if mpsc_head s \<noteq> 0 then CTake (mpsc_head s) False else if \<not> waitSome then CIdle else CLoop False)\<rparr>)
      | CLoop sleeping \<Rightarrow>
          if \<not> choice then Some (s\<lparr>theConsumer := CReload sleeping\<rparr>)
          else if mpsc_mutex s = Free then Some (s\<lparr>mpsc_mutex := ByConsumer, mpsc_waiting := True, theConsumer := CCas sleeping\<rparr>) else None
      | CCas sleeping \<Rightarrow>
          if mpsc_tail s = (if sleeping then 1 else 0) then Some (s\<lparr>mpsc_tail := 1, theConsumer := CWait\<rparr>)
          else Some (s\<lparr>mpsc_mutex := Free, theConsumer := CReload sleeping\<rparr>)
      | CWait \<Rightarrow> Some (s\<lparr>mpsc_mutex := Free, theConsumer := CSleep\<rparr>)
      | CSleep \<Rightarrow> if choice then Some (s\<lparr>theConsumer := CWake\<rparr>) else None
      | CWake \<Rightarrow> if mpsc_mutex s = Free then Some (s\<lparr>theConsumer := CReload True\<rparr>) else None
      | CReload sleeping \<Rightarrow> Some (s\<lparr>theConsumer := (if mpsc_head s = 0 then CLoop sleeping else CTake (mpsc_head s) False)\<rparr>)
      | _ \<Rightarrow> None)"

text \<open>The first part of \<^verbatim>\<open>ncclIntruQueueMpscAbandon\<close>.\<close>

definition abandonStep :: "mpsc \<Rightarrow> mpsc option" where
  "abandonStep s =
     (case theConsumer s of
        AStart \<Rightarrow> if mpsc_tail s = 0 then Some (s\<lparr>mpsc_tail := 2, theConsumer := CIdle\<rparr>) else Some (s\<lparr>theConsumer := ASpin\<rparr>)
      | ASpin \<Rightarrow> Some (if mpsc_head s \<noteq> 0 then s\<lparr>theConsumer := CTake (mpsc_head s) True\<rparr> else s)
      | _ \<Rightarrow> None)"

text \<open>The common end of both: clear the head, exchange the tail, and follow the links up to the old tail; the elements that are
passed go to the caller.\<close>

definition takeStep :: "mpsc \<Rightarrow> mpsc option" where
  "takeStep s =
     (case theConsumer s of
        CTake h ab \<Rightarrow> Some (s\<lparr>mpsc_head := 0, theConsumer := CExchange h ab\<rparr>)
      | CExchange h ab \<Rightarrow>
          Some (s\<lparr>mpsc_tail := (if ab then 2 else 0), theConsumer := CWalk h [] h (if mpsc_tail s \<le> 2 then 0 else mpsc_tail s) ab\<rparr>)
      | CWalk h seen x stop ab \<Rightarrow>
          if x \<noteq> stop then Some (if mpsc_next s x \<noteq> 0 then s\<lparr>theConsumer := CWalk h (seen @ [x]) (mpsc_next s x) stop ab\<rparr> else s)
          else Some (s\<lparr>theConsumer := CIdle, delivered := delivered s @ seen @ [x], owned := owned s \<union> set (seen @ [x])\<rparr>)
      | _ \<Rightarrow> None)"

inductive mpscStep :: "mpsc \<Rightarrow> mpsc \<Rightarrow> bool" where
  step_enqueueCall: "enqueueCall p x s = Some s' \<Longrightarrow> mpscStep s s'"
| step_enqueue: "enqueueStep p s = Some s' \<Longrightarrow> mpscStep s s'"
| step_dequeueAllCall: "dequeueAllCall w s = Some s' \<Longrightarrow> mpscStep s s'"
| step_abandonCall: "abandonCall s = Some s' \<Longrightarrow> mpscStep s s'"
| step_await: "awaitStep choice s = Some s' \<Longrightarrow> mpscStep s s'"
| step_abandon: "abandonStep s = Some s' \<Longrightarrow> mpscStep s s'"
| step_take: "takeStep s = Some s' \<Longrightarrow> mpscStep s s'"

inductive mpscReachable :: "nat set \<Rightarrow> mpsc \<Rightarrow> bool" where
  reachable_init: "mpscReachable xs (ncclIntruQueueMpscConstruct xs)"
| reachable_step: "mpscReachable xs s \<Longrightarrow> mpscStep s s' \<Longrightarrow> mpscReachable xs s'"

section \<open>Partly linked chains\<close>

text \<open>A chain in which the link from an element to the next may be missing as long as it is pending.\<close>

fun chainOk :: "(nat \<Rightarrow> nat) \<Rightarrow> (nat \<Rightarrow> nat \<Rightarrow> bool) \<Rightarrow> nat list \<Rightarrow> bool" where
  "chainOk nx P [] = True"
| "chainOk nx P [x] = (nx x = 0)"
| "chainOk nx P (x # y # l) = ((nx x = y \<or> nx x = 0 \<and> P x y) \<and> chainOk nx P (y # l))"

definition adj :: "nat list \<Rightarrow> nat \<Rightarrow> nat \<Rightarrow> bool" where
  "adj l a b \<longleftrightarrow> (\<exists>u v. l = u @ a # b # v)"

lemma adj_in: "adj l a b \<Longrightarrow> a \<in> set l" "adj l a b \<Longrightarrow> b \<in> set l" "adj l a b \<Longrightarrow> b \<in> set (List.tl l)"
  by (auto simp: adj_def tl_append split: list.splits)

lemma adj_snoc: "adj l a b \<Longrightarrow> adj (l @ [x]) a b" "l \<noteq> [] \<Longrightarrow> adj (l @ [x]) (last l) x"
proof -
  show "adj (l @ [x]) a b" if "adj l a b" using that unfolding adj_def by (metis append_Cons append_assoc)
  show "adj (l @ [x]) (last l) x" if "l \<noteq> []" using that unfolding adj_def by (metis append_Cons append_Nil append_assoc append_butlast_last_id)
qed

lemma adj_Cons: "adj (x # l) a b \<longleftrightarrow> adj l a b \<or> x = a \<and> l \<noteq> [] \<and> hd l = b"
proof
  assume "adj (x # l) a b"
  then obtain u v where "x # l = u @ a # b # v" by (auto simp: adj_def)
  then show "adj l a b \<or> x = a \<and> l \<noteq> [] \<and> hd l = b" by (cases u) (auto simp: adj_def)
next
  assume "adj l a b \<or> x = a \<and> l \<noteq> [] \<and> hd l = b"
  then show "adj (x # l) a b"
  proof
    assume "adj l a b"
    then show ?thesis unfolding adj_def by (metis append_Cons)
  next
    assume "x = a \<and> l \<noteq> [] \<and> hd l = b"
    then have "x # l = [] @ a # b # List.tl l" by (cases l) simp_all
    then show ?thesis unfolding adj_def by blast
  qed
qed

lemma adj_Nil [simp]: "\<not> adj [] a b"
  by (simp add: adj_def)

lemma adj_hd: "distinct l \<Longrightarrow> \<not> adj l a (hd l)"
  by (cases l) (auto dest: adj_in(3))

lemma chainOk_mono: "chainOk nx P l \<Longrightarrow> (\<And>a b. a \<in> set l \<Longrightarrow> P a b \<Longrightarrow> P' a b) \<Longrightarrow> chainOk nx P' l"
  by (induction nx P l rule: chainOk.induct) auto

lemma chainOk_cong: "(\<And>x. x \<in> set l \<Longrightarrow> nx x = nx' x) \<Longrightarrow> chainOk nx P l = chainOk nx' P l"
  by (induction nx P l rule: chainOk.induct) auto

lemma chainOk_fresh: "x \<notin> set l \<Longrightarrow> chainOk (nx(x := v)) P l = chainOk nx P l"
  by (rule chainOk_cong) auto

lemma chainOk_last: "chainOk nx P l \<Longrightarrow> l \<noteq> [] \<Longrightarrow> nx (last l) = 0"
  by (induction nx P l rule: chainOk.induct) auto

lemma chainOk_snoc: "chainOk nx P l \<Longrightarrow> nx x = 0 \<Longrightarrow> (l \<noteq> [] \<Longrightarrow> P (last l) x) \<Longrightarrow> chainOk nx P (l @ [x])"
  by (induction nx P l rule: chainOk.induct) auto

lemma chainOk_link:
  assumes "chainOk nx P l" "distinct l" "adj l a b" "\<And>x y. x \<in> set l \<Longrightarrow> P x y \<Longrightarrow> x \<noteq> a \<Longrightarrow> P' x y" "nx' a = b" "\<And>x. x \<noteq> a \<Longrightarrow> nx' x = nx x"
  shows "chainOk nx' P' l"
  using assms(1-4)
proof (induction l rule: induct_list012)
  case (3 x y l)
  show ?case
  proof (cases "x = a")
    case True
    have na: "a \<notin> set (y # l)" using "3.prems"(2) True by auto
    then have "\<not> adj (y # l) a b" using adj_in(1) by blast
    then have "b = y" using "3.prems"(3) unfolding adj_Cons [of x] by simp
    moreover have "chainOk nx P' (y # l)"
    proof (rule chainOk_mono)
      show "chainOk nx P (y # l)" using "3.prems"(1) by simp
      show "P' c d" if "c \<in> set (y # l)" "P c d" for c d using "3.prems"(4) [of c d] that na by auto
    qed
    then have "chainOk nx' P' (y # l)" using chainOk_cong [of "y # l" nx nx' P'] na assms(6) by metis
    ultimately show ?thesis using True assms(5) by simp
  next
    case False
    then have "adj (y # l) a b" using "3.prems"(3) unfolding adj_Cons [of x] by simp
    then have "chainOk nx' P' (y # l)" using "3.IH"(2) "3.prems" by auto
    then show ?thesis using "3.prems"(1) "3.prems"(4) [of x y] False assms(6) [of x] by auto
  qed
qed (auto simp: adj_Cons)

lemma chainOk_adj: "chainOk nx P l \<Longrightarrow> adj l a b \<Longrightarrow> nx a = b \<or> nx a = 0 \<and> P a b"
  by (induction nx P l rule: chainOk.induct) (auto simp: adj_Cons)

section \<open>The invariant\<close>

text \<open>In every reachable state the elements that entered and were not yet returned are those that the consumer has taken, \<open>t\<close>,
followed by those in the queue, \<open>q\<close>.\<close>

definition pend :: "(nat \<Rightarrow> producer) \<Rightarrow> nat \<Rightarrow> nat \<Rightarrow> bool" where
  "pend prods a b \<longleftrightarrow> (\<exists>p. prods p = PLink b a)"

definition ownInv :: "(nat \<Rightarrow> nat) \<Rightarrow> (nat \<Rightarrow> producer) \<Rightarrow> nat set \<Rightarrow> nat list \<Rightarrow> nat list \<Rightarrow> bool" where
  "ownInv nx prods own t q \<longleftrightarrow> distinct (t @ q) \<and> (\<forall>x \<in> set (t @ q). 2 < x \<and> x \<notin> own \<and> (\<forall>p. prods p \<noteq> PExchange x)) \<and>
     (\<forall>p x. prods p = PExchange x \<longrightarrow> 2 < x \<and> x \<notin> own \<and> nx x = 0) \<and>
     (\<forall>p p' x. prods p = PExchange x \<longrightarrow> prods p' = PExchange x \<longrightarrow> p = p')"

definition taking :: "consumer \<Rightarrow> bool" where
  "taking c \<longleftrightarrow> (\<exists>h ab. c = CTake h ab \<or> c = CExchange h ab)"

definition headInv :: "nat \<Rightarrow> consumer \<Rightarrow> (nat \<Rightarrow> producer) \<Rightarrow> nat list \<Rightarrow> bool" where
  "headInv h0 c prods q \<longleftrightarrow>
     (\<forall>h ab. c = CTake h ab \<longrightarrow> q \<noteq> [] \<and> h = hd q \<and> h0 = h) \<and> (\<forall>h ab. c = CExchange h ab \<longrightarrow> q \<noteq> [] \<and> h = hd q \<and> h0 = 0) \<and>
     (\<not> taking c \<longrightarrow> (if q = [] then h0 = 0 else h0 = hd q \<or> h0 = 0 \<and> (\<exists>p u. prods p = PLink (hd q) u \<and> u \<le> 2)))"

definition pendInv :: "(nat \<Rightarrow> nat) \<Rightarrow> nat \<Rightarrow> consumer \<Rightarrow> (nat \<Rightarrow> producer) \<Rightarrow> nat list \<Rightarrow> nat list \<Rightarrow> bool" where
  "pendInv nx h0 c prods t q \<longleftrightarrow>
     (\<forall>p x u. prods p = PLink x u \<longrightarrow> (if u \<le> 2 then q \<noteq> [] \<and> x = hd q \<and> h0 = 0 \<and> \<not> taking c else nx u = 0 \<and> (adj t u x \<or> adj q u x))) \<and>
     (\<forall>p p' x u u'. prods p = PLink x u \<longrightarrow> prods p' = PLink x u' \<longrightarrow> p = p')"

definition solid :: "(nat \<Rightarrow> nat) \<Rightarrow> nat list \<Rightarrow> bool" where
  "solid nx l \<longleftrightarrow> (\<forall>a b. adj l a b \<longrightarrow> nx a = b)"

definition walkInv :: "(nat \<Rightarrow> nat) \<Rightarrow> consumer \<Rightarrow> nat list \<Rightarrow> bool" where
  "walkInv nx c t \<longleftrightarrow> (case c of CWalk h seen x stop ab \<Rightarrow> \<exists>w. t = seen @ x # w \<and> stop = last t \<and> h = hd t \<and> solid nx (seen @ [x]) | _ \<Rightarrow> t = [])"

definition wakers :: "(nat \<Rightarrow> producer) \<Rightarrow> nat set" where
  "wakers prods = {p. (\<exists>x. prods p = PLink x 1) \<or> prods p = PLock}"

definition wakeInv :: "nat \<Rightarrow> consumer \<Rightarrow> (nat \<Rightarrow> producer) \<Rightarrow> bool \<Rightarrow> mutex \<Rightarrow> bool" where
  "wakeInv tl0 c prods waiting m \<longleftrightarrow>
     (tl0 = 1 \<longrightarrow> c \<in> {CWait, CSleep, CWake, CReload True, CLoop True, CCas True}) \<and>
     (c = CWait \<longrightarrow> tl0 \<noteq> 1 \<longrightarrow> wakers prods \<noteq> {}) \<and>
     (c = CSleep \<longrightarrow> tl0 \<noteq> 1 \<longrightarrow> wakers prods \<noteq> {} \<or> (\<exists>p. prods p = PHeld \<or> prods p = PNotify)) \<and>
     (tl0 = 1 \<or> wakers prods \<noteq> {} \<or> c = CWait \<or> (\<exists>b. c = CCas b) \<longrightarrow> waiting) \<and>
     (m = ByConsumer \<longleftrightarrow> c = CWait \<or> (\<exists>b. c = CCas b)) \<and> (\<forall>p. m = ByProducer p \<longleftrightarrow> prods p = PHeld)"

definition mpscInv :: "mpsc \<Rightarrow> nat list \<Rightarrow> nat list \<Rightarrow> bool" where
  "mpscInv s t q \<longleftrightarrow> entered s = delivered s @ t @ q \<and> ownInv (mpsc_next s) (producers s) (owned s) t q \<and>
     (if q = [] then mpsc_tail s \<le> 2 else mpsc_tail s = last q) \<and>
     chainOk (mpsc_next s) (pend (producers s)) t \<and> chainOk (mpsc_next s) (pend (producers s)) q \<and>
     headInv (mpsc_head s) (theConsumer s) (producers s) q \<and> pendInv (mpsc_next s) (mpsc_head s) (theConsumer s) (producers s) t q \<and>
     walkInv (mpsc_next s) (theConsumer s) t \<and> wakeInv (mpsc_tail s) (theConsumer s) (producers s) (mpsc_waiting s) (mpsc_mutex s)"

lemma mpscInv_init: "mpscInv (ncclIntruQueueMpscConstruct xs) [] []"
  by (simp add: mpscInv_def ncclIntruQueueMpscConstruct_def ownInv_def headInv_def taking_def pendInv_def walkInv_def wakeInv_def wakers_def)

lemma solid_update: "solid nx l \<Longrightarrow> u \<notin> set l \<or> (nx u = 0 \<and> 0 \<notin> set l) \<Longrightarrow> solid (nx(u := v)) l"
  unfolding solid_def using adj_in by fastforce

lemma walkInv_update:
  assumes "walkInv nx c t" "u \<notin> set t \<or> (nx u = 0 \<and> 0 \<notin> set t)"
  shows "walkInv (nx(u := v)) c t"
proof (cases c)
  case (CWalk h seen x stop ab)
  then obtain w where w: "t = seen @ x # w" "stop = last t" "h = hd t" "solid nx (seen @ [x])" using assms(1) by (auto simp: walkInv_def)
  have "solid (nx(u := v)) (seen @ [x])" using assms(2) by (intro solid_update [OF w(4)]) (auto simp: w(1))
  then show ?thesis using w CWalk by (auto simp: walkInv_def)
qed (use assms in \<open>simp_all add: walkInv_def\<close>)

text \<open>Changes of producers that do not touch a pending link.\<close>

definition sameLinks :: "(nat \<Rightarrow> producer) \<Rightarrow> (nat \<Rightarrow> producer) \<Rightarrow> bool" where
  "sameLinks prods prods' \<longleftrightarrow> (\<forall>p x u. prods' p = PLink x u \<longleftrightarrow> prods p = PLink x u)"

lemma sameLinks_update: "(\<And>x u. prods p \<noteq> PLink x u) \<Longrightarrow> (\<And>x u. v \<noteq> PLink x u) \<Longrightarrow> sameLinks prods (prods(p := v))"
  by (auto simp: sameLinks_def)

lemma sameLinks_inv:
  assumes "sameLinks prods prods'"
  shows "pend prods' = pend prods" "headInv h0 c prods' q = headInv h0 c prods q" "pendInv nx h0 c prods' t q = pendInv nx h0 c prods t q"
  using assms unfolding sameLinks_def pend_def headInv_def pendInv_def by simp_all

lemma wakeInv_other:
  assumes "wakeInv tl0 c prods waiting m" "prods p = PIdle" "v = PIdle \<or> (\<exists>x. v = PExchange x)"
  shows "wakeInv tl0 c (prods(p := v)) waiting m"
proof -
  have "wakers (prods(p := v)) = wakers prods" using assms(2,3) by (auto simp: wakers_def)
  moreover have "(prods(p := v)) p' = PHeld \<longleftrightarrow> prods p' = PHeld" "(prods(p := v)) p' = PNotify \<longleftrightarrow> prods p' = PNotify" for p'
    using assms(2,3) by auto
  ultimately show ?thesis using assms(1) unfolding wakeInv_def by simp
qed

lemma enqueueCall_inv:
  assumes inv: "mpscInv s t q" and step: "enqueueCall p x s = Some s'"
  shows "mpscInv s' t q"
proof -
  define prods' where "prods' = (producers s)(p := PExchange x)"
  define nx' where "nx' = (mpsc_next s)(x := 0)"
  have p: "producers s p = PIdle" "x \<in> owned s" "2 < x" and s': "s' = s\<lparr>mpsc_next := nx', producers := prods', owned := owned s - {x}\<rparr>"
    using step by (auto simp: enqueueCall_def prods'_def nx'_def split: if_splits)
  have own: "ownInv (mpsc_next s) (producers s) (owned s) t q" using inv by (simp add: mpscInv_def)
  have nx: "x \<notin> set t" "x \<notin> set q" using own p(2) by (auto simp: ownInv_def)
  have nex: "\<And>p'. producers s p' \<noteq> PExchange x" using own p(2) by (auto simp: ownInv_def)
  have same: "sameLinks (producers s) prods'" unfolding prods'_def using p(1) by (intro sameLinks_update) simp_all
  have "ownInv nx' prods' (owned s - {x}) t q"
    using own nx nex p(3) unfolding ownInv_def prods'_def nx'_def by auto
  moreover have "chainOk nx' (pend (producers s)) t" "chainOk nx' (pend (producers s)) q"
    using inv nx by (simp_all add: chainOk_fresh mpscInv_def nx'_def)
  moreover have "pendInv nx' (mpsc_head s) (theConsumer s) (producers s) t q"
    using inv unfolding mpscInv_def pendInv_def nx'_def by simp
  moreover have "walkInv nx' (theConsumer s) t"
    unfolding nx'_def using inv nx(1) by (intro walkInv_update) (simp_all add: mpscInv_def)
  moreover have "wakeInv (mpsc_tail s) (theConsumer s) prods' (mpsc_waiting s) (mpsc_mutex s)"
    unfolding prods'_def using inv p(1) by (intro wakeInv_other) (simp_all add: mpscInv_def)
  ultimately show ?thesis using inv unfolding s' mpscInv_def by (simp add: sameLinks_inv [OF same])
qed

lemma tailInv_empty:
  assumes "mpscInv s t q"
  shows "mpsc_tail s \<le> 2 \<longleftrightarrow> q = []"
proof (cases "q = []")
  case True
  then show ?thesis using assms by (simp add: mpscInv_def)
next
  case False
  then have "2 < last q" using assms last_in_set [OF False] unfolding mpscInv_def ownInv_def by auto
  then show ?thesis using assms False by (simp add: mpscInv_def)
qed

lemma exchange_wake:
  assumes "wakeInv tl0 c prods waiting m" "prods p = PExchange x" "2 < x"
  shows "wakeInv x c (prods(p := PLink x tl0)) waiting m"
proof -
  let ?prods = "prods(p := PLink x tl0)"
  have w: "wakers ?prods = wakers prods \<union> (if tl0 = 1 then {p} else {})" using assms(2) by (auto simp: wakers_def)
  have h: "?prods p' = PHeld \<longleftrightarrow> prods p' = PHeld" "?prods p' = PNotify \<longleftrightarrow> prods p' = PNotify" for p' using assms(2) by auto
  show ?thesis using assms(1,3) unfolding wakeInv_def w h by auto
qed

lemma exchange_inv:
  assumes inv: "mpscInv s t q" and p: "producers s p = PExchange x"
  shows "mpscInv (s\<lparr>mpsc_tail := x, producers := (producers s)(p := PLink x (mpsc_tail s)), entered := entered s @ [x]\<rparr>) t (q @ [x])"
proof -
  define u where "u = mpsc_tail s"
  define prods' where "prods' = (producers s)(p := PLink x u)"
  have prods': "prods' p = PLink x u" "\<And>p'. p' \<noteq> p \<Longrightarrow> prods' p' = producers s p'" by (simp_all add: prods'_def)
  have own: "ownInv (mpsc_next s) (producers s) (owned s) t q" and head: "headInv (mpsc_head s) (theConsumer s) (producers s) q"
    and pd: "pendInv (mpsc_next s) (mpsc_head s) (theConsumer s) (producers s) t q" and q: "chainOk (mpsc_next s) (pend (producers s)) q"
    and t: "chainOk (mpsc_next s) (pend (producers s)) t"
    using inv by (simp_all add: mpscInv_def)
  have x: "x \<notin> set t" "x \<notin> set q" "2 < x" "x \<notin> owned s" "mpsc_next s x = 0" using own p by (auto simp: ownInv_def)
  have u: "u \<le> 2 \<longleftrightarrow> q = []" "q \<noteq> [] \<Longrightarrow> u = last q"
    using inv tailInv_empty [OF inv] by (simp_all add: mpscInv_def u_def)
  have tq: "taking (theConsumer s) \<Longrightarrow> q \<noteq> []" using head by (auto simp: headInv_def taking_def)
  have mono: "pend prods' a b" if "pend (producers s) a b" for a b
    using that p prods' unfolding pend_def by (metis producer.distinct(11))
  have "ownInv (mpsc_next s) prods' (owned s) t (q @ [x])"
    unfolding ownInv_def
  proof (intro conjI allI impI ballI)
    show "distinct (t @ q @ [x])" using own x by (auto simp: ownInv_def)
    fix y assume "y \<in> set (t @ q @ [x])"
    then have y: "y \<in> set (t @ q) \<or> y = x" by auto
    then show "2 < y" "y \<notin> owned s" using own x by (auto simp: ownInv_def)
    fix p' show "prods' p' \<noteq> PExchange y"
    proof (cases "p' = p")
      case False
      have "producers s p' \<noteq> PExchange y"
        using y own p False unfolding ownInv_def by blast
      then show ?thesis using prods'(2) [OF False] by simp
    qed (simp add: prods'(1))
  next
    fix p' y assume "prods' p' = PExchange y"
    then have "producers s p' = PExchange y" using prods' by (cases "p' = p") auto
    then show "2 < y" "y \<notin> owned s" "mpsc_next s y = 0" using own by (auto simp: ownInv_def)
  next
    fix p' p'' y assume "prods' p' = PExchange y" "prods' p'' = PExchange y"
    then have "producers s p' = PExchange y" "producers s p'' = PExchange y" using prods' by (cases "p' = p"; cases "p'' = p"; auto)+
    then show "p' = p''" using own by (auto simp: ownInv_def)
  qed
  moreover have "chainOk (mpsc_next s) (pend prods') t" using t mono by (rule chainOk_mono)
  moreover have "chainOk (mpsc_next s) (pend prods') (q @ [x])"
  proof (rule chainOk_snoc)
    show "chainOk (mpsc_next s) (pend prods') q" using q mono by (rule chainOk_mono)
    show "mpsc_next s x = 0" by (rule x(5))
    show "pend prods' (last q) x" if "q \<noteq> []" using prods'(1) u(2) [OF that] by (auto simp: pend_def)
  qed
  moreover have "headInv (mpsc_head s) (theConsumer s) prods' (q @ [x])"
  proof (cases "q = []")
    case True
    then show ?thesis using head tq prods'(1) u(1) unfolding headInv_def taking_def by auto
  next
    case False
    then have hd: "hd (q @ [x]) = hd q" by simp
    have "\<exists>p v. prods' p = PLink (hd q) v \<and> v \<le> 2" if "\<exists>p v. producers s p = PLink (hd q) v \<and> v \<le> 2"
      using that p prods' by (metis producer.distinct(11))
    then show ?thesis using head False unfolding headInv_def hd by auto
  qed
  moreover have "pendInv (mpsc_next s) (mpsc_head s) (theConsumer s) prods' t (q @ [x])"
    unfolding pendInv_def
  proof (intro conjI allI impI)
    fix p' y v assume pv: "prods' p' = PLink y v"
    show "if v \<le> 2 then q @ [x] \<noteq> [] \<and> y = hd (q @ [x]) \<and> mpsc_head s = 0 \<and> \<not> taking (theConsumer s) else mpsc_next s v = 0 \<and> (adj t v y \<or> adj (q @ [x]) v y)"
    proof (cases "p' = p")
      case True
      then have v: "v = u" "y = x" using pv prods'(1) by auto
      show ?thesis
      proof (cases "q = []")
        case True
        then show ?thesis using v u head tq unfolding headInv_def by auto
      next
        case False
        then show ?thesis using v u chainOk_last [OF q False] adj_snoc(2) [OF False] by auto
      qed
    next
      case False
      then have "producers s p' = PLink y v" using pv prods'(2) by simp
      then have "if v \<le> 2 then q \<noteq> [] \<and> y = hd q \<and> mpsc_head s = 0 \<and> \<not> taking (theConsumer s) else mpsc_next s v = 0 \<and> (adj t v y \<or> adj q v y)"
        using pd unfolding pendInv_def by blast
      then show ?thesis using adj_snoc(1) by (auto split: if_splits)
    qed
  next
    fix p' p'' y v v' assume pv: "prods' p' = PLink y v" "prods' p'' = PLink y v'"
    have out: "producers s p3 \<noteq> PLink x v3" for p3 v3
    proof
      assume "producers s p3 = PLink x v3"
      then have "if v3 \<le> 2 then q \<noteq> [] \<and> x = hd q \<and> mpsc_head s = 0 \<and> \<not> taking (theConsumer s) else mpsc_next s v3 = 0 \<and> (adj t v3 x \<or> adj q v3 x)"
        using pd unfolding pendInv_def by blast
      then show False using x(1,2) by (auto split: if_splits dest: adj_in(2))
    qed
    show "p' = p''"
    proof (cases "y = x")
      case True
      then show ?thesis using pv out prods'(2) by metis
    next
      case False
      then have "p' \<noteq> p" "p'' \<noteq> p" using pv prods'(1) by auto
      then have "producers s p' = PLink y v" "producers s p'' = PLink y v'" using pv prods'(2) by auto
      then show ?thesis using pd unfolding pendInv_def by blast
    qed
  qed
  moreover have "wakeInv x (theConsumer s) prods' (mpsc_waiting s) (mpsc_mutex s)"
    unfolding prods'_def u_def using inv p x(3) by (intro exchange_wake) (simp_all add: mpscInv_def)
  ultimately show ?thesis using inv unfolding mpscInv_def u_def [symmetric] prods'_def [symmetric] by simp
qed

lemma adj_unique: "distinct l \<Longrightarrow> adj l a b \<Longrightarrow> adj l a b' \<Longrightarrow> b = b'"
proof (induction l)
  case (Cons x l)
  show ?case
  proof (cases "x = a")
    case True
    then have "\<not> adj l a c" for c using Cons.prems(1) adj_in(1) by auto
    then show ?thesis using Cons.prems(2,3) by (simp add: adj_Cons)
  next
    case False
    then show ?thesis using Cons by (simp add: adj_Cons)
  qed
qed simp

lemma link_wake:
  assumes "wakeInv tl0 c prods waiting m" "prods p = PLink x u"
  shows "wakeInv tl0 c (prods(p := if u = 1 then PLock else PIdle)) waiting m"
proof -
  let ?prods = "prods(p := if u = 1 then PLock else PIdle)"
  have w: "wakers ?prods = wakers prods" using assms(2) by (auto simp: wakers_def)
  have h: "?prods p' = PHeld \<longleftrightarrow> prods p' = PHeld" "?prods p' = PNotify \<longleftrightarrow> prods p' = PNotify" for p' using assms(2) by auto
  show ?thesis using assms(1) unfolding wakeInv_def w h .
qed

lemma linked_own:
  assumes "ownInv nx prods own t q" "prods p = PLink x u" "\<And>y. v \<noteq> PExchange y" "\<And>p y. prods p = PExchange y \<Longrightarrow> nx' y = nx y"
  shows "ownInv nx' (prods(p := v)) own t q"
proof -
  have e: "(prods(p := v)) p' = PExchange y \<longleftrightarrow> prods p' = PExchange y" for p' y using assms(2,3) by auto
  show ?thesis using assms(1,4) unfolding ownInv_def e by auto
qed

lemma linkHead_inv:
  assumes inv: "mpscInv s t q" and p: "producers s p = PLink x u" and u: "u \<le> 2"
  shows "mpscInv (s\<lparr>mpsc_head := x, producers := (producers s)(p := if u = 1 then PLock else PIdle), refused := r\<rparr>) t q"
proof -
  define v where "v = (if u = 1 then PLock else PIdle)"
  define prods' where "prods' = (producers s)(p := v)"
  have prods': "\<And>y w. prods' p \<noteq> PLink y w" "\<And>p'. p' \<noteq> p \<Longrightarrow> prods' p' = producers s p'" by (simp_all add: prods'_def v_def)
  have own: "ownInv (mpsc_next s) (producers s) (owned s) t q"
    and pd: "pendInv (mpsc_next s) (mpsc_head s) (theConsumer s) (producers s) t q" and q: "chainOk (mpsc_next s) (pend (producers s)) q"
    and t: "chainOk (mpsc_next s) (pend (producers s)) t"
    using inv by (simp_all add: mpscInv_def)
  have x: "q \<noteq> []" "x = hd q" "mpsc_head s = 0" "\<not> taking (theConsumer s)" using pd p u unfolding pendInv_def by (meson)+
  have big: "2 < y" if "y \<in> set (t @ q)" for y using own that by (simp add: ownInv_def)
  have mono: "pend prods' a b" if m: "a \<in> set (t @ q)" "pend (producers s) a b" for a b
  proof -
    obtain p' where p': "producers s p' = PLink b a" using m(2) by (auto simp: pend_def)
    then have "p' \<noteq> p" using p u big [OF m(1)] by auto
    then have "prods' p' = PLink b a" using prods'(2) p' by simp
    then show ?thesis by (auto simp: pend_def)
  qed
  have "ownInv (mpsc_next s) prods' (owned s) t q" unfolding prods'_def using own p by (rule linked_own) (simp_all add: v_def)
  moreover have "chainOk (mpsc_next s) (pend prods') t" "chainOk (mpsc_next s) (pend prods') q"
    using t q mono by (auto intro: chainOk_mono)
  moreover have "headInv x (theConsumer s) prods' q" using x unfolding headInv_def taking_def by auto
  moreover have "pendInv (mpsc_next s) x (theConsumer s) prods' t q"
    unfolding pendInv_def
  proof (intro conjI allI impI)
    fix p' y w assume pw: "prods' p' = PLink y w"
    then have ne: "p' \<noteq> p" and s: "producers s p' = PLink y w" using prods' by metis+
    have "\<not> w \<le> 2"
    proof
      assume "w \<le> 2"
      then have "y = x" using pd s x(2) unfolding pendInv_def by meson
      then show False using pd s p ne unfolding pendInv_def by blast
    qed
    then show "if w \<le> 2 then q \<noteq> [] \<and> y = hd q \<and> x = 0 \<and> \<not> taking (theConsumer s) else mpsc_next s w = 0 \<and> (adj t w y \<or> adj q w y)"
      using pd s unfolding pendInv_def by meson
  next
    fix p' p'' y w w' assume "prods' p' = PLink y w" "prods' p'' = PLink y w'"
    then have "producers s p' = PLink y w" "producers s p'' = PLink y w'" using prods' by metis+
    then show "p' = p''" using pd unfolding pendInv_def by blast
  qed
  moreover have "wakeInv (mpsc_tail s) (theConsumer s) prods' (mpsc_waiting s) (mpsc_mutex s)"
    unfolding prods'_def v_def using inv p by (intro link_wake) (simp_all add: mpscInv_def)
  ultimately show ?thesis using inv unfolding mpscInv_def v_def [symmetric] prods'_def [symmetric] by simp
qed

lemma linkNext_inv:
  assumes inv: "mpscInv s t q" and p: "producers s p = PLink x u" and u: "\<not> u \<le> 2"
  shows "mpscInv (s\<lparr>mpsc_next := (mpsc_next s)(u := x), producers := (producers s)(p := PIdle), refused := r\<rparr>) t q"
proof -
  define prods' where "prods' = (producers s)(p := PIdle)"
  define nx' where "nx' = (mpsc_next s)(u := x)"
  have prods': "\<And>y w. prods' p \<noteq> PLink y w" "\<And>p'. p' \<noteq> p \<Longrightarrow> prods' p' = producers s p'" by (simp_all add: prods'_def)
  have nx': "nx' u = x" "\<And>y. y \<noteq> u \<Longrightarrow> nx' y = mpsc_next s y" by (simp_all add: nx'_def)
  have own: "ownInv (mpsc_next s) (producers s) (owned s) t q" and head: "headInv (mpsc_head s) (theConsumer s) (producers s) q"
    and pd: "pendInv (mpsc_next s) (mpsc_head s) (theConsumer s) (producers s) t q" and q: "chainOk (mpsc_next s) (pend (producers s)) q"
    and t: "chainOk (mpsc_next s) (pend (producers s)) t"
    using inv by (simp_all add: mpscInv_def)
  have x: "mpsc_next s u = 0" "adj t u x \<or> adj q u x" using pd p u unfolding pendInv_def by (meson)+
  have dist: "distinct t" "distinct q" "set t \<inter> set q = {}" using own by (simp_all add: ownInv_def)
  have uin: "u \<in> set (t @ q)" using x(2) adj_in(1) by auto
  have mono: "pend prods' a b" if m: "a \<noteq> u" "pend (producers s) a b" for a b
  proof -
    obtain p' where p': "producers s p' = PLink b a" using m(2) by (auto simp: pend_def)
    then have "p' \<noteq> p" using p m(1) by auto
    then have "prods' p' = PLink b a" using prods'(2) p' by simp
    then show ?thesis by (auto simp: pend_def)
  qed
  have chain: "chainOk nx' (pend prods') l" if l: "chainOk (mpsc_next s) (pend (producers s)) l" "distinct l" "u \<in> set l \<Longrightarrow> adj l u x" for l
  proof (cases "u \<in> set l")
    case True
    show ?thesis using l(1,2) l(3) [OF True] mono nx' by (rule chainOk_link)
  next
    case False
    have "chainOk (mpsc_next s) (pend prods') l"
    proof (rule chainOk_mono [OF l(1)])
      show "pend prods' a b" if "a \<in> set l" "pend (producers s) a b" for a b using mono [of a b] that False by auto
    qed
    then show ?thesis using False by (simp add: nx'_def chainOk_fresh)
  qed
  have "ownInv nx' prods' (owned s) t q"
    unfolding prods'_def using own p
  proof (rule linked_own)
    fix p' y assume "producers s p' = PExchange y"
    then have "y \<noteq> u" using own uin unfolding ownInv_def by blast
    then show "nx' y = mpsc_next s y" by (rule nx'(2))
  qed simp
  moreover have "chainOk nx' (pend prods') t" using t dist(1) x(2) dist(3) adj_in(1) [of q u x] by (intro chain) auto
  moreover have "chainOk nx' (pend prods') q" using q dist(2) x(2) dist(3) adj_in(1) [of t u x] by (intro chain) auto
  moreover have "headInv (mpsc_head s) (theConsumer s) prods' q"
  proof -
    have "\<exists>p' w. prods' p' = PLink (hd q) w \<and> w \<le> 2" if e: "\<exists>p' w. producers s p' = PLink (hd q) w \<and> w \<le> 2"
    proof -
      obtain p' w where "producers s p' = PLink (hd q) w" "w \<le> 2" using e by blast
      moreover from this have "p' \<noteq> p" using p u by auto
      ultimately show ?thesis using prods'(2) by metis
    qed
    then show ?thesis using head unfolding headInv_def by auto
  qed
  moreover have "pendInv nx' (mpsc_head s) (theConsumer s) prods' t q"
    unfolding pendInv_def
  proof (intro conjI allI impI)
    fix p' y w assume pw: "prods' p' = PLink y w"
    then have ne: "p' \<noteq> p" and s: "producers s p' = PLink y w" using prods' by metis+
    then have old: "if w \<le> 2 then q \<noteq> [] \<and> y = hd q \<and> mpsc_head s = 0 \<and> \<not> taking (theConsumer s) else mpsc_next s w = 0 \<and> (adj t w y \<or> adj q w y)"
      using pd unfolding pendInv_def by blast
    have "w \<noteq> u"
    proof
      assume w: "w = u"
      then have "adj t u y \<or> adj q u y" using old u by simp
      then have "y = x" using x(2) adj_unique [OF dist(1), of u x y] adj_unique [OF dist(2), of u x y] adj_in(1) [of t u] adj_in(1) [of q u] dist(3) by blast
      then show False using pd s p ne unfolding pendInv_def by blast
    qed
    then show "if w \<le> 2 then q \<noteq> [] \<and> y = hd q \<and> mpsc_head s = 0 \<and> \<not> taking (theConsumer s) else nx' w = 0 \<and> (adj t w y \<or> adj q w y)"
      using old nx'(2) by simp
  next
    fix p' p'' y w w' assume "prods' p' = PLink y w" "prods' p'' = PLink y w'"
    then have "producers s p' = PLink y w" "producers s p'' = PLink y w'" using prods' by metis+
    then show "p' = p''" using pd unfolding pendInv_def by blast
  qed
  moreover have "walkInv nx' (theConsumer s) t"
    unfolding nx'_def using inv own x(1) by (intro walkInv_update) (auto simp: mpscInv_def ownInv_def)
  moreover have "wakeInv (mpsc_tail s) (theConsumer s) prods' (mpsc_waiting s) (mpsc_mutex s)"
    using link_wake [of "mpsc_tail s" "theConsumer s" "producers s" "mpsc_waiting s" "mpsc_mutex s" p x u] inv p u unfolding prods'_def by (auto simp: mpscInv_def)
  ultimately show ?thesis using inv unfolding mpscInv_def nx'_def [symmetric] prods'_def [symmetric] by simp
qed

lemma signal_own:
  assumes "ownInv nx prods own t q" "\<And>y. prods p \<noteq> PExchange y" "\<And>y. v \<noteq> PExchange y"
  shows "ownInv nx (prods(p := v)) own t q"
proof -
  have e: "(prods(p := v)) p' = PExchange y \<longleftrightarrow> prods p' = PExchange y" for p' y using assms(2,3) by auto
  show ?thesis using assms(1) unfolding ownInv_def e .
qed

text \<open>A consumer that neither takes the queue nor walks along it.\<close>

definition plain :: "consumer \<Rightarrow> bool" where
  "plain c \<longleftrightarrow> \<not> taking c \<and> (\<forall>h seen x stop ab. c \<noteq> CWalk h seen x stop ab)"

lemma plain_simps [simp]:
  "plain CIdle" "plain (CLoad b)" "plain (CLoop b)" "plain (CCas b)" "plain CWait" "plain CSleep" "plain CWake" "plain (CReload b)" "plain AStart" "plain ASpin"
  by (simp_all add: plain_def taking_def)

lemma plain_inv:
  assumes "plain c" "plain c'"
  shows "headInv h0 c' prods q = headInv h0 c prods q" "pendInv nx h0 c' prods t q = pendInv nx h0 c prods t q" "walkInv nx c' t = walkInv nx c t"
proof -
  have nt: "\<not> taking c" "\<not> taking c'" using assms by (simp_all add: plain_def)
  then have "\<And>h ab. c \<noteq> CTake h ab" "\<And>h ab. c \<noteq> CExchange h ab" "\<And>h ab. c' \<noteq> CTake h ab" "\<And>h ab. c' \<noteq> CExchange h ab" by (auto simp: taking_def)
  then show "headInv h0 c' prods q = headInv h0 c prods q" "pendInv nx h0 c' prods t q = pendInv nx h0 c prods t q"
    using nt by (simp_all add: headInv_def pendInv_def)
  have "walkInv nx c'' t \<longleftrightarrow> t = []" if "plain c''" for c'' using that by (cases c'') (auto simp: walkInv_def plain_def)
  then show "walkInv nx c' t = walkInv nx c t" using assms by simp
qed

lemma plain_step:
  assumes inv: "mpscInv s t q" and c: "plain (theConsumer s)" "plain c'" and tl: "if q = [] then tl' \<le> 2 else tl' = last q" and w: "wakeInv tl' c' (producers s) w' m'"
  shows "mpscInv (s\<lparr>mpsc_tail := tl', mpsc_waiting := w', mpsc_mutex := m', theConsumer := c'\<rparr>) t q"
  using inv tl w unfolding mpscInv_def by (simp add: plain_inv [OF c])

lemma signal_step:
  assumes inv: "mpscInv s t q" and p: "producers s p \<in> {PLock, PHeld, PNotify}" "v \<in> {PIdle, PHeld, PNotify}"
    and c: "c' = theConsumer s \<or> plain (theConsumer s) \<and> plain c'" and w: "wakeInv (mpsc_tail s) c' ((producers s)(p := v)) (mpsc_waiting s) m'"
  shows "mpscInv (s\<lparr>mpsc_mutex := m', producers := (producers s)(p := v), theConsumer := c'\<rparr>) t q"
proof -
  have same: "sameLinks (producers s) ((producers s)(p := v))" using p by (intro sameLinks_update) auto
  have "ownInv (mpsc_next s) ((producers s)(p := v)) (owned s) t q" using inv p by (intro signal_own) (auto simp: mpscInv_def)
  moreover have "headInv (mpsc_head s) c' (producers s) q" "pendInv (mpsc_next s) (mpsc_head s) c' (producers s) t q" "walkInv (mpsc_next s) c' t"
    using inv c plain_inv [of "theConsumer s" c'] by (auto simp: mpscInv_def)
  ultimately show ?thesis using inv w unfolding mpscInv_def by (simp add: sameLinks_inv [OF same])
qed

lemma wakeInvD:
  assumes "wakeInv tl0 c prods waiting m"
  shows "tl0 = 1 \<longrightarrow> c \<in> {CWait, CSleep, CWake, CReload True, CLoop True, CCas True}" "c = CWait \<longrightarrow> tl0 \<noteq> 1 \<longrightarrow> wakers prods \<noteq> {}"
    "c = CSleep \<longrightarrow> tl0 \<noteq> 1 \<longrightarrow> wakers prods \<noteq> {} \<or> (\<exists>p. prods p = PHeld \<or> prods p = PNotify)"
    "tl0 = 1 \<or> wakers prods \<noteq> {} \<or> c = CWait \<or> (\<exists>b. c = CCas b) \<longrightarrow> waiting"
    "m = ByConsumer \<longleftrightarrow> c = CWait \<or> (\<exists>b. c = CCas b)" "\<forall>p. m = ByProducer p \<longleftrightarrow> prods p = PHeld"
  using assms [unfolded wakeInv_def] by - (elim conjE; assumption)+

lemma lock_wake:
  assumes "wakeInv tl0 c prods waiting Free" "prods p = PLock"
  shows "wakeInv tl0 c (prods(p := PHeld)) waiting (ByProducer p)"
proof -
  have "\<And>p'. prods p' \<noteq> PHeld" using assms(1) by (auto simp: wakeInv_def)
  moreover have "wakers (prods(p := PHeld)) = wakers prods - {p}" by (auto simp: wakers_def)
  moreover have "\<exists>p'. (prods(p := PHeld)) p' = PHeld \<or> (prods(p := PHeld)) p' = PNotify" by (intro exI [of _ p]) simp
  ultimately show ?thesis using assms(1) unfolding wakeInv_def by auto
qed

lemma unlock_wake:
  assumes inv: "wakeInv tl0 c prods waiting m" and p: "prods p = PHeld"
  shows "wakeInv tl0 c (prods(p := PNotify)) waiting Free"
  unfolding wakeInv_def
proof (intro conjI allI)
  have m: "m = ByProducer p" using wakeInvD(6) [OF inv, THEN spec, of p] p by simp
  have u: "p' = p" if "prods p' = PHeld" for p' using wakeInvD(6) [OF inv, THEN spec, of p'] that m by simp
  have c: "c \<noteq> CWait" "c \<noteq> CCas b" for b using wakeInvD(5) [OF inv] m by auto
  have w: "wakers (prods(p := PNotify)) = wakers prods" using p by (auto simp: wakers_def)
  show "tl0 = 1 \<longrightarrow> c \<in> {CWait, CSleep, CWake, CReload True, CLoop True, CCas True}" by (rule wakeInvD(1) [OF inv])
  show "c = CWait \<longrightarrow> tl0 \<noteq> 1 \<longrightarrow> wakers (prods(p := PNotify)) \<noteq> {}" using c by simp
  have "\<exists>p'. (prods(p := PNotify)) p' = PHeld \<or> (prods(p := PNotify)) p' = PNotify" by (intro exI [of _ p]) simp
  then show "c = CSleep \<longrightarrow> tl0 \<noteq> 1 \<longrightarrow> wakers (prods(p := PNotify)) \<noteq> {} \<or> (\<exists>p'. (prods(p := PNotify)) p' = PHeld \<or> (prods(p := PNotify)) p' = PNotify)" by blast
  show "tl0 = 1 \<or> wakers (prods(p := PNotify)) \<noteq> {} \<or> c = CWait \<or> (\<exists>b. c = CCas b) \<longrightarrow> waiting" unfolding w by (rule wakeInvD(4) [OF inv])
  show "(Free = ByConsumer) = (c = CWait \<or> (\<exists>b. c = CCas b))" using c by simp
  show "(Free = ByProducer p') = ((prods(p := PNotify)) p' = PHeld)" for p' using u [of p'] by auto
qed

lemma notify_wake:
  assumes "wakeInv tl0 c prods waiting m" "prods p = PNotify"
  shows "wakeInv tl0 (if c = CSleep then CWake else c) (prods(p := PIdle)) waiting m"
proof -
  have w: "wakers (prods(p := PIdle)) = wakers prods" using assms(2) by (auto simp: wakers_def)
  have h: "(prods(p := PIdle)) p' = PHeld \<longleftrightarrow> prods p' = PHeld" for p' using assms(2) by auto
  show ?thesis using assms(1) unfolding wakeInv_def w h by auto
qed

lemma enqueueStep_inv:
  assumes inv: "mpscInv s t q" and step: "enqueueStep p s = Some s'"
  shows "\<exists>q'. mpscInv s' t q'"
proof (cases "producers s p")
  case PIdle
  then show ?thesis using step by (simp add: enqueueStep_def)
next
  case (PExchange x)
  then show ?thesis using step exchange_inv [OF inv PExchange] by (auto simp: enqueueStep_def)
next
  case (PLink x u)
  show ?thesis
  proof (cases "u \<le> 2")
    case True
    then have "s' = s\<lparr>mpsc_head := x, producers := (producers s)(p := if u = 1 then PLock else PIdle), refused := refused s @ (if u = 2 then [x] else [])\<rparr>"
      using step PLink by (simp add: enqueueStep_def)
    then show ?thesis using linkHead_inv [OF inv PLink True] by blast
  next
    case False
    then have "s' = s\<lparr>mpsc_next := (mpsc_next s)(u := x), producers := (producers s)(p := PIdle), refused := refused s\<rparr>"
      using step PLink by (auto simp: enqueueStep_def)
    then show ?thesis using linkNext_inv [OF inv PLink False] by blast
  qed
next
  case PLock
  then have m: "mpsc_mutex s = Free" and s': "s' = s\<lparr>mpsc_mutex := ByProducer p, producers := (producers s)(p := PHeld), theConsumer := theConsumer s\<rparr>"
    using step by (auto simp: enqueueStep_def split: if_splits)
  have "wakeInv (mpsc_tail s) (theConsumer s) ((producers s)(p := PHeld)) (mpsc_waiting s) (ByProducer p)"
    using inv m PLock by (intro lock_wake) (auto simp: mpscInv_def)
  then show ?thesis unfolding s' using signal_step [OF inv] PLock by blast
next
  case PHeld
  then have s': "s' = s\<lparr>mpsc_mutex := Free, producers := (producers s)(p := PNotify), theConsumer := theConsumer s\<rparr>"
    using step by (auto simp: enqueueStep_def)
  have "wakeInv (mpsc_tail s) (theConsumer s) ((producers s)(p := PNotify)) (mpsc_waiting s) Free"
    using inv PHeld by (intro unlock_wake [of _ _ _ _ "mpsc_mutex s"]) (auto simp: mpscInv_def)
  then show ?thesis unfolding s' using signal_step [OF inv] PHeld by blast
next
  case PNotify
  let ?c = "if theConsumer s = CSleep then CWake else theConsumer s"
  have s': "s' = s\<lparr>mpsc_mutex := mpsc_mutex s, producers := (producers s)(p := PIdle), theConsumer := ?c\<rparr>"
    using step PNotify by (simp add: enqueueStep_def)
  have "wakeInv (mpsc_tail s) ?c ((producers s)(p := PIdle)) (mpsc_waiting s) (mpsc_mutex s)"
    using inv PNotify by (intro notify_wake) (auto simp: mpscInv_def)
  moreover have "?c = theConsumer s \<or> plain (theConsumer s) \<and> plain ?c" by simp
  ultimately show ?thesis unfolding s' using signal_step [OF inv] PNotify by blast
qed

lemma wakeInv_quiet:
  assumes w: "wakeInv tl0 c prods waiting m" and c: "c \<noteq> CWait" "\<And>b. c \<noteq> CCas b"
    and c': "c' \<noteq> CWait" "c' \<noteq> CSleep" "\<And>b. c' \<noteq> CCas b" and one: "tl0 = 1 \<Longrightarrow> c' \<in> {CWake, CReload True, CLoop True}"
  shows "wakeInv tl0 c' prods waiting m"
  unfolding wakeInv_def
proof (intro conjI impI)
  show "c' \<in> {CWait, CSleep, CWake, CReload True, CLoop True, CCas True}" if "tl0 = 1" using one [OF that] by blast
  show "waiting" if "tl0 = 1 \<or> wakers prods \<noteq> {} \<or> c' = CWait \<or> (\<exists>b. c' = CCas b)"
    using wakeInvD(4) [OF w] that c' by blast
  show "(m = ByConsumer) = (c' = CWait \<or> (\<exists>b. c' = CCas b))" using wakeInvD(5) [OF w] c c' by simp
  show "\<forall>p. (m = ByProducer p) = (prods p = PHeld)" by (rule wakeInvD(6) [OF w])
qed (use c' in simp_all)

lemma pendInv_taking:
  assumes pd: "pendInv nx h0 c prods t q" and h: "h0 \<noteq> 0 \<or> taking c" and tq: "\<And>u x. adj t u x \<or> adj q u x \<Longrightarrow> adj t' u x \<or> adj q' u x"
  shows "pendInv nx h1 c' prods t' q'"
proof -
  have "\<not> u \<le> 2 \<and> nx u = 0 \<and> (adj t u x \<or> adj q u x)" if "prods p = PLink x u" for p x u
  proof -
    have "if u \<le> 2 then q \<noteq> [] \<and> x = hd q \<and> h0 = 0 \<and> \<not> taking c else nx u = 0 \<and> (adj t u x \<or> adj q u x)"
      using pd that unfolding pendInv_def by blast
    then show ?thesis using h by (auto split: if_splits)
  qed
  then have "\<not> u \<le> 2 \<and> nx u = 0 \<and> (adj t' u x \<or> adj q' u x)" if "prods p = PLink x u" for p x u using tq that by blast
  then show ?thesis using pd unfolding pendInv_def by simp
qed

lemma take_start:
  assumes inv: "mpscInv s t q" and c: "plain (theConsumer s)" "mpsc_head s \<noteq> 0" "theConsumer s \<noteq> CWait" "\<And>b. theConsumer s \<noteq> CCas b"
  shows "mpscInv (s\<lparr>theConsumer := CTake (mpsc_head s) ab\<rparr>) t q"
proof -
  have head: "headInv (mpsc_head s) (theConsumer s) (producers s) q" and walk: "walkInv (mpsc_next s) (theConsumer s) t"
    and w: "wakeInv (mpsc_tail s) (theConsumer s) (producers s) (mpsc_waiting s) (mpsc_mutex s)" using inv by (simp_all add: mpscInv_def)
  have nt: "\<not> taking (theConsumer s)" using c(1) by (simp add: plain_def)
  have h: "q \<noteq> []" "mpsc_head s = hd q" using head c(2) nt unfolding headInv_def by (auto split: if_splits)
  have "headInv (mpsc_head s) (CTake (mpsc_head s) ab) (producers s) q" using h by (simp add: headInv_def taking_def)
  moreover have "pendInv (mpsc_next s) (mpsc_head s) (CTake (mpsc_head s) ab) (producers s) t q"
    using inv c(2) unfolding mpscInv_def by (blast intro: pendInv_taking)
  moreover have "walkInv (mpsc_next s) (CTake (mpsc_head s) ab) t"
    using walk plain_inv(3) [OF c(1), of CIdle] by (simp add: walkInv_def)
  moreover have "wakeInv (mpsc_tail s) (CTake (mpsc_head s) ab) (producers s) (mpsc_waiting s) (mpsc_mutex s)"
    using tailInv_empty [OF inv] h(1) by (intro wakeInv_quiet [OF w c(3,4)]) auto
  ultimately show ?thesis using inv unfolding mpscInv_def by simp
qed

lemma awaitStep_inv:
  assumes inv: "mpscInv s t q" and step: "awaitStep choice s = Some s'"
  shows "mpscInv s' t q"
proof -
  have w: "wakeInv (mpsc_tail s) (theConsumer s) (producers s) (mpsc_waiting s) (mpsc_mutex s)" using inv by (simp add: mpscInv_def)
  have tl: "if q = [] then mpsc_tail s \<le> 2 else mpsc_tail s = last q" using inv by (simp add: mpscInv_def)
  note one = wakeInvD(1) [OF w]
  have quiet: "mpscInv (s\<lparr>theConsumer := c'\<rparr>) t q"
    if "plain (theConsumer s)" "plain c'" "theConsumer s \<noteq> CWait" "\<And>b. theConsumer s \<noteq> CCas b"
      "c' \<noteq> CWait" "c' \<noteq> CSleep" "\<And>b. c' \<noteq> CCas b" "mpsc_tail s = 1 \<Longrightarrow> c' \<in> {CWake, CReload True, CLoop True}" for c'
    using plain_step [OF inv that(1,2) tl wakeInv_quiet [OF w that(3-8)]] by simp
  show ?thesis
  proof (cases "theConsumer s")
    case (CLoad waitSome)
    have "mpsc_tail s \<noteq> 1" using one CLoad by auto
    then show ?thesis using step CLoad take_start [OF inv] quiet [of CIdle] quiet [of "CLoop False"] by (auto simp: awaitStep_def split: if_splits)
  next
    case (CLoop sleeping)
    show ?thesis
    proof (cases choice)
      case False
      then show ?thesis using step CLoop one quiet [of "CReload sleeping"] by (auto simp: awaitStep_def)
    next
      case True
      then have m: "mpsc_mutex s = Free" and s': "s' = s\<lparr>mpsc_tail := mpsc_tail s, mpsc_waiting := True, mpsc_mutex := ByConsumer, theConsumer := CCas sleeping\<rparr>"
        using step CLoop by (auto simp: awaitStep_def split: if_splits)
      have "producers s p \<noteq> PHeld" for p using wakeInvD(6) [OF w, THEN spec, of p] m by simp
      then have "wakeInv (mpsc_tail s) (CCas sleeping) (producers s) True ByConsumer"
        using one CLoop by (simp add: wakeInv_def)
      then show ?thesis unfolding s' using CLoop by (intro plain_step [OF inv _ _ tl]) simp_all
    qed
  next
    case (CCas sleeping)
    have m: "mpsc_mutex s = ByConsumer" "mpsc_waiting s" using wakeInvD(4,5) [OF w] CCas by auto
    have held: "producers s p \<noteq> PHeld" for p using wakeInvD(6) [OF w, THEN spec, of p] m by simp
    show ?thesis
    proof (cases "mpsc_tail s = (if sleeping then 1 else 0)")
      case True
      then have "q = []" using tailInv_empty [OF inv] by (auto split: if_splits)
      have s': "s' = s\<lparr>mpsc_tail := 1, mpsc_waiting := mpsc_waiting s, mpsc_mutex := mpsc_mutex s, theConsumer := CWait\<rparr>"
        using step CCas True by (simp add: awaitStep_def)
      have "wakeInv 1 CWait (producers s) (mpsc_waiting s) (mpsc_mutex s)"
        using held m by (simp add: wakeInv_def)
      then show ?thesis unfolding s' using CCas \<open>q = []\<close> by (intro plain_step [OF inv]) simp_all
    next
      case False
      then have "mpsc_tail s \<noteq> 1" using one CCas by auto
      then have "wakeInv (mpsc_tail s) (CReload sleeping) (producers s) (mpsc_waiting s) Free"
        using m held by (simp add: wakeInv_def)
      moreover have "s' = s\<lparr>mpsc_tail := mpsc_tail s, mpsc_waiting := mpsc_waiting s, mpsc_mutex := Free, theConsumer := CReload sleeping\<rparr>"
        using step CCas False by (simp add: awaitStep_def)
      ultimately show ?thesis using CCas by (simp only:) (intro plain_step [OF inv _ _ tl]; simp)
    qed
  next
    case CWait
    have "mpsc_mutex s = ByConsumer" "mpsc_waiting s" using wakeInvD(4,5) [OF w] CWait by auto
    then have "wakeInv (mpsc_tail s) CSleep (producers s) (mpsc_waiting s) Free"
      using wakeInvD(2,6) [OF w] CWait by (simp add: wakeInv_def)
    moreover have "s' = s\<lparr>mpsc_tail := mpsc_tail s, mpsc_waiting := mpsc_waiting s, mpsc_mutex := Free, theConsumer := CSleep\<rparr>"
      using step CWait by (simp add: awaitStep_def)
    ultimately show ?thesis using CWait by (simp only:) (intro plain_step [OF inv _ _ tl]; simp)
  next
    case CSleep
    then show ?thesis using step quiet [of CWake] by (auto simp: awaitStep_def split: if_splits)
  next
    case CWake
    then show ?thesis using step quiet [of "CReload True"] by (auto simp: awaitStep_def split: if_splits)
  next
    case (CReload sleeping)
    then show ?thesis using step one quiet [of "CLoop sleeping"] take_start [OF inv] by (auto simp: awaitStep_def split: if_splits)
  qed (use step in \<open>simp_all add: awaitStep_def\<close>)
qed

lemma call_inv:
  assumes inv: "mpscInv s t q" and step: "dequeueAllCall w s = Some s' \<or> abandonCall s = Some s'"
  shows "mpscInv s' t q"
proof -
  have w: "wakeInv (mpsc_tail s) (theConsumer s) (producers s) (mpsc_waiting s) (mpsc_mutex s)" using inv by (simp add: mpscInv_def)
  obtain c' where c: "theConsumer s = CIdle" "s' = s\<lparr>theConsumer := c'\<rparr>" "c' = CLoad w \<or> c' = AStart"
    using step by (auto simp: dequeueAllCall_def abandonCall_def split: if_splits)
  have "wakeInv (mpsc_tail s) c' (producers s) (mpsc_waiting s) (mpsc_mutex s)"
    using c wakeInvD(1) [OF w] by (intro wakeInv_quiet [OF w]) auto
  then show ?thesis unfolding c(2) using inv c plain_inv [of "theConsumer s" c'] unfolding mpscInv_def by auto
qed

lemma abandonStep_inv:
  assumes inv: "mpscInv s t q" and step: "abandonStep s = Some s'"
  shows "mpscInv s' t q"
proof -
  have w: "wakeInv (mpsc_tail s) (theConsumer s) (producers s) (mpsc_waiting s) (mpsc_mutex s)" using inv by (simp add: mpscInv_def)
  have tl: "if q = [] then mpsc_tail s \<le> 2 else mpsc_tail s = last q" using inv by (simp add: mpscInv_def)
  show ?thesis
  proof (cases "theConsumer s")
    case AStart
    have ne: "mpsc_tail s \<noteq> 1" using wakeInvD(1) [OF w] AStart by auto
    have q: "wakeInv tl0 c' (producers s) (mpsc_waiting s) (mpsc_mutex s)" if "c' = CIdle \<or> c' = ASpin" "tl0 \<noteq> 1" for c' tl0
      using wakeInvD(4-6) [OF w] AStart that by (auto simp: wakeInv_def)
    show ?thesis
    proof (cases "mpsc_tail s = 0")
      case True
      then have "q = []" using tailInv_empty [OF inv] by simp
      have "s' = s\<lparr>mpsc_tail := 2, mpsc_waiting := mpsc_waiting s, mpsc_mutex := mpsc_mutex s, theConsumer := CIdle\<rparr>"
        using step AStart True by (simp add: abandonStep_def)
      moreover have "mpscInv (s\<lparr>mpsc_tail := 2, mpsc_waiting := mpsc_waiting s, mpsc_mutex := mpsc_mutex s, theConsumer := CIdle\<rparr>) t q"
        using AStart \<open>q = []\<close> by (intro plain_step [OF inv] q) simp_all
      ultimately show ?thesis by (simp only:)
    next
      case False
      then have "s' = s\<lparr>mpsc_tail := mpsc_tail s, mpsc_waiting := mpsc_waiting s, mpsc_mutex := mpsc_mutex s, theConsumer := ASpin\<rparr>"
        using step AStart by (simp add: abandonStep_def)
      moreover have "mpscInv (s\<lparr>mpsc_tail := mpsc_tail s, mpsc_waiting := mpsc_waiting s, mpsc_mutex := mpsc_mutex s, theConsumer := ASpin\<rparr>) t q"
        using AStart ne by (intro plain_step [OF inv _ _ tl] q) simp_all
      ultimately show ?thesis by (simp only:)
    qed
  next
    case ASpin
    then show ?thesis using step inv take_start [OF inv] by (auto simp: abandonStep_def split: if_splits)
  qed (use step in \<open>simp_all add: abandonStep_def\<close>)
qed

lemma adj_snoc_iff: "adj (l @ [y]) a b \<longleftrightarrow> adj l a b \<or> l \<noteq> [] \<and> a = last l \<and> b = y"
proof (induction l)
  case Nil
  then show ?case by (simp add: adj_Cons)
next
  case (Cons x l)
  then show ?case by (cases l) (auto simp: adj_Cons)
qed

lemma adj_append_Cons: "w \<noteq> [] \<Longrightarrow> adj (u @ x # w) x (hd w)"
  unfolding adj_def by (intro exI [of _ u] exI [of _ "tl w"]) simp

lemma return_pend:
  assumes pd: "pendInv nx h0 c prods t q" and s: "solid nx t" "\<forall>x \<in> set t. 2 < x"
  shows "pendInv nx h0 c prods [] q"
proof -
  have "\<not> adj t u x" if "nx u = 0" for u x using s that adj_in(2) [of t u x] by (auto simp: solid_def)
  then show ?thesis using pd unfolding pendInv_def by (simp cong: if_cong conj_cong)
qed

lemma takeStep_inv:
  assumes inv: "mpscInv s t q" and step: "takeStep s = Some s'"
  shows "\<exists>t' q'. mpscInv s' t' q'"
proof -
  have own: "ownInv (mpsc_next s) (producers s) (owned s) t q" and head: "headInv (mpsc_head s) (theConsumer s) (producers s) q"
    and pd: "pendInv (mpsc_next s) (mpsc_head s) (theConsumer s) (producers s) t q" and q: "chainOk (mpsc_next s) (pend (producers s)) q"
    and t: "chainOk (mpsc_next s) (pend (producers s)) t" and walk: "walkInv (mpsc_next s) (theConsumer s) t" and en: "entered s = delivered s @ t @ q"
    and w: "wakeInv (mpsc_tail s) (theConsumer s) (producers s) (mpsc_waiting s) (mpsc_mutex s)"
    using inv by (simp_all add: mpscInv_def)
  show ?thesis
  proof (cases "theConsumer s")
    case (CTake h ab)
    then have s': "s' = s\<lparr>mpsc_head := 0, theConsumer := CExchange h ab\<rparr>" using step by (simp add: takeStep_def)
    have tk: "taking (theConsumer s)" using CTake by (auto simp: taking_def)
    have "headInv 0 (CExchange h ab) (producers s) q" using head CTake by (auto simp: headInv_def taking_def)
    moreover have "pendInv (mpsc_next s) 0 (CExchange h ab) (producers s) t q" using pd tk by (blast intro: pendInv_taking)
    moreover have "walkInv (mpsc_next s) (CExchange h ab) t" using walk CTake by (simp add: walkInv_def)
    moreover have "wakeInv (mpsc_tail s) (CExchange h ab) (producers s) (mpsc_waiting s) (mpsc_mutex s)"
      using wakeInvD(1) [OF w] CTake by (intro wakeInv_quiet [OF w]) auto
    ultimately have "mpscInv s' t q" using inv unfolding s' mpscInv_def by simp
    then show ?thesis by blast
  next
    case (CExchange h ab)
    have qn: "q \<noteq> []" "h = hd q" "mpsc_head s = 0" using head CExchange by (auto simp: headInv_def)
    have tn: "t = []" using walk CExchange by (simp add: walkInv_def)
    have tk: "taking (theConsumer s)" using CExchange by (auto simp: taking_def)
    have tl: "\<not> mpsc_tail s \<le> 2" "mpsc_tail s = last q" using tailInv_empty [OF inv] inv qn(1) by (auto simp: mpscInv_def)
    define c' where "c' = CWalk h [] h (last q) ab"
    have s': "s' = s\<lparr>mpsc_tail := (if ab then 2 else 0), theConsumer := c'\<rparr>" using step CExchange tl by (simp add: takeStep_def c'_def)
    have "ownInv (mpsc_next s) (producers s) (owned s) q []" using own tn by (simp add: ownInv_def)
    moreover have "headInv (mpsc_head s) c' (producers s) []" using qn(3) by (simp add: headInv_def taking_def c'_def)
    moreover have "pendInv (mpsc_next s) (mpsc_head s) c' (producers s) q []"
      using pd tk tn by (intro pendInv_taking [OF pd]) auto
    moreover have "walkInv (mpsc_next s) c' q" using qn by (cases q) (auto simp: walkInv_def c'_def solid_def adj_Cons)
    moreover have "wakeInv (if ab then 2 else 0) c' (producers s) (mpsc_waiting s) (mpsc_mutex s)"
      using wakeInvD(4-6) [OF w] CExchange by (auto simp: wakeInv_def c'_def)
    ultimately have "mpscInv s' q []" using en tn q unfolding s' mpscInv_def by simp
    then show ?thesis by blast
  next
    case (CWalk h seen x stop ab)
    obtain r where r: "t = seen @ x # r" "stop = last t" "h = hd t" "solid (mpsc_next s) (seen @ [x])" using walk CWalk by (auto simp: walkInv_def)
    have dist: "distinct t" and big: "\<forall>y \<in> set t. 2 < y" using own by (simp_all add: ownInv_def)
    show ?thesis
    proof (cases "x = stop")
      case False
      then have rn: "r \<noteq> []" using r(1,2) by auto
      show ?thesis
      proof (cases "mpsc_next s x = 0")
        case True
        then show ?thesis using step CWalk False inv by (auto simp: takeStep_def)
      next
        case nz: False
        have s': "s' = s\<lparr>theConsumer := CWalk h (seen @ [x]) (mpsc_next s x) stop ab\<rparr>" using step CWalk False nz by (simp add: takeStep_def)
        have "adj t x (hd r)" unfolding r(1) using rn by (rule adj_append_Cons)
        from chainOk_adj [OF t this] have nx: "mpsc_next s x = hd r" using nz by simp
        have "solid (mpsc_next s) ((seen @ [x]) @ [hd r])" using r(4) nx unfolding solid_def adj_snoc_iff [of "seen @ [x]"] by auto
        then have "walkInv (mpsc_next s) (CWalk h (seen @ [x]) (mpsc_next s x) stop ab) t"
          unfolding walkInv_def nx using r rn by (auto intro: exI [of _ "tl r"])
        moreover have "headInv (mpsc_head s) (CWalk h (seen @ [x]) (mpsc_next s x) stop ab) (producers s) q"
          "pendInv (mpsc_next s) (mpsc_head s) (CWalk h (seen @ [x]) (mpsc_next s x) stop ab) (producers s) t q"
          using head pd CWalk by (simp_all add: headInv_def pendInv_def taking_def)
        moreover have "wakeInv (mpsc_tail s) (CWalk h (seen @ [x]) (mpsc_next s x) stop ab) (producers s) (mpsc_waiting s) (mpsc_mutex s)"
          using wakeInvD(1) [OF w] CWalk by (intro wakeInv_quiet [OF w]) auto
        ultimately have "mpscInv s' t q" using inv unfolding s' mpscInv_def by simp
        then show ?thesis by blast
      qed
    next
      case True
      have "r = []"
      proof (rule ccontr)
        assume "r \<noteq> []"
        then have "x = last r" using True r(1,2) by simp
        then show False using dist r(1) last_in_set [OF \<open>r \<noteq> []\<close>] by auto
      qed
      then have t': "t = seen @ [x]" using r(1) by simp
      have s': "s' = s\<lparr>theConsumer := CIdle, delivered := delivered s @ t, owned := owned s \<union> set t\<rparr>" using step CWalk True t' by (simp add: takeStep_def)
      have "ownInv (mpsc_next s) (producers s) (owned s \<union> set t) [] q"
        using own unfolding ownInv_def by auto
      moreover have "headInv (mpsc_head s) CIdle (producers s) q" using head CWalk by (simp add: headInv_def taking_def)
      moreover have "pendInv (mpsc_next s) (mpsc_head s) CIdle (producers s) [] q"
      proof -
        have "pendInv (mpsc_next s) (mpsc_head s) CIdle (producers s) t q" using pd CWalk by (simp add: pendInv_def taking_def)
        then show ?thesis using r(4) big unfolding t' [symmetric] by (rule return_pend)
      qed
      moreover have "walkInv (mpsc_next s) CIdle []" by (simp add: walkInv_def)
      moreover have "wakeInv (mpsc_tail s) CIdle (producers s) (mpsc_waiting s) (mpsc_mutex s)"
        using wakeInvD(1) [OF w] CWalk by (intro wakeInv_quiet [OF w]) auto
      ultimately have "mpscInv s' [] q" using inv unfolding s' mpscInv_def by simp
      then show ?thesis by blast
    qed
  qed (use step in \<open>simp_all add: takeStep_def\<close>)
qed

lemma mpscReachable_inv: "mpscReachable xs s \<Longrightarrow> \<exists>t q. mpscInv s t q"
proof (induction rule: mpscReachable.induct)
  case (reachable_init xs)
  then show ?case using mpscInv_init by blast
next
  case (reachable_step xs s s')
  then obtain t q where inv: "mpscInv s t q" by blast
  from reachable_step(2) show ?case
  proof cases
    case (step_enqueueCall p x)
    then show ?thesis using enqueueCall_inv [OF inv] by blast
  next
    case (step_enqueue p)
    then show ?thesis using enqueueStep_inv [OF inv] by blast
  next
    case (step_dequeueAllCall w)
    then show ?thesis using call_inv [OF inv] by blast
  next
    case step_abandonCall
    then show ?thesis using call_inv [OF inv] by blast
  next
    case (step_await choice)
    then show ?thesis using awaitStep_inv [OF inv] by blast
  next
    case step_abandon
    then show ?thesis using abandonStep_inv [OF inv] by blast
  next
    case step_take
    then show ?thesis using takeStep_inv [OF inv] by blast
  qed
qed

section \<open>Properties\<close>

lemma solid_path: "solid nx l \<Longrightarrow> l \<noteq> [] \<Longrightarrow> nx (last l) = 0 \<Longrightarrow> 0 \<notin> set l \<Longrightarrow> path nx (hd l) l 0"
proof (induction l)
  case (Cons x l)
  show ?case
  proof (cases "l = []")
    case True
    then show ?thesis using Cons.prems by simp
  next
    case False
    then have "nx x = hd l" "solid nx l" using Cons.prems(1) by (auto simp: solid_def adj_Cons)
    then show ?thesis using Cons False by simp
  qed
qed simp

lemma chainOk_solid: "chainOk nx P l \<Longrightarrow> (\<And>a b. adj l a b \<Longrightarrow> \<not> P a b) \<Longrightarrow> solid nx l"
  using chainOk_adj unfolding solid_def by blast

text \<open>
  C10: The queue is first in, first out. In every reachable state the elements in the order in which their enqueue operations
  exchanged the tail are the delivered elements, then those the consumer is taking, then those in the queue; the test for
  emptiness says whether the last part is empty; and with no operation in progress the links from the head lead through
  exactly the elements in the queue.
\<close>

theorem mpsc_fifo:
  assumes "mpscReachable xs s"
  shows "\<exists>t q. entered s = delivered s @ t @ q \<and> (ncclIntruQueueMpscEmpty s \<longleftrightarrow> q = []) \<and> (theConsumer s = CIdle \<longrightarrow> t = []) \<and>
    (theConsumer s = CIdle \<longrightarrow> (\<forall>p. producers s p = PIdle) \<longrightarrow> path (mpsc_next s) (mpsc_head s) q 0)"
proof -
  obtain t q where inv: "mpscInv s t q" using mpscReachable_inv [OF assms] by blast
  have "t = []" if "theConsumer s = CIdle" using inv that by (simp add: mpscInv_def walkInv_def)
  moreover have "path (mpsc_next s) (mpsc_head s) q 0" if c: "theConsumer s = CIdle" and p: "\<forall>p. producers s p = PIdle"
  proof (cases "q = []")
    case True
    then show ?thesis using inv c by (simp add: mpscInv_def headInv_def taking_def)
  next
    case False
    have chain: "chainOk (mpsc_next s) (pend (producers s)) q" and big: "0 \<notin> set q" using inv by (auto simp: mpscInv_def ownInv_def)
    have sol: "solid (mpsc_next s) q" using chain p by (intro chainOk_solid [of _ "pend (producers s)"]) (auto simp: pend_def)
    have "mpsc_head s = hd q" using inv c p False by (auto simp: mpscInv_def headInv_def taking_def)
    then show ?thesis using solid_path [OF sol False chainOk_last [OF chain False] big] by simp
  qed
  ultimately show ?thesis using inv tailInv_empty [OF inv] unfolding mpscInv_def ncclIntruQueueMpscEmpty_def by blast
qed

text \<open>A state with one element in the queue and one on its way.\<close>

definition exampleState :: mpsc where
  "exampleState = \<lparr>mpsc_head = 5, mpsc_tail = 7, mpsc_waiting = False, mpsc_next = (\<lambda>_. 0)(5 := 0, 7 := 0), mpsc_mutex = Free,
     producers = (\<lambda>_. PIdle)(0 := PIdle, 1 := PLink 7 5), theConsumer = CIdle, owned = {5, 7} - {5} - {7}, entered = [5, 7], delivered = [], refused = []\<rparr>"

lemma example_reachable: "mpscReachable {5, 7} exampleState"
proof -
  define s1 where "s1 = (ncclIntruQueueMpscConstruct {5, 7})\<lparr>mpsc_next := (\<lambda>_. 0)(5 := 0), producers := (\<lambda>_. PIdle)(0 := PExchange 5), owned := {5, 7} - {5}\<rparr>"
  define s2 where "s2 = s1\<lparr>mpsc_tail := 5, producers := (producers s1)(0 := PLink 5 0), entered := [5]\<rparr>"
  define s3 where "s3 = s2\<lparr>mpsc_head := 5, producers := (producers s2)(0 := PIdle)\<rparr>"
  define s4 where "s4 = s3\<lparr>mpsc_next := (mpsc_next s3)(7 := 0), producers := (producers s3)(1 := PExchange 7), owned := owned s3 - {7}\<rparr>"
  note init = ncclIntruQueueMpscConstruct_def
  have "enqueueCall 0 5 (ncclIntruQueueMpscConstruct {5, 7}) = Some s1" by (simp add: enqueueCall_def init s1_def)
  then have r1: "mpscReachable {5, 7} s1" using reachable_init reachable_step step_enqueueCall by blast
  have "enqueueStep 0 s1 = Some s2" by (simp add: enqueueStep_def s1_def s2_def init)
  then have r2: "mpscReachable {5, 7} s2" using r1 reachable_step step_enqueue by blast
  have "enqueueStep 0 s2 = Some s3" by (simp add: enqueueStep_def s1_def s2_def s3_def init)
  then have r3: "mpscReachable {5, 7} s3" using r2 reachable_step step_enqueue by blast
  have "enqueueCall 1 7 s3 = Some s4" by (simp add: enqueueCall_def s1_def s2_def s3_def s4_def init)
  then have r4: "mpscReachable {5, 7} s4" using r3 reachable_step step_enqueueCall by blast
  have "enqueueStep 1 s4 = Some exampleState" by (simp add: enqueueStep_def s1_def s2_def s3_def s4_def init exampleState_def)
  then show ?thesis using r4 reachable_step step_enqueue by blast
qed

text \<open>The state after the element on its way is linked.\<close>

definition linkedState :: mpsc where
  "linkedState = exampleState\<lparr>mpsc_next := (mpsc_next exampleState)(5 := 7), producers := (producers exampleState)(1 := PIdle)\<rparr>"

lemma linked_reachable: "mpscReachable {5, 7} linkedState"
proof -
  have "enqueueStep 1 exampleState = Some linkedState" by (simp add: enqueueStep_def exampleState_def linkedState_def)
  then show ?thesis using example_reachable reachable_step step_enqueue by blast
qed

theorem mpsc_fifo_witness:
  "mpscReachable {5, 7} linkedState \<and> theConsumer linkedState = CIdle \<and> (\<forall>p. producers linkedState p = PIdle) \<and>
   entered linkedState = delivered linkedState @ [5, 7] \<and> \<not> ncclIntruQueueMpscEmpty linkedState \<and> path (mpsc_next linkedState) (mpsc_head linkedState) [5, 7] 0"
proof -
  have s: "theConsumer linkedState = CIdle" "\<forall>p. producers linkedState p = PIdle" "entered linkedState = [5, 7]" "delivered linkedState = []"
    by (simp_all add: linkedState_def exampleState_def)
  from mpsc_fifo [OF linked_reachable] s obtain q where "[5, 7] = q" "ncclIntruQueueMpscEmpty linkedState \<longleftrightarrow> q = []"
    "path (mpsc_next linkedState) (mpsc_head linkedState) q 0" by auto
  then show ?thesis using s linked_reachable by auto
qed

text \<open>
  C38: What the consumer hands over is a complete list. When an operation of the consumer returns elements, following the
  links from the returned head leads exactly through the next delivered elements, at least one, and ends with null.
\<close>

theorem mpsc_delivers_list:
  assumes "mpscReachable xs s" and "theConsumer s = CWalk h seen x stop ab" and "takeStep s = Some s'" and "theConsumer s' = CIdle"
  shows "\<exists>l. l \<noteq> [] \<and> delivered s' = delivered s @ l \<and> path (mpsc_next s') h l 0"
proof -
  obtain t q where inv: "mpscInv s t q" using mpscReachable_inv [OF assms(1)] by blast
  have x: "x = stop" and s': "delivered s' = delivered s @ seen @ [x]" "mpsc_next s' = mpsc_next s"
    using assms(2-4) by (auto simp: takeStep_def split: if_splits)
  obtain r where r: "t = seen @ x # r" "stop = last t" "h = hd t" "solid (mpsc_next s) (seen @ [x])"
    using inv assms(2) by (auto simp: mpscInv_def walkInv_def)
  have dist: "distinct t" and big: "0 \<notin> set t" and chain: "chainOk (mpsc_next s) (pend (producers s)) t"
    using inv by (auto simp: mpscInv_def ownInv_def)
  have "r = []" using x r(1,2) dist by (cases r) (auto dest: last_in_set split: if_splits)
  then have t: "t = seen @ [x]" using r(1) by simp
  have "path (mpsc_next s) h t 0"
    unfolding r(3) using r(4) big chainOk_last [OF chain] unfolding t by (intro solid_path) auto
  then show ?thesis using s' unfolding t by (intro exI [of _ "seen @ [x]"]) simp
qed

lemma example_walk:
  "mpscReachable {5, 7} (exampleState\<lparr>mpsc_next := (mpsc_next exampleState)(5 := 7), producers := (producers exampleState)(1 := PIdle),
     mpsc_head := 0, mpsc_tail := 0, theConsumer := CWalk 5 [5] 7 7 False\<rparr>)"
proof -
  define s1 where "s1 = exampleState\<lparr>mpsc_next := (mpsc_next exampleState)(5 := 7), producers := (producers exampleState)(1 := PIdle)\<rparr>"
  have r1: "mpscReachable {5, 7} s1" unfolding s1_def by (rule linked_reachable [unfolded linkedState_def])
  have "dequeueAllCall False s1 = Some (s1\<lparr>theConsumer := CLoad False\<rparr>)" by (simp add: dequeueAllCall_def s1_def exampleState_def)
  then have r2: "mpscReachable {5, 7} (s1\<lparr>theConsumer := CLoad False\<rparr>)" using r1 reachable_step step_dequeueAllCall by blast
  have "awaitStep False (s1\<lparr>theConsumer := CLoad False\<rparr>) = Some (s1\<lparr>theConsumer := CTake 5 False\<rparr>)" by (simp add: awaitStep_def s1_def exampleState_def)
  then have r3: "mpscReachable {5, 7} (s1\<lparr>theConsumer := CTake 5 False\<rparr>)" using r2 reachable_step step_await by blast
  have "takeStep (s1\<lparr>theConsumer := CTake 5 False\<rparr>) = Some (s1\<lparr>mpsc_head := 0, theConsumer := CExchange 5 False\<rparr>)" by (simp add: takeStep_def)
  then have r4: "mpscReachable {5, 7} (s1\<lparr>mpsc_head := 0, theConsumer := CExchange 5 False\<rparr>)" using r3 reachable_step step_take by blast
  have "takeStep (s1\<lparr>mpsc_head := 0, theConsumer := CExchange 5 False\<rparr>) = Some (s1\<lparr>mpsc_head := 0, mpsc_tail := 0, theConsumer := CWalk 5 [] 5 7 False\<rparr>)"
    by (simp add: takeStep_def s1_def exampleState_def)
  then have r5: "mpscReachable {5, 7} (s1\<lparr>mpsc_head := 0, mpsc_tail := 0, theConsumer := CWalk 5 [] 5 7 False\<rparr>)" using r4 reachable_step step_take by blast
  have "takeStep (s1\<lparr>mpsc_head := 0, mpsc_tail := 0, theConsumer := CWalk 5 [] 5 7 False\<rparr>) = Some (s1\<lparr>mpsc_head := 0, mpsc_tail := 0, theConsumer := CWalk 5 [5] 7 7 False\<rparr>)"
    by (simp add: takeStep_def s1_def exampleState_def)
  then have "mpscReachable {5, 7} (s1\<lparr>mpsc_head := 0, mpsc_tail := 0, theConsumer := CWalk 5 [5] 7 7 False\<rparr>)" using r5 reachable_step step_take by blast
  then show ?thesis by (simp add: s1_def)
qed

theorem mpsc_delivers_list_witness:
  "\<exists>l s'. takeStep (exampleState\<lparr>mpsc_next := (mpsc_next exampleState)(5 := 7), producers := (producers exampleState)(1 := PIdle),
     mpsc_head := 0, mpsc_tail := 0, theConsumer := CWalk 5 [5] 7 7 False\<rparr>) = Some s' \<and> delivered s' = l \<and> path (mpsc_next s') 5 l 0"
proof -
  let ?s = "exampleState\<lparr>mpsc_next := (mpsc_next exampleState)(5 := 7), producers := (producers exampleState)(1 := PIdle),
     mpsc_head := 0, mpsc_tail := 0, theConsumer := CWalk 5 [5] 7 7 False\<rparr>"
  have step: "takeStep ?s = Some (?s\<lparr>theConsumer := CIdle, delivered := delivered ?s @ [5] @ [7], owned := owned ?s \<union> set ([5] @ [7])\<rparr>)" by (simp add: takeStep_def)
  have "theConsumer ?s = CWalk 5 [5] 7 7 False" by simp
  from mpsc_delivers_list [OF example_walk this step] show ?thesis unfolding step by (auto simp: exampleState_def)
qed

text \<open>The consumer cannot go on until a producer has done something.\<close>

definition stalled :: "mpsc \<Rightarrow> bool" where
  "stalled s \<longleftrightarrow> theConsumer s = CSleep \<and> mpsc_tail s \<noteq> 1 \<or> (\<exists>h seen x stop ab. theConsumer s = CWalk h seen x stop ab \<and> x \<noteq> stop \<and> mpsc_next s x = 0) \<or>
     (\<exists>b. theConsumer s = CReload b \<or> theConsumer s = CLoop b \<or> theConsumer s = ASpin) \<and> mpsc_head s = 0 \<and> \<not> ncclIntruQueueMpscEmpty s"

lemma active_producer:
  assumes "wakeInv (mpsc_tail s) (theConsumer s) (producers s) (mpsc_waiting s) (mpsc_mutex s)" "mpsc_mutex s \<noteq> ByConsumer" "producers s p \<noteq> PIdle"
  shows "\<exists>p s'. enqueueStep p s = Some s'"
proof (cases "mpsc_mutex s")
  case Free
  have "mpsc_waiting s" if "producers s p = PLock" using wakeInvD(4) [OF assms(1)] that by (auto simp: wakers_def)
  then have "enqueueStep p s \<noteq> None" using assms(3) Free by (cases "producers s p") (simp_all add: enqueueStep_def Let_def)
  then show ?thesis by blast
next
  case (ByProducer p')
  then have "producers s p' = PHeld" using wakeInvD(6) [OF assms(1)] by blast
  then have "enqueueStep p' s = Some (s\<lparr>mpsc_mutex := Free, producers := (producers s)(p' := PNotify)\<rparr>)" by (simp add: enqueueStep_def)
  then show ?thesis by blast
qed (use assms in simp)

text \<open>
  C11: No wake-up is lost and nobody waits in vain. In every reachable state in which the consumer cannot go on although
  elements entered the queue, be it asleep, spinning for the head or spinning for a link, a producer is in the middle of
  an operation and some producer can do its next step; and a producer that is to wake the consumer finds where to signal.
\<close>

theorem mpsc_progress:
  assumes "mpscReachable xs s"
  shows "(stalled s \<longrightarrow> (\<exists>p. producers s p \<noteq> PIdle) \<and> (\<exists>p s'. enqueueStep p s = Some s')) \<and> (\<forall>p. producers s p = PLock \<longrightarrow> mpsc_waiting s)"
proof -
  obtain t q where inv: "mpscInv s t q" using mpscReachable_inv [OF assms] by blast
  have w: "wakeInv (mpsc_tail s) (theConsumer s) (producers s) (mpsc_waiting s) (mpsc_mutex s)" using inv by (simp add: mpscInv_def)
  have active: "(\<exists>p. producers s p \<noteq> PIdle) \<and> mpsc_mutex s \<noteq> ByConsumer" if st: "stalled s"
  proof -
    consider "theConsumer s = CSleep" "mpsc_tail s \<noteq> 1" | h seen x stop ab where "theConsumer s = CWalk h seen x stop ab" "x \<noteq> stop" "mpsc_next s x = 0"
      | b where "theConsumer s = CReload b \<or> theConsumer s = CLoop b \<or> theConsumer s = ASpin" "mpsc_head s = 0" "\<not> ncclIntruQueueMpscEmpty s"
      using st unfolding stalled_def by blast
    then show ?thesis
    proof cases
      case 1
      then have "wakers (producers s) \<noteq> {} \<or> (\<exists>p. producers s p = PHeld \<or> producers s p = PNotify)" using wakeInvD(3) [OF w] by blast
      then obtain p where "producers s p \<noteq> PIdle" unfolding wakers_def by force
      then show ?thesis using wakeInvD(5) [OF w] 1(1) by auto
    next
      case (2 h seen x stop ab)
      then obtain r where r: "t = seen @ x # r" "stop = last t" using inv by (auto simp: mpscInv_def walkInv_def)
      then have "r \<noteq> []" using 2(2) by auto
      then have a: "adj t x (hd r)" unfolding r(1) by (rule adj_append_Cons)
      have "chainOk (mpsc_next s) (pend (producers s)) t" and "0 \<notin> set t" using inv by (auto simp: mpscInv_def ownInv_def)
      then have "pend (producers s) x (hd r)" using chainOk_adj [OF _ a] adj_in(2) [OF a] 2(3) by metis
      then obtain p where "producers s p = PLink (hd r) x" by (auto simp: pend_def)
      then have "producers s p \<noteq> PIdle" by simp
      then show ?thesis using wakeInvD(5) [OF w] 2(1) by auto
    next
      case (3 b)
      then have q: "q \<noteq> []" using tailInv_empty [OF inv] by (simp add: ncclIntruQueueMpscEmpty_def)
      have "\<forall>y \<in> set q. 2 < y" using inv by (simp add: mpscInv_def ownInv_def)
      then have "hd q \<noteq> 0" using hd_in_set [OF q] by force
      moreover have "\<not> taking (theConsumer s)" using 3(1) by (auto simp: taking_def)
      ultimately obtain p u where "producers s p = PLink (hd q) u" using inv q 3(2) by (auto simp: mpscInv_def headInv_def)
      then have "producers s p \<noteq> PIdle" by simp
      then show ?thesis using wakeInvD(5) [OF w] 3(1) by auto
    qed
  qed
  have "mpsc_waiting s" if "producers s p = PLock" for p using wakeInvD(4) [OF w] that by (auto simp: wakers_def)
  then show ?thesis using active active_producer [OF w] by blast
qed

lemma example_stall: "mpscReachable {5, 7} (exampleState\<lparr>mpsc_head := 0, mpsc_tail := 0, theConsumer := CWalk 5 [] 5 7 False\<rparr>)"
proof -
  have "dequeueAllCall False exampleState = Some (exampleState\<lparr>theConsumer := CLoad False\<rparr>)" by (simp add: dequeueAllCall_def exampleState_def)
  then have r2: "mpscReachable {5, 7} (exampleState\<lparr>theConsumer := CLoad False\<rparr>)" using example_reachable reachable_step step_dequeueAllCall by blast
  have "awaitStep False (exampleState\<lparr>theConsumer := CLoad False\<rparr>) = Some (exampleState\<lparr>theConsumer := CTake 5 False\<rparr>)" by (simp add: awaitStep_def exampleState_def)
  then have r3: "mpscReachable {5, 7} (exampleState\<lparr>theConsumer := CTake 5 False\<rparr>)" using r2 reachable_step step_await by blast
  have "takeStep (exampleState\<lparr>theConsumer := CTake 5 False\<rparr>) = Some (exampleState\<lparr>mpsc_head := 0, theConsumer := CExchange 5 False\<rparr>)" by (simp add: takeStep_def)
  then have r4: "mpscReachable {5, 7} (exampleState\<lparr>mpsc_head := 0, theConsumer := CExchange 5 False\<rparr>)" using r3 reachable_step step_take by blast
  have "takeStep (exampleState\<lparr>mpsc_head := 0, theConsumer := CExchange 5 False\<rparr>) = Some (exampleState\<lparr>mpsc_head := 0, mpsc_tail := 0, theConsumer := CWalk 5 [] 5 7 False\<rparr>)"
    by (simp add: takeStep_def exampleState_def)
  then show ?thesis using r4 reachable_step step_take by blast
qed

theorem mpsc_progress_witness:
  "\<exists>p s'. enqueueStep p (exampleState\<lparr>mpsc_head := 0, mpsc_tail := 0, theConsumer := CWalk 5 [] 5 7 False\<rparr>) = Some s'"
proof -
  have "stalled (exampleState\<lparr>mpsc_head := 0, mpsc_tail := 0, theConsumer := CWalk 5 [] 5 7 False\<rparr>)" by (auto simp: stalled_def exampleState_def)
  then show ?thesis using mpsc_progress [OF example_stall] by blast
qed

end
