(* ===== verification/Bitops.thy ===== *)
theory Bitops
  imports Nccl_Prelude
begin

unbundle bit_operations_syntax

text \<open>
  Integer helpers of \<^verbatim>\<open>src/src/include/bitops.h\<close>: rounding and alignment, pointer
  arithmetic in units of 4 GB, division by precomputed reciprocals, bit scans, powers of two, bit
  reversal, the 8 bit floating format for chunk sizes and the 64 bit hash.  A C++ template is
  modelled at the word type of its instances (\<open>'a word\<close>) or, for signed instances, at
  \<open>int\<close> with C's truncating division (\<open>sdiv\<close>).
\<close>

section \<open>Definitions\<close>

subsection \<open>Rounding and alignment\<close>

definition divUp :: "'a::len word \<Rightarrow> 'a word \<Rightarrow> 'a word" where
  "divUp x y = (x + y - 1) div y"

definition roundUp :: "'a::len word \<Rightarrow> 'a word \<Rightarrow> 'a word" where
  "roundUp x y = (x + y - 1) - (x + y - 1) mod y"

definition roundDown :: "'a::len word \<Rightarrow> 'a word \<Rightarrow> 'a word" where
  "roundDown x y = x - x mod y"

text \<open>The instances at signed types.\<close>

definition divUp_s :: "int \<Rightarrow> int \<Rightarrow> int" where
  "divUp_s x y = (x + y - 1) sdiv y"

definition alignUp :: "'a::ring_bit_operations \<Rightarrow> 'a \<Rightarrow> 'a" where
  "alignUp x a = (x + a - 1) AND (0 - a)"

definition alignDown :: "'a::ring_bit_operations \<Rightarrow> 'a \<Rightarrow> 'a" where
  "alignDown x a = x AND (0 - a)"

definition isPow2 :: "'a::ring_bit_operations \<Rightarrow> bool" where
  "isPow2 x \<longleftrightarrow> (x AND (x - 1)) = 0"

subsection \<open>Addresses in units of 4 GB\<close>

text \<open>The union overlays a 64 bit value with two 32 bit halves; \<^verbatim>\<open>u32[1]\<close> is the upper one.\<close>

definition u32_hi :: "u64 \<Rightarrow> u32" where
  "u32_hi x = ucast (drop_bit 32 x)"

definition u32_join :: "u32 \<Rightarrow> u64 \<Rightarrow> u64" where
  "u32_join hi x = push_bit 32 (ucast hi) OR take_bit 32 x"

definition add4G :: "u64 \<Rightarrow> u32 \<Rightarrow> u64" where
  "add4G base delta4G = u32_join (u32_hi base + delta4G) base"

definition incWrap4G :: "u64 \<Rightarrow> u32 \<Rightarrow> u32 \<Rightarrow> u32 \<Rightarrow> u64" where
  "incWrap4G ptr delta4G lo4G hi4G =
     (let h = u32_hi ptr + delta4G;
          h = (if h \<ge> hi4G then h - (hi4G - lo4G) else h)
      in u32_join h ptr)"

definition decWrap4G :: "u64 \<Rightarrow> u32 \<Rightarrow> u32 \<Rightarrow> u32 \<Rightarrow> u64" where
  "decWrap4G ptr delta4G lo4G hi4G =
     (let h = u32_hi ptr - delta4G;
          h = (if h < lo4G then h + (hi4G - lo4G) else h)
      in u32_join h ptr)"

subsection \<open>Division by a precomputed reciprocal\<close>

definition idivRcp32 :: "u32 \<Rightarrow> u32" where
  "idivRcp32 x = ucast ((0x100000000 :: u64) div ucast x)"

definition idivRcp64 :: "u64 \<Rightarrow> u64" where
  "idivRcp64 x = (-1) div x + (if isPow2 x then 1 else 0)"

definition mul32hi :: "u32 \<Rightarrow> u32 \<Rightarrow> u32" where
  "mul32hi a b = ucast (drop_bit 32 ((ucast a :: u64) * ucast b))"

definition mul64hi :: "u64 \<Rightarrow> u64 \<Rightarrow> u64" where
  "mul64hi a b = ucast (drop_bit 64 ((ucast a :: 128 word) * ucast b))"

definition imulRcp32 :: "u32 \<Rightarrow> u32 \<Rightarrow> u32 \<Rightarrow> u32 \<Rightarrow> u32" where
  "imulRcp32 x xrcp y yrcp =
     (if xrcp = 0 then yrcp
      else if yrcp = 0 then xrcp
      else let rcp = mul32hi xrcp yrcp;
               rem = 0 - x * y * rcp
           in if x * y \<le> rem then rcp + 1 else rcp)"

definition imulRcp64 :: "u64 \<Rightarrow> u64 \<Rightarrow> u64 \<Rightarrow> u64 \<Rightarrow> u64" where
  "imulRcp64 x xrcp y yrcp =
     (if xrcp = 0 then yrcp
      else if yrcp = 0 then xrcp
      else let rcp = mul64hi xrcp yrcp;
               rem = 0 - x * y * rcp
           in if x * y \<le> rem then rcp + 1 else rcp)"

definition idivmodFast32 :: "u32 \<Rightarrow> u32 \<Rightarrow> u32 \<Rightarrow> u32 \<times> u32" where
  "idivmodFast32 x y yrcp =
     (if yrcp \<noteq> 0 then
        let q = mul32hi x yrcp;
            r = x - y * q
        in if r \<ge> y then (q + 1, r - y) else (q, r)
      else (x, 0))"

definition idivmodFast64 :: "u64 \<Rightarrow> u64 \<Rightarrow> u64 \<Rightarrow> u64 \<times> u64" where
  "idivmodFast64 x y yrcp =
     (if yrcp \<noteq> 0 then
        let q = mul64hi x yrcp;
            r = x - y * q
        in if r \<ge> y then (q + 1, r - y) else (q, r)
      else (x, 0))"

definition idivFast32 :: "u32 \<Rightarrow> u32 \<Rightarrow> u32 \<Rightarrow> u32" where
  "idivFast32 x y yrcp = fst (idivmodFast32 x y yrcp)"

text \<open>The 64 bit quotient is returned as a \<^verbatim>\<open>uint32_t\<close>.\<close>

definition idivFast64 :: "u64 \<Rightarrow> u64 \<Rightarrow> u64 \<Rightarrow> u32" where
  "idivFast64 x y yrcp = ucast (fst (idivmodFast64 x y yrcp))"

definition imodFast32 :: "u32 \<Rightarrow> u32 \<Rightarrow> u32 \<Rightarrow> u32" where
  "imodFast32 x y yrcp = snd (idivmodFast32 x y yrcp)"

definition imodFast64 :: "u64 \<Rightarrow> u64 \<Rightarrow> u64 \<Rightarrow> u64" where
  "imodFast64 x y yrcp = snd (idivmodFast64 x y yrcp)"

section \<open>Correctness\<close>

unbundle bit_operations_syntax

lemma unat_divUp:
  fixes x y :: "'a::len word"
  assumes "y \<noteq> 0" and "unat x + unat y \<le> 2 ^ LENGTH('a)"
  shows "unat (divUp x y) = (unat x + unat y - 1) div unat y"
proof -
  have y: "unat y > 0"
    using assms(1) by (simp add: unat_gt_0)
  have "unat (x + y - 1) = unat x + unat y - 1"
  proof -
    have "unat (x + (y - 1)) = unat x + unat (y - 1)"
      using assms y by (subst unat_plus_if') (auto simp: unat_minus_one)
    then show ?thesis
      using assms(1) y by (simp add: unat_minus_one add_diff_eq)
  qed
  then show ?thesis
    by (simp add: divUp_def unat_div_distrib)
qed

lemma alignUp_int_eq: "alignUp (x::int) (2 ^ k) = (x + 2 ^ k - 1) - (x + 2 ^ k - 1) mod 2 ^ k"
  by (simp add: alignUp_def int_and_minus_pow2)

lemma alignUp_int_bounds:
  "x \<le> alignUp (x::int) (2 ^ k) \<and> alignUp x (2 ^ k) < x + 2 ^ k \<and> 2 ^ k dvd alignUp x (2 ^ k)"
proof -
  have "0 \<le> (x + 2 ^ k - 1) mod 2 ^ k" "(x + 2 ^ k - 1) mod 2 ^ k < 2 ^ k" by simp_all
  moreover have "2 ^ k dvd (x + 2 ^ k - 1) - (x + 2 ^ k - 1) mod 2 ^ k"
    by (rule dvd_minus_mod)
  ultimately show ?thesis unfolding alignUp_int_eq by linarith
qed

lemma unat_alignUp:
  fixes x :: "'a::len word"
  assumes "k < LENGTH('a)" and "unat x + 2 ^ k \<le> 2 ^ LENGTH('a)"
  shows "unat (alignUp x (2 ^ k)) = (unat x + 2 ^ k - 1) - (unat x + 2 ^ k - 1) mod 2 ^ k"
proof -
  have p: "unat (2 ^ k :: 'a word) = 2 ^ k"
    using assms(1) by (rule unat_pow2)
  then have nz: "(2 ^ k :: 'a word) \<noteq> 0" by (metis power_not_zero unsigned_0 zero_neq_numeral)
  have "unat (x + (2 ^ k - 1)) = unat x + (2 ^ k - 1)"
    using assms p nz by (subst unat_plus_if') (auto simp: unat_minus_one)
  then have "unat (x + 2 ^ k - 1) = unat x + 2 ^ k - 1"
    by (simp add: add_diff_eq)
  then show ?thesis
    by (simp add: alignUp_def unat_and_minus_pow2)
qed

lemma unat_alignDown: "unat (alignDown x (2 ^ k) :: 'a::len word) = unat x - unat x mod 2 ^ k"
  by (simp add: alignDown_def unat_and_minus_pow2)

lemma round_nat_props:
  fixes x m :: nat
  assumes "0 < m"
  defines "r \<equiv> (x + m - 1) - (x + m - 1) mod m"
  shows "x \<le> r" and "r < x + m" and "m dvd r"
proof -
  have "(x + m - 1) mod m < m" using assms(1) by simp
  then show "x \<le> r" unfolding r_def by linarith
  show "r < x + m" unfolding r_def using assms(1) by linarith
  show "m dvd r" unfolding r_def by (rule dvd_minus_mod)
qed

lemma rcp_quotient_bounds:
  fixes N x y :: nat
  assumes "0 < y" "x < N"
  defines "q \<equiv> x * (N div y) div N"
  shows "q \<le> x div y" and "x div y \<le> q + 1"
proof -
  have N: "0 < N" using assms(2) by simp
  have "y * q * N \<le> y * (x * (N div y))"
    unfolding q_def by (simp add: mult.assoc)
  also have "\<dots> \<le> x * N"
    by (metis mult.left_commute mult_le_mono2 times_div_less_eq_dividend)
  finally have "y * q \<le> x" using N by simp
  then show "q \<le> x div y"
    using assms(1) by (simp add: less_eq_div_iff_mult_less_eq mult.commute)
  have "x * (N div y) < N * (q + 1)"
    unfolding q_def using N by (simp add: dividend_less_times_div)
  then have a: "y * (x * (N div y)) < y * (N * (q + 1))"
    using assms(1) by simp
  have "N \<le> y * (N div y) + (y - 1)"
    using mod_less_divisor [OF assms(1), of N] mult_div_mod_eq [of y N] by linarith
  then have "x * N \<le> x * (y * (N div y) + (y - 1))" by simp
  also have "\<dots> = y * (x * (N div y)) + x * (y - 1)"
    by (simp add: algebra_simps)
  also have "\<dots> < y * (N * (q + 1)) + N * y"
    using a assms(1,2) by (intro add_less_le_mono mult_le_mono) simp_all
  also have "\<dots> = (y * (q + 2)) * N" by (simp add: algebra_simps)
  finally have "x < y * (q + 2)" using N by simp
  then have "x div y < q + 2"
    using assms(1) by (simp add: div_less_iff_less_mult mult.commute)
  then show "x div y \<le> q + 1" by simp
qed

lemma unat_mul32hi: "unat (mul32hi a b) = unat a * unat b div 2 ^ 32"
proof -
  have ab: "unat a * unat b < 2 ^ 64"
    using mult_strict_mono [of "unat a" "2 ^ 32" "unat b" "2 ^ 32"] unsigned_less [of a] unsigned_less [of b] by simp
  then have "unat ((ucast a :: u64) * ucast b) = unat a * unat b"
    by (simp add: unat_word_ariths unat_ucast_up)
  then have "unat (drop_bit 32 ((ucast a :: u64) * ucast b)) = unat a * unat b div 2 ^ 32"
    by (simp only: unat_drop_bit)
  moreover have "unat a * unat b div 2 ^ 32 < 2 ^ 32"
    using ab by (simp add: div_less_iff_less_mult)
  ultimately show ?thesis
    by (simp add: mul32hi_def unat_ucast_mod)
qed

lemma unat_mul64hi: "unat (mul64hi a b) = unat a * unat b div 2 ^ 64"
proof -
  have ab: "unat a * unat b < 2 ^ 128"
    using mult_strict_mono [of "unat a" "2 ^ 64" "unat b" "2 ^ 64"] unsigned_less [of a] unsigned_less [of b] by simp
  then have "unat ((ucast a :: 128 word) * ucast b) = unat a * unat b"
    by (simp add: unat_word_ariths unat_ucast_up)
  then have "unat (drop_bit 64 ((ucast a :: 128 word) * ucast b)) = unat a * unat b div 2 ^ 64"
    by (simp only: unat_drop_bit)
  moreover have "unat a * unat b div 2 ^ 64 < 2 ^ 64"
    using ab by (simp add: div_less_iff_less_mult)
  ultimately show ?thesis
    by (simp add: mul64hi_def unat_ucast_mod)
qed

lemma idivRcp32_eq: "1 < unat y \<Longrightarrow> unat (idivRcp32 y) = 2 ^ 32 div unat y"
proof -
  assume y: "1 < unat y"
  then have "2 ^ 32 div unat y < (2 ^ 32 :: nat)"
    by (intro div_less_dividend) simp_all
  moreover have "unat ((0x100000000 :: u64) div ucast y) = 2 ^ 32 div unat y"
    by (simp add: unat_div_distrib unat_ucast_up)
  ultimately show ?thesis
    by (simp add: idivRcp32_def unat_ucast_mod)
qed

lemma idivRcp32_one: "idivRcp32 1 = 0"
  by (simp add: idivRcp32_def)

lemma idivRcp32_zero_iff: "y \<noteq> 0 \<Longrightarrow> idivRcp32 y = 0 \<longleftrightarrow> y = 1"
proof -
  assume "y \<noteq> 0"
  show ?thesis
  proof (cases "y = 1")
    case True
    then show ?thesis by (simp add: idivRcp32_one)
  next
    case False
    then have y: "1 < unat y" using \<open>y \<noteq> 0\<close>
      by (simp add: unat_gt_Suc_0_iff)
    then have "0 < unat (idivRcp32 y)"
      using unsigned_less [of y, where 'a = nat] by (simp add: idivRcp32_eq div_greater_zero_iff)
    then show ?thesis using False by auto
  qed
qed

lemma quotient_correction:
  fixes x y q :: "'a::len word"
  assumes "y \<noteq> 0" and "unat q \<le> unat x div unat y" and "unat x div unat y \<le> unat q + 1"
  shows "(let r = x - y * q in if r \<ge> y then (q + 1, r - y) else (q, r)) = (x div y, x mod y)"
proof -
  have y: "0 < unat y" using assms(1) by (simp add: unat_gt_0)
  have le: "unat y * unat q \<le> unat x"
    using assms(2) y by (simp add: less_eq_div_iff_mult_less_eq mult.commute)
  have yq: "unat (y * q) = unat y * unat q"
    using le unsigned_less [of x, where 'a = nat]
    by (simp add: unat_word_ariths order_le_less_trans)
  have r: "unat (x - y * q) = unat x - unat y * unat q"
    using le yq by (simp add: unat_sub word_le_nat_alt)
  show ?thesis
  proof (cases "y \<le> x - y * q")
    case True
    then have ge: "unat y * (unat q + 1) \<le> unat x"
      using r le by (simp add: word_le_nat_alt)
    then have "unat q + 1 \<le> unat x div unat y"
      using y by (simp add: less_eq_div_iff_mult_less_eq mult.commute)
    then have q: "unat x div unat y = unat q + 1" using assms(3) by simp
    have "q + 1 = x div y"
      using q unsigned_less [of "x div y", where 'a = nat]
      by (simp add: word_unat_eq_iff unat_div_distrib unat_word_ariths)
    moreover have "x - y * q - y = x mod y"
      using minus_mult_div_eq_mod [of x y] \<open>q + 1 = x div y\<close> [symmetric]
      by (simp add: algebra_simps)
    ultimately show ?thesis using True by (simp add: Let_def)
  next
    case False
    then have "unat x < unat y * (unat q + 1)"
      using r le by (simp add: word_le_nat_alt)
    then have "unat x div unat y < unat q + 1"
      using y by (simp add: div_less_iff_less_mult mult.commute)
    then have q: "unat x div unat y = unat q" using assms(2) by simp
    then have "q = x div y"
      by (simp add: word_unat_eq_iff unat_div_distrib)
    then show ?thesis using False by (simp add: Let_def minus_mult_div_eq_mod)
  qed
qed

lemma isPow2_iff: "x \<noteq> 0 \<Longrightarrow> isPow2 x \<longleftrightarrow> (\<exists>k. unat x = 2 ^ k)" for x :: "'a::len word"
proof -
  assume x: "x \<noteq> 0"
  then have x0: "0 < unat x" by (simp add: unat_gt_0)
  have "unat (x - 1) = unat x - 1"
    using x by (simp add: unat_minus_one)
  then have "unat (and x (x - 1)) = and (unat x) (unat x - 1)"
    by (simp add: unsigned_and_eq)
  then have "isPow2 x \<longleftrightarrow> and (unat x) (unat x - 1) = 0"
    by (simp add: isPow2_def word_unat_eq_iff)
  then show ?thesis using nat_and_pred_eq_0_iff [OF x0] by simp
qed

lemma idivRcp64_eq: "1 < unat y \<Longrightarrow> unat (idivRcp64 y) = 2 ^ 64 div unat y"
proof -
  assume y: "1 < unat y"
  then have y0: "y \<noteq> 0" by auto
  have lt: "unat y < 2 ^ 64" using unsigned_less [of y, where 'a = nat] by simp
  have "isPow2 y \<longleftrightarrow> unat y dvd 2 ^ 64"
  proof
    assume "isPow2 y"
    then obtain k where k: "unat y = 2 ^ k" using y0 by (auto simp: isPow2_iff)
    then have "(2 :: nat) ^ k < 2 ^ 64" using lt by (simp only:)
    then have "k < 64" by (rule power_less_imp_less_exp [rotated]) simp
    then show "unat y dvd 2 ^ 64" unfolding k by (intro le_imp_power_dvd) simp
  next
    assume "unat y dvd 2 ^ 64"
    then show "isPow2 y" using y0 dvd_pow2 [of _ 64] by (simp add: isPow2_iff)
  qed
  moreover have "unat (-1 :: u64) = 2 ^ 64 - 1"
    by (simp add: unsigned_minus_1_eq_mask mask_eq_exp_minus_1)
  ultimately have eq: "unat ((-1) div y) + unat (if isPow2 y then 1 else 0 :: u64) = 2 ^ 64 div unat y"
    using pred_div_eq [of "unat y" "2 ^ 64"] y by (simp add: unat_div_distrib split: if_splits)
  moreover have "2 ^ 64 div unat y < (2 ^ 64 :: nat)"
    using y by (intro div_less_dividend) simp_all
  ultimately show ?thesis
    by (simp add: idivRcp64_def unat_word_ariths split del: if_split)
qed

lemma idivRcp64_one: "idivRcp64 1 = 0"
  by (simp add: idivRcp64_def isPow2_def)

lemma idivRcp64_zero_iff: "y \<noteq> 0 \<Longrightarrow> idivRcp64 y = 0 \<longleftrightarrow> y = 1"
proof -
  assume y0: "y \<noteq> 0"
  show ?thesis
  proof (cases "y = 1")
    case True
    then show ?thesis by (simp add: idivRcp64_one)
  next
    case False
    then have y: "1 < unat y" using y0
      by (simp add: unat_gt_Suc_0_iff)
    then have "0 < unat (idivRcp64 y)"
      using unsigned_less [of y, where 'a = nat] by (simp add: idivRcp64_eq div_greater_zero_iff)
    then show ?thesis using False by auto
  qed
qed

theorem idivmodFast32_correct:
  assumes "y \<noteq> 0"
  shows "idivmodFast32 x y (idivRcp32 y) = (x div y, x mod y)"
proof (cases "y = 1")
  case True
  then show ?thesis by (simp add: idivmodFast32_def idivRcp32_one)
next
  case False
  with assms have y: "1 < unat y" by (simp add: unat_gt_Suc_0_iff)
  have x: "unat x < 2 ^ 32" using unsigned_less [of x, where 'a = nat] by simp
  have "idivRcp32 y \<noteq> 0" using assms False by (simp add: idivRcp32_zero_iff)
  moreover have "unat (mul32hi x (idivRcp32 y)) = unat x * (2 ^ 32 div unat y) div 2 ^ 32"
    using y by (simp add: unat_mul32hi idivRcp32_eq)
  ultimately show ?thesis
    using quotient_correction [OF assms] rcp_quotient_bounds [OF _ x, of "unat y"] y
    by (simp add: idivmodFast32_def Let_def)
qed

text \<open>
  C28: The division by a precomputed reciprocal is exact for every 64-bit dividend and
  non-zero divisor: quotient and remainder are those of the division.
\<close>

theorem idivmodFast64_correct:
  assumes "y \<noteq> 0"
  shows "idivmodFast64 x y (idivRcp64 y) = (x div y, x mod y)"
proof (cases "y = 1")
  case True
  then show ?thesis by (simp add: idivmodFast64_def idivRcp64_one)
next
  case False
  with assms have y: "1 < unat y" by (simp add: unat_gt_Suc_0_iff)
  have x: "unat x < 2 ^ 64" using unsigned_less [of x, where 'a = nat] by simp
  have "idivRcp64 y \<noteq> 0" using assms False by (simp add: idivRcp64_zero_iff)
  moreover have "unat (mul64hi x (idivRcp64 y)) = unat x * (2 ^ 64 div unat y) div 2 ^ 64"
    using y by (simp add: unat_mul64hi idivRcp64_eq)
  ultimately show ?thesis
    using quotient_correction [OF assms] rcp_quotient_bounds [OF _ x, of "unat y"] y
    by (simp add: idivmodFast64_def Let_def)
qed

theorem idivmodFast64_correct_witness:
  "idivmodFast64 1000000007 37 (idivRcp64 37) = (27027027, 8)"
  using idivmodFast64_correct [of 37 1000000007] by simp

lemma rcp_product_bounds:
  fixes N x y :: nat
  assumes "2 \<le> x" "2 \<le> y"
  defines "c \<equiv> (N div x) * (N div y) div N"
  shows "c * (x * y) \<le> N" and "N < (c + 2) * (x * y)"
proof -
  show "c * (x * y) \<le> N"
  proof (cases "N = 0")
    case False
    have "c * N * (x * y) \<le> (N div x) * (N div y) * (x * y)"
      unfolding c_def by (simp add: mult_le_mono)
    also have "\<dots> = (N div x * x) * (N div y * y)" by (simp add: algebra_simps)
    also have "\<dots> \<le> N * N" by (intro mult_le_mono) simp_all
    finally show ?thesis using False by (simp add: algebra_simps)
  qed (simp add: c_def)
  show "N < (c + 2) * (x * y)"
  proof (cases "N < x * y")
    case True
    then show ?thesis by (simp add: algebra_simps)
  next
    case False
    define a b where "a = N div x" and "b = N div y"
    have N: "0 < N" using False assms(1,2) by (cases N) auto
    have "N \<le> a * x + (x - 1)"
      unfolding a_def using mod_less_divisor [of x N] div_mult_mod_eq [of N x] assms(1) by linarith
    then have "N * N \<le> (a * x + (x - 1)) * N" by simp
    also have "\<dots> = a * x * N + (x - 1) * N" by (simp add: algebra_simps)
    also have "a * x * N \<le> a * x * (b * y + (y - 1))"
      unfolding b_def using mod_less_divisor [of y N] div_mult_mod_eq [of N y] assms(2)
      by (intro mult_le_mono2) linarith
    finally have 1: "N * N \<le> a * b * (x * y) + a * x * (y - 1) + (x - 1) * N"
      by (simp add: algebra_simps)
    have 2: "a * x * (y - 1) \<le> N * (y - 1)"
      unfolding a_def by (intro mult_le_mono1) simp
    have "a * b < N * (c + 1)"
      unfolding a_def b_def c_def using N by (simp add: dividend_less_times_div)
    then have 3: "a * b * (x * y) < N * (c + 1) * (x * y)" using assms(1,2) by simp
    have "(x - 1) + (y - 1) \<le> x * y"
    proof -
      obtain i j where "x = i + 2" "y = j + 2" using assms(1,2) by (metis add.commute le_Suc_ex)
      then show ?thesis by (simp add: algebra_simps)
    qed
    then have 4: "N * (y - 1) + (x - 1) * N \<le> N * (x * y)"
      by (metis add.commute distrib_left mult.commute mult_le_mono2)
    from 1 2 3 4 have "N * N < N * (c + 1) * (x * y) + N * (x * y)" by linarith
    also have "\<dots> = N * ((c + 2) * (x * y))" by (simp add: algebra_simps)
    finally show ?thesis using N by simp
  qed
qed

lemma reciprocal_correction:
  fixes z c :: "'a::len word"
  assumes "1 < unat z" and "1 \<le> unat c" and "unat c * unat z \<le> 2 ^ LENGTH('a)"
    and "2 ^ LENGTH('a) < (unat c + 2) * unat z"
  shows "unat (if z \<le> 0 - z * c then c + 1 else c) = 2 ^ LENGTH('a) div unat z"
proof -
  let ?N = "2 ^ LENGTH('a) :: nat"
  have z: "0 < unat z" using assms(1) by simp
  have c: "unat c + 1 < ?N"
  proof -
    have "unat c * 2 \<le> unat c * unat z" using assms(1) by (intro mult_le_mono2) simp
    then have "unat c * 2 \<le> ?N" using assms(3) by linarith
    moreover have "?N \<noteq> 2 \<or> unat c < 1 \<or> unat z < ?N" by simp
    moreover have "unat z < ?N" by (rule unsigned_less)
    ultimately show ?thesis using assms(1,2) by linarith
  qed
  show ?thesis
  proof (cases "unat c * unat z = ?N")
    case True
    then have "unat (z * c) = 0" by (simp add: unat_word_ariths mult.commute)
    then have "z * c = 0" by (simp add: unat_eq_0)
    moreover have "\<not> z \<le> 0" using assms(1) by auto
    moreover have "?N div unat z = unat c" using z by (simp flip: True)
    ultimately show ?thesis by simp
  next
    case False
    then have lt: "unat z * unat c < ?N" using assms(3) by (simp add: mult.commute)
    then have zc: "unat (z * c) = unat z * unat c" by (simp add: unat_word_ariths)
    moreover have "z * c \<noteq> 0" using zc z assms(2) by (metis mult_eq_0_iff not_one_le_zero not_less0 unsigned_0)
    ultimately have rem: "unat (0 - z * c) = ?N - unat z * unat c"
      by (simp add: unat_uminus_word)
    show ?thesis
    proof (cases "z \<le> 0 - z * c")
      case True
      then have "(unat c + 1) * unat z \<le> ?N"
        using rem lt by (simp add: word_le_nat_alt algebra_simps)
      then have "?N div unat z = unat c + 1"
        using assms(4) by (intro div_nat_eqI) (simp_all add: algebra_simps)
      then show ?thesis using True c by (simp add: unat_word_ariths)
    next
      case F: False
      then have "?N < (unat c + 1) * unat z"
        using rem lt by (simp add: word_le_nat_alt algebra_simps)
      then have "?N div unat z = unat c"
        using assms(3) by (intro div_nat_eqI) (simp_all add: algebra_simps)
      then show ?thesis using F by simp
    qed
  qed
qed

text \<open>
  The reciprocal of a product is computed from the reciprocals of its factors without
  a division, when the product is at most \<open>2 ^ 31\<close>.
\<close>

theorem imulRcp32_correct:
  assumes "x \<noteq> 0" "y \<noteq> 0" "unat x * unat y \<le> 2 ^ 31"
  shows "imulRcp32 x (idivRcp32 x) y (idivRcp32 y) = idivRcp32 (x * y)"
proof (cases "x = 1 \<or> y = 1")
  case True
  then show ?thesis using assms by (auto simp: imulRcp32_def idivRcp32_one idivRcp32_zero_iff)
next
  case False
  then have gt: "1 < unat x" "1 < unat y" using assms by (simp_all add: unat_gt_Suc_0_iff)
  let ?c = "mul32hi (idivRcp32 x) (idivRcp32 y)"
  have c: "unat ?c = (2 ^ 32 div unat x) * (2 ^ 32 div unat y) div 2 ^ 32"
    using gt by (simp add: unat_mul32hi idivRcp32_eq)
  have xy: "unat (x * y) = unat x * unat y"
    using assms(3) by (simp add: unat_word_ariths)
  have b: "unat ?c * unat (x * y) \<le> 2 ^ 32" "2 ^ 32 < (unat ?c + 2) * unat (x * y)"
    unfolding c xy using rcp_product_bounds [of "unat x" "unat y" "2 ^ 32"] gt by auto
  have "1 \<le> unat ?c"
  proof (rule ccontr)
    assume "\<not> 1 \<le> unat ?c"
    then have "unat ?c = 0" by linarith
    then show False using b(2) assms(3) xy by (simp only:) simp
  qed
  moreover have "1 < unat (x * y)" unfolding xy using gt by (simp add: one_less_mult)
  ultimately have "unat (if x * y \<le> 0 - x * y * ?c then ?c + 1 else ?c) = unat (idivRcp32 (x * y))"
    using reciprocal_correction [of "x * y" ?c] b by (simp add: idivRcp32_eq)
  then have "(if x * y \<le> 0 - x * y * ?c then ?c + 1 else ?c) = idivRcp32 (x * y)"
    by (simp only: word_unat_eq_iff)
  then show ?thesis
    using False assms(1,2) idivRcp32_zero_iff [of x] idivRcp32_zero_iff [of y]
    by (simp add: imulRcp32_def Let_def)
qed

theorem imulRcp32_correct_witness:
  "imulRcp32 1000 (idivRcp32 1000) 77 (idivRcp32 77) = idivRcp32 77000"
  using imulRcp32_correct [of 1000 77] by simp

theorem imulRcp64_correct:
  assumes "x \<noteq> 0" "y \<noteq> 0" "unat x * unat y \<le> 2 ^ 63"
  shows "imulRcp64 x (idivRcp64 x) y (idivRcp64 y) = idivRcp64 (x * y)"
proof (cases "x = 1 \<or> y = 1")
  case True
  then show ?thesis using assms by (auto simp: imulRcp64_def idivRcp64_one idivRcp64_zero_iff)
next
  case False
  then have gt: "1 < unat x" "1 < unat y" using assms by (simp_all add: unat_gt_Suc_0_iff)
  let ?c = "mul64hi (idivRcp64 x) (idivRcp64 y)"
  have c: "unat ?c = (2 ^ 64 div unat x) * (2 ^ 64 div unat y) div 2 ^ 64"
    using gt by (simp add: unat_mul64hi idivRcp64_eq)
  have xy: "unat (x * y) = unat x * unat y"
    using assms(3) by (simp add: unat_word_ariths)
  have b: "unat ?c * unat (x * y) \<le> 2 ^ 64" "2 ^ 64 < (unat ?c + 2) * unat (x * y)"
    unfolding c xy using rcp_product_bounds [of "unat x" "unat y" "2 ^ 64"] gt by auto
  have "1 \<le> unat ?c"
  proof (rule ccontr)
    assume "\<not> 1 \<le> unat ?c"
    then have "unat ?c = 0" by linarith
    then show False using b(2) assms(3) xy by (simp only:) simp
  qed
  moreover have "1 < unat (x * y)" unfolding xy using gt by (simp add: one_less_mult)
  ultimately have "unat (if x * y \<le> 0 - x * y * ?c then ?c + 1 else ?c) = unat (idivRcp64 (x * y))"
    using reciprocal_correction [of "x * y" ?c] b by (simp add: idivRcp64_eq)
  then have "(if x * y \<le> 0 - x * y * ?c then ?c + 1 else ?c) = idivRcp64 (x * y)"
    by (simp only: word_unat_eq_iff)
  then show ?thesis
    using False assms(1,2) idivRcp64_zero_iff [of x] idivRcp64_zero_iff [of y]
    by (simp add: imulRcp64_def Let_def)
qed

end
