(* ===== verification/Bit_Scans.thy ===== *)
theory Bit_Scans
  imports Bitops
begin

unbundle bit_operations_syntax

text \<open>
  The second half of \<^verbatim>\<open>src/src/include/bitops.h\<close>: counting and scanning bits, logarithms and
  powers of two, bit reversal, the small floating point formats that approximate 32 bit sizes, and
  the 64 bit hash.  The compiler builtins the header calls (population count, find first set, count
  leading zeros, byte swap) are modelled at any word width; shifts whose count is outside the width
  are undefined in C and give \<open>None\<close> where a caller's argument can cause them.
\<close>

section \<open>Definitions\<close>

subsection \<open>Compiler builtins\<close>

fun bitlen :: "nat \<Rightarrow> nat" where
  "bitlen n = (if n = 0 then 0 else Suc (bitlen (n div 2)))"

declare bitlen.simps [simp del]

definition clz :: "'a::len word \<Rightarrow> nat" where
  "clz x = LENGTH('a) - bitlen (unat x)"

definition ffs :: "'a::len word \<Rightarrow> nat" where
  "ffs x = (case filter (bit x) [0..<LENGTH('a)] of [] \<Rightarrow> 0 | i # _ \<Rightarrow> Suc i)"

definition popcount :: "'a::len word \<Rightarrow> nat" where
  "popcount x = length (filter (bit x) [0..<LENGTH('a)])"

definition byte_at :: "'a::len word \<Rightarrow> nat \<Rightarrow> 'a word" where
  "byte_at x i = take_bit 8 (drop_bit (8 * i) x)"

definition bswap :: "'a::len word \<Rightarrow> 'a word" where
  "bswap x = (let n = LENGTH('a) div 8
              in foldr (\<lambda>i acc. push_bit (8 * (n - 1 - i)) (byte_at x i) OR acc) [0..<n] 0)"

subsection \<open>Scans and powers of two\<close>

definition countOneBits :: "'a::len word \<Rightarrow> int" where
  "countOneBits x = int (popcount x)"

definition firstOneBit :: "'a::len word \<Rightarrow> int" where
  "firstOneBit msk = int (ffs msk) - 1"

text \<open>The mask is passed by pointer: its new value is returned beside the index.\<close>

definition popFirstOneBit :: "'a::len word \<Rightarrow> int \<times> 'a word" where
  "popFirstOneBit msk = (let tmp = msk; msk = msk AND (msk - 1) in (firstOneBit tmp, msk))"

definition log2Down :: "'a::len word \<Rightarrow> int" where
  "log2Down x = (if x = 0 then -1 else (int LENGTH('a) - 1) - int (clz x))"

definition log2Up :: "'a::len word \<Rightarrow> int" where
  "log2Up x = (let x = (if x \<noteq> 0 then x - 1 else x)
               in if x = 0 then 0 else int LENGTH('a) - int (clz x))"

text \<open>\<^verbatim>\<open>Int(1) << n\<close>, defined for counts inside the width.\<close>

definition shl_one :: "int \<Rightarrow> 'a::len word option" where
  "shl_one n = (if 0 \<le> n \<and> n < int LENGTH('a) then Some (push_bit (nat n) 1) else None)"

definition pow2Up :: "'a::len word \<Rightarrow> 'a word option" where
  "pow2Up x = shl_one (log2Up x)"

definition pow2Down :: "'a::len word \<Rightarrow> 'a word option" where
  "pow2Down x = shl_one (log2Down x)"

subsection \<open>Bit reversal\<close>

text \<open>Exchange neighbouring groups of \<open>h\<close> bits.\<close>

definition swapHalves :: "nat \<Rightarrow> 'a::len word \<Rightarrow> 'a word" where
  "swapHalves h x = (let m = (-1) div (push_bit h 1 + 1)
                     in (push_bit h (x AND m)) OR (drop_bit h (x AND NOT m)))"

function reverseSubBits :: "nat \<Rightarrow> 'a::len word \<Rightarrow> 'a word" where
  "reverseSubBits nSubBits x =
     (if nSubBits \<ge> 16 \<and> LENGTH('a) = nSubBits then reverseSubBits 8 (bswap x)
      else if nSubBits \<le> 1 then x
      else reverseSubBits (nSubBits div 2) (swapHalves (nSubBits div 2) x))"
  by pat_completeness auto
termination
  by (relation "measure fst") auto

declare reverseSubBits.simps [simp del]

definition reverseBits :: "'a::len word \<Rightarrow> nat \<Rightarrow> 'a word" where
  "reverseBits x nBits =
     (let ux = reverseSubBits LENGTH('a) x
      in if nBits = 0 then 0 else drop_bit (LENGTH('a) - nBits) ux)"

subsection \<open>Small floating point formats\<close>

definition u32fpEncode :: "u32 \<Rightarrow> nat \<Rightarrow> u32" where
  "u32fpEncode x bitsPerPow2 =
     (let log2x = 31 - clz (x OR 1);
          mantissa = (drop_bit (if log2x \<ge> bitsPerPow2 then log2x - bitsPerPow2 else 0) x)
                       AND (push_bit bitsPerPow2 1 - 1);
          exponent = (if log2x \<ge> bitsPerPow2 then word_of_nat log2x - (word_of_nat bitsPerPow2 - 1) else 0)
      in push_bit bitsPerPow2 exponent OR mantissa)"

definition u32fpDecode :: "u32 \<Rightarrow> nat \<Rightarrow> u32" where
  "u32fpDecode x bitsPerPow2 =
     (let exponent = drop_bit bitsPerPow2 x;
          mantissa = (x AND (push_bit bitsPerPow2 1 - 1)) OR (if exponent \<noteq> 0 then 0x8 else 0);
          exponent = (if exponent \<noteq> 0 then exponent - 1 else exponent)
      in push_bit (unat exponent) mantissa)"

definition u32fp8MaxValue :: u32 where
  "u32fp8MaxValue = 0xf0000000"

definition u32fp8Encode :: "u32 \<Rightarrow> u8" where
  "u32fp8Encode x = ucast (u32fpEncode x 3)"

definition u32fp8Decode :: "u8 \<Rightarrow> u32" where
  "u32fp8Decode x = u32fpDecode (ucast x) 3"

subsection \<open>Hash\<close>

text \<open>\<^verbatim>\<open>memcpy\<close> of at most eight bytes into a zeroed little endian 64 bit integer.\<close>

primrec le_bytes :: "u8 list \<Rightarrow> u64" where
  "le_bytes [] = 0"
| "le_bytes (b # bs) = ucast b OR push_bit 8 (le_bytes bs)"

definition hash_mix :: "u64 \<times> u64 \<Rightarrow> u64 \<times> u64" where
  "hash_mix acc =
     (let (a0, a1) = acc;
          a0 = a0 + a1;
          a1 = a1 XOR a0;
          a0 = a0 XOR drop_bit 31 a0;
          a0 = a0 * 0x9de62bbc8cef3ce3;
          a1 = a1 XOR drop_bit 32 a1;
          a1 = a1 * 0x485cd6311b599e79
      in (a0, a1))"

fun eatHash_loop :: "u64 \<times> u64 \<Rightarrow> u8 list \<Rightarrow> u64 \<times> u64" where
  "eatHash_loop acc bytes =
     (if bytes = [] then acc
      else let (a0, a1) = hash_mix acc;
               x = le_bytes (take 8 bytes)
           in eatHash_loop (a0 + x, a1) (drop 8 bytes))"

declare eatHash_loop.simps [simp del]

definition eatHash :: "u64 \<times> u64 \<Rightarrow> u8 list \<Rightarrow> u64 \<times> u64" where
  "eatHash acc bytes = eatHash_loop (fst acc XOR word_of_nat (length bytes), snd acc) bytes"

definition digestHash :: "u64 \<times> u64 \<Rightarrow> u64" where
  "digestHash acc =
     (let h = fst acc;
          h = h XOR drop_bit 31 h;
          h = h * 0xbac3bd562846de6b;
          h = h + snd acc;
          h = h XOR drop_bit 32 h;
          h = h * 0x995a187a14e7b445
      in h)"

definition getHash :: "u8 list \<Rightarrow> u64" where
  "getHash bytes = digestHash (eatHash (1, 1) bytes)"

section \<open>Correctness\<close>

lemma bitlen_0 [simp]: "bitlen 0 = 0"
  by (simp add: bitlen.simps)

lemma bitlen_bounds: "0 < n \<Longrightarrow> 2 ^ (bitlen n - 1) \<le> n \<and> n < 2 ^ bitlen n \<and> 0 < bitlen n"
proof (induction n rule: bitlen.induct)
  case (1 n)
  show ?case
  proof (cases "n div 2 = 0")
    case True
    then have "n = 1" using 1(2) by auto
    then show ?thesis by (simp add: bitlen.simps)
  next
    case False
    then have "2 ^ (bitlen (n div 2) - 1) \<le> n div 2" "n div 2 < 2 ^ bitlen (n div 2)" "0 < bitlen (n div 2)"
      using 1 by auto
    moreover have "bitlen n = Suc (bitlen (n div 2))" using 1(2) by (simp add: bitlen.simps)
    moreover have "(2 :: nat) ^ bitlen (n div 2) = 2 * 2 ^ (bitlen (n div 2) - 1)"
      using calculation(3) by (simp flip: power_Suc)
    moreover have "2 * (n div 2) \<le> n" "n < 2 * (n div 2) + 2" by auto
    ultimately show ?thesis by (simp; linarith)
  qed
qed

lemma bitlen_le_iff: "bitlen n \<le> k \<longleftrightarrow> n < 2 ^ k"
proof (cases "n = 0")
  case False
  then have b: "2 ^ (bitlen n - 1) \<le> n" "n < 2 ^ bitlen n" "0 < bitlen n"
    using bitlen_bounds [of n] by auto
  show ?thesis
  proof
    assume "bitlen n \<le> k"
    then have "(2 :: nat) ^ bitlen n \<le> 2 ^ k" by simp
    then show "n < 2 ^ k" using b by linarith
  next
    assume "n < 2 ^ k"
    then have "(2 :: nat) ^ (bitlen n - 1) < 2 ^ k" using b by linarith
    then have "bitlen n - 1 < k" by simp
    then show "bitlen n \<le> k" using b by linarith
  qed
qed simp

lemma bitlen_unique: "2 ^ l \<le> n \<Longrightarrow> n < 2 ^ Suc l \<Longrightarrow> bitlen n = Suc l"
  using bitlen_le_iff [of n l] bitlen_le_iff [of n "Suc l"] by linarith

lemma bitlen_unat_le: "bitlen (unat x) \<le> LENGTH('a)" for x :: "'a::len word"
  by (simp add: bitlen_le_iff)

lemma log2Down_eq: "x \<noteq> 0 \<Longrightarrow> log2Down x = int (bitlen (unat x)) - 1" for x :: "'a::len word"
  using bitlen_unat_le [of x] by (simp add: log2Down_def clz_def)

lemma log2Down_spec:
  fixes x :: "'a::len word"
  assumes "x \<noteq> 0"
  shows "log2Down x = int k \<longleftrightarrow> 2 ^ k \<le> unat x \<and> unat x < 2 ^ (k + 1)"
proof -
  have x: "0 < unat x" using assms by (simp add: unat_gt_0)
  have "log2Down x = int k \<longleftrightarrow> bitlen (unat x) = Suc k" using log2Down_eq [OF assms] by linarith
  also have "\<dots> \<longleftrightarrow> \<not> bitlen (unat x) \<le> k \<and> bitlen (unat x) \<le> Suc k" by linarith
  finally show ?thesis by (simp only: bitlen_le_iff not_less Suc_eq_plus1)
qed

lemma log2Up_le_iff:
  fixes x :: "'a::len word"
  assumes "x \<noteq> 0"
  shows "log2Up x \<le> int k \<longleftrightarrow> unat x \<le> 2 ^ k"
proof (cases "x = 1")
  case True
  then show ?thesis by (simp add: log2Up_def)
next
  case False
  then have "x - 1 \<noteq> 0" by simp
  then have "log2Up x = int (bitlen (unat (x - 1)))"
    using assms bitlen_unat_le [of "x - 1"] by (simp add: log2Up_def clz_def)
  moreover have "unat (x - 1) = unat x - 1" using assms by (simp add: unat_minus_one)
  moreover have "0 < unat x" using assms by (simp add: unat_gt_0)
  ultimately show ?thesis
    by (simp add: bitlen_le_iff) linarith
qed

lemma log2Up_nonneg: "0 \<le> log2Up x"
  using bitlen_unat_le [of "x - 1"] by (simp add: log2Up_def clz_def Let_def)

lemma shl_one_eq_Some_iff:
  "(shl_one n :: 'a::len word option) = Some p \<longleftrightarrow> (\<exists>k < LENGTH('a). n = int k \<and> p = 2 ^ k)"
  by (auto simp: shl_one_def nat_less_iff intro!: exI [of _ "nat n"])

lemma pow2Up_eq_Some_iff:
  fixes x :: "'a::len word"
  assumes "x \<noteq> 0"
  shows "pow2Up x = Some p \<longleftrightarrow>
    (\<exists>k < LENGTH('a). p = 2 ^ k \<and> unat x \<le> 2 ^ k \<and> (\<forall>j. unat x \<le> 2 ^ j \<longrightarrow> k \<le> j))"
proof -
  have "log2Up x = int k \<longleftrightarrow> unat x \<le> 2 ^ k \<and> (\<forall>j. unat x \<le> 2 ^ j \<longrightarrow> k \<le> j)" for k
  proof
    assume "log2Up x = int k"
    then show "unat x \<le> 2 ^ k \<and> (\<forall>j. unat x \<le> 2 ^ j \<longrightarrow> k \<le> j)"
      using log2Up_le_iff [OF assms] by (metis order_refl nat_int_comparison(3))
  next
    assume k: "unat x \<le> 2 ^ k \<and> (\<forall>j. unat x \<le> 2 ^ j \<longrightarrow> k \<le> j)"
    obtain l where l: "log2Up x = int l" using log2Up_nonneg [of x] nonneg_int_cases by blast
    with k have "unat x \<le> 2 ^ l" using log2Up_le_iff [OF assms, of l] by simp
    then have "k \<le> l" using k by blast
    moreover have "l \<le> k" using k l log2Up_le_iff [OF assms, of k] by simp
    ultimately show "log2Up x = int k" using l by simp
  qed
  then show ?thesis
    unfolding pow2Up_def shl_one_eq_Some_iff by blast
qed

lemma pow2Up_defined:
  fixes x :: "'a::len word"
  assumes "x \<noteq> 0" and "unat x \<le> 2 ^ (LENGTH('a) - 1)"
  shows "\<exists>k < LENGTH('a). pow2Up x = Some (2 ^ k) \<and> unat x \<le> 2 ^ k \<and> (\<forall>j. unat x \<le> 2 ^ j \<longrightarrow> k \<le> j)"
proof -
  define k where "k = (LEAST j. unat x \<le> 2 ^ j)"
  have k: "unat x \<le> 2 ^ k" unfolding k_def by (rule LeastI, rule assms(2))
  have least: "\<forall>j. unat x \<le> 2 ^ j \<longrightarrow> k \<le> j" unfolding k_def by (simp add: Least_le)
  then have "k \<le> LENGTH('a) - 1" using assms(2) by blast
  then have kl: "k < LENGTH('a)" using len_gt_0 [where 'a = 'a] by linarith
  then show ?thesis using k least pow2Up_eq_Some_iff [OF assms(1)] by blast
qed

text \<open>
  Rounding up to a power of two gives the least power of two that is not smaller, for
  every word for which it can be represented.
\<close>

lemma pow2Up_least:
  fixes x :: "'a::len word"
  assumes "x \<noteq> 0" and "unat x \<le> 2 ^ (LENGTH('a) - 1)"
  shows "\<exists>p. pow2Up x = Some p \<and> x \<le> p \<and> isPow2 p \<and> (\<forall>q. isPow2 q \<longrightarrow> x \<le> q \<longrightarrow> p \<le> q)"
proof -
  obtain k where kl: "k < LENGTH('a)" and "pow2Up x = Some (2 ^ k)" and k: "unat x \<le> 2 ^ k" and least: "\<forall>j. unat x \<le> 2 ^ j \<longrightarrow> k \<le> j"
    using pow2Up_defined [OF assms] by blast
  moreover have "x \<le> 2 ^ k" using k kl by (simp add: word_le_nat_alt unat_pow2)
  moreover have "isPow2 (2 ^ k :: 'a word)" using kl by (subst isPow2_iff) (auto simp: unat_pow2)
  moreover have "2 ^ k \<le> q" if q: "isPow2 q" "x \<le> q" for q :: "'a word"
  proof -
    have "q \<noteq> 0" using q assms(1) by auto
    then obtain j where "unat q = 2 ^ j" using q isPow2_iff by blast
    moreover have "k \<le> j" using least q(2) calculation by (simp add: word_le_nat_alt)
    ultimately show ?thesis using kl by (simp add: word_le_nat_alt unat_pow2)
  qed
  ultimately show ?thesis by blast
qed

lemma xor_shift31_inverse: "(h XOR drop_bit 31 h) XOR drop_bit 31 (h XOR drop_bit 31 h) XOR drop_bit 62 (h XOR drop_bit 31 h) = h"
  for h :: u64
  by (rule bit_word_eqI) (auto simp: bit_simps)


lemma ffs_least:
  fixes x :: "'a::len word"
  assumes "x \<noteq> 0"
  shows "\<exists>i < LENGTH('a). ffs x = Suc i \<and> bit x i \<and> (\<forall>j < i. \<not> bit x j)"
proof -
  have "\<exists>i. bit x i" using assms by (auto simp: bit_eq_iff)
  then obtain i where i: "bit x i" "\<forall>j < i. \<not> bit x j" using exists_least_iff [of "bit x"] by blast
  then have il: "i < LENGTH('a)" by (auto dest: bit_imp_le_length)
  then have "[0..<LENGTH('a)] = [0..<i] @ i # [Suc i..<LENGTH('a)]"
    by (metis le_add_same_cancel1 less_imp_le_nat upt_add_eq_append upt_conv_Cons zero_le le_add_diff_inverse add_0)
  moreover have "filter (bit x) [0..<i] = []" using i(2) by (simp add: filter_empty_conv)
  ultimately have "ffs x = Suc i" using i(1) by (simp add: ffs_def)
  with i il show ?thesis by blast
qed

lemma nat_and_pred_lowest:
  "and ((2 * a + 1) * 2 ^ i) ((2 * a + 1) * 2 ^ i - 1) = a * 2 ^ Suc i" for a :: nat
proof (induction i)
  case 0
  then show ?case by (subst and_rec) simp
next
  case (Suc i)
  define m where "m = (2 * a + 1) * 2 ^ i"
  have m: "0 < m" by (simp add: m_def)
  then have "(2 * m - 1) div 2 = m - 1" by presburger
  then have "and (2 * m) (2 * m - 1) = 2 * and m (m - 1)"
    using m by (subst and_rec) simp
  moreover have "(2 * a + 1) * 2 ^ Suc i = 2 * m" by (simp add: m_def)
  ultimately show ?case using Suc by (simp only: m_def [symmetric]) simp
qed

theorem popFirstOneBit_pops:
  fixes m :: "'a::len word"
  assumes "m \<noteq> 0"
  shows "\<exists>i. popFirstOneBit m = (int i, unset_bit i m) \<and> bit m i \<and> (\<forall>j < i. \<not> bit m j)"
proof -
  obtain i where i: "i < LENGTH('a)" "ffs m = Suc i" "bit m i" "\<forall>j < i. \<not> bit m j"
    using ffs_least [OF assms] by blast
  have "take_bit i m = 0" using i(4) by (auto simp: bit_eq_iff bit_simps)
  then have "take_bit i (unat m) = 0" by (simp flip: unsigned_take_bit_eq)
  then obtain b where b: "unat m = b * 2 ^ i" by (auto simp: take_bit_eq_mod mult.commute elim!: dvdE simp flip: dvd_eq_mod_eq_0)
  have "bit (unat m) i" using i(1,3) by (simp add: bit_unsigned_iff)
  then have "odd b" by (simp add: bit_iff_odd b)
  then obtain a where a: "b = 2 * a + 1" by (auto elim: oddE)
  have "unat (m AND (m - 1)) = a * 2 ^ Suc i"
    using assms nat_and_pred_lowest [of a i] by (simp add: unsigned_and_eq unat_minus_one b a)
  moreover have "unat (m - 2 ^ i) = unat m - 2 ^ i"
    using i(1) by (subst unat_sub) (simp_all add: word_le_nat_alt unat_pow2 b a)
  ultimately have "m AND (m - 1) = m - 2 ^ i"
    by (simp add: word_unat_eq_iff b a)
  also have "\<dots> = unset_bit i m" using i(3) by (simp add: unset_bit_eq)
  finally have "popFirstOneBit m = (int i, unset_bit i m)"
    using i(2) by (simp add: popFirstOneBit_def firstOneBit_def)
  then show ?thesis using i(3,4) by blast
qed


lemma less_32_cases: "i < 32 \<Longrightarrow> i \<in> set [0,1,2,3,4,5,6,7,8,9,10,11,12,13,14,15,16,17,18,19,20,21,22,23,24,25,26,27,28,29,30,31]"
  for i :: nat
  by (simp, presburger)

lemma bit_swapHalves:
  fixes x m :: u32
  assumes "(-1) div (push_bit h 1 + 1) = m" and m: "\<forall>j < 32. bit m j \<longleftrightarrow> even (j div h)"
    and h: "0 < h" and i: "i < 32"
  shows "bit (swapHalves h x) i \<longleftrightarrow> bit x (if odd (i div h) then i - h else i + h)"
proof -
  have up: "bit x (h + i) \<Longrightarrow> h + i < 32" using bit_imp_le_length [of x "h + i"] by simp
  have 1: "(h + i) div h = Suc (i div h)" using h by (simp add: div_add_self1)
  have "bit (swapHalves h x) i \<longleftrightarrow> h \<le> i \<and> bit x (i - h) \<and> even ((i - h) div h) \<or> bit x (h + i) \<and> odd ((h + i) div h)"
    unfolding swapHalves_def assms(1) Let_def using m i up by (auto simp: bit_simps)
  also have "\<dots> \<longleftrightarrow> bit x (if odd (i div h) then i - h else i + h)"
  proof (cases "h \<le> i")
    case True
    then have "i div h = Suc ((i - h) div h)" using h by (simp add: le_div_geq)
    then show ?thesis using True by (simp add: 1 add.commute)
  next
    case False
    then show ?thesis by (simp add: 1 add.commute)
  qed
  finally show ?thesis .
qed

lemma reverse_masks:
  "\<forall>j < 32. bit (0x55555555 :: u32) j \<longleftrightarrow> even (j div 1)"
  "\<forall>j < 32. bit (0x33333333 :: u32) j \<longleftrightarrow> even (j div 2)"
  "\<forall>j < 32. bit (0x0f0f0f0f :: u32) j \<longleftrightarrow> even (j div 4)"
  by (auto dest!: less_32_cases)

lemma bit_bswap_32: "i < 32 \<Longrightarrow> bit (bswap x) i \<longleftrightarrow> bit x (8 * (3 - i div 8) + i mod 8)" for x :: u32
  by (drule less_32_cases, simp only: list.set insert_iff empty_iff, elim disjE)
    (simp_all add: bswap_def byte_at_def upt_conv_Cons bit_simps flip: numeral_2_eq_2)

lemmas bit_swaps =
  bit_swapHalves [OF _ reverse_masks(1), simplified]
  bit_swapHalves [OF _ reverse_masks(2), simplified]
  bit_swapHalves [OF _ reverse_masks(3), simplified]

lemma reverseSubBits_32:
  "reverseSubBits 32 x = swapHalves 1 (swapHalves 2 (swapHalves 4 (bswap x)))" for x :: u32
  by (simp add: reverseSubBits.simps [of 32 x] reverseSubBits.simps [of 8] reverseSubBits.simps [of 4]
      reverseSubBits.simps [of 2] reverseSubBits.simps [of "Suc 0"])

lemma bit_reverseSubBits_32: "i < 32 \<Longrightarrow> bit (reverseSubBits 32 x) i \<longleftrightarrow> bit x (31 - i)" for x :: u32
  unfolding reverseSubBits_32
  by (drule less_32_cases, simp only: list.set insert_iff empty_iff, elim disjE)
    (simp_all add: bit_swaps bit_bswap_32 flip: numeral_2_eq_2)

text \<open>
  Reversing the lowest \<open>n\<close> bits of a 32-bit word moves bit \<open>i\<close> to bit \<open>n - 1 - i\<close>
  and clears all others.
\<close>

theorem bit_reverseBits_32:
  fixes x :: u32
  assumes "n \<le> 32"
  shows "bit (reverseBits x n) i \<longleftrightarrow> i < n \<and> bit x (n - 1 - i)"
proof (cases "n = 0")
  case False
  have "bit (reverseBits x n) i \<longleftrightarrow> bit (reverseSubBits 32 x) (32 - n + i)"
    using False by (simp add: reverseBits_def bit_simps)
  also have "\<dots> \<longleftrightarrow> i < n \<and> bit x (n - 1 - i)"
  proof (cases "i < n")
    case True
    then have "32 - n + i < 32" "31 - (32 - n + i) = n - 1 - i" using assms by auto
    then show ?thesis using True bit_reverseSubBits_32 [of "32 - n + i" x] by simp
  next
    case F: False
    then have "\<not> 32 - n + i < 32" using assms by simp
    then show ?thesis using F bit_imp_le_length [of "reverseSubBits 32 x" "32 - n + i"] by auto
  qed
  finally show ?thesis .
qed (simp add: reverseBits_def)

theorem bit_reverseBits_32_witness:
  "bit (reverseBits (0x5 :: u32) 4) 3 \<and> \<not> bit (reverseBits (0x5 :: u32) 4) 2"
  using bit_reverseBits_32 [of 4 5 3] bit_reverseBits_32 [of 4 5 2] by simp

definition fp_exp :: "nat \<Rightarrow> nat \<Rightarrow> nat" where
  "fp_exp x b = bitlen x - 1 - b"

definition fp_code :: "nat \<Rightarrow> nat \<Rightarrow> nat" where
  "fp_code x b = fp_exp x b * 2 ^ b + x div 2 ^ fp_exp x b"

lemma bitlen_or_1: "31 - clz (x OR 1) = bitlen (unat x) - 1" for x :: u32
proof (cases "x = 0")
  case True
  then show ?thesis by (simp add: clz_def bitlen.simps)
next
  case False
  let ?n = "unat (x OR 1)"
  have n: "?n = unat x + of_bool (even (unat x))"
    by (subst unsigned_or_eq) (simp only: unsigned_1 or_one_eq)
  moreover have "?n div 2 = unat x div 2" using n by auto
  moreover have "0 < unat x" using False by (simp add: unat_gt_0)
  ultimately have "bitlen ?n = bitlen (unat x)"
    by (subst (1 2) bitlen.simps) simp
  then show ?thesis using bitlen_unat_le [of "x OR 1"] by (simp add: clz_def)
qed

lemma fp_mantissa:
  assumes "b \<le> bitlen x - 1" "0 < x"
  shows "2 ^ b \<le> x div 2 ^ fp_exp x b" and "x div 2 ^ fp_exp x b < 2 ^ Suc b"
proof -
  have x: "2 ^ (bitlen x - 1) \<le> x" "x < 2 ^ bitlen x" "0 < bitlen x" using bitlen_bounds [OF assms(2)] by auto
  have e: "2 ^ b * 2 ^ fp_exp x b = (2 :: nat) ^ (bitlen x - 1)"
    using assms(1) by (simp add: fp_exp_def flip: power_add)
  then show "2 ^ b \<le> x div 2 ^ fp_exp x b" using x(1) by (simp add: less_eq_div_iff_mult_less_eq)
  have "2 ^ Suc b * 2 ^ fp_exp x b = (2 :: nat) ^ bitlen x"
    using e x(3) by (cases "bitlen x") simp_all
  then show "x div 2 ^ fp_exp x b < 2 ^ Suc b" using x(2) by (simp add: div_less_iff_less_mult)
qed

lemma unat_u32fpEncode:
  assumes "b \<le> 26" "0 < b"
  shows "unat (u32fpEncode x b) = fp_code (unat x) b"
proof -
  let ?l = "bitlen (unat x) - 1" and ?e = "fp_exp (unat x) b"
  have l: "?l < 32" using bitlen_unat_le [of x] by simp
  have e: "?e \<le> 31 - b" using l by (simp add: fp_exp_def)
  have pb: "unat (push_bit b 1 - 1 :: u32) = 2 ^ b - 1"
  proof -
    have "unat (push_bit b 1 :: u32) = 2 ^ b" using assms by (simp add: unat_pow2)
    then show ?thesis by (simp add: unat_sub word_le_nat_alt)
  qed
  have man: "unat (drop_bit ?e x AND (push_bit b 1 - 1)) = (unat x div 2 ^ ?e) mod 2 ^ b"
    by (simp only: unsigned_and_eq pb unat_drop_bit flip: mask_eq_exp_minus_1 take_bit_eq_mask take_bit_eq_mod)
  have E: "unat (if ?l \<ge> b then word_of_nat ?l - (word_of_nat b - 1) else 0 :: u32) = (if ?l \<ge> b then ?e + 1 else 0)"
  proof (cases "b \<le> ?l")
    case True
    then have "?l = ?e + b" by (simp add: fp_exp_def)
    then have "word_of_nat ?l - (word_of_nat b - 1) = (word_of_nat (?e + 1) :: u32)"
      by (simp only: of_nat_add) simp
    moreover have "unat (word_of_nat (?e + 1) :: u32) = ?e + 1"
      using e by (simp add: unat_of_nat del: of_nat_Suc of_nat_add)
    ultimately show ?thesis using True by (simp only: if_True)
  qed simp
  have "(if ?l \<ge> b then ?e + 1 else 0) * 2 ^ b \<le> 2 ^ 5 * (2 :: nat) ^ 26"
    using e assms by (intro mult_le_mono power_increasing) (simp_all, linarith)
  then have "unat (push_bit b (if ?l \<ge> b then word_of_nat ?l - (word_of_nat b - 1) else 0 :: u32))
      = (if ?l \<ge> b then ?e + 1 else 0) * 2 ^ b"
    by (subst unat_push_bit) (simp_all only: E, simp)
  moreover have "(if ?l \<ge> b then ?l - b else 0) = ?e" by (simp add: fp_exp_def)
  ultimately have "unat (u32fpEncode x b) = (if ?l \<ge> b then ?e + 1 else 0) * 2 ^ b + (unat x div 2 ^ ?e) mod 2 ^ b"
    by (simp only: u32fpEncode_def bitlen_or_1 Let_def unsigned_or_eq man) (simp add: or_add_nat)
  also have "\<dots> = fp_code (unat x) b"
  proof (cases "?l \<ge> b \<and> x \<noteq> 0")
    case True
    then have "2 ^ b \<le> unat x div 2 ^ ?e" "unat x div 2 ^ ?e < 2 ^ Suc b"
      using fp_mantissa [of b "unat x"] by (auto simp: unat_gt_0)
    then have "(unat x div 2 ^ ?e) mod 2 ^ b = unat x div 2 ^ ?e - 2 ^ b" by (simp add: mod_if)
    then show ?thesis using True \<open>2 ^ b \<le> unat x div 2 ^ ?e\<close> by (simp add: fp_code_def)
  next
    case False
    then have "unat x < 2 ^ b" "?e = 0" using bitlen_le_iff [of "unat x" b] by (auto simp: fp_exp_def)
    then show ?thesis using False assms(2) by (auto simp: fp_code_def)
  qed
  finally show ?thesis .
qed

lemma bitlen_mono: "x \<le> y \<Longrightarrow> bitlen x \<le> bitlen y"
  using bitlen_le_iff [of y "bitlen y"] by (simp add: bitlen_le_iff)

lemma fp_exp_pos_imp: "0 < fp_exp x b \<Longrightarrow> b \<le> bitlen x - 1 \<and> 0 < x"
  by (cases "x = 0") (auto simp: fp_exp_def)

lemma fp_mantissa_lt: "x div 2 ^ fp_exp x b < 2 ^ Suc b"
proof (cases "b \<le> bitlen x - 1 \<and> 0 < x")
  case True
  then show ?thesis using fp_mantissa(2) by blast
next
  case False
  then have "fp_exp x b = 0" "bitlen x \<le> Suc b" by (auto simp: fp_exp_def)
  then show ?thesis by (simp only: bitlen_le_iff) simp
qed

lemma fp_code_mono: "x \<le> y \<Longrightarrow> fp_code x b \<le> fp_code y b"
proof -
  assume xy: "x \<le> y"
  then have e: "fp_exp x b \<le> fp_exp y b" using bitlen_mono [OF xy] by (simp add: fp_exp_def)
  show ?thesis
  proof (cases "fp_exp x b = fp_exp y b")
    case True
    then show ?thesis using xy by (simp add: fp_code_def div_le_mono)
  next
    case False
    then have "fp_exp x b + 1 \<le> fp_exp y b" using e by simp
    then have "(fp_exp x b + 1) * 2 ^ b \<le> fp_exp y b * 2 ^ b" by (intro mult_le_mono1)
    moreover have "2 ^ b \<le> y div 2 ^ fp_exp y b"
      using fp_mantissa(1) [of b y] fp_exp_pos_imp [of y b] False e by simp
    ultimately show ?thesis using fp_mantissa_lt [of x b] by (simp add: fp_code_def)
  qed
qed

theorem u32fpEncode_mono:
  assumes "0 < b" "b \<le> 26" "x \<le> y"
  shows "u32fpEncode x b \<le> u32fpEncode y b"
  using assms by (simp add: word_le_nat_alt unat_u32fpEncode fp_code_mono)

definition fp8_value :: "nat \<Rightarrow> nat" where
  "fp8_value y = (if y < 8 then y else (y mod 8 + 8) * 2 ^ (y div 8 - 1))"

lemma fp8_value_less: "y < 240 \<Longrightarrow> fp8_value y < 2 ^ 32"
proof -
  assume y: "y < 240"
  then have "(y mod 8 + 8) * 2 ^ (y div 8 - 1) \<le> 15 * (2 :: nat) ^ 28"
    by (intro mult_le_mono power_increasing) auto
  then show ?thesis by (auto simp: fp8_value_def)
qed

lemma unat_u32fpDecode_3:
  assumes "unat y < 240"
  shows "unat (u32fpDecode y 3) = fp8_value (unat y)"
proof -
  let ?E = "drop_bit 3 y"
  have E: "unat ?E = unat y div 8" by (simp add: unat_drop_bit)
  have m: "unat (y AND 7) = unat y mod 8"
  proof -
    have "y AND 7 = take_bit 3 y" by (simp add: take_bit_eq_mask mask_eq_exp_minus_1)
    then show ?thesis by (simp only: unsigned_take_bit_eq) (simp add: take_bit_eq_mod)
  qed
  show ?thesis
  proof (cases "?E = 0")
    case True
    then have "unat y < 8" using E by (metis div_eq_0_iff unsigned_0 zero_neq_numeral)
    then show ?thesis using True m by (simp add: u32fpDecode_def fp8_value_def)
  next
    case False
    then have ge: "8 \<le> unat y" using E by (metis div_less not_less unat_eq_0)
    have e1: "unat (?E - 1) = unat y div 8 - 1" using False E by (simp add: unat_minus_one)
    have "(y AND 7) OR 8 = (8 :: u32) OR (y AND 7)" by (simp add: or.commute)
    then have "unat ((y AND 7) OR 8) = or (1 * 2 ^ 3) (unat y mod 8)"
      by (simp only: unsigned_or_eq m) simp
    then have mo: "unat ((y AND 7) OR 8) = unat y mod 8 + 8"
      by (subst (asm) or_add_nat) simp_all
    have "unat (u32fpDecode y 3) = unat (push_bit (unat (?E - 1)) ((y AND 7) OR 8))"
      using False by (simp add: u32fpDecode_def Let_def)
    also have "\<dots> = (unat y mod 8 + 8) * 2 ^ (unat y div 8 - 1)"
      using fp8_value_less [OF assms] ge by (subst unat_push_bit) (simp_all add: mo e1 fp8_value_def)
    finally show ?thesis using ge by (simp add: fp8_value_def)
  qed
qed

lemma fp_code_value: "fp_code (fp8_value y) 3 = y"
proof (cases "y < 8")
  case True
  then have "bitlen y \<le> 3" by (simp add: bitlen_le_iff)
  then show ?thesis using True by (simp add: fp_code_def fp_exp_def fp8_value_def)
next
  case False
  define m k where "m = y mod 8" and "k = y div 8 - 1"
  have y: "y = 8 * (k + 1) + m" "m < 8" using False by (auto simp: m_def k_def)
  have "8 * 2 ^ k \<le> (m + 8) * 2 ^ k" "(m + 8) * 2 ^ k < 16 * 2 ^ k" using y(2) by simp_all
  then have "bitlen ((m + 8) * 2 ^ k) = Suc (3 + k)"
    by (intro bitlen_unique) (simp_all add: power_add)
  then have "fp_exp ((m + 8) * 2 ^ k) 3 = k" by (simp add: fp_exp_def)
  moreover have "fp8_value y = (m + 8) * 2 ^ k" using False by (simp add: fp8_value_def m_def k_def)
  ultimately show ?thesis using y(1) by (simp add: fp_code_def)
qed

lemma fp8_value_code: "fp8_value (fp_code x 3) = x div 2 ^ fp_exp x 3 * 2 ^ fp_exp x 3"
proof (cases "x < 8")
  case True
  then have "bitlen x \<le> 3" by (simp add: bitlen_le_iff)
  then show ?thesis using True by (simp add: fp_code_def fp_exp_def fp8_value_def)
next
  case False
  then have "\<not> bitlen x \<le> 3" by (simp add: bitlen_le_iff)
  then have q: "2 ^ 3 \<le> x div 2 ^ fp_exp x 3" "x div 2 ^ fp_exp x 3 < 2 ^ Suc 3"
    using fp_mantissa [of 3 x] False by auto
  define r where "r = x div 2 ^ fp_exp x 3 - 8"
  have r: "x div 2 ^ fp_exp x 3 = r + 8" "r < 8" using q by (auto simp: r_def)
  have "fp_code x 3 = 8 * (fp_exp x 3 + 1) + r" using r(1) by (simp add: fp_code_def)
  then have "fp_code x 3 mod 8 = r" "fp_code x 3 div 8 = fp_exp x 3 + 1" "\<not> fp_code x 3 < 8"
    using r(2) by presburger+
  then show ?thesis using r(1) by (simp add: fp8_value_def)
qed

lemma fp_code_3_less: "x < 2 ^ 32 \<Longrightarrow> fp_code x 3 < 240"
proof -
  assume "x < 2 ^ 32"
  then have "fp_exp x 3 \<le> 28" using bitlen_le_iff [of x 32] by (simp add: fp_exp_def)
  moreover have "x div 2 ^ fp_exp x 3 < 16" using fp_mantissa_lt [of x 3] by simp
  ultimately show ?thesis by (simp add: fp_code_def)
qed

lemma u32fp8_decode_encode: "unat (u32fp8Decode (u32fp8Encode x)) = unat x div 2 ^ fp_exp (unat x) 3 * 2 ^ fp_exp (unat x) 3"
proof -
  have lt: "fp_code (unat x) 3 < 240"
    using unsigned_less [of x, where 'a = nat] by (intro fp_code_3_less) simp
  have "unat (u32fp8Encode x) = fp_code (unat x) 3"
    using lt by (simp add: u32fp8Encode_def unat_ucast_mod unat_u32fpEncode)
  then show ?thesis using lt
    by (simp add: u32fp8Decode_def unat_u32fpDecode_3 unat_ucast_up fp8_value_code)
qed

text \<open>
  The 8-bit floating size format loses little: decoding an encoded value gives at
  most the value, and the loss is at most an eighth of the decoded value.
\<close>

theorem u32fp8_error:
  "unat (u32fp8Decode (u32fp8Encode x)) \<le> unat x \<and>
   8 * (unat x - unat (u32fp8Decode (u32fp8Encode x))) \<le> unat (u32fp8Decode (u32fp8Encode x))"
proof -
  let ?x = "unat x" let ?e = "fp_exp ?x 3"
  have "?x - ?x div 2 ^ ?e * 2 ^ ?e = ?x mod 2 ^ ?e" by (simp add: modulo_nat_def mult.commute)
  moreover have "8 * (?x mod 2 ^ ?e) \<le> ?x div 2 ^ ?e * 2 ^ ?e"
  proof (cases "?e = 0")
    case False
    then have "8 \<le> ?x div 2 ^ ?e" using fp_mantissa(1) [of 3 ?x] fp_exp_pos_imp [of ?x 3] by simp
    then show ?thesis by (intro mult_le_mono) simp_all
  qed simp
  ultimately show ?thesis by (simp add: u32fp8_decode_encode)
qed

text \<open>
  Encoding in the 8-bit floating size format inverts decoding, for every code of a
  value that a 32-bit word can hold.
\<close>

theorem u32fp8_roundtrip:
  assumes "y < 240"
  shows "u32fp8Encode (u32fp8Decode y) = y"
proof -
  have "unat y < 240" using assms by (simp add: word_less_nat_alt)
  then have "unat (u32fp8Encode (u32fp8Decode y)) = unat y"
    by (simp add: u32fp8Encode_def u32fp8Decode_def unat_ucast_mod unat_u32fpEncode
        unat_u32fpDecode_3 unat_ucast_up fp_code_value)
  then show ?thesis by (simp only: word_unat_eq_iff)
qed

theorem u32fp8_roundtrip_witness:
  "u32fp8Encode (u32fp8Decode 200) = 200"
  using u32fp8_roundtrip [of 200] by simp

lemma xor_drop_31_inj: "inj (\<lambda>h :: u64. h XOR drop_bit 31 h)"
proof (rule injI)
  fix x y :: u64
  assume "x XOR drop_bit 31 x = y XOR drop_bit 31 y"
  then show "x = y" using xor_shift31_inverse [of x] xor_shift31_inverse [of y] by simp
qed

lemma xor_drop_32_inj: "inj (\<lambda>h :: u64. h XOR drop_bit 32 h)"
proof (rule injI)
  have inv: "(h XOR drop_bit 32 h) XOR drop_bit 32 (h XOR drop_bit 32 h) = h" for h :: u64
    by (rule bit_word_eqI) (auto simp: bit_simps)
  fix x y :: u64
  assume "x XOR drop_bit 32 x = y XOR drop_bit 32 y"
  then show "x = y" using inv [of x] inv [of y] by simp
qed

lemma mult_inj: "c * d = 1 \<Longrightarrow> inj (\<lambda>h :: u64. h * c)"
proof (rule injI)
  fix x y :: u64
  assume cd: "c * d = 1" and "x * c = y * c"
  then have "x * c * d = y * c * d" by simp
  then show "x = y" by (simp only: mult.assoc cd mult_1_right)
qed

lemma digestHash_inj: "digestHash (a, c) = digestHash (b, c) \<Longrightarrow> a = b"
proof -
  have m1: "inj (\<lambda>h :: u64. h * 0xbac3bd562846de6b)" by (rule mult_inj [of _ "0xd5216e0ca079de43"]) simp
  have m2: "inj (\<lambda>h :: u64. h * 0x995a187a14e7b445)" by (rule mult_inj [of _ "0xfb9918abf9e53e8d"]) simp
  assume "digestHash (a, c) = digestHash (b, c)"
  then have "(a XOR drop_bit 31 a) * 0xbac3bd562846de6b + c = (b XOR drop_bit 31 b) * 0xbac3bd562846de6b + c"
    unfolding digestHash_def Let_def fst_conv snd_conv by (rule injD [OF xor_drop_32_inj, OF injD [OF m2]])
  then have "(a XOR drop_bit 31 a) * 0xbac3bd562846de6b = (b XOR drop_bit 31 b) * 0xbac3bd562846de6b"
    by (simp only: add_right_cancel)
  then show ?thesis by (rule injD [OF xor_drop_31_inj, OF injD [OF m1]])
qed

lemma le_bytes_inj:
  "length xs = length ys \<Longrightarrow> length xs \<le> 8 \<Longrightarrow> le_bytes xs = le_bytes ys \<Longrightarrow> xs = ys"
proof -
  have bit: "bit (le_bytes bs) n \<longleftrightarrow> n < 64 \<and> n div 8 < length bs \<and> bit (bs ! (n div 8)) (n mod 8)" for bs n
  proof (induction bs arbitrary: n)
    case (Cons b bs)
    show ?case
    proof (cases "n < 8")
      case True
      then show ?thesis by (simp add: bit_simps)
    next
      case False
      then obtain m where n: "n = m + 8" by (metis add.commute le_add_diff_inverse not_less)
      have "\<not> bit (ucast b :: u64) n" using False bit_imp_le_length [of b n] by (auto simp: bit_simps)
      then show ?thesis using False Cons [of m] by (auto simp add: bit_or_iff bit_push_bit_iff n div_add_self2)
    qed
  qed simp
  assume a: "length xs = length ys" "length xs \<le> 8" "le_bytes xs = le_bytes ys"
  show ?thesis
  proof (rule nth_equalityI [OF a(1)], rule bit_word_eqI)
    fix i n assume i: "i < length xs" "n < LENGTH(8)"
    then have "8 * i + n < 64" "(8 * i + n) div 8 = i" "(8 * i + n) mod 8 = n" using a(2) by auto
    then show "bit (xs ! i) n \<longleftrightarrow> bit (ys ! i) n"
      using bit [of xs "8 * i + n"] bit [of ys "8 * i + n"] a i by simp
  qed
qed

theorem getHash_inj:
  assumes "length xs = length ys" "length xs \<le> 8" "getHash xs = getHash ys"
  shows "xs = ys"
proof (cases "xs = []")
  case False
  then have ys: "ys \<noteq> []" using assms(1) by auto
  let ?m = "hash_mix (1 XOR word_of_nat (length xs), 1)"
  have loop: "eatHash (1, 1) zs = (fst ?m + le_bytes zs, snd ?m)"
    if "zs \<noteq> []" "length zs = length xs" for zs
    using that assms(2)
    by (simp add: eatHash_def eatHash_loop.simps [of _ zs] eatHash_loop.simps [of _ "[]"] Let_def split_beta)
  have "le_bytes xs = le_bytes ys"
    using assms(3) loop [OF False refl] loop [OF ys assms(1) [symmetric]] digestHash_inj [of "fst ?m + le_bytes xs" "snd ?m" "fst ?m + le_bytes ys"]
    unfolding getHash_def by (simp only:) simp
  then show ?thesis using le_bytes_inj assms(1,2) by blast
qed (use assms in simp)

end
