(* ===== verification/Work_Part.thy ===== *)
theory Work_Part
  imports Bit_Scans
begin

unbundle bit_operations_syntax

text \<open>
  How device work is divided (\<^verbatim>\<open>src/src/include/device.h\<close>, \<^verbatim>\<open>src/src/include/channel.h\<close>): the parts of a
  point-to-point transfer and their channels, the continuous-byte distribution of a collective over
  its channels, and the row of the device function table for a collective.
\<close>

section \<open>Point-to-point transfers\<close>

text \<open>Begin and end of a part, in bytes (\<^verbatim>\<open>size_t\<close>).\<close>

definition ncclP2pPartBounds :: "nat \<Rightarrow> nat \<Rightarrow> u64 \<Rightarrow> u64 \<times> u64" where
  "ncclP2pPartBounds nParts part bytes =
     (let partBytes = alignUp (divUp bytes (word_of_nat nParts)) (4096 :: u64)
      in (min (word_of_nat (part + 0) * partBytes) bytes,
          min (word_of_nat (part + 1) * partBytes) bytes))"

definition ncclP2pChannelForPart :: "int \<Rightarrow> int \<Rightarrow> int \<Rightarrow> int" where
  "ncclP2pChannelForPart nP2pChannels base part = (base + part) AND (nP2pChannels - 1)"

definition ncclP2pChannelToPart :: "int \<Rightarrow> int \<Rightarrow> int \<Rightarrow> int" where
  "ncclP2pChannelToPart nP2pChannels base channel = (channel - base) AND (nP2pChannels - 1)"

definition NCCL_MAX_DEV_WORK_P2P_PER_BATCH :: int where
  "NCCL_MAX_DEV_WORK_P2P_PER_BATCH = 8"

text \<open>The fields of the communicator the function reads are its arguments.\<close>

definition ncclP2pChannelBaseForRound :: "int \<Rightarrow> int \<Rightarrow> u32 \<Rightarrow> int \<Rightarrow> u8" where
  "ncclP2pChannelBaseForRound nNodes p2pSchedGroupSize p2pnChannels p2pRound =
     (let base = (if nNodes > 1 then
                    let localSize = p2pSchedGroupSize;
                        groupDelta = p2pRound sdiv localSize;
                        localDelta = p2pRound smod localSize;
                        base = groupDelta * divUp_s localSize NCCL_MAX_DEV_WORK_P2P_PER_BATCH
                    in base + localDelta sdiv NCCL_MAX_DEV_WORK_P2P_PER_BATCH
                  else p2pRound)
      in ucast (reverseBits (word_of_int base :: u32) (nat (log2Up p2pnChannels))))"

section \<open>Collectives\<close>

datatype ncclProto = NCCL_PROTO_LL | NCCL_PROTO_LL128 | NCCL_PROTO_SIMPLE | NCCL_PROTO_UNDEF

record ncclDevWorkColl =
  channelLo :: nat
  channelHi :: nat
  root :: nat
  recvbuff :: int
  sendbuff :: int
  countLo :: int
  countMid :: int
  countHi :: int
  chunkGrainsLo :: int
  chunkGrainsMid :: int
  chunkGrainsHi :: int

fun ncclProtoGrainSize :: "ncclProto \<Rightarrow> int" where
  "ncclProtoGrainSize NCCL_PROTO_LL = 16"
| "ncclProtoGrainSize NCCL_PROTO_LL128 = 32 * 8 sdiv 16 * 15 * 8"
| "ncclProtoGrainSize NCCL_PROTO_SIMPLE = 512"
| "ncclProtoGrainSize NCCL_PROTO_UNDEF = -1"

text \<open>
  The total count, and the offset, count and chunk count of one channel.  The sums are counts of
  elements of a buffer in memory, so they are those of integers; with one channel the number of
  middle channels is -1, where the code relies on a middle count of 0.
\<close>

record cbd_part =
  cbdCount :: int
  partOffset :: int
  partCount :: int
  chunkCount :: int

definition ncclCollCbdPart :: "ncclDevWorkColl \<Rightarrow> nat \<Rightarrow> ncclProto \<Rightarrow> int \<Rightarrow> cbd_part" where
  "ncclCollCbdPart work channelId proto eltSize =
     (let eltPerGrain = ncclProtoGrainSize proto sdiv eltSize;
          nMidChannels = int (channelHi work) - int (channelLo work) - 1;
          count = countLo work + countMid work * nMidChannels + countHi work
      in if channelId = channelLo work then
           \<lparr>cbdCount = count, partOffset = 0, partCount = countLo work,
            chunkCount = chunkGrainsLo work * eltPerGrain\<rparr>
         else if channelId = channelHi work then
           \<lparr>cbdCount = count, partOffset = countLo work + nMidChannels * countMid work,
            partCount = countHi work, chunkCount = chunkGrainsHi work * eltPerGrain\<rparr>
         else let mid = int channelId - int (channelLo work) - 1
              in \<lparr>cbdCount = count, partOffset = countLo work + mid * countMid work,
                  partCount = countMid work, chunkCount = chunkGrainsMid work * eltPerGrain\<rparr>)"

section \<open>Device function table\<close>

datatype ncclFunc = ncclFuncBroadcast | ncclFuncReduce | ncclFuncAllGather | ncclFuncReduceScatter
  | ncclFuncAllReduce | ncclFuncSendRecv | ncclFuncSend | ncclFuncRecv | ncclFuncAlltoAll | ncclFuncScatter
  | ncclFuncGather | ncclFuncAllGatherV | ncclFuncPutSignal | ncclFuncSignal | ncclFuncWaitSignal

definition ncclNumTypes :: nat where "ncclNumTypes = 12"
definition ncclNumDevRedOps :: nat where "ncclNumDevRedOps = 5"
definition NCCL_NUM_PROTOCOLS :: nat where "NCCL_NUM_PROTOCOLS = 3"
definition NCCL_ALGO_RING :: nat where "NCCL_ALGO_RING = 1"
definition NCCL_ALGO_COLLNET_DIRECT :: nat where "NCCL_ALGO_COLLNET_DIRECT = 2"
definition NCCL_ALGO_NVLS :: nat where "NCCL_ALGO_NVLS = 4"
definition NCCL_ALGO_PAT :: nat where "NCCL_ALGO_PAT = 6"

definition funcAlgo1 :: "nat \<Rightarrow> nat" where
  "funcAlgo1 algo = (if algo = NCCL_ALGO_RING then 0
                     else if algo = NCCL_ALGO_COLLNET_DIRECT then 1
                     else if algo = NCCL_ALGO_NVLS then 2 else 3)"

text \<open>
  The row computed by \<^verbatim>\<open>ncclDevFuncId\<close>.  The table \<^verbatim>\<open>ncclDevFuncRowToId\<close> it is looked up in is
  generated by the build.
\<close>

definition ncclDevFuncRow :: "ncclFunc \<Rightarrow> nat \<Rightarrow> nat \<Rightarrow> nat \<Rightarrow> nat \<Rightarrow> nat" where
  "ncclDevFuncRow coll devRedOp type algo proto =
     (let row = 0 in
      if coll = ncclFuncSendRecv then row else
      let row = row + 1; nAlgos = 4 in
      if coll = ncclFuncAllGather then row + (funcAlgo1 algo * NCCL_NUM_PROTOCOLS + proto) else
      let row = row + nAlgos * NCCL_NUM_PROTOCOLS; nAlgos = 1 in
      if coll = ncclFuncBroadcast then row + proto else
      let row = row + nAlgos * NCCL_NUM_PROTOCOLS; nAlgos = 1 in
      if coll = ncclFuncAllGatherV then row + proto else
      let row = row + nAlgos * NCCL_NUM_PROTOCOLS; nAlgos = 6 in
      if coll = ncclFuncAllReduce
      then row + (((devRedOp * ncclNumTypes + type) * nAlgos + algo) * NCCL_NUM_PROTOCOLS + proto) else
      let row = row + ncclNumDevRedOps * ncclNumTypes * nAlgos * NCCL_NUM_PROTOCOLS; nAlgos = 1 in
      if coll = ncclFuncReduce
      then row + ((devRedOp * ncclNumTypes + type) * NCCL_NUM_PROTOCOLS + proto) else
      let row = row + ncclNumDevRedOps * ncclNumTypes * nAlgos * NCCL_NUM_PROTOCOLS; nAlgos = 4 in
      if coll = ncclFuncReduceScatter
      then row + (((devRedOp * ncclNumTypes + type) * nAlgos + funcAlgo1 algo) * NCCL_NUM_PROTOCOLS + proto)
      else row + ncclNumDevRedOps * ncclNumTypes * nAlgos * NCCL_NUM_PROTOCOLS)"

section \<open>Parts of a transfer\<close>

text \<open>The parts are the same multiple of 4096 bytes, and together they are long enough.\<close>

lemma p2p_partBytes:
  fixes bytes :: u64
  assumes "0 < nParts" "nParts \<le> 64" "unat bytes \<le> 2 ^ 56"
  defines "P \<equiv> unat (alignUp (divUp bytes (word_of_nat nParts)) (4096 :: u64))"
  shows "4096 dvd P" "unat bytes \<le> nParts * P" "P \<le> unat bytes + 4096"
    "part \<le> nParts \<Longrightarrow> unat (word_of_nat part * alignUp (divUp bytes (word_of_nat nParts)) (4096 :: u64)) = part * P"
proof -
  have n: "unat (word_of_nat nParts :: u64) = nParts" using assms(2) by (simp add: unsigned_of_nat take_bit_nat_eq_self)
  have d: "unat (divUp bytes (word_of_nat nParts)) = (unat bytes + nParts - 1) div nParts" (is "_ = ?d")
  proof -
    have nz: "(word_of_nat nParts :: u64) \<noteq> 0" using n assms(1) by (intro notI) simp
    have "unat bytes + unat (word_of_nat nParts :: u64) \<le> 2 ^ LENGTH(64)" unfolding n using assms(2,3) by simp
    from unat_divUp [OF nz this] show ?thesis unfolding n .
  qed
  have dle: "?d \<le> unat bytes + 1"
  proof -
    have "unat bytes + nParts - 1 \<le> unat bytes * nParts + nParts" using assms(1) by (cases nParts) auto
    then have "?d \<le> (unat bytes * nParts + nParts) div nParts" by (rule div_le_mono)
    also have "\<dots> = unat bytes + 1" using assms(1) by (simp add: div_add_self2)
    finally show ?thesis .
  qed
  have four: "(4096 :: u64) = 2 ^ 12" by simp
  have "unat (divUp bytes (word_of_nat nParts)) + 2 ^ 12 \<le> 2 ^ LENGTH(64)" unfolding d using dle assms(3) by simp
  note al = unat_alignUp [OF _ this, unfolded d]
  have "P = unat (alignUp (divUp bytes (word_of_nat nParts)) (2 ^ 12))" unfolding P_def four ..
  then have "P = (?d + 2 ^ 12 - 1) - (?d + 2 ^ 12 - 1) mod 2 ^ 12" using al by simp
  then have P: "P = (4095 + ?d) - (4095 + ?d) mod 4096" by simp
  show "4096 dvd P" unfolding P by (rule dvd_minus_mod)
  have dP: "?d \<le> P" "P \<le> ?d + 4095" unfolding P using mod_less_divisor [of 4096 "4095 + ?d"] by linarith+
  have "unat bytes \<le> nParts * ?d"
    using assms(1) dividend_less_times_div [of nParts "unat bytes + nParts - 1"] by linarith
  then show "unat bytes \<le> nParts * P" using dP(1) by (meson le_trans mult_le_mono2)
  show "P \<le> unat bytes + 4096" using dP(2) dle by linarith
  show "unat (word_of_nat part * alignUp (divUp bytes (word_of_nat nParts)) (4096 :: u64)) = part * P" if "part \<le> nParts"
  proof -
    have "part * P \<le> 64 * (2 ^ 56 + 4096)" using that assms(2,3) \<open>P \<le> unat bytes + 4096\<close> by (intro mult_le_mono) simp_all
    then show ?thesis unfolding P_def using that assms(2)
      by (simp add: unat_word_ariths unsigned_of_nat take_bit_nat_eq_self)
  qed
qed


lemma unat_min: "unat (min x y) = min (unat x) (unat y)" for x y :: "'a::len word"
  by (simp add: min_def word_le_nat_alt)

lemma p2p_bounds_unat:
  assumes "0 < nParts" "nParts \<le> 64" "unat bytes \<le> 2 ^ 56" "part < nParts"
  shows "\<exists>P. 4096 dvd P \<and> unat bytes \<le> nParts * P \<and>
    unat (fst (ncclP2pPartBounds nParts part bytes)) = min (part * P) (unat bytes) \<and>
    unat (snd (ncclP2pPartBounds nParts part bytes)) = min (Suc part * P) (unat bytes)"
  using p2p_partBytes [OF assms(1-3)] assms(4)
  by (intro exI [of _ "unat (alignUp (divUp bytes (word_of_nat nParts)) (4096 :: u64))"])
    (simp add: ncclP2pPartBounds_def Let_def unat_min del: of_nat_Suc mult_Suc)

lemma p2p_bounds_step:
  assumes "0 < nParts" "nParts \<le> 64" "unat bytes \<le> 2 ^ 56" "Suc part < nParts"
  shows "snd (ncclP2pPartBounds nParts part bytes) = fst (ncclP2pPartBounds nParts (Suc part) bytes)"
  by (simp add: ncclP2pPartBounds_def Let_def)

text \<open>
  C25: The parts of a point-to-point transfer are consecutive: the first begins at 0, each begins
  where the one before ends, the last ends at the size of the transfer, and inner bounds are multiples
  of 4096 bytes.
\<close>

theorem p2p_parts_partition:
  assumes "0 < nParts" and "nParts \<le> 64" and "unat bytes \<le> 2 ^ 56"
  shows "fst (ncclP2pPartBounds nParts 0 bytes) = 0 \<and>
    (\<forall>part. Suc part < nParts \<longrightarrow> snd (ncclP2pPartBounds nParts part bytes) = fst (ncclP2pPartBounds nParts (Suc part) bytes)) \<and>
    snd (ncclP2pPartBounds nParts (nParts - 1) bytes) = bytes \<and>
    (\<forall>part < nParts. fst (ncclP2pPartBounds nParts part bytes) \<le> snd (ncclP2pPartBounds nParts part bytes) \<and>
       (4096 dvd unat (snd (ncclP2pPartBounds nParts part bytes)) \<or> snd (ncclP2pPartBounds nParts part bytes) = bytes))"
proof (intro conjI allI impI)
  show "fst (ncclP2pPartBounds nParts 0 bytes) = 0" by (simp add: ncclP2pPartBounds_def Let_def)
  show "snd (ncclP2pPartBounds nParts part bytes) = fst (ncclP2pPartBounds nParts (Suc part) bytes)" if "Suc part < nParts" for part
    using p2p_bounds_step [OF assms that] .
  show "snd (ncclP2pPartBounds nParts (nParts - 1) bytes) = bytes"
    using p2p_bounds_unat [OF assms, of "nParts - 1"] assms(1) by (auto simp: word_unat_eq_iff)
  fix part assume part: "part < nParts"
  from p2p_bounds_unat [OF assms this]
  show "fst (ncclP2pPartBounds nParts part bytes) \<le> snd (ncclP2pPartBounds nParts part bytes)"
    "4096 dvd unat (snd (ncclP2pPartBounds nParts part bytes)) \<or> snd (ncclP2pPartBounds nParts part bytes) = bytes"
    by (auto simp: word_le_nat_alt min_def word_unat_eq_iff)
qed

theorem p2p_parts_partition_witness:
  "snd (ncclP2pPartBounds 4 3 10000) = 10000 \<and> snd (ncclP2pPartBounds 4 0 10000) = 4096"
  using p2p_parts_partition [of 4 10000] by (simp add: ncclP2pPartBounds_def Let_def divUp_def alignUp_def min_def)

text \<open>
  The channel of a part and the part of a channel are inverse to each other when the number of
  channels is a power of two.
\<close>

theorem p2p_channel_part_inverse:
  assumes "0 \<le> part" and "part < 2 ^ k"
  shows "ncclP2pChannelToPart (2 ^ k) base (ncclP2pChannelForPart (2 ^ k) base part) = part \<and>
    ncclP2pChannelForPart (2 ^ k) base (ncclP2pChannelToPart (2 ^ k) base part) = part"
proof -
  have m: "x AND (2 ^ k - 1) = x mod 2 ^ k" for x :: int
    using take_bit_eq_mask [of k x] by (simp add: mask_eq_exp_minus_1 take_bit_eq_mod)
  show ?thesis
    unfolding ncclP2pChannelToPart_def ncclP2pChannelForPart_def m using assms
    by (simp add: mod_diff_left_eq mod_add_right_eq)
qed

theorem p2p_channel_part_inverse_witness:
  "ncclP2pChannelToPart 16 13 (ncclP2pChannelForPart 16 13 7) = 7"
  using p2p_channel_part_inverse [of 7 4 13] by simp

section \<open>Parts of a collective\<close>

text \<open>
  What the host's scheduler sets up and the code relies on: the counts are sizes, and with one
  channel, where the number of middle channels is negative, all elements are its own.
\<close>

definition cbdWork :: "ncclDevWorkColl \<Rightarrow> bool" where
  "cbdWork work \<longleftrightarrow> channelLo work \<le> channelHi work \<and> 0 \<le> countLo work \<and> 0 \<le> countMid work \<and> 0 \<le> countHi work \<and>
     (channelLo work = channelHi work \<longrightarrow> countMid work = 0 \<and> countHi work = 0)"

lemma cbd_parts_consecutive:
  fixes work :: ncclDevWorkColl
  assumes "channelLo work \<le> c" "c < channelHi work"
  shows "partOffset (ncclCollCbdPart work (Suc c) proto eltSize) =
      partOffset (ncclCollCbdPart work c proto eltSize) + partCount (ncclCollCbdPart work c proto eltSize)"
proof (cases "c = channelLo work")
  case True
  then show ?thesis using assms by (cases "Suc c = channelHi work") (auto simp: ncclCollCbdPart_def Let_def)
next
  case False
  show ?thesis
  proof (cases "Suc c = channelHi work")
    case True
    then have hi: "int (channelHi work) = int c + 1" by linarith
    have "(int (channelHi work) - int (channelLo work) - 1) * countMid work = (int c - int (channelLo work) - 1) * countMid work + countMid work"
      unfolding hi by (simp add: algebra_simps)
    then show ?thesis using True assms False by (simp add: ncclCollCbdPart_def Let_def)
  qed (use assms False in \<open>auto simp: ncclCollCbdPart_def Let_def algebra_simps\<close>)
qed

text \<open>Consecutive intervals of non-negative lengths from 0 divide the numbers below their last end.\<close>

lemma consecutive_mono:
  fixes off cnt :: "nat \<Rightarrow> int"
  assumes "\<And>c. lo \<le> c \<Longrightarrow> c < hi \<Longrightarrow> off (Suc c) = off c + cnt c" "\<And>c. 0 \<le> cnt c" "lo \<le> c" "c < d" "d \<le> hi"
  shows "off c + cnt c \<le> off d"
  using assms(4,5)
proof (induction d)
  case (Suc d)
  have "off (Suc d) = off d + cnt d" using Suc.prems assms(3) by (intro assms(1)) simp_all
  moreover have "c = d \<or> off c + cnt c \<le> off d" using Suc by (cases "c = d") simp_all
  ultimately show ?case using assms(2) [of d] by auto
qed simp

lemma consecutive_cover:
  fixes off cnt :: "nat \<Rightarrow> int"
  assumes "\<And>c. lo \<le> c \<Longrightarrow> c < hi \<Longrightarrow> off (Suc c) = off c + cnt c" "lo \<le> hi" "off lo \<le> e" "e < off hi + cnt hi"
  shows "\<exists>c. lo \<le> c \<and> c \<le> hi \<and> off c \<le> e \<and> e < off c + cnt c"
  using assms(2,1,4)
proof (induction hi rule: dec_induct)
  case base
  then show ?case using assms(3) by auto
next
  case (step hi)
  show ?case
  proof (cases "e < off hi + cnt hi")
    case True
    then show ?thesis using step.IH step.prems(1) by (meson le_SucI less_SucI)
  next
    case False
    then have "off (Suc hi) \<le> e" using step.prems(1) [OF step.hyps(1)] by simp
    then show ?thesis using step.hyps(1) step.prems(2) by (intro exI [of _ "Suc hi"]) simp
  qed
qed

lemma consecutive_partition:
  fixes off cnt :: "nat \<Rightarrow> int"
  assumes "\<And>c. lo \<le> c \<Longrightarrow> c < hi \<Longrightarrow> off (Suc c) = off c + cnt c" "\<And>c. 0 \<le> cnt c" "lo \<le> hi" "off lo \<le> e" "e < off hi + cnt hi"
  shows "\<exists>!c. lo \<le> c \<and> c \<le> hi \<and> off c \<le> e \<and> e < off c + cnt c"
proof -
  have "c = d" if "lo \<le> c \<and> c \<le> hi \<and> off c \<le> e \<and> e < off c + cnt c" "lo \<le> d \<and> d \<le> hi \<and> off d \<le> e \<and> e < off d + cnt d" for c d
    using consecutive_mono [of lo hi off cnt c d] consecutive_mono [of lo hi off cnt d c] that assms(1,2)
    by (cases c d rule: linorder_cases) fastforce+
  then show ?thesis using consecutive_cover [of lo hi off cnt e] assms by blast
qed

text \<open>
  C26: The parts of a collective divide its elements.  The part of every channel lies within the
  total count, which is the same for all channels, and every element below it is in the
  part of exactly one channel.  This is for work as the host sets it up: with one channel, whose
  count is the total, or more, the counts being sizes; a negative number of middle channels
  comes with a middle count of 0.
\<close>

theorem cbd_parts_partition:
  fixes work :: ncclDevWorkColl and proto :: ncclProto and eltSize :: int
  assumes "cbdWork work"
  defines "part \<equiv> \<lambda>c. ncclCollCbdPart work c proto eltSize"
  defines "whole \<equiv> (if channelLo work = channelHi work then countLo work
                    else countLo work + int (channelHi work - channelLo work - 1) * countMid work + countHi work)"
  shows "(\<forall>c. channelLo work \<le> c \<and> c \<le> channelHi work \<longrightarrow>
            cbdCount (part c) = whole \<and> 0 \<le> partOffset (part c) \<and> 0 \<le> partCount (part c) \<and> partOffset (part c) + partCount (part c) \<le> whole) \<and>
         (\<forall>e. 0 \<le> e \<and> e < whole \<longrightarrow>
            (\<exists>!c. channelLo work \<le> c \<and> c \<le> channelHi work \<and> partOffset (part c) \<le> e \<and> e < partOffset (part c) + partCount (part c)))"
proof -
  let ?lo = "channelLo work" and ?hi = "channelHi work"
  let ?off = "\<lambda>c. partOffset (part c)" and ?cnt = "\<lambda>c. partCount (part c)"
  have le: "?lo \<le> ?hi" using assms(1) by (simp add: cbdWork_def)
  have step: "?off (Suc c) = ?off c + ?cnt c" if "?lo \<le> c" "c < ?hi" for c
    unfolding part_def by (rule cbd_parts_consecutive [OF that])
  have cnt: "0 \<le> ?cnt c" for c using assms(1) by (simp add: part_def ncclCollCbdPart_def Let_def cbdWork_def)
  have first: "?off ?lo = 0" by (simp add: part_def ncclCollCbdPart_def Let_def)
  have mid: "int (?hi - ?lo - 1) = int ?hi - int ?lo - 1" if "?lo \<noteq> ?hi" using that le by linarith
  have count: "cbdCount (part c) = whole" for c
    using assms(1) by (auto simp: part_def whole_def ncclCollCbdPart_def Let_def cbdWork_def mid mult.commute)
  have last: "?off ?hi + ?cnt ?hi = whole"
    using assms(1) by (auto simp: part_def whole_def ncclCollCbdPart_def Let_def cbdWork_def mid)
  have mono: "?off c + ?cnt c \<le> ?off d" if "?lo \<le> c" "c < d" "d \<le> ?hi" for c d
    by (rule consecutive_mono [of ?lo ?hi ?off ?cnt, OF step cnt that])
  have "0 \<le> ?off c" "?off c + ?cnt c \<le> whole" if "?lo \<le> c" "c \<le> ?hi" for c
    using mono [of ?lo c] mono [of c ?hi] that first last cnt [of ?lo] cnt [of ?hi] by (cases "c = ?lo"; cases "c = ?hi"; fastforce)+
  moreover have "\<exists>!c. ?lo \<le> c \<and> c \<le> ?hi \<and> ?off c \<le> e \<and> e < ?off c + ?cnt c" if "0 \<le> e \<and> e < whole" for e
    by (rule consecutive_partition [of ?lo ?hi ?off ?cnt, OF step cnt le]) (use that first last in auto)
  ultimately show ?thesis using count cnt by blast
qed

lemma example_cbdWork:
  "cbdWork \<lparr>channelLo = 2, channelHi = 5, root = 0, recvbuff = 0, sendbuff = 0, countLo = 10, countMid = 20,
     countHi = 7, chunkGrainsLo = 1, chunkGrainsMid = 1, chunkGrainsHi = 1\<rparr>"
  by (simp add: cbdWork_def)

theorem cbd_parts_partition_witness:
  "let part = (\<lambda>c. ncclCollCbdPart \<lparr>channelLo = 2, channelHi = 5, root = 0, recvbuff = 0, sendbuff = 0, countLo = 10, countMid = 20,
     countHi = 7, chunkGrainsLo = 1, chunkGrainsMid = 1, chunkGrainsHi = 1\<rparr> c NCCL_PROTO_SIMPLE 4)
   in cbdCount (part 4) = 57 \<and> partOffset (part 4) = 30 \<and>
      (\<exists>!c. 2 \<le> c \<and> c \<le> 5 \<and> partOffset (part c) \<le> 42 \<and> 42 < partOffset (part c) + partCount (part c))"
proof -
  note p = cbd_parts_partition [OF example_cbdWork, of NCCL_PROTO_SIMPLE 4]
  show ?thesis using p [THEN conjunct1, rule_format, of 4] p [THEN conjunct2, rule_format, of 42]
    by (simp add: Let_def) (simp add: ncclCollCbdPart_def Let_def)
qed

section \<open>Rows of the function table\<close>

lemma radix_inj: "b < n \<Longrightarrow> b' < n \<Longrightarrow> a * n + b = a' * n + b' \<longleftrightarrow> a = a' \<and> b = b'" for a b a' b' n :: nat
proof
  assume l: "b < n" "b' < n" "a * n + b = a' * n + b'"
  have "(a * n + b) div n = a" "(a * n + b) mod n = b" "(a' * n + b') div n = a'" "(a' * n + b') mod n = b'" using l(1,2) by simp_all
  then show "a = a' \<and> b = b'" using l(3) by metis
qed simp

text \<open>The kernels that exist: the algorithms of each collective, and the reduction arguments where it has them.\<close>

definition validFunc :: "ncclFunc \<Rightarrow> nat \<Rightarrow> nat \<Rightarrow> nat \<Rightarrow> nat \<Rightarrow> bool" where
  "validFunc coll devRedOp type algo proto \<longleftrightarrow>
     (case coll of
        ncclFuncSendRecv \<Rightarrow> devRedOp = 0 \<and> type = 0 \<and> algo = NCCL_ALGO_RING \<and> proto = 2
      | ncclFuncAllGather \<Rightarrow> devRedOp = 0 \<and> type = 0 \<and> algo \<in> {NCCL_ALGO_RING, NCCL_ALGO_COLLNET_DIRECT, NCCL_ALGO_NVLS, NCCL_ALGO_PAT} \<and> proto < 3
      | ncclFuncBroadcast \<Rightarrow> devRedOp = 0 \<and> type = 0 \<and> algo = NCCL_ALGO_RING \<and> proto < 3
      | ncclFuncAllGatherV \<Rightarrow> devRedOp = 0 \<and> type = 0 \<and> algo = NCCL_ALGO_RING \<and> proto < 3
      | ncclFuncAllReduce \<Rightarrow> devRedOp < 5 \<and> type < 12 \<and> algo < 6 \<and> proto < 3
      | ncclFuncReduce \<Rightarrow> devRedOp < 5 \<and> type < 12 \<and> algo = NCCL_ALGO_RING \<and> proto < 3
      | ncclFuncReduceScatter \<Rightarrow> devRedOp < 5 \<and> type < 12 \<and> algo \<in> {NCCL_ALGO_RING, NCCL_ALGO_COLLNET_DIRECT, NCCL_ALGO_NVLS, NCCL_ALGO_PAT} \<and> proto < 3
      | _ \<Rightarrow> False)"

lemmas row_consts = ncclNumTypes_def ncclNumDevRedOps_def NCCL_NUM_PROTOCOLS_def

lemma funcRow_eq:
  "ncclDevFuncRow ncclFuncSendRecv d t a p = 0"
  "ncclDevFuncRow ncclFuncAllGather d t a p = 1 + (funcAlgo1 a * 3 + p)"
  "ncclDevFuncRow ncclFuncBroadcast d t a p = 13 + p"
  "ncclDevFuncRow ncclFuncAllGatherV d t a p = 16 + p"
  "ncclDevFuncRow ncclFuncAllReduce d t a p = 19 + (((d * 12 + t) * 6 + a) * 3 + p)"
  "ncclDevFuncRow ncclFuncReduce d t a p = 1099 + ((d * 12 + t) * 3 + p)"
  "ncclDevFuncRow ncclFuncReduceScatter d t a p = 1279 + (((d * 12 + t) * 4 + funcAlgo1 a) * 3 + p)"
  by (simp_all add: ncclDevFuncRow_def Let_def row_consts)

lemma funcAlgo1_inj:
  assumes "a \<in> {NCCL_ALGO_RING, NCCL_ALGO_COLLNET_DIRECT, NCCL_ALGO_NVLS, NCCL_ALGO_PAT}"
    "b \<in> {NCCL_ALGO_RING, NCCL_ALGO_COLLNET_DIRECT, NCCL_ALGO_NVLS, NCCL_ALGO_PAT}"
  shows "funcAlgo1 a = funcAlgo1 b \<longleftrightarrow> a = b" "funcAlgo1 a < 4"
  using assms by (auto simp: funcAlgo1_def NCCL_ALGO_RING_def NCCL_ALGO_COLLNET_DIRECT_def NCCL_ALGO_NVLS_def NCCL_ALGO_PAT_def)

lemma funcAlgo1_less: "funcAlgo1 a < 4"
  by (simp add: funcAlgo1_def)

lemma radix_rows:
  fixes a a' n d d' t t' p p' :: nat
  assumes "t < 12" "t' < 12" "p < 3" "p' < 3"
  shows "a < n \<Longrightarrow> a' < n \<Longrightarrow> ((d * 12 + t) * n + a) * 3 + p = ((d' * 12 + t') * n + a') * 3 + p' \<Longrightarrow> d = d' \<and> t = t' \<and> a = a' \<and> p = p'"
    and "(d * 12 + t) * 3 + p = (d' * 12 + t') * 3 + p' \<Longrightarrow> d = d' \<and> t = t' \<and> p = p'"
  by (simp_all only: radix_inj [OF assms(1,2)] radix_inj [OF assms(3,4)] radix_inj simp_thms)

text \<open>Each collective has its own range of rows.\<close>

fun rowBase :: "ncclFunc \<Rightarrow> nat" where
  "rowBase ncclFuncSendRecv = 0"
| "rowBase ncclFuncAllGather = 1"
| "rowBase ncclFuncBroadcast = 2"
| "rowBase ncclFuncAllGatherV = 3"
| "rowBase ncclFuncAllReduce = 4"
| "rowBase ncclFuncReduce = 5"
| "rowBase ncclFuncReduceScatter = 6"
| "rowBase _ = 7"

definition rowIndex :: "nat \<Rightarrow> nat" where
  "rowIndex r = (if r < 1 then 0 else if r < 13 then 1 else if r < 16 then 2 else if r < 19 then 3
                 else if r < 1099 then 4 else if r < 1279 then 5 else if r < 1999 then 6 else 7)"

lemma rowIndex_row: "validFunc c d t a p \<Longrightarrow> rowIndex (ncclDevFuncRow c d t a p) = rowBase c"
proof -
  assume v: "validFunc c d t a p"
  have *: "((d * 12 + t) * 6 + a) * 3 + p < 1080" if "d < 5" "t < 12" "a < 6" "p < 3" using that by simp
  have **: "(d * 12 + t) * 3 + p < 180" if "d < 5" "t < 12" "p < 3" using that by simp
  have ***: "((d * 12 + t) * 4 + funcAlgo1 a) * 3 + p < 720" if "d < 5" "t < 12" "p < 3"
    using that funcAlgo1_less [of a] by simp
  show ?thesis
  proof (cases c)
    case ncclFuncAllReduce
    then show ?thesis using v * unfolding rowIndex_def by (simp only: funcRow_eq validFunc_def ncclFunc.case) simp
  next
    case ncclFuncReduce
    then show ?thesis using v ** unfolding rowIndex_def by (simp only: funcRow_eq validFunc_def ncclFunc.case) simp
  next
    case ncclFuncReduceScatter
    then show ?thesis using v *** unfolding rowIndex_def by (simp only: funcRow_eq validFunc_def ncclFunc.case) simp
  qed (use v funcAlgo1_less [of a] in \<open>auto simp: validFunc_def funcRow_eq rowIndex_def\<close>)
qed

text \<open>
  C27: Different kernels have different rows of the function table: the row determines the
  collective, the protocol, the algorithm, and the reduction operator and data type where the
  collective has them.
\<close>

theorem ncclDevFuncRow_injective:
  assumes "validFunc c d t a p" and "validFunc c' d' t' a' p'"
    and "ncclDevFuncRow c d t a p = ncclDevFuncRow c' d' t' a' p'"
  shows "c = c' \<and> d = d' \<and> t = t' \<and> a = a' \<and> p = p'"
proof -
  have "rowBase c = rowBase c'" using rowIndex_row [OF assms(1)] rowIndex_row [OF assms(2)] assms(3) by simp
  then have c: "c = c'" using assms(1,2) by (cases c; cases c') (simp_all add: validFunc_def)
  show ?thesis
  proof (cases c')
    case ncclFuncAllGather
    then show ?thesis using assms funcAlgo1_inj [of a a'] radix_inj [of p 3 p' "funcAlgo1 a" "funcAlgo1 a'"] unfolding c
      by (simp only: funcRow_eq validFunc_def ncclFunc.case) simp
  next
    case ncclFuncAllReduce
    then show ?thesis using assms radix_rows(1) [of t t' p p' a 6 a' d d'] unfolding c
      by (simp only: funcRow_eq validFunc_def ncclFunc.case simp_thms add_left_cancel add_right_cancel)
  next
    case ncclFuncReduce
    then show ?thesis using assms radix_rows(2) [of t t' p p' d d'] unfolding c
      by (simp only: funcRow_eq validFunc_def ncclFunc.case simp_thms add_left_cancel add_right_cancel)
  next
    case ncclFuncReduceScatter
    then show ?thesis
      using assms radix_rows(1) [of t t' p p' "funcAlgo1 a" 4 "funcAlgo1 a'" d d'] funcAlgo1_inj [of a a'] funcAlgo1_less unfolding c
      by (simp only: funcRow_eq validFunc_def ncclFunc.case simp_thms add_left_cancel add_right_cancel)
  qed (use assms c in \<open>auto simp: validFunc_def funcRow_eq\<close>)
qed

theorem ncclDevFuncRow_injective_witness:
  "ncclDevFuncRow ncclFuncAllReduce 2 7 1 2 \<noteq> ncclDevFuncRow ncclFuncAllReduce 2 7 4 0"
  using ncclDevFuncRow_injective [of ncclFuncAllReduce 2 7 1 2 ncclFuncAllReduce 2 7 4 0] by (auto simp: validFunc_def)

end
