(* ===== verification/P2p_Schedule.thy ===== *)
theory P2p_Schedule
  imports Work_Part
begin

unbundle bit_operations_syntax

text \<open>
  The schedule of the point-to-point transfers (\<^verbatim>\<open>ncclP2pSchedule\<close>, init.cc) and its use.  The ranks are divided into
  groups of equal size; in every round a rank sends to one rank and receives from one rank.  All ranks compute their schedules
  alone: that they agree is what the transfers rely on.
\<close>

section \<open>Model\<close>

text \<open>\<^verbatim>\<open>gcd\<close> (include/utils.h), with the truncating remainder of C.\<close>

function c_gcd :: "int \<Rightarrow> int \<Rightarrow> int" where
  "c_gcd a b = (if b = 0 then a else c_gcd b (a smod b))"
  by pat_completeness auto
termination
proof (relation "measure (\<lambda>(a, b). nat \<bar>b\<bar>)", simp)
  fix a b :: int assume "b \<noteq> 0"
  then have "\<bar>a smod b\<bar> < \<bar>b\<bar>" by (simp add: abs_mult signed_modulo_int_def signed_divide_int_def)
  then show "((b, a smod b), (a, b)) \<in> measure (\<lambda>(a, b). nat \<bar>b\<bar>)" by simp
qed

declare c_gcd.simps [simp del]

text \<open>The part of the communicator that the schedule is made from; \<open>p2p_nodeRanks\<close> holds the table from local ranks to ranks of every node.\<close>

record p2pComm =
  p2p_nRanks :: nat
  p2p_node :: nat
  p2p_localRank :: nat
  p2p_maxLocalRanks :: nat
  p2p_nodeRanks :: "nat list list"

record P2pSchedulePair =
  sendRank :: nat
  recvRank :: nat

text \<open>The group size that divides the number of ranks of every node; a division by zero gives \<^const>\<open>None\<close>.\<close>

fun fixGroupSize :: "nat list list \<Rightarrow> int \<Rightarrow> int option" where
  "fixGroupSize [] groupSize = Some groupSize"
| "fixGroupSize (ranks # nodes) groupSize =
     (if groupSize = 0 then None
      else fixGroupSize nodes (if int (length ranks) smod groupSize \<noteq> 0 \<or> int (length ranks) < groupSize
                               then c_gcd groupSize (int (length ranks)) else groupSize))"

text \<open>The node and the first local rank of every group, and the group of this rank.\<close>

fun groupTables :: "int \<Rightarrow> nat \<Rightarrow> nat \<Rightarrow> nat list list \<Rightarrow> nat list \<times> int list \<times> int \<Rightarrow> (nat list \<times> int list \<times> int) nccl" where
  "groupTables groupSize me n [] acc = Inr acc"
| "groupTables groupSize me n (ranks # nodes) (toNode, toLocal, grp) =
     (if int (length ranks) smod groupSize \<noteq> 0 then Inl ncclInternalError
      else let nGroupsInNode = int (length ranks) sdiv groupSize
           in groupTables groupSize me (n + 1) nodes
                (toNode @ replicate (nat nGroupsInNode) n, toLocal @ map (\<lambda>g. int g * groupSize) [0..<nat nGroupsInNode],
                 if n < me then grp + nGroupsInNode else grp))"

definition schedulePair :: "nat list list \<Rightarrow> nat list \<Rightarrow> int list \<Rightarrow> int \<Rightarrow> int \<Rightarrow> nat \<Rightarrow> nat \<Rightarrow> nat \<Rightarrow> P2pSchedulePair" where
  "schedulePair nodes toNode toLocal groupSize l sendGroup recvGroup delta =
     (let sendLocal = toLocal ! sendGroup + (l + int delta) smod groupSize;
          recvLocal = toLocal ! recvGroup + (l - int delta + groupSize) smod groupSize
      in \<lparr>sendRank = nodes ! (toNode ! sendGroup) ! nat sendLocal, recvRank = nodes ! (toNode ! recvGroup) ! nat recvLocal\<rparr>)"

lemma round_decreases:
  fixes r n :: "'a::len word"
  assumes "r + 1 \<noteq> n"
  shows "unat (n - (r + 1) - 1) < unat (n - r - 1)"
proof -
  have "n - r - 1 \<noteq> 0"
  proof
    assume "n - r - 1 = 0"
    moreover have "n = (n - r - 1) + (r + 1)" by simp
    ultimately show False using assms by simp
  qed
  then have "unat (n - r - 1 - 1) < unat (n - r - 1)"
    using unat_minus_one [of "n - r - 1"] unat_gt_0 [of "n - r - 1"] by linarith
  moreover have "n - (r + 1) - 1 = n - r - 1 - 1" by simp
  ultimately show ?thesis by (simp only:)
qed

text \<open>The loop over the distances between groups; \<open>pair s r delta\<close> is the entry for the groups \<open>s\<close> and \<open>r\<close>.\<close>

function scheduleLoop :: "(nat \<Rightarrow> nat \<Rightarrow> nat \<Rightarrow> P2pSchedulePair) \<Rightarrow> int \<Rightarrow> int \<Rightarrow> int \<Rightarrow> u32 \<Rightarrow> u32 \<Rightarrow> u32 \<Rightarrow> P2pSchedulePair list \<Rightarrow> P2pSchedulePair list" where
  "scheduleLoop pair groupSize grp nGroups nGroupsPow2 groupRound groupDelta sched =
     (let sched = (if groupDelta < word_of_int nGroups then
                     let sendGroup = (word_of_int grp + groupDelta) mod word_of_int nGroups;
                         recvGroup = (word_of_int grp - groupDelta + word_of_int nGroups) mod word_of_int nGroups
                     in sched @ map (pair (unat sendGroup) (unat recvGroup)) [0..<nat groupSize]
                   else sched);
          groupRound' = groupRound + 1;
          groupDelta' = (groupDelta + groupRound') AND (nGroupsPow2 - 1)
      in if groupRound' \<noteq> nGroupsPow2 then scheduleLoop pair groupSize grp nGroups nGroupsPow2 groupRound' groupDelta' sched else sched)"
  by pat_completeness auto
termination
proof (relation "measure (\<lambda>(pair, gs, g, n, pow2, rnd, d, sched). unat (pow2 - rnd - 1))", goal_cases)
  case (2 pair gs g n pow2 rnd d sched sched' rnd' d')
  then have "rnd + 1 \<noteq> pow2" by simp
  from round_decreases [OF this] show ?case unfolding 2(2) in_measure prod.case .
qed simp

declare scheduleLoop.simps [simp del]

definition ncclP2pSchedule :: "int \<Rightarrow> p2pComm \<Rightarrow> (int \<times> P2pSchedulePair list) nccl option" where
  "ncclP2pSchedule groupSizeParam comm =
     (let nodes = p2p_nodeRanks comm
      in case fixGroupSize nodes (if length nodes > 1 then groupSizeParam else int (p2p_maxLocalRanks comm)) of None \<Rightarrow> None
         | Some groupSize \<Rightarrow>
             if groupSize = 0 then None
             else let l = int (p2p_localRank comm) smod groupSize;
                      grp = int (p2p_localRank comm) sdiv groupSize;
                      nGroups = int (p2p_nRanks comm) sdiv groupSize
                  in case pow2Up (word_of_int nGroups :: u32) of None \<Rightarrow> None
                     | Some nGroupsPow2 \<Rightarrow>
                         (case groupTables groupSize (p2p_node comm) 0 nodes ([], [], grp) of Inl e \<Rightarrow> Some (Inl e)
                          | Inr (toNode, toLocal, grp) \<Rightarrow>
                              if int (length toNode) \<noteq> nGroups then Some (Inl ncclInternalError)
                              else let sched = scheduleLoop (schedulePair nodes toNode toLocal groupSize l) groupSize grp nGroups nGroupsPow2 0 0 []
                                   in if length sched \<noteq> p2p_nRanks comm then Some (Inl ncclInternalError) else Some (Inr (groupSize, sched))))"

text \<open>The first round in which a peer is served, and the first channel that is used for it; a search past the end of the
schedule gives \<^const>\<open>None\<close>.\<close>

fun findRound :: "(P2pSchedulePair \<Rightarrow> nat) \<Rightarrow> nat \<Rightarrow> P2pSchedulePair list \<Rightarrow> nat \<Rightarrow> nat option" where
  "findRound f peer [] k = None"
| "findRound f peer (x # xs) k = (if peer \<noteq> f x then findRound f peer xs (k + 1) else Some k)"

definition postTuneP2pChannelBase :: "int \<Rightarrow> int \<Rightarrow> u32 \<Rightarrow> P2pSchedulePair list \<Rightarrow> nat \<Rightarrow> bool \<Rightarrow> u8 option" where
  "postTuneP2pChannelBase nodeCount p2pSchedGroupSize p2pnChannels sched peer isSendNotRecv =
     map_option (\<lambda>k. ncclP2pChannelBaseForRound nodeCount p2pSchedGroupSize p2pnChannels (int k))
       (findRound (if isSendNotRecv then sendRank else recvRank) peer sched 0)"

section \<open>The group size\<close>

lemma smod_nonneg: "0 \<le> a \<Longrightarrow> 0 \<le> b \<Longrightarrow> a smod b = a mod b" for a b :: int
  by (cases "a = 0") (simp_all add: signed_modulo_int_def signed_divide_int_def)

lemma c_gcd_eq: "0 \<le> a \<Longrightarrow> 0 \<le> b \<Longrightarrow> c_gcd a b = gcd a b"
proof (induction a b rule: c_gcd.induct)
  case (1 a b)
  show ?case
  proof (cases "b = 0")
    case True
    then show ?thesis using 1 by (subst c_gcd.simps) simp
  next
    case False
    then have b: "0 < b" using 1 by simp
    then have e: "a smod b = a mod b" using 1 by (simp add: smod_nonneg)
    have "c_gcd b (a mod b) = gcd b (a mod b)" using 1(1) [OF False] b unfolding e by simp
    then show ?thesis using False by (subst c_gcd.simps) (simp add: e gcd_red_int [symmetric])
  qed
qed

lemma smod_nat: "int a smod int b = int (a mod b)"
  by (simp add: smod_nonneg zmod_int)

lemma sdiv_nat: "int a sdiv int b = int (a div b)"
  by (cases "a = 0 \<or> b = 0") (auto simp: signed_divide_int_def zdiv_int)

lemma fixGroupSize_divides:
  assumes "0 < groupSize" "[] \<notin> set nodes"
  shows "\<exists>s > 0. fixGroupSize nodes (int groupSize) = Some (int s) \<and> s dvd groupSize \<and> (\<forall>ranks \<in> set nodes. s dvd length ranks)"
  using assms
proof (induction nodes arbitrary: groupSize)
  case (Cons ranks nodes)
  define g where "g = (if int (length ranks) smod int groupSize \<noteq> 0 \<or> int (length ranks) < int groupSize
    then nat (c_gcd (int groupSize) (int (length ranks))) else groupSize)"
  have g: "0 < g" "g dvd groupSize" "g dvd length ranks"
    using Cons.prems by (auto simp: g_def smod_nat c_gcd_eq gcd_int_def split: if_splits)
  have "fixGroupSize (ranks # nodes) (int groupSize) = fixGroupSize nodes (int g)"
    using Cons.prems by (simp add: g_def c_gcd_eq gcd_int_def)
  moreover obtain s where "s > 0" "fixGroupSize nodes (int g) = Some (int s)" "s dvd g" "\<forall>ranks \<in> set nodes. s dvd length ranks"
    using Cons.IH [of g] g Cons.prems by auto
  ultimately show ?case using g dvd_trans by (intro exI [of _ s]) auto
qed auto

section \<open>The groups\<close>

text \<open>The tables of the first nodes: entry \<open>j\<close> of group \<open>g\<close> is rank \<open>g * s + j\<close> of the ranks in the order of the nodes.\<close>

definition tablesOk :: "nat \<Rightarrow> nat list list \<Rightarrow> nat list \<Rightarrow> nat list \<Rightarrow> int list \<Rightarrow> bool" where
  "tablesOk s nodes ranks toNode toLocal \<longleftrightarrow> length toNode * s = length ranks \<and> length toLocal = length toNode \<and>
     (\<forall>g < length toNode. 0 \<le> toLocal ! g \<and> (\<forall>j < s. nodes ! (toNode ! g) ! nat (toLocal ! g + int j) = ranks ! (g * s + j)))"

lemma tablesOk_step:
  assumes ok: "tablesOk s nodes ranks toNode toLocal" and s: "0 < s" "length (nodes ! n) = k * s"
  shows "tablesOk s nodes (ranks @ nodes ! n) (toNode @ replicate k n) (toLocal @ map (\<lambda>g. int g * int s) [0..<k])"
  unfolding tablesOk_def
proof (intro conjI allI impI)
  let ?toNode = "toNode @ replicate k n" and ?toLocal = "toLocal @ map (\<lambda>g. int g * int s) [0..<k]"
  show "length ?toNode * s = length (ranks @ nodes ! n)" using ok s by (simp add: tablesOk_def algebra_simps)
  show "length ?toLocal = length ?toNode" using ok by (simp add: tablesOk_def)
  fix g assume g: "g < length ?toNode"
  have len: "length toLocal = length toNode" "length ranks = length toNode * s" using ok by (simp_all add: tablesOk_def)
  show "0 \<le> ?toLocal ! g"
    using ok g len by (cases "g < length toNode") (auto simp: tablesOk_def nth_append)
  fix j assume j: "j < s"
  show "nodes ! (?toNode ! g) ! nat (?toLocal ! g + int j) = (ranks @ nodes ! n) ! (g * s + j)"
  proof (cases "g < length toNode")
    case True
    have "g * s + j < (g + 1) * s" using j by (simp add: algebra_simps)
    also have "\<dots> \<le> length ranks" using True unfolding len(2) by (intro mult_le_mono1) simp
    finally show ?thesis using ok True j len by (simp add: tablesOk_def nth_append)
  next
    case False
    define h where "h = g - length toNode"
    have h: "h < k" "g = length toNode + h" using g False by (auto simp: h_def)
    have "nat (int h * int s + int j) = h * s + j" by (simp add: nat_int_add flip: of_nat_mult of_nat_add)
    moreover have "g * s + j - length ranks = h * s + j" "\<not> g * s + j < length ranks" by (simp_all add: h len algebra_simps)
    ultimately show ?thesis using h len by (simp add: nth_append)
  qed
qed

lemma groupTables_ok:
  assumes "tablesOk s all (concat (take n all)) toNode toLocal" "0 < s" "nodes = drop n all" "n \<le> length all" "\<forall>ranks \<in> set all. s dvd length ranks"
  shows "\<exists>toNode' toLocal'. groupTables (int s) me n nodes (toNode, toLocal, grp) =
      Inr (toNode', toLocal', grp + int (length (concat (take (me - n) nodes)) div s)) \<and> tablesOk s all (concat all) toNode' toLocal'"
  using assms(1,3,4)
proof (induction nodes arbitrary: n toNode toLocal grp)
  case Nil
  then show ?case by simp
next
  case (Cons ranks nodes)
  have n: "n < length all" using Cons.prems(2) by (metis drop_all linorder_not_le list.distinct(1))
  have rn: "ranks = all ! n" "nodes = drop (Suc n) all" using Cons.prems(2) n by (simp_all add: Cons_nth_drop_Suc [symmetric])
  have "s dvd length ranks" using assms(5) n unfolding rn by simp
  then obtain k where k: "length ranks = k * s" by (metis dvd_def mult.commute)
  have take: "concat (take (Suc n) all) = concat (take n all) @ all ! n" using n by (simp add: take_Suc_conv_app_nth)
  have "tablesOk s all (concat (take (Suc n) all)) (toNode @ replicate k n) (toLocal @ map (\<lambda>g. int g * int s) [0..<k])"
    unfolding take using tablesOk_step [OF Cons.prems(1) assms(2)] k unfolding rn by blast
  note IH = Cons.IH [OF this rn(2), of "if n < me then grp + int k else grp"]
  have kd: "int (length ranks) smod int s = 0" "int (length ranks) sdiv int s = int k" unfolding smod_nat sdiv_nat k using assms(2) by simp_all
  have off: "grp + int (length (concat (take (me - n) (ranks # nodes))) div s) =
      (if n < me then grp + int k else grp) + int (length (concat (take (me - Suc n) nodes)) div s)"
  proof (cases "n < me")
    case True
    then obtain d where d: "me - n = Suc d" "me - Suc n = d" by (metis Suc_diff_Suc)
    show ?thesis using True assms(2) unfolding d by (simp add: k)
  qed simp
  show ?case using IH n unfolding off by (simp add: kd)
qed

section \<open>The order of the distances\<close>

definition triangle :: "nat \<Rightarrow> nat" where
  "triangle x = x * (x + 1) div 2"

lemma triangle_double: "2 * triangle x = x * (x + 1)"
  by (simp add: triangle_def)

lemma triangle_Suc: "triangle (Suc x) = triangle x + Suc x"
  by (simp add: triangle_def)

text \<open>The triangular numbers pass through all residues of a power of two.\<close>

lemma triangle_inj:
  assumes "x < 2 ^ k" "y < 2 ^ k" "triangle x mod 2 ^ k = triangle y mod 2 ^ k"
  shows "x = y"
proof (rule ccontr)
  assume "x \<noteq> y"
  let ?a = "int x - int y" and ?b = "int x + int y + 1"
  have xy: "int x < 2 ^ k" "int y < 2 ^ k" using assms(1,2) by (simp_all add: of_nat_less_numeral_power_cancel_iff)
  have "int (triangle x mod 2 ^ k) = int (triangle y mod 2 ^ k)" using assms(3) by simp
  then have "int (triangle x) mod 2 ^ k = int (triangle y) mod 2 ^ k" by (simp add: zmod_int)
  then have "(2 :: int) ^ k dvd int (triangle x) - int (triangle y)" by (simp add: mod_eq_dvd_iff)
  then have "2 * 2 ^ k dvd 2 * (int (triangle x) - int (triangle y))" by (rule mult_dvd_mono [OF dvd_refl])
  also have "2 * (int (triangle x) - int (triangle y)) = ?a * ?b"
    using arg_cong [OF triangle_double [of x], of int] arg_cong [OF triangle_double [of y], of int] by (simp add: algebra_simps)
  finally have d: "2 ^ Suc k dvd ?a * ?b" by simp
  show False
  proof (cases "even ?a")
    case True
    then have "odd ?b" by presburger
    then have "coprime (2 ^ Suc k) ?b" by (simp add: coprime_commute)
    then have "2 ^ Suc k dvd ?a" using d by (simp add: coprime_dvd_mult_left_iff)
    moreover have "\<bar>?a\<bar> < 2 ^ Suc k" using xy unfolding power_Suc by linarith
    ultimately show False using \<open>x \<noteq> y\<close> dvd_imp_le_int [of ?a "2 ^ Suc k"] by simp
  next
    case False
    then have "coprime (2 ^ Suc k) ?a" by (simp add: coprime_commute)
    then have "2 ^ Suc k dvd ?b" using d by (simp add: coprime_dvd_mult_right_iff)
    moreover have "?b < 2 ^ Suc k" using xy unfolding power_Suc by linarith
    ultimately show False using zdvd_imp_le [of "2 ^ Suc k" ?b] by simp
  qed
qed

definition deltas :: "nat \<Rightarrow> nat \<Rightarrow> nat list" where
  "deltas k n = filter (\<lambda>d. d < n) (map (\<lambda>x. triangle x mod 2 ^ k) [0..<2 ^ k])"

lemma deltas_permutation:
  assumes "n \<le> 2 ^ k"
  shows "distinct (deltas k n)" "set (deltas k n) = {..<n}" "length (deltas k n) = n"
proof -
  let ?f = "\<lambda>x. triangle x mod 2 ^ k"
  have inj: "inj_on ?f {..<2 ^ k}" using triangle_inj by (intro inj_onI) simp
  then have "?f ` {..<2 ^ k} = {..<2 ^ k}" by (intro endo_inj_surj) auto
  then have all: "set (map ?f [0..<2 ^ k]) = {..<2 ^ k}" by (simp add: atLeast0LessThan)
  show d: "distinct (deltas k n)" using inj by (simp add: deltas_def distinct_map atLeast0LessThan)
  show s: "set (deltas k n) = {..<n}" unfolding deltas_def set_filter all using assms by auto
  show "length (deltas k n) = n" using distinct_card [OF d] s by simp
qed

lemma take_bit_word_of_nat:
  assumes "k < 32"
  shows "take_bit k (of_nat m :: u32) = of_nat (m mod 2 ^ k)"
proof -
  have p: "(2::nat) ^ k dvd 2 ^ 32" using assms by (intro le_imp_power_dvd) simp
  have "m mod 2 ^ k < 2 ^ k" by simp
  also have "(2::nat) ^ k \<le> 2 ^ 32" using p by (rule dvd_imp_le) simp
  finally have "unat (of_nat (m mod 2 ^ k) :: u32) = m mod 2 ^ k" by (simp add: unat_of_nat)
  moreover have "unat (take_bit k (of_nat m :: u32)) = m mod 2 ^ k"
    using mod_mod_cancel [OF p, of m] unfolding unsigned_take_bit_eq by (simp add: take_bit_eq_mod unat_of_nat)
  ultimately show ?thesis by (simp only: word_unat_eq_iff)
qed

lemma delta_update:
  assumes "k < 32"
  shows "((of_nat (triangle x mod 2 ^ k) :: u32) + (of_nat x + 1)) AND (2 ^ k - 1) = of_nat (triangle (Suc x) mod 2 ^ k)"
proof -
  have "((of_nat (triangle x mod 2 ^ k) :: u32) + (of_nat x + 1)) AND (2 ^ k - 1) = take_bit k (of_nat (triangle x mod 2 ^ k + Suc x))"
    by (simp add: take_bit_eq_mask mask_eq_exp_minus_1 algebra_simps)
  also have "\<dots> = of_nat ((triangle x mod 2 ^ k + Suc x) mod 2 ^ k)"
    by (rule take_bit_word_of_nat [OF assms])
  also have "(triangle x mod 2 ^ k + Suc x) mod 2 ^ k = triangle (Suc x) mod 2 ^ k"
    unfolding triangle_Suc by (rule mod_add_left_eq)
  finally show ?thesis .
qed

lemma group_words:
  assumes "g < n" "d < n" "n \<le> 2 ^ 31"
  shows "unat ((of_nat g + of_nat d :: u32) mod of_nat n) = (g + d) mod n" "unat ((of_nat g - of_nat d + of_nat n :: u32) mod of_nat n) = (g + n - d) mod n"
proof -
  have e: "(of_nat g - of_nat d + of_nat n :: u32) = of_nat (g + n - d)" using assms by (simp add: of_nat_diff)
  have "g + d < 2 ^ LENGTH(32)" "g + n - d < 2 ^ LENGTH(32)" "n < 2 ^ LENGTH(32)" using assms by simp_all
  then have "unat (of_nat (g + d) :: u32) = g + d" "unat (of_nat (g + n - d) :: u32) = g + n - d" "unat (of_nat n :: u32) = n"
    unfolding unat_of_nat by (simp_all only: mod_less)
  then show "unat ((of_nat g + of_nat d :: u32) mod of_nat n) = (g + d) mod n" "unat ((of_nat g - of_nat d + of_nat n :: u32) mod of_nat n) = (g + n - d) mod n"
    unfolding e of_nat_add [symmetric] unat_mod by simp_all
qed

lemma scheduleLoop_eq:
  assumes "g < n" "n \<le> 2 ^ 31" "k < 32" "x < 2 ^ k"
  shows "scheduleLoop pair (int s) (int g) (int n) (2 ^ k) (of_nat x) (of_nat (triangle x mod 2 ^ k)) sched =
    sched @ concat (map (\<lambda>d. map (pair ((g + d) mod n) ((g + n - d) mod n)) [0..<s]) (filter (\<lambda>d. d < n) (map (\<lambda>x. triangle x mod 2 ^ k) [x..<2 ^ k])))"
  using assms(4)
proof (induction "2 ^ k - x" arbitrary: x sched)
  case (Suc m)
  define d where "d = triangle x mod 2 ^ k"
  have d32: "d < 2 ^ 32"
  proof -
    have "d < 2 ^ k" by (simp add: d_def)
    also have "(2::nat) ^ k \<le> 2 ^ 32" using assms(3) by (intro power_increasing) simp_all
    finally show ?thesis .
  qed
  have x32: "Suc x \<le> 2 ^ 31" using Suc.prems assms(3) power_increasing [of k 31 "2::nat"] by linarith
  have lt: "(of_nat d :: u32) < of_nat n \<longleftrightarrow> d < n"
    using d32 assms(2) by (simp add: word_less_nat_alt unat_of_nat)
  define sched' where "sched' = (if d < n then sched @ map (pair ((g + d) mod n) ((g + n - d) mod n)) [0..<s] else sched)"
  have step: "scheduleLoop pair (int s) (int g) (int n) (2 ^ k) (of_nat x) (of_nat d) sched =
      (if (of_nat x + 1 :: u32) \<noteq> 2 ^ k then scheduleLoop pair (int s) (int g) (int n) (2 ^ k) (of_nat x + 1) (of_nat (triangle (Suc x) mod 2 ^ k)) sched' else sched')"
    using group_words [OF assms(1) _ assms(2), of d] delta_update [OF assms(3), of x, folded d_def]
    by (subst scheduleLoop.simps) (simp add: Let_def lt sched'_def)
  have stop: "(of_nat x + 1 :: u32) \<noteq> 2 ^ k \<longleftrightarrow> Suc x \<noteq> 2 ^ k"
  proof -
    have "unat (of_nat (Suc x) :: u32) = Suc x" unfolding unat_of_nat using x32 by simp
    moreover have "unat (2 ^ k :: u32) = 2 ^ k" using assms(3) by (simp add: unat_pow2)
    moreover have "(of_nat x + 1 :: u32) = of_nat (Suc x)" by simp
    ultimately show ?thesis by (metis word_unat_eq_iff)
  qed
  have upt: "[x..<2 ^ k] = x # [Suc x..<2 ^ k]" using Suc.prems by (rule upt_conv_Cons)
  show ?case
  proof (cases "Suc x = 2 ^ k")
    case True
    then show ?thesis using step stop unfolding upt d_def [symmetric] sched'_def by (simp add: d_def)
  next
    case False
    then have "scheduleLoop pair (int s) (int g) (int n) (2 ^ k) (of_nat x) (of_nat d) sched =
        scheduleLoop pair (int s) (int g) (int n) (2 ^ k) (of_nat (Suc x)) (of_nat (triangle (Suc x) mod 2 ^ k)) sched'"
      using step stop by (simp add: add.commute)
    also have "\<dots> = sched' @ concat (map (\<lambda>d. map (pair ((g + d) mod n) ((g + n - d) mod n)) [0..<s])
        (filter (\<lambda>d. d < n) (map (\<lambda>x. triangle x mod 2 ^ k) [Suc x..<2 ^ k])))"
      using Suc.hyps(1) [of "Suc x" sched'] Suc.hyps(2) Suc.prems False by simp
    finally show ?thesis unfolding upt d_def [symmetric] sched'_def by (simp add: d_def)
  qed
qed simp

section \<open>The schedules of all ranks\<close>

text \<open>The nodes hold all ranks, and a rank knows its place.\<close>

definition nodeWorld :: "nat \<Rightarrow> nat list list \<Rightarrow> bool" where
  "nodeWorld nr nodes \<longleftrightarrow> nodes \<noteq> [] \<and> [] \<notin> set nodes \<and> distinct (concat nodes) \<and> set (concat nodes) = {..<nr}"

definition placed :: "nat \<Rightarrow> nat list list \<Rightarrow> nat \<Rightarrow> p2pComm \<Rightarrow> bool" where
  "placed nr nodes r comm \<longleftrightarrow> p2p_nRanks comm = nr \<and> p2p_nodeRanks comm = nodes \<and> p2p_maxLocalRanks comm = Max (length ` set nodes) \<and>
     p2p_node comm < length nodes \<and> p2p_localRank comm < length (nodes ! p2p_node comm) \<and> nodes ! p2p_node comm ! p2p_localRank comm = r"

definition position :: "p2pComm \<Rightarrow> nat" where
  "position comm = length (concat (take (p2p_node comm) (p2p_nodeRanks comm))) + p2p_localRank comm"

definition roundPair :: "nat list \<Rightarrow> nat \<Rightarrow> nat \<Rightarrow> nat \<Rightarrow> nat \<Rightarrow> nat \<Rightarrow> P2pSchedulePair" where
  "roundPair R s n p d e = \<lparr>sendRank = R ! ((p div s + d) mod n * s + (p mod s + e) mod s), recvRank = R ! ((p div s + n - d) mod n * s + (p mod s + s - e) mod s)\<rparr>"

definition roundsOf :: "nat list \<Rightarrow> nat \<Rightarrow> nat \<Rightarrow> nat list \<Rightarrow> nat \<Rightarrow> P2pSchedulePair list" where
  "roundsOf R s n ds p = concat (map (\<lambda>d. map (roundPair R s n p d) [0..<s]) ds)"

lemma nth_concat_take:
  assumes "n < length xss" "i < length (xss ! n)"
  shows "concat xss ! (length (concat (take n xss)) + i) = xss ! n ! i" "length (concat (take n xss)) + i < length (concat xss)"
proof -
  have "concat xss = concat (take n xss) @ xss ! n @ concat (drop (Suc n) xss)"
    using arg_cong [OF id_take_nth_drop [OF assms(1)], of concat] by simp
  then show "concat xss ! (length (concat (take n xss)) + i) = xss ! n ! i" "length (concat (take n xss)) + i < length (concat xss)"
    using assms(2) by (simp_all add: nth_append)
qed

lemma position_rank:
  assumes "placed nr nodes r comm" "nodeWorld nr nodes"
  shows "position comm < nr" "concat nodes ! position comm = r" "length (concat nodes) = nr"
proof -
  show len: "length (concat nodes) = nr"
    using assms(2) distinct_card [of "concat nodes"] by (simp add: nodeWorld_def)
  show "position comm < nr" "concat nodes ! position comm = r"
    using nth_concat_take [of "p2p_node comm" nodes "p2p_localRank comm"] assms(1) len by (simp_all add: placed_def position_def)
qed

lemma placed_less:
  assumes "placed nr nodes r comm" "nodeWorld nr nodes"
  shows "r < nr"
proof -
  have "concat nodes ! position comm \<in> set (concat nodes)" using position_rank(1,3) [OF assms] by (intro nth_mem) simp
  then have "r \<in> {..<nr}" using assms(2) unfolding position_rank(2) [OF assms] nodeWorld_def by (simp only:)
  then show ?thesis by simp
qed

lemma schedulePair_eq:
  assumes ok: "tablesOk s nodes R toNode toLocal" and s: "0 < s" "sg < length toNode" "rg < length toNode" "e < s"
  shows "schedulePair nodes toNode toLocal (int s) (int (p mod s)) sg rg e =
    \<lparr>sendRank = R ! (sg * s + (p mod s + e) mod s), recvRank = R ! (rg * s + (p mod s + s - e) mod s)\<rparr>"
proof -
  have a: "(int (p mod s) + int e) smod int s = int ((p mod s + e) mod s)" unfolding of_nat_add [symmetric] by (rule smod_nat)
  have "int (p mod s) - int e + int s = int (p mod s + s - e)" using s(4) by linarith
  then have b: "(int (p mod s) - int e + int s) smod int s = int ((p mod s + s - e) mod s)" by (simp only: smod_nat)
  show ?thesis unfolding schedulePair_def Let_def a b using ok s by (simp add: tablesOk_def)
qed

lemma dvd_length_concat: "\<forall>xs \<in> set xss. s dvd length xs \<Longrightarrow> s dvd length (concat xss)"
  by (induction xss) auto

lemma ncclP2pSchedule_eval:
  assumes comm: "placed nr nodes r comm" and world: "nodeWorld nr nodes" and nr: "nr < 2 ^ 31"
    and s: "fixGroupSize nodes (if length nodes > 1 then param else int (Max (length ` set nodes))) = Some (int s)" "0 < s" "\<forall>ranks \<in> set nodes. s dvd length ranks"
    and n: "n * s = nr" and k: "pow2Up (of_nat n :: u32) = Some (2 ^ k)" "k < 32" "n \<le> 2 ^ k"
  shows "ncclP2pSchedule param comm = Some (Inr (int s, roundsOf (concat nodes) s n (deltas k n) (position comm)))"
proof -
  note pos = position_rank [OF comm world]
  define l where "l = p2p_localRank comm"
  define m where "m = p2p_node comm"
  have f: "p2p_nRanks comm = nr" "p2p_nodeRanks comm = nodes" "p2p_maxLocalRanks comm = Max (length ` set nodes)"
    using comm by (simp_all add: placed_def)
  have "tablesOk s nodes (concat (take 0 nodes)) [] []" by (simp add: tablesOk_def)
  from groupTables_ok [OF this s(2) _ _ s(3), of nodes m "int (l div s)"]
  obtain toNode toLocal where tab: "groupTables (int s) m 0 nodes ([], [], int (l div s)) =
      Inr (toNode, toLocal, int (l div s) + int (length (concat (take m nodes)) div s))" and ok: "tablesOk s nodes (concat nodes) toNode toLocal"
    by auto
  have dvd: "s dvd length (concat (take m nodes))"
    using s(3) by (intro dvd_length_concat) (auto dest: in_set_takeD)
  define p where "p = position comm"
  have p: "p div s = l div s + length (concat (take m nodes)) div s" "p mod s = l mod s"
    using dvd by (auto simp: p_def position_def f l_def m_def elim!: dvdE)
  have "length toNode * s = n * s" using ok pos(3) n by (simp add: tablesOk_def)
  then have len: "length toNode = n" using s(2) by simp
  have g: "p div s < n" using pos(1) n s(2) by (simp add: p_def less_mult_imp_div_less)
  have n31: "n \<le> 2 ^ 31" "0 < n" using nr n s(2) g by (auto intro: order.trans [of n "n * s"])
  define pair where "pair = schedulePair nodes toNode toLocal (int s) (int (l mod s))"
  have loop: "scheduleLoop pair (int s) (int (p div s)) (int n) (2 ^ k) 0 0 [] = roundsOf (concat nodes) s n (deltas k n) p"
  proof -
    have "scheduleLoop pair (int s) (int (p div s)) (int n) (2 ^ k) (of_nat 0) (of_nat (triangle 0 mod 2 ^ k)) [] =
        concat (map (\<lambda>d. map (pair ((p div s + d) mod n) ((p div s + n - d) mod n)) [0..<s]) (deltas k n))"
      unfolding deltas_def using scheduleLoop_eq [OF g n31(1) k(2), of 0] by simp
    moreover have "pair ((p div s + d) mod n) ((p div s + n - d) mod n) e = roundPair (concat nodes) s n p d e" if "e < s" for d e
      unfolding pair_def roundPair_def p(2) [symmetric] using n31(2) len that by (intro schedulePair_eq [OF ok s(2)]) simp_all
    then have "map (pair ((p div s + d) mod n) ((p div s + n - d) mod n)) [0..<s] = map (roundPair (concat nodes) s n p d) [0..<s]" for d by simp
    ultimately show ?thesis by (simp add: roundsOf_def triangle_def)
  qed
  have nlen: "length (roundsOf (concat nodes) s n (deltas k n) p) = nr"
    using deltas_permutation(3) [OF k(3)] n by (simp add: roundsOf_def length_concat o_def sum_list_triv)
  have words: "int nr sdiv int s = int n" "int l smod int s = int (l mod s)" "int l sdiv int s = int (l div s)"
    using n s(2) by (auto simp: sdiv_nat smod_nat)
  have grp: "int (l div s) + int (length (concat (take m nodes)) div s) = int (p div s)" by (simp add: p(1))
  show ?thesis
    using s k(1) loop nlen tab len
    unfolding ncclP2pSchedule_def f Let_def l_def [symmetric] m_def [symmetric] p_def [symmetric] grp pair_def by (simp add: words)
qed

lemma mod_wrap: "x < 2 * n \<Longrightarrow> x mod n = (if x < n then x else x - n)" for n :: nat
  by (simp add: le_mod_geq)

lemma shift_inverse_iff:
  fixes n :: nat
  assumes "a < n" "b < n" "d < n"
  shows "(a + d) mod n = b \<longleftrightarrow> (b + n - d) mod n = a"
  using assms mod_wrap [of "a + d" n] mod_wrap [of "b + n - d" n] by (auto split: if_splits)

lemma shift_surj:
  fixes n :: nat
  assumes "a < n" "b < n"
  shows "\<exists>d < n. (a + d) mod n = b" "\<exists>d < n. (a + n - d) mod n = b"
proof -
  have "(b + n - a) mod n < n" "(a + n - b) mod n < n" using assms by simp_all
  moreover have "(a + (b + n - a) mod n) mod n = b" "(a + n - (a + n - b) mod n) mod n = b"
    using assms mod_wrap [of "b + n - a" n] mod_wrap [of "a + n - b" n] by (auto simp: mod_wrap split: if_splits)
  ultimately show "\<exists>d < n. (a + d) mod n = b" "\<exists>d < n. (a + n - d) mod n = b" by blast+
qed

lemma nth_concat_rounds:
  assumes "i < length ds" "e < s"
  shows "concat (map (\<lambda>d. map (f d) [0..<s]) ds) ! (i * s + e) = f (ds ! i) e"
  using assms
proof (induction ds arbitrary: i)
  case (Cons d ds)
  then show ?case by (cases i) (simp_all add: nth_append)
qed simp

lemma mult_add_eq_iff:
  fixes s :: nat
  assumes "j < s" "j' < s"
  shows "g * s + j = g' * s + j' \<longleftrightarrow> g = g' \<and> j = j'"
proof
  assume e: "g * s + j = g' * s + j'"
  have "(g * s + j) div s = g" "(g' * s + j') div s = g'" using assms by simp_all
  then show "g = g' \<and> j = j'" using e by simp
qed simp

lemma mult_add_less:
  fixes s :: nat
  assumes "g < n" "j < s"
  shows "g * s + j < n * s"
proof -
  have "g * s + j < Suc g * s" using assms(2) by simp
  also have "\<dots> \<le> n * s" using assms(1) by (intro mult_le_mono1) simp
  finally show ?thesis .
qed

lemma rounds_match:
  assumes R: "distinct R" "length R = n * s" and p: "p < n * s" and q: "q < n * s" and d: "d < n" "e < s"
  shows "sendRank (roundPair R s n p d e) = R ! q \<longleftrightarrow> recvRank (roundPair R s n q d e) = R ! p"
proof -
  have n: "0 < n" "0 < s" using d by auto
  have pd: "p div s < n" "q div s < n" "p mod s < s" "q mod s < s" using p q n by (simp_all add: less_mult_imp_div_less)
  have lt: "x mod n * s + y mod s < length R" for x y unfolding R(2) using n by (intro mult_add_less) simp_all
  have pq: "p = p div s * s + p mod s" "q = q div s * s + q mod s" by simp_all
  have "sendRank (roundPair R s n p d e) = R ! q \<longleftrightarrow> (p div s + d) mod n * s + (p mod s + e) mod s = q"
    using lt q R by (simp add: roundPair_def nth_eq_iff_index_eq)
  also have "\<dots> \<longleftrightarrow> (p div s + d) mod n = q div s \<and> (p mod s + e) mod s = q mod s"
    by (subst pq(2), rule mult_add_eq_iff) (use n in simp_all)
  also have "\<dots> \<longleftrightarrow> (q div s + n - d) mod n = p div s \<and> (q mod s + s - e) mod s = p mod s"
    using shift_inverse_iff pd d by simp
  also have "\<dots> \<longleftrightarrow> (q div s + n - d) mod n * s + (q mod s + s - e) mod s = p"
    by (subst (3) pq(1), rule sym, rule mult_add_eq_iff) (use n in simp_all)
  also have "\<dots> \<longleftrightarrow> recvRank (roundPair R s n q d e) = R ! p"
    using lt p R by (simp add: roundPair_def nth_eq_iff_index_eq)
  finally show ?thesis .
qed

lemma rounds_all:
  assumes R: "length R = n * s" and p: "p < n * s" and ds: "set ds = {..<n}"
  shows "set (map sendRank (roundsOf R s n ds p)) = set R" "set (map recvRank (roundsOf R s n ds p)) = set R"
proof -
  have n: "0 < n" "0 < s" using p by (auto intro: gr0I)
  have pd: "p div s < n" "p mod s < s" using p n by (simp_all add: less_mult_imp_div_less)
  have lt: "x mod n * s + y mod s < length R" for x y unfolding R using n by (intro mult_add_less) simp_all
  have mem: "roundPair R s n p d e \<in> set (roundsOf R s n ds p)" if "d < n" "e < s" for d e
    using that ds by (auto simp: roundsOf_def intro!: bexI [of _ d])
  have cover: "\<exists>x \<in> set (roundsOf R s n ds p). sendRank x = R ! t" "\<exists>x \<in> set (roundsOf R s n ds p). recvRank x = R ! t" if t: "t < n * s" for t
  proof -
    have td: "t div s < n" "t mod s < s" "t div s * s + t mod s = t" using t n by (simp_all add: less_mult_imp_div_less)
    obtain d e where "d < n" "(p div s + d) mod n = t div s" "e < s" "(p mod s + e) mod s = t mod s"
      using shift_surj(1) pd td by meson
    then show "\<exists>x \<in> set (roundsOf R s n ds p). sendRank x = R ! t" using mem [of d e] td(3) by (intro bexI [of _ "roundPair R s n p d e"]) (simp_all add: roundPair_def)
    obtain d e where "d < n" "(p div s + n - d) mod n = t div s" "e < s" "(p mod s + s - e) mod s = t mod s"
      using shift_surj(2) pd td by meson
    then show "\<exists>x \<in> set (roundsOf R s n ds p). recvRank x = R ! t" using mem [of d e] td(3) by (intro bexI [of _ "roundPair R s n p d e"]) (simp_all add: roundPair_def)
  qed
  have range: "sendRank x \<in> set R" "recvRank x \<in> set R" if "x \<in> set (roundsOf R s n ds p)" for x
    using that lt by (auto simp: roundsOf_def roundPair_def)
  show "set (map sendRank (roundsOf R s n ds p)) = set R"
  proof
    show "set (map sendRank (roundsOf R s n ds p)) \<subseteq> set R" using range(1) by auto
    show "set R \<subseteq> set (map sendRank (roundsOf R s n ds p))"
    proof
      fix v assume "v \<in> set R"
      then obtain t where t: "t < n * s" "R ! t = v" by (metis R in_set_conv_nth)
      from cover(1) [OF t(1)] t(2) show "v \<in> set (map sendRank (roundsOf R s n ds p))" by force
    qed
  qed
  show "set (map recvRank (roundsOf R s n ds p)) = set R"
  proof
    show "set (map recvRank (roundsOf R s n ds p)) \<subseteq> set R" using range(2) by auto
    show "set R \<subseteq> set (map recvRank (roundsOf R s n ds p))"
    proof
      fix v assume "v \<in> set R"
      then obtain t where t: "t < n * s" "R ! t = v" by (metis R in_set_conv_nth)
      from cover(2) [OF t(1)] t(2) show "v \<in> set (map recvRank (roundsOf R s n ds p))" by force
    qed
  qed
qed

lemma roundsOf_nth:
  assumes "length ds = n" "t < n * s"
  shows "roundsOf R s n ds p ! t = roundPair R s n p (ds ! (t div s)) (t mod s)" "t div s < n" "t mod s < s"
proof -
  have s: "0 < s" using assms(2) by (auto intro: gr0I)
  show d: "t div s < n" "t mod s < s" using assms(2) s by (simp_all add: less_mult_imp_div_less)
  have "t = t div s * s + t mod s" by simp
  then show "roundsOf R s n ds p ! t = roundPair R s n p (ds ! (t div s)) (t mod s)"
    using nth_concat_rounds [of "t div s" ds "t mod s" s "roundPair R s n p"] d assms(1) unfolding roundsOf_def by metis
qed

text \<open>A schedule of a rank serves every rank once in each direction; the schedules of two ranks match.\<close>

definition fullSchedule :: "nat \<Rightarrow> P2pSchedulePair list \<Rightarrow> bool" where
  "fullSchedule nr sched \<longleftrightarrow> length sched = nr \<and> distinct (map sendRank sched) \<and> set (map sendRank sched) = {..<nr} \<and>
     distinct (map recvRank sched) \<and> set (map recvRank sched) = {..<nr}"

definition matchingSchedules :: "nat \<Rightarrow> nat \<Rightarrow> P2pSchedulePair list \<Rightarrow> nat \<Rightarrow> P2pSchedulePair list \<Rightarrow> bool" where
  "matchingSchedules nr r sched q sched' \<longleftrightarrow> (\<forall>k < nr. sendRank (sched ! k) = q \<longleftrightarrow> recvRank (sched' ! k) = r)"

lemma fullSchedule_rounds:
  assumes R: "distinct R" "set R = {..<nr}" "length R = n * s" and p: "p < n * s" and ds: "set ds = {..<n}" "length ds = n"
  shows "fullSchedule nr (roundsOf R s n ds p)"
proof -
  have nr: "nr = n * s" using R distinct_card [of R] by simp
  have len: "length (roundsOf R s n ds p) = nr"
    using ds(2) nr by (simp add: roundsOf_def length_concat o_def sum_list_triv)
  have "distinct xs" if "set xs = {..<nr}" "length xs = nr" for xs :: "nat list"
    using that by (intro card_distinct) simp
  then show ?thesis using rounds_all [OF R(3) p ds(1)] R(2) len unfolding fullSchedule_def by (metis length_map)
qed

lemma schedules_exist:
  assumes world: "nodeWorld nr nodes" and nr: "nr < 2 ^ 31" and param: "0 < param"
  shows "\<exists>gs sched. \<forall>r comm. placed nr nodes r comm \<longrightarrow> ncclP2pSchedule (int param) comm = Some (Inr (gs, sched r)) \<and> fullSchedule nr (sched r) \<and>
    (\<forall>q comm'. placed nr nodes q comm' \<longrightarrow> matchingSchedules nr r (sched r) q (sched q))"
proof -
  define R where "R = concat nodes"
  have R: "distinct R" "set R = {..<nr}" "length R = nr" using world distinct_card [of R] by (simp_all add: nodeWorld_def R_def)
  have ne: "[] \<notin> set nodes" "nodes \<noteq> []" using world by (simp_all add: nodeWorld_def)
  define g where "g = (if length nodes > 1 then param else Max (length ` set nodes))"
  have "hd nodes \<in> set nodes" using ne(2) by simp
  then have "length (hd nodes) \<le> Max (length ` set nodes)" "0 < length (hd nodes)" using ne(1) by (auto intro: Max_ge)
  then have "0 < Max (length ` set nodes)" by linarith
  then have "0 < g" using param by (simp add: g_def)
  from fixGroupSize_divides [OF this ne(1)] obtain s where s: "0 < s" "fixGroupSize nodes (int g) = Some (int s)" "\<forall>ranks \<in> set nodes. s dvd length ranks" by blast
  have init: "(if length nodes > 1 then int param else int (Max (length ` set nodes))) = int g" by (simp add: g_def)
  have "s dvd nr" using dvd_length_concat [OF s(3)] R(3) by (simp add: R_def)
  then obtain n where n: "n * s = nr" by (metis dvd_def mult.commute)
  have "nr \<noteq> 0" using R(3) ne by (cases nodes) (auto simp: R_def)
  then have n0: "n \<noteq> 0" using n by auto
  have "n \<le> n * s" using s(1) by simp
  then have n31: "n < 2 ^ 31" using nr n by linarith
  have un: "unat (of_nat n :: u32) = n" using n31 by (simp add: unat_of_nat)
  then have "(of_nat n :: u32) \<noteq> 0" using n0 by (metis unat_0)
  from pow2Up_defined [OF this] obtain k where k: "pow2Up (of_nat n :: u32) = Some (2 ^ k)" "k < 32" "n \<le> 2 ^ k"
    unfolding un using n31 by auto
  define sched where "sched = (\<lambda>r. roundsOf R s n (deltas k n) (THE p. p < nr \<and> R ! p = r))"
  note ds = deltas_permutation [OF k(3)]
  have pos: "(THE p. p < nr \<and> R ! p = r) = position comm" "position comm < nr" "R ! position comm = r" if "placed nr nodes r comm" for r comm
  proof -
    note q = position_rank [OF that world, folded R_def]
    show "(THE p. p < nr \<and> R ! p = r) = position comm"
    proof (rule the_equality)
      show "position comm < nr \<and> R ! position comm = r" using q(1,2) by blast
      show "p = position comm" if "p < nr \<and> R ! p = r" for p
        using nth_eq_iff_index_eq [OF R(1), of p "position comm"] that q R(3) by simp
    qed
    show "position comm < nr" "R ! position comm = r" using q by auto
  qed
  have eval: "ncclP2pSchedule (int param) comm = Some (Inr (int s, sched r)) \<and> fullSchedule nr (sched r)" if c: "placed nr nodes r comm" for r comm
  proof -
    have e: "sched r = roundsOf R s n (deltas k n) (position comm)" unfolding sched_def pos(1) [OF c] ..
    have "length R = n * s" "position comm < n * s" using R(3) pos(2) [OF c] n by simp_all
    from fullSchedule_rounds [OF R(1,2) this ds(2,3)] show ?thesis
      using ncclP2pSchedule_eval [where param = "int param", OF c world nr _ s(1,3) n k, unfolded init, OF s(2)] unfolding e R_def by blast
  qed
  have match: "matchingSchedules nr r (sched r) q (sched q)" if c: "placed nr nodes r comm" "placed nr nodes q comm'" for r comm q comm'
    unfolding matchingSchedules_def
  proof (intro allI impI)
    fix t assume "t < nr"
    then have t: "t < n * s" by (simp add: n)
    note nth = roundsOf_nth(1) [OF ds(3) t, of R] roundsOf_nth(2,3) [OF ds(3) t]
    have "deltas k n ! (t div s) < n" using ds(2,3) nth(2) by (metis lessThan_iff nth_mem)
    moreover have "length R = n * s" "position comm < n * s" "position comm' < n * s" using R(3) pos(2) [OF c(1)] pos(2) [OF c(2)] n by simp_all
    ultimately have "sendRank (roundPair R s n (position comm) (deltas k n ! (t div s)) (t mod s)) = R ! position comm' \<longleftrightarrow>
        recvRank (roundPair R s n (position comm') (deltas k n ! (t div s)) (t mod s)) = R ! position comm"
      using rounds_match [OF R(1)] nth(3) by blast
    then show "sendRank (sched r ! t) = q \<longleftrightarrow> recvRank (sched q ! t) = r"
      unfolding sched_def pos(1) [OF c(1)] pos(1) [OF c(2)] nth(1) pos(3) [OF c(1)] pos(3) [OF c(2)] .
  qed
  show ?thesis using eval match by (intro exI [of _ "int s"] exI [of _ sched]) blast
qed


lemma findRound_first:
  assumes "peer \<in> f ` set xs"
  shows "\<exists>i < length xs. findRound f peer xs k = Some (k + i) \<and> f (xs ! i) = peer \<and> (\<forall>j < i. f (xs ! j) \<noteq> peer)"
  using assms
proof (induction xs arbitrary: k)
  case (Cons x xs)
  show ?case
  proof (cases "f x = peer")
    case True
    then show ?thesis by (intro exI [of _ 0]) simp
  next
    case False
    then obtain i where "i < length xs" "findRound f peer xs (k + 1) = Some (k + 1 + i)" "f (xs ! i) = peer" "\<forall>j < i. f (xs ! j) \<noteq> peer"
      using Cons.IH [of "k + 1"] Cons.prems by auto
    then show ?thesis using False by (intro exI [of _ "Suc i"]) (auto simp: less_Suc_eq_0_disj)
  qed
qed simp

text \<open>
  C9: The schedules of all ranks agree. For ranks that are placed on nodes of any sizes, every rank computes its schedule
  without an error, with the same group size; it sends to every rank in exactly one round and receives from every rank in
  exactly one round; in every round one rank sends to another exactly when that one receives from it; and the first channel
  that the sender derives from its schedule is the one that the receiver derives.
\<close>

theorem p2p_schedules_agree:
  assumes "nodeWorld nr nodes" and "nr < 2 ^ 31" and "0 < param" and "placed nr nodes r comm" and "placed nr nodes q comm'"
  shows "\<exists>gs sched sched'. ncclP2pSchedule (int param) comm = Some (Inr (gs, sched)) \<and> ncclP2pSchedule (int param) comm' = Some (Inr (gs, sched')) \<and>
    fullSchedule nr sched \<and> fullSchedule nr sched' \<and> matchingSchedules nr r sched q sched' \<and>
    (\<exists>c. postTuneP2pChannelBase nodeCount gs nch sched q True = Some c \<and> postTuneP2pChannelBase nodeCount gs nch sched' r False = Some c)"
proof -
  obtain gs S where S: "\<And>r comm. placed nr nodes r comm \<Longrightarrow> ncclP2pSchedule (int param) comm = Some (Inr (gs, S r)) \<and> fullSchedule nr (S r) \<and>
    (\<forall>q comm'. placed nr nodes q comm' \<longrightarrow> matchingSchedules nr r (S r) q (S q))"
    using schedules_exist [OF assms(1-3)] by blast
  have lt: "r < nr" "q < nr"
    by (rule placed_less [OF _ assms(1)], rule assms(4), rule placed_less [OF _ assms(1)], rule assms(5))
  have full: "fullSchedule nr (S r)" "fullSchedule nr (S q)" and match: "matchingSchedules nr r (S r) q (S q)" using S assms(4,5) by blast+
  obtain i where i: "i < nr" "findRound sendRank q (S r) 0 = Some i" "sendRank (S r ! i) = q"
    using findRound_first [of q sendRank "S r" 0] full(1) lt(2) by (auto simp: fullSchedule_def)
  obtain j where j: "j < nr" "findRound recvRank r (S q) 0 = Some j" "recvRank (S q ! j) = r"
    using findRound_first [of r recvRank "S q" 0] full(2) lt(1) by (auto simp: fullSchedule_def)
  have "sendRank (S r ! j) = q" using match j(1,3) by (simp add: matchingSchedules_def)
  then have "map sendRank (S r) ! i = map sendRank (S r) ! j" using i j(1) full(1) by (simp add: fullSchedule_def)
  then have "i = j" using full(1) i(1) j(1) nth_eq_iff_index_eq [of "map sendRank (S r)" i j] unfolding fullSchedule_def by simp
  then have "\<exists>c. postTuneP2pChannelBase nodeCount gs nch (S r) q True = Some c \<and> postTuneP2pChannelBase nodeCount gs nch (S q) r False = Some c"
    using i(2) j(2) by (simp add: postTuneP2pChannelBase_def)
  then show ?thesis using S [OF assms(4)] S [OF assms(5)] full match by (intro exI [of _ gs] exI [of _ "S r"] exI [of _ "S q"]) simp
qed

theorem p2p_schedules_agree_witness:
  "\<exists>gs sched sched'.
    ncclP2pSchedule 8 \<lparr>p2p_nRanks = 6, p2p_node = 0, p2p_localRank = 1, p2p_maxLocalRanks = 4, p2p_nodeRanks = [[0, 2], [1, 3, 4, 5]]\<rparr> = Some (Inr (gs, sched)) \<and>
    ncclP2pSchedule 8 \<lparr>p2p_nRanks = 6, p2p_node = 1, p2p_localRank = 2, p2p_maxLocalRanks = 4, p2p_nodeRanks = [[0, 2], [1, 3, 4, 5]]\<rparr> = Some (Inr (gs, sched')) \<and>
    matchingSchedules 6 2 sched 4 sched'"
proof -
  have "nodeWorld 6 [[0, 2], [1, 3, 4, 5]]" by (auto simp: nodeWorld_def)
  from p2p_schedules_agree [OF this, of 8 2 "\<lparr>p2p_nRanks = 6, p2p_node = 0, p2p_localRank = 1, p2p_maxLocalRanks = 4, p2p_nodeRanks = [[0, 2], [1, 3, 4, 5]]\<rparr>" 4
    "\<lparr>p2p_nRanks = 6, p2p_node = 1, p2p_localRank = 2, p2p_maxLocalRanks = 4, p2p_nodeRanks = [[0, 2], [1, 3, 4, 5]]\<rparr>" 2 32]
  show ?thesis by (simp add: placed_def) blast
qed


section \<open>Teams of ranks with direct access\<close>







end
