(* ===== verification/Reg_Cache.thy ===== *)
theory Reg_Cache
  imports Nccl_Prelude "HOL-Library.Multiset"
begin

unbundle bit_operations_syntax

text \<open>
  The cache of registered buffers (register/register.cc, include/register.h, include/register_inline.h): a sorted array of
  pointers to regions of whole pages, each with counts of the registrations by the user and by graphs.  The regions are in an
  explicit store, since a handle is the address of its region; an access to a freed region or behind the array is the outcome None.
\<close>

section \<open>Model\<close>

text \<open>The reference counts are unbounded here; the code's int would need \<open>2 ^ 31\<close> outstanding registrations of one region.\<close>

record ncclReg =
  begAddr :: u64
  endAddr :: u64
  localRefs :: int
  graphRefs :: int
  regState :: u32
  netHandleHead :: "nat list"
  collnetHandle :: nat
  ipcInfos :: "(nat \<times> nat option list) option"
  hostPeerRmtAddrs :: "nat option"
  devPeerRmtAddrs :: "nat option"

text \<open>\<open>slots\<close> are the occupied slots, so its length is the population, \<open>allocated\<close> is the number of slots that the array has in
memory, and \<open>regs\<close> the regions that are allocated, by address.\<close>

record ncclRegCache =
  slots :: "nat list"
  capacity :: nat
  allocated :: nat
  regPageSize :: u64
  regs :: "nat \<Rightarrow> ncclReg option"

definition ncclRegLocalIsValid :: "ncclReg \<Rightarrow> bool" where
  "ncclRegLocalIsValid reg \<longleftrightarrow> localRefs reg \<noteq> 0"

subsection \<open>Registration\<close>

text \<open>What the driver answers about a buffer: whether the calls succeed, and their answers.\<close>

record cuDriver =
  cuMemEnable :: bool
  addressRangeOk :: bool
  memTypeIsHost :: "bool option"
  legacyIpcCap :: "bool option"
  rangeHasSysmem :: "bool nccl"

definition bufferHasSysmem :: "cuDriver \<Rightarrow> bool nccl" where
  "bufferHasSysmem cu =
     (if \<not> cuMemEnable cu then Inr False
      else if \<not> addressRangeOk cu then Inl ncclUnhandledCudaError
      else case memTypeIsHost cu of
        None \<Rightarrow> Inl ncclUnhandledCudaError
      | Some True \<Rightarrow> Inr True
      | Some False \<Rightarrow>
          (case legacyIpcCap cu of
             None \<Rightarrow> Inl ncclUnhandledCudaError
           | Some True \<Rightarrow> Inr False
           | Some False \<Rightarrow> rangeHasSysmem cu))"

text \<open>The slot at which a region is inserted, or the slot whose region is used again.\<close>

fun findSlot :: "(nat \<Rightarrow> ncclReg option) \<Rightarrow> u64 \<Rightarrow> u64 \<Rightarrow> nat list \<Rightarrow> nat \<Rightarrow> (nat \<times> bool) option" where
  "findSlot store beg fin [] slot = Some (slot, False)"
| "findSlot store beg fin (h # rest) slot =
     (case store h of
        None \<Rightarrow> None
      | Some reg \<Rightarrow>
          if beg < begAddr reg then Some (slot, False)
          else if begAddr reg \<le> beg \<and> endAddr reg \<ge> fin then Some (slot, True)
          else findSlot store beg fin rest (slot + 1))"

definition regBeg :: "ncclRegCache \<Rightarrow> u64 \<Rightarrow> u64" where
  "regBeg cache buf = buf AND - regPageSize cache"

definition regEnd :: "ncclRegCache \<Rightarrow> u64 \<Rightarrow> u64 \<Rightarrow> u64" where
  "regEnd cache buf bytes = (buf + bytes + regPageSize cache - 1) AND - regPageSize cache"

definition newReg :: "u64 \<Rightarrow> u64 \<Rightarrow> ncclReg" where
  "newReg beg fin = \<lparr>begAddr = beg, endAddr = fin, localRefs = 0, graphRefs = 0, regState = 0, netHandleHead = [], collnetHandle = 0,
     ipcInfos = None, hostPeerRmtAddrs = None, devPeerRmtAddrs = None\<rparr>"

definition addRef :: "bool \<Rightarrow> int \<Rightarrow> ncclReg \<Rightarrow> ncclReg" where
  "addRef isGraph d reg = (if isGraph then reg\<lparr>graphRefs := graphRefs reg + d\<rparr> else reg\<lparr>localRefs := localRefs reg + d\<rparr>)"

text \<open>The array grows: the capacity is set before the memory is there, which \<open>grow\<close> says whether it can be allocated.\<close>

definition growSlots :: "bool \<Rightarrow> ncclRegCache \<Rightarrow> ncclResult \<times> ncclRegCache" where
  "growSlots grow cache =
     (let cache = cache\<lparr>capacity := if capacity cache < 32 then 32 else 2 * capacity cache\<rparr>
      in if grow then (ncclSuccess, cache\<lparr>allocated := capacity cache\<rparr>) else (ncclSystemError, cache))"

text \<open>The pointers from \<open>slot\<close> on move up by one slot, and a new region is allocated for the slot, with the address \<open>alloc\<close> if
there is memory for it.  If there is none, the slot keeps its pointer and the population its value.\<close>

definition insertSlot :: "nat option \<Rightarrow> nat \<Rightarrow> u64 \<Rightarrow> u64 \<Rightarrow> bool \<Rightarrow> ncclRegCache \<Rightarrow> (ncclResult \<times> nat option \<times> ncclRegCache) option" where
  "insertSlot alloc slot beg fin isGraph cache =
     (let population = length (slots cache)
      in if slot < population \<and> allocated cache \<le> population then None
         else case alloc of
           None \<Rightarrow> Some (ncclSystemError, None,
             cache\<lparr>slots := take population (take (slot + 1) (slots cache) @ drop slot (slots cache))\<rparr>)
         | Some h \<Rightarrow>
             if allocated cache \<le> slot then None
             else Some (ncclSuccess, Some h, cache\<lparr>slots := take slot (slots cache) @ h # drop slot (slots cache),
                    regs := (regs cache)(h \<mapsto> addRef isGraph 1 (newReg beg fin))\<rparr>))"

text \<open>The result code, the handle if one is written, and the cache.  \<open>commCheck\<close> and \<open>ptrCheck\<close> are the results of the checks of
the communicator and, if it asks for them, of the pointer.\<close>

definition ncclRegister :: "ncclResult \<Rightarrow> ncclResult \<Rightarrow> cuDriver \<Rightarrow> bool \<Rightarrow> nat option \<Rightarrow> u64 \<Rightarrow> u64 \<Rightarrow> bool \<Rightarrow> ncclRegCache \<Rightarrow> (ncclResult \<times> nat option \<times> ncclRegCache) option" where
  "ncclRegister commCheck ptrCheck cu grow alloc buf bytes isGraph cache =
     (let beg = regBeg cache buf; fin = regEnd cache buf bytes
      in if ncclCheckFails commCheck then Some (commCheck, None, cache)
         else if ncclCheckFails ptrCheck then Some (ptrCheck, None, cache)
         else case bufferHasSysmem cu of
           Inl r \<Rightarrow> Some (r, None, cache)
         | Inr True \<Rightarrow> Some (ncclSuccess, None, cache)
         | Inr False \<Rightarrow>
             (case findSlot (regs cache) beg fin (slots cache) 0 of
                None \<Rightarrow> None
              | Some (slot, True) \<Rightarrow>
                  (let h = slots cache ! slot
                   in Some (ncclSuccess, Some h, cache\<lparr>regs := (regs cache)(h := map_option (addRef isGraph 1) (regs cache h))\<rparr>))
              | Some (slot, False) \<Rightarrow>
                  if length (slots cache) = capacity cache
                  then case growSlots grow cache of
                    (r, cache) \<Rightarrow> if ncclCheckFails r then Some (r, None, cache) else insertSlot alloc slot beg fin isGraph cache
                  else insertSlot alloc slot beg fin isGraph cache))"

definition ncclCheckResult :: "ncclResult \<Rightarrow> ncclResult" where
  "ncclCheckResult r = (if ncclCheckFails r then r else ncclSuccess)"

text \<open>The null handle is 0.\<close>

definition ncclCommRegister :: "bool \<Rightarrow> bool \<Rightarrow> ncclResult \<Rightarrow> ncclResult \<Rightarrow> cuDriver \<Rightarrow> bool \<Rightarrow> nat option \<Rightarrow> u64 \<Rightarrow> u64 \<Rightarrow> ncclRegCache \<Rightarrow> (ncclResult \<times> nat option \<times> ncclRegCache) option" where
  "ncclCommRegister localRegister usesMemcpy commCheck ptrCheck cu grow alloc buf bytes cache =
     (if \<not> localRegister \<or> usesMemcpy then Some (ncclSuccess, Some 0, cache)
      else map_option (\<lambda>(r, hc). (ncclCheckResult r, hc)) (ncclRegister commCheck ptrCheck cu grow alloc buf bytes False cache))"

definition ncclCommGraphRegister :: "bool \<Rightarrow> ncclResult \<Rightarrow> ncclResult \<Rightarrow> cuDriver \<Rightarrow> bool \<Rightarrow> nat option \<Rightarrow> u64 \<Rightarrow> u64 \<Rightarrow> ncclRegCache \<Rightarrow> (ncclResult \<times> nat option \<times> ncclRegCache) option" where
  "ncclCommGraphRegister usesMemcpy commCheck ptrCheck cu grow alloc buf bytes cache =
     (if usesMemcpy then Some (ncclSuccess, Some 0, cache)
      else map_option (\<lambda>(r, hc). (ncclCheckResult r, hc)) (ncclRegister commCheck ptrCheck cu grow alloc buf bytes True cache))"

subsection \<open>Release\<close>

text \<open>The calls that release what the transports keep for a region.  Only \<open>ncclNvlsUbDeregister\<close> and \<open>ncclCudaFree\<close> have results
that matter, which are parameters; the others only print a message when they fail.\<close>

datatype regCall = NetDeregBuffer nat | NvlsUbDeregister | CollnetDeregBuffer nat | IpcDeregBuffer nat | CudaFree nat | Free nat

record regOps =
  nvlsUbDeregister :: "ncclReg \<Rightarrow> ncclResult"
  cudaFree :: "nat \<Rightarrow> ncclResult"

definition NET_REG_COMPLETE :: u32 where "NET_REG_COMPLETE = 0x01"
definition NVLS_REG_COMPLETE :: u32 where "NVLS_REG_COMPLETE = 0x02"
definition COLLNET_REG_COMPLETE :: u32 where "COLLNET_REG_COMPLETE = 0x10"
definition IPC_REG_COMPLETE :: u32 where "IPC_REG_COMPLETE = 0x20"

definition stateHas :: "ncclReg \<Rightarrow> u32 \<Rightarrow> bool" where
  "stateHas reg flag \<longleftrightarrow> regState reg AND flag \<noteq> 0"

text \<open>\<open>ipcInfos\<close> has the address of the array and its elements.\<close>

definition ipcCalls :: "ncclReg \<Rightarrow> regCall list" where
  "ipcCalls reg = (case ipcInfos reg of None \<Rightarrow> [] | Some (a, infos) \<Rightarrow>
     concat (map (\<lambda>i. case i of None \<Rightarrow> [] | Some p \<Rightarrow> [IpcDeregBuffer p, Free p]) infos) @ [Free a])
   @ (case hostPeerRmtAddrs reg of None \<Rightarrow> [] | Some p \<Rightarrow> [Free p])"

definition regCleanup :: "regOps \<Rightarrow> ncclReg \<Rightarrow> ncclResult \<times> regCall list" where
  "regCleanup ops reg =
     (let calls = (if stateHas reg NET_REG_COMPLETE then concat (map (\<lambda>n. [NetDeregBuffer n, Free n]) (netHandleHead reg)) else []);
          calls = calls @ (if stateHas reg NVLS_REG_COMPLETE then [NvlsUbDeregister] else [])
      in if stateHas reg NVLS_REG_COMPLETE \<and> ncclCheckFails (nvlsUbDeregister ops reg) then (nvlsUbDeregister ops reg, calls)
         else let calls = calls @ (if stateHas reg COLLNET_REG_COMPLETE then [CollnetDeregBuffer (collnetHandle reg)] else [])
              in if \<not> stateHas reg IPC_REG_COMPLETE then (ncclSuccess, calls)
                 else let calls = calls @ ipcCalls reg
                      in case devPeerRmtAddrs reg of
                           None \<Rightarrow> (ncclSuccess, calls)
                         | Some p \<Rightarrow> (ncclCheckResult (cudaFree ops p), calls @ [CudaFree p]))"

text \<open>The device of the thread, and which calls that read or set it succeed.\<close>

record cudaRt =
  getDeviceOk :: bool
  setDeviceOk :: "nat \<Rightarrow> bool"

fun slotOf :: "nat \<Rightarrow> nat list \<Rightarrow> nat" where
  "slotOf reg [] = 0"
| "slotOf reg (h # rest) = (if h \<noteq> reg then Suc (slotOf reg rest) else 0)"

text \<open>The result code, the calls that release resources, the cache and the device of the thread.\<close>

definition commDeregister :: "ncclResult \<Rightarrow> regOps \<Rightarrow> cudaRt \<Rightarrow> nat \<Rightarrow> bool \<Rightarrow> nat \<Rightarrow> ncclRegCache \<Rightarrow> nat \<Rightarrow> (ncclResult \<times> regCall list \<times> ncclRegCache \<times> nat) option" where
  "commDeregister commCheck ops rt cudaDev isGraph h cache dev =
     (let saveDev = dev; slot = slotOf h (slots cache)
      in if ncclCheckFails commCheck then Some (commCheck, [], cache, dev)
         else if h = 0 then Some (ncclSuccess, [], cache, dev)
         else if \<not> getDeviceOk rt \<or> \<not> setDeviceOk rt cudaDev then Some (ncclUnhandledCudaError, [], cache, dev)
         else if slot = length (slots cache) then Some (ncclInvalidUsage, [], cache, cudaDev)
         else case regs cache h of
           None \<Rightarrow> None
         | Some reg \<Rightarrow>
             let reg = addRef isGraph (- 1) reg; cache = cache\<lparr>regs := (regs cache)(h \<mapsto> reg)\<rparr>
             in if localRefs reg \<noteq> 0 \<or> graphRefs reg \<noteq> 0 then Some (ncclSuccess, [], cache, cudaDev)
                else case regCleanup ops reg of
                  (r, calls) \<Rightarrow>
                    if ncclCheckFails r then Some (r, calls, cache, cudaDev)
                    else let cache = cache\<lparr>regs := (regs cache)(h := None), slots := take slot (slots cache) @ drop (slot + 1) (slots cache)\<rparr>
                         in if setDeviceOk rt saveDev then Some (ncclSuccess, calls @ [Free h], cache, saveDev)
                            else Some (ncclUnhandledCudaError, calls @ [Free h], cache, cudaDev))"

definition ncclCommDeregister :: "ncclResult \<Rightarrow> regOps \<Rightarrow> cudaRt \<Rightarrow> nat \<Rightarrow> nat \<Rightarrow> ncclRegCache \<Rightarrow> nat \<Rightarrow> (ncclResult \<times> regCall list \<times> ncclRegCache \<times> nat) option" where
  "ncclCommDeregister commCheck ops rt cudaDev h cache dev =
     map_option (\<lambda>(r, s). (ncclCheckResult r, s)) (commDeregister commCheck ops rt cudaDev False h cache dev)"

definition ncclCommGraphDeregister :: "ncclResult \<Rightarrow> regOps \<Rightarrow> cudaRt \<Rightarrow> nat \<Rightarrow> nat \<Rightarrow> ncclRegCache \<Rightarrow> nat \<Rightarrow> (ncclResult \<times> regCall list \<times> ncclRegCache \<times> nat) option" where
  "ncclCommGraphDeregister commCheck ops rt cudaDev h cache dev =
     map_option (\<lambda>(r, s). (ncclCheckResult r, s)) (commDeregister commCheck ops rt cudaDev True h cache dev)"


subsection \<open>Search\<close>

fun ncclRegFind :: "u64 \<Rightarrow> u64 \<Rightarrow> nat list \<Rightarrow> (nat \<Rightarrow> ncclReg option) \<Rightarrow> nat option option" where
  "ncclRegFind buf bytes [] store = Some None"
| "ncclRegFind buf bytes (h # rest) store =
     (case store h of
        None \<Rightarrow> None
      | Some reg \<Rightarrow>
          if buf < begAddr reg then Some None
          else if buf + bytes \<le> endAddr reg then Some (Some h)
          else ncclRegFind buf bytes rest store)"

section \<open>Invariant\<close>

text \<open>The caches that the operations reach, with the registrations that are outstanding: the handle, the kind, and the buffer.  The
transports may change what they keep in a region.  Memory is available, and buffers end below the top of the address space.\<close>

inductive regReachable :: "u64 \<Rightarrow> ncclRegCache \<Rightarrow> (nat \<times> bool \<times> u64 \<times> u64) multiset \<Rightarrow> bool" for page where
  init: "regReachable page \<lparr>slots = [], capacity = 0, allocated = 0, regPageSize = page, regs = (\<lambda>_. None)\<rparr> {#}"
| register: "regReachable page c out \<Longrightarrow> unat buf + unat bytes + unat page < 2 ^ 64 \<Longrightarrow> a \<noteq> 0 \<Longrightarrow> regs c a = None \<Longrightarrow>
    ncclRegister commCheck ptrCheck cu True (Some a) buf bytes g c = Some (r, ho, c') \<Longrightarrow>
    regReachable page c' (case ho of None \<Rightarrow> out | Some h \<Rightarrow> add_mset (h, g, buf, bytes) out)"
| deregister: "regReachable page c out \<Longrightarrow> (h, g, buf, bytes) \<in># out \<Longrightarrow>
    commDeregister commCheck ops rt cudaDev g h c dev = Some (r, calls, c', dev') \<Longrightarrow>
    regReachable page c' (if ncclCheckFails commCheck \<or> \<not> getDeviceOk rt \<or> \<not> setDeviceOk rt cudaDev then out else out - {#(h, g, buf, bytes)#})"
| transport: "regReachable page c out \<Longrightarrow> regs c h = Some reg \<Longrightarrow> begAddr reg' = begAddr reg \<Longrightarrow> endAddr reg' = endAddr reg \<Longrightarrow>
    localRefs reg' = localRefs reg \<Longrightarrow> graphRefs reg' = graphRefs reg \<Longrightarrow> regReachable page (c\<lparr>regs := (regs c)(h \<mapsto> reg')\<rparr>) out"

definition refsOf :: "(nat \<times> bool \<times> u64 \<times> u64) multiset \<Rightarrow> bool \<Rightarrow> nat \<Rightarrow> nat" where
  "refsOf out g h = size (filter_mset (\<lambda>(h', g', _, _). h' = h \<and> g' = g) out)"

definition regCovers :: "ncclReg \<Rightarrow> u64 \<Rightarrow> u64 \<Rightarrow> bool" where
  "regCovers reg buf bytes \<longleftrightarrow> begAddr reg \<le> buf \<and> unat buf + unat bytes \<le> unat (endAddr reg)"

definition slotsInv :: "ncclRegCache \<Rightarrow> bool" where
  "slotsInv c \<longleftrightarrow> distinct (slots c) \<and> 0 \<notin> set (slots c) \<and> set (slots c) = dom (regs c) \<and>
     sorted (map (\<lambda>h. begAddr (the (regs c h))) (slots c)) \<and> length (slots c) \<le> capacity c \<and> allocated c = capacity c"

definition refsInv :: "ncclRegCache \<Rightarrow> (nat \<times> bool \<times> u64 \<times> u64) multiset \<Rightarrow> bool" where
  "refsInv c out \<longleftrightarrow>
     (\<forall>h reg. regs c h = Some reg \<longrightarrow> localRefs reg = int (refsOf out False h) \<and> graphRefs reg = int (refsOf out True h)) \<and>
     (\<forall>(h, g, buf, bytes) \<in># out. \<exists>reg. regs c h = Some reg \<and> regCovers reg buf bytes)"

section \<open>Lemmas\<close>

lemma findSlot_total: "\<forall>h \<in> set hs. store h \<noteq> None \<Longrightarrow> findSlot store beg fin hs n \<noteq> None"
  by (induction store beg fin hs n rule: findSlot.induct) (auto split: option.splits)

lemma findSlot_found:
  "findSlot store beg fin hs n = Some (s, True) \<Longrightarrow>
     \<exists>reg. n \<le> s \<and> s < n + length hs \<and> store (hs ! (s - n)) = Some reg \<and> begAddr reg \<le> beg \<and> fin \<le> endAddr reg"
proof (induction store beg fin hs n rule: findSlot.induct)
  case (2 store beg fin h rest slot)
  from "2.prems" show ?case
    by (auto split: option.splits if_splits dest!: "2.IH" simp: Suc_diff_le not_less nth_Cons')
qed simp

lemma findSlot_insert:
  "findSlot store beg fin hs n = Some (s, False) \<Longrightarrow>
     n \<le> s \<and> s \<le> n + length hs \<and> (\<forall>h \<in> set (take (s - n) hs). begAddr (the (store h)) \<le> beg) \<and>
     (s < n + length hs \<longrightarrow> beg < begAddr (the (store (hs ! (s - n)))))"
proof (induction store beg fin hs n rule: findSlot.induct)
  case (2 store beg fin h rest slot)
  from "2.prems" show ?case
    by (auto split: option.splits if_splits dest!: "2.IH" simp: Suc_diff_le not_less nth_Cons' take_Cons')
qed simp

lemma sorted_insert_at:
  fixes f :: "'a \<Rightarrow> 'b::linorder"
  assumes "sorted (map f xs)" "\<forall>x \<in> set (take s xs). f x \<le> f y" "s < length xs \<longrightarrow> f y < f (xs ! s)"
  shows "sorted (map f (take s xs @ y # drop s xs))"
proof -
  have "sorted (map f (take s xs @ drop s xs))" using assms(1) by simp
  then have st: "sorted (map f (take s xs))" "sorted (map f (drop s xs))" "\<forall>x \<in> set (take s xs). \<forall>z \<in> set (drop s xs). f x \<le> f z"
    unfolding map_append sorted_append by auto
  have "\<forall>z \<in> set (drop s xs). f y \<le> f z"
  proof (cases "s < length xs")
    case True
    then have "drop s xs = xs ! s # drop (Suc s) xs" by (simp add: Cons_nth_drop_Suc)
    with st(2) assms(3) True show ?thesis by (auto intro: order.trans less_imp_le)
  qed simp
  with st assms(2) show ?thesis by (auto simp: sorted_append)
qed

lemma slotOf_length: "slotOf h hs = length hs \<longleftrightarrow> h \<notin> set hs"
  by (induction hs) auto

lemma slotOf_remove: "take (slotOf h hs) hs @ drop (slotOf h hs + 1) hs = remove1 h hs"
  by (induction hs) auto

lemma regBeg_le:
  assumes "regPageSize c = 2 ^ k"
  shows "regBeg c buf \<le> buf"
  using assms by (simp add: regBeg_def word_le_nat_alt unat_and_minus_pow2)

lemma regEnd_ge:
  assumes "regPageSize c = 2 ^ k" "k < 64" "unat buf + unat bytes + unat (regPageSize c) < 2 ^ 64"
  shows "unat buf + unat bytes \<le> unat (regEnd c buf bytes)"
proof -
  let ?x = "buf + bytes + regPageSize c - 1"
  have p: "unat (regPageSize c) = 2 ^ k" using assms(1,2) by (simp add: unat_pow2)
  have "unat (buf + bytes + regPageSize c) = unat buf + unat bytes + 2 ^ k"
    using assms(3) p by (simp add: unat_word_ariths)
  moreover from this have "buf + bytes + regPageSize c \<noteq> 0" by auto
  ultimately have x: "unat ?x = unat buf + unat bytes + 2 ^ k - 1" by (simp add: unat_minus_one)
  have "unat ?x mod 2 ^ k < 2 ^ k" by simp
  moreover have "unat (regEnd c buf bytes) = unat ?x - unat ?x mod 2 ^ k"
    by (simp only: regEnd_def assms(1) unat_and_minus_pow2)
  ultimately show ?thesis using x by linarith
qed

lemma addRef_fields [simp]:
  "begAddr (addRef g d reg) = begAddr reg" "endAddr (addRef g d reg) = endAddr reg"
  "localRefs (addRef g d reg) = localRefs reg + (if g then 0 else d)" "graphRefs (addRef g d reg) = graphRefs reg + (if g then d else 0)"
  by (simp_all add: addRef_def)

lemma newReg_fields [simp]:
  "begAddr (newReg b e) = b" "endAddr (newReg b e) = e" "localRefs (newReg b e) = 0" "graphRefs (newReg b e) = 0"
  by (simp_all add: newReg_def)

lemma slotsInvD:
  assumes "slotsInv c"
  shows "distinct (slots c)" "0 \<notin> set (slots c)" "set (slots c) = dom (regs c)" "sorted (map (\<lambda>h. begAddr (the (regs c h))) (slots c))"
    "length (slots c) \<le> capacity c" "allocated c = capacity c"
  using assms unfolding slotsInv_def by blast+

text \<open>What a registration does when there is memory: nothing, one more reference, or a new region.\<close>

lemma insertSlot_memory:
  assumes "slot \<le> length (slots c)" "length (slots c) < allocated c"
  shows "insertSlot (Some a) slot beg fin g c = Some (ncclSuccess, Some a, c\<lparr>slots := take slot (slots c) @ a # drop slot (slots c),
           regs := (regs c)(a \<mapsto> addRef g 1 (newReg beg fin))\<rparr>)"
  using assms by (simp add: insertSlot_def Let_def)

lemma ncclCheckFails_simps [simp]: "\<not> ncclCheckFails ncclSuccess" "ncclCheckFails ncclSystemError"
  by (simp_all add: ncclCheckFails_def)

lemma ncclRegister_insert:
  assumes inv: "slotsInv c" and ok: "\<not> ncclCheckFails commCheck" "\<not> ncclCheckFails ptrCheck" "bufferHasSysmem cu = Inr False"
    and f: "findSlot (regs c) (regBeg c buf) (regEnd c buf bytes) (slots c) 0 = Some (slot, False)"
  obtains cap where "length (slots c) < cap" "ncclRegister commCheck ptrCheck cu True alloc buf bytes g c =
    insertSlot alloc slot (regBeg c buf) (regEnd c buf bytes) g (c\<lparr>capacity := cap, allocated := cap\<rparr>)"
proof (cases "length (slots c) = capacity c")
  case True
  show ?thesis
    by (rule that [of "if capacity c < 32 then 32 else 2 * capacity c"])
      (use True ok f in \<open>simp_all add: ncclRegister_def growSlots_def Let_def\<close>)
next
  case False
  have "c\<lparr>capacity := capacity c, allocated := capacity c\<rparr> = c" using slotsInvD(6) [OF inv] by simp
  then show ?thesis
    by (intro that [of "capacity c"]) (use False ok f slotsInvD(5) [OF inv] in \<open>simp_all add: ncclRegister_def Let_def\<close>)
qed

lemma ncclRegister_cases:
  assumes inv: "slotsInv c"
  shows "\<exists>r ho c'. ncclRegister commCheck ptrCheck cu True (Some a) buf bytes g c = Some (r, ho, c') \<and>
    (ho = None \<and> c' = c \<or>
     (\<exists>h reg. ho = Some h \<and> regs c h = Some reg \<and> begAddr reg \<le> regBeg c buf \<and> regEnd c buf bytes \<le> endAddr reg \<and>
        c' = c\<lparr>regs := (regs c)(h \<mapsto> addRef g 1 reg)\<rparr>) \<or>
     (\<exists>slot cap. ho = Some a \<and> findSlot (regs c) (regBeg c buf) (regEnd c buf bytes) (slots c) 0 = Some (slot, False) \<and> length (slots c) < cap \<and>
        c' = c\<lparr>capacity := cap, allocated := cap, slots := take slot (slots c) @ a # drop slot (slots c),
               regs := (regs c)(a \<mapsto> addRef g 1 (newReg (regBeg c buf) (regEnd c buf bytes)))\<rparr>))"
proof (cases "ncclCheckFails commCheck \<or> ncclCheckFails ptrCheck \<or> bufferHasSysmem cu \<noteq> Inr False")
  case True
  then show ?thesis by (auto simp: ncclRegister_def Let_def split: sum.split bool.split)
next
  case False
  let ?f = "findSlot (regs c) (regBeg c buf) (regEnd c buf bytes) (slots c) 0"
  have "\<forall>h \<in> set (slots c). regs c h \<noteq> None" using slotsInvD(3) [OF inv] by auto
  from findSlot_total [OF this] obtain p where "?f = Some p" by blast
  then obtain slot found where f: "?f = Some (slot, found)" by (cases p) auto
  show ?thesis
  proof (cases found)
    case True
    with f have "?f = Some (slot, True)" by simp
    from findSlot_found [OF this] obtain reg where
      r: "regs c (slots c ! slot) = Some reg" "begAddr reg \<le> regBeg c buf" "regEnd c buf bytes \<le> endAddr reg"
      by auto
    have "ncclRegister commCheck ptrCheck cu True (Some a) buf bytes g c =
            Some (ncclSuccess, Some (slots c ! slot), c\<lparr>regs := (regs c)(slots c ! slot \<mapsto> addRef g 1 reg)\<rparr>)"
      using False True f r(1) by (simp add: ncclRegister_def Let_def)
    with r show ?thesis by blast
  next
    case nf: False
    with f findSlot_insert [of "regs c" _ _ "slots c" 0 slot] have le: "slot \<le> length (slots c)" by simp
    obtain cap where cap: "length (slots c) < cap" and eq: "ncclRegister commCheck ptrCheck cu True (Some a) buf bytes g c =
        insertSlot (Some a) slot (regBeg c buf) (regEnd c buf bytes) g (c\<lparr>capacity := cap, allocated := cap\<rparr>)"
      using ncclRegister_insert [OF inv, of commCheck ptrCheck cu buf bytes slot] False f nf by auto
    have "insertSlot (Some a) slot (regBeg c buf) (regEnd c buf bytes) g (c\<lparr>capacity := cap, allocated := cap\<rparr>) =
        Some (ncclSuccess, Some a, c\<lparr>capacity := cap, allocated := cap, slots := take slot (slots c) @ a # drop slot (slots c),
           regs := (regs c)(a \<mapsto> addRef g 1 (newReg (regBeg c buf) (regEnd c buf bytes)))\<rparr>)"
      using le cap by (subst insertSlot_memory) simp_all
    note this [folded eq]
    moreover have "findSlot (regs c) (regBeg c buf) (regEnd c buf bytes) (slots c) 0 = Some (slot, False)" using f nf by simp
    ultimately show ?thesis using cap by blast
  qed
qed

lemma refsOf_add [simp]: "refsOf (add_mset (h', g', p) out) g h = (if h' = h \<and> g' = g then Suc (refsOf out g h) else refsOf out g h)"
  by (cases p) (simp add: refsOf_def)

lemma refsOf_empty [simp]: "refsOf {#} g h = 0"
  by (simp add: refsOf_def)

lemma refsOf_remove:
  assumes "(h', g', p) \<in># out"
  shows "int (refsOf (out - {#(h', g', p)#}) g h) = int (refsOf out g h) - (if h' = h \<and> g' = g then 1 else 0)"
proof -
  from assms obtain rest where "out = add_mset (h', g', p) rest" by (meson mset_add)
  then show ?thesis by simp
qed

lemma refsOf_pos:
  assumes "(h, g, p) \<in># out"
  shows "0 < refsOf out g h"
proof -
  from assms obtain rest where "out = add_mset (h, g, p) rest" by (meson mset_add)
  then show ?thesis by simp
qed

lemma refsInvD:
  assumes "refsInv c out"
  shows "regs c h = Some reg \<Longrightarrow> localRefs reg = int (refsOf out False h)" "regs c h = Some reg \<Longrightarrow> graphRefs reg = int (refsOf out True h)"
    "(h, g, buf, bytes) \<in># out \<Longrightarrow> \<exists>reg. regs c h = Some reg \<and> regCovers reg buf bytes"
  using assms unfolding refsInv_def by blast+

lemma refsInvI:
  assumes "\<And>h reg. regs c h = Some reg \<Longrightarrow> localRefs reg = int (refsOf out False h) \<and> graphRefs reg = int (refsOf out True h)"
    "\<And>h g buf bytes. (h, g, buf, bytes) \<in># out \<Longrightarrow> \<exists>reg. regs c h = Some reg \<and> regCovers reg buf bytes"
  shows "refsInv c out"
  using assms unfolding refsInv_def by blast

lemma refsOf_fresh:
  assumes "refsInv c out" "regs c h = None"
  shows "refsOf out g h = 0"
proof -
  have "h' \<noteq> h" if "(h', g', b, n) \<in># out" for h' g' b n
    using refsInvD(3) [OF assms(1) that] assms(2) by auto
  then have "filter_mset (\<lambda>(h', g', _, _). h' = h \<and> g' = g) out = {#}"
    by (auto simp: multiset_eq_iff not_in_iff [symmetric])
  then show ?thesis by (simp add: refsOf_def)
qed

text \<open>A change of one region that keeps its addresses keeps the order of the slots.\<close>

lemma slotsInv_update:
  assumes "slotsInv c" "regs c h = Some reg" "begAddr reg' = begAddr reg"
  shows "slotsInv (c\<lparr>regs := (regs c)(h \<mapsto> reg')\<rparr>)"
proof -
  have "map (\<lambda>h'. begAddr (the (((regs c)(h \<mapsto> reg')) h'))) (slots c) = map (\<lambda>h'. begAddr (the (regs c h'))) (slots c)"
    using assms(2,3) by simp
  then have "sorted (map (\<lambda>h'. begAddr (the (((regs c)(h \<mapsto> reg')) h'))) (slots c))"
    using slotsInvD(4) [OF assms(1)] by (simp only:)
  moreover have "dom ((regs c)(h \<mapsto> reg')) = dom (regs c)" using assms(2) by auto
  ultimately show ?thesis using slotsInvD [OF assms(1)] unfolding slotsInv_def by simp
qed

lemma slotsInv_insert:
  assumes inv: "slotsInv c" and a: "a \<noteq> 0" "regs c a = None" and cap: "length (slots c) < cap"
    and f: "findSlot (regs c) (begAddr reg) fin (slots c) 0 = Some (slot, False)"
  shows "slotsInv (c\<lparr>capacity := cap, allocated := cap, slots := take slot (slots c) @ a # drop slot (slots c), regs := (regs c)(a \<mapsto> reg)\<rparr>)"
proof -
  note d = slotsInvD [OF inv]
  let ?hs = "take slot (slots c) @ a # drop slot (slots c)"
  let ?f = "\<lambda>h. begAddr (the (((regs c)(a \<mapsto> reg)) h))"
  have na: "a \<notin> set (slots c)" using a(2) d(3) by auto
  have same: "?f h = begAddr (the (regs c h))" if "h \<in> set (slots c)" for h using that na by auto
  note i = findSlot_insert [OF f, simplified]
  have "set ?hs = insert a (set (slots c))" by (metis append_take_drop_id list.simps(15) set_append Un_insert_right)
  moreover have "distinct ?hs"
    using d(1) na by (metis append_take_drop_id distinct_append distinct.simps(2) disjoint_insert(1) in_set_dropD in_set_takeD list.simps(15))
  moreover have "sorted (map ?f ?hs)"
  proof (rule sorted_insert_at)
    show "sorted (map ?f (slots c))" using d(4) same by (simp cong: map_cong)
    show "\<forall>x \<in> set (take slot (slots c)). ?f x \<le> ?f a" using i same by (auto dest: in_set_takeD)
    show "slot < length (slots c) \<longrightarrow> ?f a < ?f (slots c ! slot)" using i same by simp
  qed
  moreover have "length ?hs \<le> cap" using cap by simp
  ultimately show ?thesis using a(1) d(2,3) unfolding slotsInv_def by simp
qed

lemma slotsInv_remove:
  assumes inv: "slotsInv c"
  shows "slotsInv (c\<lparr>regs := (regs c)(h := None), slots := remove1 h (slots c)\<rparr>)"
proof -
  note d = slotsInvD [OF inv]
  have set: "set (remove1 h (slots c)) = dom ((regs c)(h := None))" using d(1,3) by auto
  have "map (\<lambda>x. begAddr (the (((regs c)(h := None)) x))) (remove1 h (slots c)) = map (\<lambda>x. begAddr (the (regs c x))) (remove1 h (slots c))"
    using d(1) by (intro map_cong) auto
  then have "sorted (map (\<lambda>x. begAddr (the (((regs c)(h := None)) x))) (remove1 h (slots c)))"
    using sorted_map_remove1 [OF d(4)] by (simp only:)
  moreover have "length (remove1 h (slots c)) \<le> capacity c" using d(5) by (auto simp: length_remove1)
  moreover have "0 \<notin> set (remove1 h (slots c))" using d(2) by (meson notin_set_remove1)
  ultimately show ?thesis using d(1,6) set unfolding slotsInv_def by (simp add: distinct_remove1)
qed

text \<open>What the release of an outstanding registration does.\<close>

lemma commDeregister_cases:
  assumes inv: "slotsInv c" and reg: "regs c h = Some reg"
  obtains (unchanged) r dev' where "commDeregister commCheck ops rt cudaDev g h c dev = Some (r, [], c, dev')"
      "ncclCheckFails commCheck \<or> \<not> getDeviceOk rt \<or> \<not> setDeviceOk rt cudaDev"
    | (counted) r calls dev' where "commDeregister commCheck ops rt cudaDev g h c dev = Some (r, calls, c\<lparr>regs := (regs c)(h \<mapsto> addRef g (- 1) reg)\<rparr>, dev')"
      "\<not> ncclCheckFails commCheck" "getDeviceOk rt" "setDeviceOk rt cudaDev"
    | (removed) r calls dev' where "commDeregister commCheck ops rt cudaDev g h c dev =
        Some (r, calls, c\<lparr>regs := (regs c)(h := None), slots := remove1 h (slots c)\<rparr>, dev')"
      "\<not> ncclCheckFails commCheck" "getDeviceOk rt" "setDeviceOk rt cudaDev"
      "localRefs (addRef g (- 1) reg) = 0" "graphRefs (addRef g (- 1) reg) = 0"
proof -
  let ?d = "commDeregister commCheck ops rt cudaDev g h c dev"
  have h: "h \<noteq> 0" "slotOf h (slots c) \<noteq> length (slots c)"
    using slotsInvD(2,3) [OF inv] reg by (auto simp: slotOf_length)
  consider "ncclCheckFails commCheck \<or> \<not> getDeviceOk rt \<or> \<not> setDeviceOk rt cudaDev"
    | (go) "\<not> ncclCheckFails commCheck" "getDeviceOk rt" "setDeviceOk rt cudaDev" by blast
  then show thesis
  proof cases
    case 1
    with h have "\<exists>r dev'. ?d = Some (r, [], c, dev')"
      by (cases "ncclCheckFails commCheck") (auto simp: commDeregister_def Let_def)
    with 1 show thesis by (blast intro: unchanged)
  next
    case go
    show thesis
    proof (cases "localRefs (addRef g (- 1) reg) \<noteq> 0 \<or> graphRefs (addRef g (- 1) reg) \<noteq> 0")
      case True
      with go h reg have "?d = Some (ncclSuccess, [], c\<lparr>regs := (regs c)(h \<mapsto> addRef g (- 1) reg)\<rparr>, cudaDev)"
        by (simp add: commDeregister_def Let_def del: addRef_fields)
      with go show thesis by (blast intro: counted)
    next
      case False
      obtain r calls where rc: "regCleanup ops (addRef g (- 1) reg) = (r, calls)" by fastforce
      show thesis
      proof (cases "ncclCheckFails r")
        case True
        with go h reg rc False have "?d = Some (r, calls, c\<lparr>regs := (regs c)(h \<mapsto> addRef g (- 1) reg)\<rparr>, cudaDev)"
          by (simp add: commDeregister_def Let_def del: addRef_fields)
        with go show thesis by (blast intro: counted)
      next
        case nf: False
        with go h reg rc False have "\<exists>r' dev'. ?d = Some (r', calls @ [Free h], c\<lparr>regs := (regs c)(h := None), slots := remove1 h (slots c)\<rparr>, dev')"
          using slotOf_remove [of h "slots c"] by (simp add: commDeregister_def Let_def del: addRef_fields)
        with go False show thesis by (blast intro: removed)
      qed
    qed
  qed
qed

lemma refsInv_update:
  assumes "refsInv c out" "regs c h = Some reg" "begAddr reg' = begAddr reg" "endAddr reg' = endAddr reg"
    "\<And>h' g. h' \<noteq> h \<Longrightarrow> refsOf out' g h' = refsOf out g h'"
    "localRefs reg' = int (refsOf out' False h)" "graphRefs reg' = int (refsOf out' True h)"
    "\<And>h' g buf bytes. (h', g, buf, bytes) \<in># out' \<Longrightarrow> (h', g, buf, bytes) \<in># out \<or> h' = h \<and> regCovers reg buf bytes"
  shows "refsInv (c\<lparr>regs := (regs c)(h \<mapsto> reg')\<rparr>) out'"
proof (rule refsInvI)
  fix h' r
  assume "regs (c\<lparr>regs := (regs c)(h \<mapsto> reg')\<rparr>) h' = Some r"
  then show "localRefs r = int (refsOf out' False h') \<and> graphRefs r = int (refsOf out' True h')"
    using refsInvD(1,2) [OF assms(1)] assms(5-7) by (cases "h' = h") auto
next
  fix h' g buf bytes
  assume "(h', g, buf, bytes) \<in># out'"
  from assms(8) [OF this] obtain r where "regs c h' = Some r" "regCovers r buf bytes"
    using refsInvD(3) [OF assms(1)] assms(2) by blast
  then show "\<exists>r. regs (c\<lparr>regs := (regs c)(h \<mapsto> reg')\<rparr>) h' = Some r \<and> regCovers r buf bytes"
    using assms(2-4) by (cases "h' = h") (auto simp: regCovers_def)
qed

lemma refsInv_insert:
  assumes "refsInv c out" "regs c a = None" "localRefs reg = (if g then 0 else 1)" "graphRefs reg = (if g then 1 else 0)" "regCovers reg buf bytes"
    "regs c' = (regs c)(a \<mapsto> reg)"
  shows "refsInv c' (add_mset (a, g, buf, bytes) out)"
proof (rule refsInvI)
  fix h r
  assume "regs c' h = Some r"
  then show "localRefs r = int (refsOf (add_mset (a, g, buf, bytes) out) False h) \<and> graphRefs r = int (refsOf (add_mset (a, g, buf, bytes) out) True h)"
    using refsInvD(1,2) [OF assms(1)] refsOf_fresh [OF assms(1,2)] assms(3,4,6) by (cases "h = a") (auto split: if_splits)
next
  fix h g' b n
  assume m: "(h, g', b, n) \<in># add_mset (a, g, buf, bytes) out"
  show "\<exists>r. regs c' h = Some r \<and> regCovers r b n"
  proof (cases "(h, g', b, n) = (a, g, buf, bytes)")
    case False
    with m have "(h, g', b, n) \<in># out" unfolding set_mset_add_mset_insert by blast
    from refsInvD(3) [OF assms(1) this] assms(2,6) show ?thesis by auto
  qed (use assms(5,6) in simp)
qed

lemma refsInv_remove:
  assumes "refsInv c out" "(h, g, p) \<in># out" "\<And>g'. refsOf (out - {#(h, g, p)#}) g' h = 0" "regs c' = (regs c)(h := None)"
  shows "refsInv c' (out - {#(h, g, p)#})"
proof (rule refsInvI)
  fix h' r
  assume r: "regs c' h' = Some r"
  then have "h' \<noteq> h" using assms(4) by auto
  then show "localRefs r = int (refsOf (out - {#(h, g, p)#}) False h') \<and> graphRefs r = int (refsOf (out - {#(h, g, p)#}) True h')"
    using r assms(4) refsInvD(1,2) [OF assms(1)] refsOf_remove [OF assms(2)] by simp
next
  fix h' g' b n
  assume m: "(h', g', b, n) \<in># out - {#(h, g, p)#}"
  then have "h' \<noteq> h" using refsOf_pos [of h' g' "(b, n)"] assms(3) by fastforce
  then show "\<exists>r. regs c' h' = Some r \<and> regCovers r b n"
    using refsInvD(3) [OF assms(1) in_diffD [OF m]] assms(4) by simp
qed

definition regInv :: "u64 \<Rightarrow> ncclRegCache \<Rightarrow> (nat \<times> bool \<times> u64 \<times> u64) multiset \<Rightarrow> bool" where
  "regInv page c out \<longleftrightarrow> regPageSize c = page \<and> slotsInv c \<and> refsInv c out"

lemma regInv_register:
  assumes inv: "regInv page c out" and page: "page = 2 ^ k" "k < 64" and fits: "unat buf + unat bytes + unat page < 2 ^ 64"
    and a: "a \<noteq> 0" "regs c a = None"
    and run: "ncclRegister commCheck ptrCheck cu True (Some a) buf bytes g c = Some (r, ho, c')"
  shows "regInv page c' (case ho of None \<Rightarrow> out | Some h \<Rightarrow> add_mset (h, g, buf, bytes) out)"
proof -
  have p: "regPageSize c = 2 ^ k" and si: "slotsInv c" and ri: "refsInv c out" using inv page by (auto simp: regInv_def)
  have beg: "regBeg c buf \<le> buf" by (rule regBeg_le [OF p])
  have fin: "unat buf + unat bytes \<le> unat (regEnd c buf bytes)" using regEnd_ge [OF p page(2)] fits p page(1) by simp
  from ncclRegister_cases [OF si, of commCheck ptrCheck cu a buf bytes g] run consider "ho = None" "c' = c"
    | (again) h reg where "ho = Some h" "regs c h = Some reg" "begAddr reg \<le> regBeg c buf" "regEnd c buf bytes \<le> endAddr reg"
        "c' = c\<lparr>regs := (regs c)(h \<mapsto> addRef g 1 reg)\<rparr>"
    | (new) slot cap where "ho = Some a" "findSlot (regs c) (regBeg c buf) (regEnd c buf bytes) (slots c) 0 = Some (slot, False)"
        "length (slots c) < cap" "c' = c\<lparr>capacity := cap, allocated := cap, slots := take slot (slots c) @ a # drop slot (slots c),
               regs := (regs c)(a \<mapsto> addRef g 1 (newReg (regBeg c buf) (regEnd c buf bytes)))\<rparr>"
    by auto
  then show ?thesis
  proof cases
    case 1
    with inv show ?thesis by simp
  next
    case again
    have cov: "regCovers reg buf bytes" using again(3,4) beg fin unfolding regCovers_def word_le_nat_alt by linarith
    have "slotsInv c'" unfolding again(5) by (rule slotsInv_update [OF si again(2)]) simp
    moreover have "refsInv c' (add_mset (h, g, buf, bytes) out)"
      unfolding again(5) by (rule refsInv_update [OF ri again(2)]) (use cov refsInvD(1,2) [OF ri again(2)] in auto)
    ultimately show ?thesis using again(1,5) p page(1) by (simp add: regInv_def)
  next
    case new
    let ?reg = "addRef g 1 (newReg (regBeg c buf) (regEnd c buf bytes))"
    have "slotsInv c'" unfolding new(4) by (rule slotsInv_insert [OF si a new(3)]) (use new(2) in simp)
    moreover have "refsInv c' (add_mset (a, g, buf, bytes) out)"
      by (rule refsInv_insert [OF ri a(2), of ?reg]) (use beg fin new(4) in \<open>simp_all add: regCovers_def\<close>)
    ultimately show ?thesis using new(1,4) p page(1) by (simp add: regInv_def)
  qed
qed

lemma regInv_deregister:
  assumes inv: "regInv page c out" and m: "(h, g, p) \<in># out"
    and run: "commDeregister commCheck ops rt cudaDev g h c dev = Some (r, calls, c', dev')"
  shows "regInv page c' (if ncclCheckFails commCheck \<or> \<not> getDeviceOk rt \<or> \<not> setDeviceOk rt cudaDev then out else out - {#(h, g, p)#})"
proof -
  have si: "slotsInv c" and ri: "refsInv c out" using inv by (auto simp: regInv_def)
  from m obtain reg where reg: "regs c h = Some reg" using refsInvD(3) [OF ri] by (cases p) blast
  note rd = refsInvD(1,2) [OF ri reg] refsOf_remove [OF m]
  let ?out = "out - {#(h, g, p)#}"
  have other: "refsOf ?out g' h' = refsOf out g' h'" if "h' \<noteq> h" for g' h' using rd(3) [of g' h'] that by simp
  from si reg show ?thesis
  proof (cases rule: commDeregister_cases [where commCheck = commCheck and ops = ops and rt = rt and cudaDev = cudaDev and g = g and dev = dev])
    case (unchanged r' d)
    with run inv show ?thesis by simp
  next
    case (counted r' cs d)
    with run have c': "c' = c\<lparr>regs := (regs c)(h \<mapsto> addRef g (- 1) reg)\<rparr>" by simp
    have "slotsInv c'" unfolding c' by (rule slotsInv_update [OF si reg]) simp
    moreover have "refsInv c' ?out"
      unfolding c' by (rule refsInv_update [OF ri reg]) (use rd other in \<open>auto dest: in_diffD\<close>)
    ultimately show ?thesis using counted(2-4) inv c' by (simp add: regInv_def)
  next
    case (removed r' cs d)
    with run have c': "c' = c\<lparr>regs := (regs c)(h := None), slots := remove1 h (slots c)\<rparr>" by simp
    have "slotsInv c'" unfolding c' by (rule slotsInv_remove [OF si])
    moreover have "refsOf ?out g' h = 0" for g' using removed(5,6) rd(1,2) rd(3) [of g' h] by (cases g'; cases g) simp_all
    then have "refsInv c' ?out" by (rule refsInv_remove [OF ri m]) (simp add: c')
    ultimately show ?thesis using removed(2-4) inv c' by (simp add: regInv_def)
  qed
qed

lemma regReachable_inv:
  assumes "regReachable page c out" "page = 2 ^ k" "k < 64"
  shows "regInv page c out"
  using assms(1)
proof induction
  case init
  show ?case by (simp add: regInv_def slotsInv_def refsInv_def)
next
  case (register c out buf bytes a commCheck ptrCheck cu g r ho c')
  show ?case by (rule regInv_register [OF register(6) assms(2,3) register(2-5)])
next
  case (deregister c out h g buf bytes commCheck ops rt cudaDev dev r calls c' dev')
  show ?case by (rule regInv_deregister [OF deregister(4,2,3)])
next
  case (transport c out h reg reg')
  have si: "slotsInv c" and ri: "refsInv c out" using transport(7) by (auto simp: regInv_def)
  have "slotsInv (c\<lparr>regs := (regs c)(h \<mapsto> reg')\<rparr>)" by (rule slotsInv_update [OF si transport(2,3)])
  moreover have "refsInv (c\<lparr>regs := (regs c)(h \<mapsto> reg')\<rparr>) out"
    by (rule refsInv_update [OF ri transport(2-4)]) (use transport(5,6) refsInvD(1,2) [OF ri transport(2)] in auto)
  ultimately show ?case using transport(7) by (simp add: regInv_def)
qed

lemma ncclRegFind_total: "\<forall>h \<in> set hs. store h \<noteq> None \<Longrightarrow> ncclRegFind buf bytes hs store \<noteq> None"
  by (induction buf bytes hs store rule: ncclRegFind.induct) (auto split: option.splits)

lemma ncclRegFind_sound:
  "ncclRegFind buf bytes hs store = Some (Some h) \<Longrightarrow> unat buf + unat bytes < 2 ^ 64 \<Longrightarrow> \<exists>reg. h \<in> set hs \<and> store h = Some reg \<and> regCovers reg buf bytes"
proof (induction buf bytes hs store rule: ncclRegFind.induct)
  case (2 buf bytes h' rest store)
  have "unat (buf + bytes) = unat buf + unat bytes" using "2.prems"(2) by (simp add: unat_word_ariths)
  with "2.prems" "2.IH" show ?case by (auto split: option.splits if_splits simp: regCovers_def not_less word_le_nat_alt)
qed simp

lemma ncclRegFind_none:
  "ncclRegFind buf bytes hs store = Some None \<Longrightarrow> unat buf + unat bytes < 2 ^ 64 \<Longrightarrow> sorted (map (\<lambda>h. begAddr (the (store h))) hs) \<Longrightarrow>
     h \<in> set hs \<Longrightarrow> store h = Some reg \<Longrightarrow> \<not> regCovers reg buf bytes"
proof (induction buf bytes hs store rule: ncclRegFind.induct)
  case (2 buf bytes h' rest store)
  have u: "unat (buf + bytes) = unat buf + unat bytes" using "2.prems"(2) by (simp add: unat_word_ariths)
  from "2.prems"(1) obtain reg' where r: "store h' = Some reg'" by (auto split: option.splits)
  have le: "begAddr reg' \<le> begAddr reg" using "2.prems"(3-5) r by auto
  show ?case
  proof (cases "buf < begAddr reg'")
    case True
    with le show ?thesis by (auto simp: regCovers_def)
  next
    case False
    with "2.prems"(1) r have n: "\<not> buf + bytes \<le> endAddr reg'" "ncclRegFind buf bytes rest store = Some None" by (auto split: if_splits)
    with u have "\<not> regCovers reg' buf bytes" by (simp add: regCovers_def word_le_nat_alt)
    moreover have "\<not> regCovers reg buf bytes" if "h \<in> set rest"
      using "2.IH" [OF r False n(1,2) "2.prems"(2) _ that "2.prems"(5)] "2.prems"(3) by simp
    ultimately show ?thesis using "2.prems"(4,5) r by auto
  qed
qed simp

lemma regCleanup_fresh: "regCleanup ops (addRef g d (newReg b e)) = (ncclSuccess, [])"
  by (simp add: regCleanup_def stateHas_def newReg_def addRef_def)

lemma addRef_inverse: "addRef g (- 1) (addRef g 1 reg) = reg"
  by (simp add: addRef_def)

lemma addRef_zero: "addRef g 0 reg = reg"
  by (simp add: addRef_def)

lemma remove1_insert_at: "a \<notin> set xs \<Longrightarrow> remove1 a (take n xs @ a # drop n xs) = xs"
  by (simp add: remove1_append) (meson in_set_takeD)





text \<open>A release whose multicast deregistration fails has freed the network handles of a region that stays in the cache with them.\<close>

lemma commDeregister_nvls_failure:
  assumes inv: "slotsInv c" and reg: "regs c h = Some reg" and refs: "localRefs reg = (if g then 0 else 1)" "graphRefs reg = (if g then 1 else 0)"
    and ok: "\<not> ncclCheckFails commCheck" "getDeviceOk rt" "setDeviceOk rt cudaDev"
    and st: "stateHas reg NET_REG_COMPLETE" "stateHas reg NVLS_REG_COMPLETE" "n \<in> set (netHandleHead reg)"
    and fail: "\<And>reg. nvlsUbDeregister ops reg = r" "ncclCheckFails r"
  obtains calls c' reg' where "commDeregister commCheck ops rt cudaDev g h c dev = Some (r, calls, c', cudaDev)" "Free n \<in> set calls"
    "slots c' = slots c" "regs c' h = Some reg'" "n \<in> set (netHandleHead reg')" "stateHas reg' NET_REG_COMPLETE"
proof -
  let ?reg = "addRef g (- 1) reg"
  have h: "h \<noteq> 0" "slotOf h (slots c) \<noteq> length (slots c)"
    using slotsInvD(2,3) [OF inv] reg by (auto simp: slotOf_length)
  have same: "stateHas ?reg = stateHas reg" "netHandleHead ?reg = netHandleHead reg" by (auto simp: addRef_def stateHas_def)
  obtain calls where calls: "regCleanup ops ?reg = (r, calls)" "Free n \<in> set calls"
    using st fail by (auto simp: regCleanup_def same)
  have "commDeregister commCheck ops rt cudaDev g h c dev = Some (r, calls, c\<lparr>regs := (regs c)(h \<mapsto> ?reg)\<rparr>, cudaDev)"
    using ok h reg refs calls(1) fail(2) by (simp add: commDeregister_def Let_def)
  then show thesis using that calls(2) st(1,3) same by simp
qed

section \<open>Properties\<close>

text \<open>C13: In every cache that registrations and releases reach, the occupied slots are distinct pointers to exactly the regions that
are allocated, in the order of their addresses and within the array, and no further registration with memory available, no release of
an outstanding registration and no search accesses a freed region or a slot outside the array.\<close>

theorem reg_cache_well_formed:
  assumes "regReachable (2 ^ k) c out" "k < 64"
  shows "distinct (slots c) \<and> set (slots c) = dom (regs c) \<and> sorted (map (\<lambda>h. begAddr (the (regs c h))) (slots c)) \<and> length (slots c) \<le> allocated c \<and>
    ncclRegister commCheck ptrCheck cu True (Some a) buf bytes g c \<noteq> None \<and> ncclRegFind buf bytes (slots c) (regs c) \<noteq> None \<and>
    ((h, g, b, n) \<in># out \<longrightarrow> commDeregister commCheck ops rt cudaDev g h c dev \<noteq> None)"
proof -
  have inv: "slotsInv c" "refsInv c out" using regReachable_inv [OF assms(1) refl assms(2)] by (auto simp: regInv_def)
  have "commDeregister commCheck ops rt cudaDev g h c dev \<noteq> None" if m: "(h, g, b, n) \<in># out"
  proof -
    from refsInvD(3) [OF inv(2) m] obtain reg where "regs c h = Some reg" by blast
    with inv(1) show ?thesis
      by (cases rule: commDeregister_cases [where commCheck = commCheck and ops = ops and rt = rt and cudaDev = cudaDev and g = g and dev = dev]) auto
  qed
  moreover have "\<forall>h \<in> set (slots c). regs c h \<noteq> None" using slotsInvD(3) [OF inv(1)] by auto
  ultimately show ?thesis
    using slotsInvD [OF inv(1)] ncclRegister_cases [OF inv(1), of commCheck ptrCheck cu a buf bytes g] ncclRegFind_total by auto
qed

text \<open>C12: A registered buffer stays covered until its own release, whatever other registrations and releases happen: the counts of a
region are the numbers of its outstanding registrations by the user and by graphs, and the search for any part of a buffer with an
outstanding registration returns a region that contains the part.\<close>

theorem registered_buffer_found:
  assumes "regReachable (2 ^ k) c out" "k < 64" "(h, g, buf, bytes) \<in># out"
    "buf \<le> p" "unat p + unat n \<le> unat buf + unat bytes"
  shows "(\<exists>h' reg. ncclRegFind p n (slots c) (regs c) = Some (Some h') \<and> regs c h' = Some reg \<and> regCovers reg p n) \<and>
    (\<exists>reg. regs c h = Some reg \<and> localRefs reg = int (refsOf out False h) \<and> graphRefs reg = int (refsOf out True h))"
proof -
  have inv: "slotsInv c" "refsInv c out" using regReachable_inv [OF assms(1) refl assms(2)] by (auto simp: regInv_def)
  obtain reg where reg: "regs c h = Some reg" "regCovers reg buf bytes" using refsInvD(3) [OF inv(2) assms(3)] by blast
  have cov: "regCovers reg p n" using reg(2) assms(4,5) unfolding regCovers_def by (auto simp: word_le_nat_alt)
  have lt: "unat p + unat n < 2 ^ 64" using cov unsigned_less [of "endAddr reg", where 'a = nat] unfolding regCovers_def by simp
  have "\<forall>h \<in> set (slots c). regs c h \<noteq> None" using slotsInvD(3) [OF inv(1)] by auto
  from ncclRegFind_total [OF this] obtain ho where ho: "ncclRegFind p n (slots c) (regs c) = Some ho" by blast
  have hs: "h \<in> set (slots c)" using reg(1) slotsInvD(3) [OF inv(1)] by auto
  from ho ncclRegFind_none [OF _ lt slotsInvD(4) [OF inv(1)] hs reg(1)] cov obtain h' where "ho = Some h'" by (cases ho) auto
  with ncclRegFind_sound [of p n "slots c" "regs c" h'] ho lt show ?thesis using refsInvD(1,2) [OF inv(2) reg(1)] reg(1) by auto
qed

text \<open>C39: The release of a registration right after it restores the slots and all regions, with success, and the device of the thread
unless the region has other registrations.\<close>

theorem register_deregister:
  assumes "regReachable (2 ^ k) c out" "k < 64" "a \<noteq> 0" "regs c a = None" "\<forall>h reg. regs c h = Some reg \<longrightarrow> localRefs reg \<noteq> 0 \<or> graphRefs reg \<noteq> 0"
    "ncclRegister commCheck ptrCheck cu True (Some a) buf bytes g c = Some (r, Some h, c')"
    "\<not> ncclCheckFails commCheck" "getDeviceOk rt" "setDeviceOk rt cudaDev" "setDeviceOk rt dev"
  shows "\<exists>c''. commDeregister commCheck ops rt cudaDev g h c' dev = Some (ncclSuccess, if h = a then [Free a] else [], c'', if h = a then dev else cudaDev) \<and>
    slots c'' = slots c \<and> regs c'' = regs c"
proof -
  have inv: "slotsInv c" using regReachable_inv [OF assms(1) refl assms(2)] by (auto simp: regInv_def)
  note d = slotsInvD [OF inv]
  have na: "a \<notin> set (slots c)" using assms(4) d(3) by auto
  from ncclRegister_cases [OF inv, of commCheck ptrCheck cu a buf bytes g] assms(6) consider
      (again) reg where "regs c h = Some reg" "c' = c\<lparr>regs := (regs c)(h \<mapsto> addRef g 1 reg)\<rparr>"
    | (new) slot cap b e where "h = a" "c' = c\<lparr>capacity := cap, allocated := cap, slots := take slot (slots c) @ a # drop slot (slots c),
               regs := (regs c)(a \<mapsto> addRef g 1 (newReg b e))\<rparr>"
    by auto
  then show ?thesis
  proof cases
    case again
    have h: "h \<noteq> 0" "h \<noteq> a" "slotOf h (slots c) \<noteq> length (slots c)" using again(1) d(2,3) assms(4) by (auto simp: slotOf_length)
    have "commDeregister commCheck ops rt cudaDev g h c' dev = Some (ncclSuccess, [], c'\<lparr>regs := (regs c')(h \<mapsto> reg)\<rparr>, cudaDev)"
      using h again assms(5,7-9) by (simp add: commDeregister_def Let_def addRef_inverse del: addRef_fields)
    with again h(2) show ?thesis by (simp add: fun_upd_idem)
  next
    case new
    let ?s = "slotOf a (slots c')"
    have c': "slots c' = take slot (slots c) @ a # drop slot (slots c)" "regs c' = (regs c)(a \<mapsto> addRef g 1 (newReg b e))"
      using new(2) by simp_all
    have "a \<in> set (slots c')" using c'(1) by simp
    then have h: "?s \<noteq> length (slots c')" unfolding slotOf_length by simp
    have rm: "take ?s (slots c') @ drop (?s + 1) (slots c') = slots c"
      unfolding slotOf_remove c'(1) by (rule remove1_insert_at [OF na])
    have reg: "regs c' a = Some (addRef g 1 (newReg b e))" using c'(2) by simp
    have "commDeregister commCheck ops rt cudaDev g a c' dev =
            Some (ncclSuccess, [Free a], c'\<lparr>regs := (regs c')(a := None), slots := slots c\<rparr>, dev)"
      using h rm reg assms(3,7-10) regCleanup_fresh [of ops g 0 b e]
      by (simp add: commDeregister_def Let_def addRef_inverse addRef_zero)
    with new(1) assms(4) c'(2) show ?thesis by (simp add: fun_upd_idem)
  qed
qed


section \<open>Witnesses\<close>

definition plainDriver :: cuDriver where
  "plainDriver = \<lparr>cuMemEnable = False, addressRangeOk = True, memTypeIsHost = Some False, legacyIpcCap = Some True, rangeHasSysmem = Inr False\<rparr>"

definition plainOps :: regOps where
  "plainOps = \<lparr>nvlsUbDeregister = (\<lambda>_. ncclSuccess), cudaFree = (\<lambda>_. ncclSuccess)\<rparr>"

definition plainRt :: cudaRt where
  "plainRt = \<lparr>getDeviceOk = True, setDeviceOk = (\<lambda>_. True)\<rparr>"

definition emptyCache :: ncclRegCache where
  "emptyCache = \<lparr>slots = [], capacity = 0, allocated = 0, regPageSize = 2 ^ 12, regs = (\<lambda>_. None)\<rparr>"

definition oneReg :: ncclRegCache where
  "oneReg = emptyCache\<lparr>capacity := 32, allocated := 32, slots := [7], regs := [7 \<mapsto> addRef False 1 (newReg 0x3000 0x4000)]\<rparr>"

definition twoRegs :: ncclRegCache where
  "twoRegs = oneReg\<lparr>slots := [7, 8], regs := [7 \<mapsto> addRef False 1 (newReg 0x3000 0x4000), 8 \<mapsto> addRef True 1 (newReg 0x5000 0x7000)]\<rparr>"

lemmas plain_defs = plainDriver_def plainOps_def plainRt_def emptyCache_def oneReg_def twoRegs_def

lemma register_one: "ncclRegister ncclSuccess ncclSuccess plainDriver True (Some 7) 0x3010 0x20 False emptyCache = Some (ncclSuccess, Some 7, oneReg)"
  by (simp add: ncclRegister_def plain_defs bufferHasSysmem_def growSlots_def insertSlot_def Let_def regBeg_def regEnd_def)

lemma register_two: "ncclRegister ncclSuccess ncclSuccess plainDriver True (Some 8) 0x5abc 0x1000 True oneReg = Some (ncclSuccess, Some 8, twoRegs)"
  by (simp add: ncclRegister_def plain_defs bufferHasSysmem_def growSlots_def insertSlot_def Let_def regBeg_def regEnd_def fun_eq_iff)

lemma reachable_one: "regReachable (2 ^ 12) oneReg {#(7, False, 0x3010, 0x20)#}"
  using regReachable.register [OF regReachable.init, of "0x3010" "0x20" "2 ^ 12" 7, folded emptyCache_def, OF _ _ _ register_one]
  by (simp add: emptyCache_def)

lemma reachable_two: "regReachable (2 ^ 12) twoRegs {#(8, True, 0x5abc, 0x1000), (7, False, 0x3010, 0x20)#}"
  using regReachable.register [OF reachable_one, of "0x5abc" "0x1000" 8, OF _ _ _ register_two]
  by (simp add: oneReg_def)

theorem reg_cache_well_formed_witness:
  "distinct (slots twoRegs) \<and> sorted (map (\<lambda>h. begAddr (the (regs twoRegs h))) (slots twoRegs)) \<and> length (slots twoRegs) \<le> allocated twoRegs \<and>
   ncclRegFind 0x5abc 1 (slots twoRegs) (regs twoRegs) \<noteq> None"
  using reg_cache_well_formed [OF reachable_two, of ncclSuccess ncclSuccess plainDriver 9 "0x5abc" 1 True 8 "0x5abc" "0x1000" plainOps plainRt 0 0] by simp

theorem registered_buffer_found_witness:
  "\<exists>h' reg. ncclRegFind 0x5ac0 0x10 (slots twoRegs) (regs twoRegs) = Some (Some h') \<and> regs twoRegs h' = Some reg \<and> regCovers reg 0x5ac0 0x10"
  using registered_buffer_found [OF reachable_two, of 8 True "0x5abc" "0x1000" "0x5ac0" "0x10"] by simp

theorem register_deregister_witness:
  "\<exists>c''. commDeregister ncclSuccess plainOps plainRt 1 True 8 twoRegs 0 = Some (ncclSuccess, [Free 8], c'', 0) \<and> slots c'' = slots oneReg \<and> regs c'' = regs oneReg"
  using register_deregister [OF reachable_one _ _ _ _ register_two, of plainRt 1 0 plainOps]
  by (simp add: oneReg_def plainRt_def)


end
