(* ===== verification/Prims.thy ===== *)
theory Prims
  imports Bitops
begin

text \<open>
  The communication primitives of the Simple protocol
  (\<^verbatim>\<open>src/src/device/prims_simple.h\<close>) and the arithmetic of their data movement
  (\<^verbatim>\<open>src/src/device/common_kernel.h\<close>).  A call of \<^verbatim>\<open>genericOp\<close> is a sequence of slices;
  every slice waits for its peers, moves its elements and posts its step counters.  The model covers
  connections that stage the data in the FIFO buffer of the connection, the case in which none of the
  direct or registered modes is enabled.
\<close>

section \<open>Element-wise reduction\<close>

text \<open>The functor of a reduction operator: applied to loaded input, to two operands, to the result.\<close>

record 'a redop =
  preOp :: "'a \<Rightarrow> 'a"
  redFn :: "'a \<Rightarrow> 'a \<Rightarrow> 'a"
  postOp :: "'a \<Rightarrow> 'a"

text \<open>
  One element of the result: the first source, then the others reduced into it.  Only the first
  source is a user input (\<^verbatim>\<open>PreOpSrcs\<close> is 0 or 1 in \<^verbatim>\<open>genericOp\<close>).
\<close>

definition reduceCopyElt :: "'a redop \<Rightarrow> bool \<Rightarrow> bool \<Rightarrow> 'a list \<Rightarrow> 'a" where
  "reduceCopyElt rop pre post srcs =
     (let acc = (if pre then preOp rop (hd srcs) else hd srcs);
          acc = foldl (redFn rop) acc (tl srcs)
      in if post then postOp rop acc else acc)"

definition reduceCopy :: "'a redop \<Rightarrow> bool \<Rightarrow> bool \<Rightarrow> nat \<Rightarrow> (nat \<Rightarrow> 'a) list \<Rightarrow> 'a list" where
  "reduceCopy rop pre post n srcs =
     map (\<lambda>i. reduceCopyElt rop pre post (map (\<lambda>s. s i) srcs)) [0..<n]"

section \<open>Slices\<close>

datatype userBuf = Input | Output

record prims =
  stepSize :: int
  userInput :: int
  userOutput :: int
  SlicePerChunk :: nat
  StepPerSlice :: nat
  eltBytes :: int

record slice_op =
  opRecv :: bool
  opSend :: bool
  opSrc :: "int option"
  opPre :: bool
  opDst :: "int option"
  opSize :: nat
  opPost :: bool

text \<open>
  The two loops of \<^verbatim>\<open>genericOp\<close>: slices with data, then the empty ones.  The first argument is the
  number of slices left, and each element of the result is the offset and the size of a slice.
\<close>

fun emptySlices :: "nat \<Rightarrow> int \<Rightarrow> int \<Rightarrow> int \<Rightarrow> (int \<times> int) list" where
  "emptySlices 0 nelem sliceSize offset = []"
| "emptySlices (Suc left) nelem sliceSize offset =
     (let sliceSize = (if sliceSize < nelem - offset then sliceSize else nelem - offset)
      in (0, sliceSize) # emptySlices left nelem sliceSize (offset + sliceSize))"

fun workerSlices :: "nat \<Rightarrow> int \<Rightarrow> int \<Rightarrow> int \<Rightarrow> (int \<times> int) list" where
  "workerSlices 0 nelem sliceSize offset = []"
| "workerSlices (Suc left) nelem sliceSize offset =
     (let sliceSize = (if sliceSize < nelem - offset then sliceSize else nelem - offset)
      in (offset, sliceSize) #
           (if 0 < left \<and> offset + sliceSize < nelem
            then workerSlices left nelem sliceSize (offset + sliceSize)
            else emptySlices left nelem sliceSize (offset + sliceSize)))"

definition genericOp_slices :: "nat \<Rightarrow> nat \<Rightarrow> int \<Rightarrow> int \<Rightarrow> (int \<times> int) list" where
  "genericOp_slices slicePerChunk stepPerSlice stepSz nelem =
     (let nelem = (if nelem < 0 then 0 else nelem);
          sliceSize = stepSz * int stepPerSlice;
          sliceSize = max (divUp_s nelem (16 * int slicePerChunk) * 16) (sliceSize sdiv 32)
      in if 0 < nelem then workerSlices slicePerChunk nelem sliceSize 0
         else emptySlices slicePerChunk nelem sliceSize 0)"

definition userPtr :: "prims \<Rightarrow> userBuf \<Rightarrow> int" where
  "userPtr pr b = (case b of Input \<Rightarrow> userInput pr | Output \<Rightarrow> userOutput pr)"

definition genericOp ::
  "prims \<Rightarrow> bool \<Rightarrow> bool \<Rightarrow> userBuf option \<Rightarrow> userBuf option \<Rightarrow> int \<Rightarrow> int \<Rightarrow> int \<Rightarrow> bool \<Rightarrow> slice_op list" where
  "genericOp pr Recv Send SrcBuf DstBuf srcIx dstIx nelem post =
     map (\<lambda>(offset, sliceSize).
            \<lparr>opRecv = Recv, opSend = Send,
             opSrc = map_option (\<lambda>b. userPtr pr b + srcIx + offset) SrcBuf,
             opPre = (SrcBuf = Some Input),
             opDst = map_option (\<lambda>b. userPtr pr b + dstIx + offset) DstBuf,
             opSize = nat sliceSize, opPost = post\<rparr>)
         (genericOp_slices (SlicePerChunk pr) (StepPerSlice pr) (stepSize pr) nelem)"

section \<open>The primitives\<close>

definition prim_send :: "prims \<Rightarrow> int \<Rightarrow> int \<Rightarrow> slice_op list" where
  "prim_send pr inpIx eltN = genericOp pr False True (Some Input) None inpIx (-1) eltN False"

definition directSend :: "prims \<Rightarrow> int \<Rightarrow> int \<Rightarrow> int \<Rightarrow> slice_op list" where
  "directSend pr inpIx outIx eltN = genericOp pr False True (Some Input) None inpIx outIx eltN False"

definition directRecv :: "prims \<Rightarrow> int \<Rightarrow> int \<Rightarrow> slice_op list" where
  "directRecv pr outIx eltN = genericOp pr True False None (Some Output) outIx outIx eltN False"

definition directCopySend :: "prims \<Rightarrow> int \<Rightarrow> int \<Rightarrow> int \<Rightarrow> slice_op list" where
  "directCopySend pr inpIx outIx eltN =
     genericOp pr False True (Some Input) (Some Output) inpIx outIx eltN False"

definition directRecvCopyDirectSend :: "prims \<Rightarrow> int \<Rightarrow> int \<Rightarrow> int \<Rightarrow> slice_op list" where
  "directRecvCopyDirectSend pr inpIx outIx eltN =
     genericOp pr True True None (Some Output) inpIx outIx eltN False"

definition recvReduceCopy :: "prims \<Rightarrow> int \<Rightarrow> int \<Rightarrow> int \<Rightarrow> bool \<Rightarrow> slice_op list" where
  "recvReduceCopy pr inpIx outIx eltN post =
     genericOp pr True False (Some Input) (Some Output) inpIx outIx eltN post"

definition recvReduceSend :: "prims \<Rightarrow> int \<Rightarrow> int \<Rightarrow> slice_op list" where
  "recvReduceSend pr inpIx eltN = genericOp pr True True (Some Input) None inpIx (-1) eltN False"

definition directRecvReduceDirectSend :: "prims \<Rightarrow> int \<Rightarrow> int \<Rightarrow> int \<Rightarrow> slice_op list" where
  "directRecvReduceDirectSend pr inpIx outIx eltN =
     genericOp pr True True (Some Input) None inpIx outIx eltN False"

definition directRecvReduceCopyDirectSend :: "prims \<Rightarrow> int \<Rightarrow> int \<Rightarrow> int \<Rightarrow> bool \<Rightarrow> slice_op list" where
  "directRecvReduceCopyDirectSend pr inpIx outIx eltN post =
     genericOp pr True True (Some Input) (Some Output) inpIx outIx eltN post"

section \<open>The slices of an operation\<close>

lemma length_emptySlices [simp]: "length (emptySlices m nelem ss off) = m"
  by (induction m nelem ss off rule: emptySlices.induct) (simp_all add: Let_def)

lemma length_workerSlices [simp]: "length (workerSlices m nelem ss off) = m"
  by (induction m nelem ss off rule: workerSlices.induct) (simp_all add: Let_def)

lemma length_genericOp_slices [simp]: "length (genericOp_slices spc sps st nelem) = spc"
  by (simp add: genericOp_slices_def Let_def)

lemma length_genericOp [simp]: "length (genericOp pr r s sb db si di ne po) = SlicePerChunk pr"
  by (simp add: genericOp_def)

lemma nth_genericOp:
  "i < SlicePerChunk pr \<Longrightarrow>
   genericOp pr r s sb db si di ne po ! i =
     (let (offset, sliceSize) = genericOp_slices (SlicePerChunk pr) (StepPerSlice pr) (stepSize pr) ne ! i
      in \<lparr>opRecv = r, opSend = s, opSrc = map_option (\<lambda>b. userPtr pr b + si + offset) sb,
          opPre = (sb = Some Input), opDst = map_option (\<lambda>b. userPtr pr b + di + offset) db,
          opSize = nat sliceSize, opPost = po\<rparr>)"
  by (simp add: genericOp_def split_beta)

text \<open>
  The slices with data are consecutive: slice \<open>i\<close> is \<open>[i * ss, min ((i + 1) * ss, nelem))\<close>, where
  \<open>ss\<close> is the slice size.  Later slices are empty.
\<close>

lemma emptySlices_done: "0 \<le> ss \<Longrightarrow> i < m \<Longrightarrow> emptySlices m nelem ss nelem ! i = (0, 0)"
proof (induction m arbitrary: i ss)
  case (Suc m)
  then show ?case by (cases i) (auto simp: Let_def)
qed simp

lemma workerSlices_nth:
  assumes "0 < ss" "0 \<le> off" "off < nelem" "nelem - off \<le> int m * ss" "i < m"
  shows "workerSlices m nelem ss off ! i =
    (if off + int i * ss < nelem then (off + int i * ss, min ss (nelem - (off + int i * ss))) else (0, 0))"
  using assms
proof (induction m arbitrary: off i)
  case (Suc m)
  show ?case
  proof (cases "ss < nelem - off")
    case True
    then have "0 < m" using Suc.prems(1,4) by (cases m) auto
    then have rec: "workerSlices (Suc m) nelem ss off = (off, ss) # workerSlices m nelem ss (off + ss)"
      using True by (simp add: Let_def)
    show ?thesis
    proof (cases i)
      case 0
      then show ?thesis using True Suc.prems by (simp only: rec nth_Cons_0) simp
    next
      case i: (Suc j)
      then have "workerSlices m nelem ss (off + ss) ! j =
        (if off + ss + int j * ss < nelem
         then (off + ss + int j * ss, min ss (nelem - (off + ss + int j * ss))) else (0, 0))"
        using Suc.prems i True by (intro Suc.IH) (simp_all add: distrib_right)
      then show ?thesis by (simp only: rec i nth_Cons_Suc) (simp add: distrib_right add.assoc)
    qed
  next
    case False
    then have rec: "workerSlices (Suc m) nelem ss off = (off, nelem - off) # emptySlices m nelem (nelem - off) nelem"
      by (simp add: Let_def)
    show ?thesis
    proof (cases i)
      case 0
      then show ?thesis using rec False Suc.prems by simp
    next
      case i: (Suc j)
      have "ss \<le> int i * ss" using i Suc.prems(1) by (simp add: algebra_simps)
      then have "\<not> off + int i * ss < nelem" using False by linarith
      then show ?thesis using rec i Suc.prems by (simp add: emptySlices_done)
    qed
  qed
qed simp


lemma divUp_s_eq: "0 \<le> x \<Longrightarrow> 0 < y \<Longrightarrow> divUp_s x y = (x + y - 1) div y"
  by (simp add: divUp_s_def signed_divide_int_def sgn_if)

lemma divUp_s_mult_ge: "0 \<le> x \<Longrightarrow> 0 < y \<Longrightarrow> x \<le> divUp_s x y * y"
proof -
  assume a: "0 \<le> x" "0 < y"
  have "(x + y - 1) mod y \<le> y - 1" using pos_mod_bound [OF a(2), of "x + y - 1"] by linarith
  then show ?thesis unfolding divUp_s_eq [OF a] using div_mult_mod_eq [of "x + y - 1" y] by linarith
qed

lemma divUp_s_le: "0 \<le> x \<Longrightarrow> 0 < y \<Longrightarrow> x \<le> k * y \<Longrightarrow> divUp_s x y \<le> k"
proof -
  assume a: "0 \<le> x" "0 < y" "x \<le> k * y"
  then have "x + y - 1 < (k + 1) * y" by (simp add: algebra_simps)
  then have "(x + y - 1) div y < k + 1"
    using int_div_less_iff [OF a(2)] by blast
  then show ?thesis using a by (simp add: divUp_s_eq)
qed

definition slice_size :: "nat \<Rightarrow> nat \<Rightarrow> int \<Rightarrow> int \<Rightarrow> int" where
  "slice_size spc sps st nelem = max (divUp_s nelem (16 * int spc) * 16) (st * int sps sdiv 32)"

lemma slice_size_cover:
  assumes "0 < spc" "0 \<le> nelem"
  shows "nelem \<le> int spc * slice_size spc sps st nelem"
proof -
  have "nelem \<le> divUp_s nelem (16 * int spc) * (16 * int spc)"
    using assms by (intro divUp_s_mult_ge) simp_all
  also have "\<dots> = int spc * (divUp_s nelem (16 * int spc) * 16)" by simp
  also have "\<dots> \<le> int spc * slice_size spc sps st nelem"
    by (intro mult_left_mono) (simp_all add: slice_size_def)
  finally show ?thesis .
qed

lemma slice_size_pos: "0 < spc \<Longrightarrow> 0 < nelem \<Longrightarrow> 0 < slice_size spc sps st nelem"
proof -
  assume a: "0 < spc" "0 < nelem"
  then have "0 < int spc * slice_size spc sps st nelem"
    using slice_size_cover [of spc nelem sps st] by linarith
  then show ?thesis using a(1) by (simp add: zero_less_mult_iff)
qed

lemma slice_size_nonneg: "0 < spc \<Longrightarrow> 0 \<le> nelem \<Longrightarrow> 0 \<le> slice_size spc sps st nelem"
proof -
  assume a: "0 < spc" "0 \<le> nelem"
  have "0 \<le> divUp_s nelem (16 * int spc)" using a by (simp add: divUp_s_eq pos_imp_zdiv_nonneg_iff)
  then show ?thesis by (simp add: slice_size_def)
qed

lemma genericOp_slices_nth:
  fixes nelem st :: int and sps :: nat
  assumes "i < spc"
  defines "N \<equiv> max 0 nelem"
  defines "ss \<equiv> slice_size spc sps st N"
  shows "genericOp_slices spc sps st nelem ! i =
    (if int i * ss < N then (int i * ss, min ss (N - int i * ss)) else (0, 0))"
proof (cases "0 < nelem")
  case True
  then have sp: "0 < spc" "N = nelem" using assms(1) by (auto simp: N_def)
  have ss: "0 < ss" unfolding ss_def sp(2) using sp(1) True by (rule slice_size_pos)
  have cov: "nelem \<le> int spc * ss" unfolding ss_def sp(2) using sp(1) True by (intro slice_size_cover) simp_all
  have "genericOp_slices spc sps st nelem = workerSlices spc nelem ss 0"
    using True by (simp add: genericOp_slices_def Let_def ss_def slice_size_def sp(2))
  then show ?thesis
    using workerSlices_nth [OF ss, of 0 nelem spc i] cov True assms(1) sp(2) by simp
next
  case False
  then have N: "N = 0" by (simp add: N_def)
  have ss: "0 \<le> ss" unfolding ss_def N using assms(1) by (intro slice_size_nonneg) simp_all
  have "genericOp_slices spc sps st nelem = emptySlices spc 0 ss 0"
    using False by (auto simp: genericOp_slices_def Let_def ss_def slice_size_def N)
  then show ?thesis using emptySlices_done [OF ss assms(1), of 0] mult_nonneg_nonneg [OF _ ss, of "int i"] N by simp
qed

lemma genericOp_slices_bounds:
  assumes "i < spc" "genericOp_slices spc sps st nelem ! i = (off, sz)"
  shows "0 \<le> off" and "0 \<le> sz" and "off + sz \<le> max 0 nelem" and "sz \<le> slice_size spc sps st (max 0 nelem)"
proof -
  define N ss p where "N = max 0 nelem" and "ss = slice_size spc sps st N" and "p = int i * ss"
  have ss: "0 \<le> ss" unfolding ss_def N_def using assms(1) by (intro slice_size_nonneg) simp_all
  then have p: "0 \<le> p" by (simp add: p_def)
  have N: "0 \<le> N" by (simp add: N_def)
  have "(off, sz) = (if p < N then (p, min ss (N - p)) else (0, 0))"
    using assms(2) genericOp_slices_nth [OF assms(1), of sps st nelem] unfolding p_def ss_def N_def by simp
  then have "off = (if p < N then p else 0)" "sz = (if p < N then min ss (N - p) else 0)"
    by (simp_all split: if_splits)
  then show "0 \<le> off" "0 \<le> sz" "off + sz \<le> max 0 nelem" "sz \<le> slice_size spc sps st (max 0 nelem)"
    using p ss N unfolding N_def [symmetric] ss_def [symmetric] by (simp_all add: min_def split: if_splits)
qed

text \<open>Every element of an operation is in exactly one of its slices.\<close>

definition in_slice :: "int \<Rightarrow> int \<times> int \<Rightarrow> bool" where
  "in_slice x sl \<longleftrightarrow> fst sl \<le> x \<and> x < fst sl + snd sl"

lemma genericOp_slices_cover:
  assumes "0 < spc" "0 \<le> x" "x < nelem"
  shows "\<exists>!i. i < spc \<and> in_slice x (genericOp_slices spc sps st nelem ! i)"
proof -
  let ?ss = "slice_size spc sps st nelem"
  have N: "max 0 nelem = nelem" using assms by simp
  have ss: "0 < ?ss" using assms by (intro slice_size_pos) simp_all
  have eq: "in_slice x (genericOp_slices spc sps st nelem ! i) \<longleftrightarrow> int i = x div ?ss" if "i < spc" for i
    unfolding genericOp_slices_nth [OF that] N div_eq_iff_bounds [OF ss] in_slice_def using assms ss
    by (auto simp: distrib_right)
  have "x div ?ss < int spc"
    using slice_size_cover [of spc nelem sps st] assms ss by (simp add: int_div_less_iff)
  moreover have "0 \<le> x div ?ss" using assms ss by (simp add: pos_imp_zdiv_nonneg_iff)
  ultimately have "nat (x div ?ss) < spc" "int (nat (x div ?ss)) = x div ?ss" by (simp_all add: nat_less_iff)
  moreover have "i = nat (x div ?ss)" if "int i = x div ?ss" for i using that by linarith
  ultimately show ?thesis using eq by blast
qed

text \<open>A slice of a chunk that fits its share of the buffer fits the buffer space of its steps.\<close>

lemma genericOp_slices_fit:
  assumes "i < spc" "genericOp_slices spc sps st nelem ! i = (off, sz)"
    and "nelem \<le> int spc * (st * int sps)" "16 dvd st * int sps" "0 \<le> st"
  shows "sz \<le> st * int sps"
proof -
  let ?N = "max 0 nelem"
  obtain c where c: "st * int sps = 16 * c" using assms(4) by blast
  have "0 \<le> st * int sps" using assms(5) by simp
  then have c0: "0 \<le> c" using c by linarith
  have "int spc * (st * int sps) = c * (16 * int spc)" using c by simp
  then have "divUp_s ?N (16 * int spc) \<le> c"
    using assms(1,3) c0 by (intro divUp_s_le) (simp_all only:, simp_all)
  moreover have "st * int sps sdiv 32 \<le> st * int sps"
    using c0 unfolding c by (simp add: signed_divide_int_def sgn_if) linarith
  ultimately have "slice_size spc sps st ?N \<le> st * int sps" by (simp add: slice_size_def c)
  then show ?thesis using genericOp_slices_bounds(4) [OF assms(1,2)] by linarith
qed

end
