(* ===== verification/Ring_Net.thy ===== *)
theory Ring_Net
  imports Prims
begin

text \<open>
  Ranks connected in a ring by FIFO connections, each running its sequence of slices
  (\<^verbatim>\<open>waitPeer\<close>, the data movement and \<^verbatim>\<open>postPeer\<close> of \<^verbatim>\<open>src/src/device/prims_simple.h\<close>).  The step
  relation interleaves the ranks in every possible way.  The locale \<open>ring_run\<close> states what a
  collective algorithm has to provide (the values its slices compute and an order in which they can
  be computed) and proves from it that no interleaving deadlocks, that every interleaving ends and
  that every interleaving computes these values.
\<close>

section \<open>Model\<close>

definition NCCL_STEPS :: nat where
  "NCCL_STEPS = 8"

text \<open>Configuration: ring size, protocol constants, reduction functor and the slices of each position.\<close>

record 'a ringcfg =
  nRanks :: nat
  stepsPerSlice :: nat
  connStepSize :: int
  redOp :: "'a redop"
  prog :: "nat \<Rightarrow> slice_op list"

text \<open>
  State, by ring position.  Connection \<open>p\<close> goes from position \<open>p\<close> to the next one: \<open>tail\<close> is posted
  by its sender and \<open>head\<close> by its receiver.  A rank is between two slices, or has moved the data of
  the current slice and not yet posted it (\<open>copied\<close>).
\<close>

record 'a rnet =
  pc :: "nat \<Rightarrow> nat"
  copied :: "nat \<Rightarrow> bool"
  umem :: "nat \<Rightarrow> int \<Rightarrow> 'a"
  fifo :: "nat \<Rightarrow> int \<Rightarrow> 'a"
  sendStep :: "nat \<Rightarrow> nat"
  recvStep :: "nat \<Rightarrow> nat"
  tail :: "nat \<Rightarrow> nat"
  head :: "nat \<Rightarrow> nat"

definition nxt :: "nat \<Rightarrow> nat \<Rightarrow> nat" where
  "nxt n p = (p + 1) mod n"

definition prv :: "nat \<Rightarrow> nat \<Rightarrow> nat" where
  "prv n p = (p + n - 1) mod n"

definition write_at :: "(int \<Rightarrow> 'a) \<Rightarrow> int \<Rightarrow> 'a list \<Rightarrow> int \<Rightarrow> 'a" where
  "write_at m a xs = (\<lambda>x. if a \<le> x \<and> x < a + int (length xs) then xs ! nat (x - a) else m x)"

definition read_at :: "(int \<Rightarrow> 'a) \<Rightarrow> int \<Rightarrow> nat \<Rightarrow> 'a" where
  "read_at m a i = m (a + int i)"

definition slotAddr :: "'a ringcfg \<Rightarrow> nat \<Rightarrow> int" where
  "slotAddr cfg st = int (st mod NCCL_STEPS) * connStepSize cfg"

definition curOp :: "'a ringcfg \<Rightarrow> 'a rnet \<Rightarrow> nat \<Rightarrow> slice_op" where
  "curOp cfg s p = prog cfg p ! pc s p"

definition recvReady :: "'a ringcfg \<Rightarrow> 'a rnet \<Rightarrow> nat \<Rightarrow> bool" where
  "recvReady cfg s p \<longleftrightarrow> \<not> tail s (prv (nRanks cfg) p) < recvStep s p + stepsPerSlice cfg"

definition sendReady :: "'a ringcfg \<Rightarrow> 'a rnet \<Rightarrow> nat \<Rightarrow> bool" where
  "sendReady cfg s p \<longleftrightarrow> \<not> head s p + NCCL_STEPS < sendStep s p + stepsPerSlice cfg"

definition sliceData :: "'a ringcfg \<Rightarrow> 'a rnet \<Rightarrow> nat \<Rightarrow> 'a list" where
  "sliceData cfg s p =
     (let r = curOp cfg s p;
          srcs = (case opSrc r of Some a \<Rightarrow> [read_at (umem s p) a] | None \<Rightarrow> []) @
                 (if opRecv r then [read_at (fifo s (prv (nRanks cfg) p)) (slotAddr cfg (recvStep s p))] else [])
      in reduceCopy (redOp cfg) (opPre r) (opPost r) (opSize r) srcs)"

definition copySlice :: "'a ringcfg \<Rightarrow> 'a rnet \<Rightarrow> nat \<Rightarrow> 'a rnet" where
  "copySlice cfg s p =
     (let r = curOp cfg s p; d = sliceData cfg s p
      in s\<lparr>copied := (copied s)(p := True),
           umem := (case opDst r of Some a \<Rightarrow> (umem s)(p := write_at (umem s p) a d) | None \<Rightarrow> umem s),
           fifo := (if opSend r then (fifo s)(p := write_at (fifo s p) (slotAddr cfg (sendStep s p)) d)
                    else fifo s)\<rparr>)"

definition postSlice :: "'a ringcfg \<Rightarrow> 'a rnet \<Rightarrow> nat \<Rightarrow> 'a rnet" where
  "postSlice cfg s p =
     (let r = curOp cfg s p; q = prv (nRanks cfg) p; sps = stepsPerSlice cfg
      in s\<lparr>copied := (copied s)(p := False), pc := (pc s)(p := Suc (pc s p)),
           sendStep := (if opSend r then (sendStep s)(p := sendStep s p + sps) else sendStep s),
           tail := (if opSend r then (tail s)(p := sendStep s p + sps) else tail s),
           recvStep := (if opRecv r then (recvStep s)(p := recvStep s p + sps) else recvStep s),
           head := (if opRecv r then (head s)(q := recvStep s p + sps) else head s)\<rparr>)"

definition active :: "'a ringcfg \<Rightarrow> 'a rnet \<Rightarrow> nat \<Rightarrow> bool" where
  "active cfg s p \<longleftrightarrow> p < nRanks cfg \<and> pc s p < length (prog cfg p)"

inductive ring_step :: "'a ringcfg \<Rightarrow> 'a rnet \<Rightarrow> 'a rnet \<Rightarrow> bool" for cfg where
  copy: "\<lbrakk>active cfg s p; \<not> copied s p;
          opRecv (curOp cfg s p) \<longrightarrow> recvReady cfg s p;
          opSend (curOp cfg s p) \<longrightarrow> sendReady cfg s p\<rbrakk>
         \<Longrightarrow> ring_step cfg s (copySlice cfg s p)"
| post: "\<lbrakk>active cfg s p; copied s p\<rbrakk> \<Longrightarrow> ring_step cfg s (postSlice cfg s p)"

definition ring_init :: "(nat \<Rightarrow> int \<Rightarrow> 'a) \<Rightarrow> (nat \<Rightarrow> int \<Rightarrow> 'a) \<Rightarrow> 'a rnet" where
  "ring_init m f = \<lparr>pc = (\<lambda>_. 0), copied = (\<lambda>_. False), umem = m, fifo = f,
                    sendStep = (\<lambda>_. 0), recvStep = (\<lambda>_. 0), tail = (\<lambda>_. 0), head = (\<lambda>_. 0)\<rparr>"

definition ring_done :: "'a ringcfg \<Rightarrow> 'a rnet \<Rightarrow> bool" where
  "ring_done cfg s \<longleftrightarrow> (\<forall>p < nRanks cfg. pc s p = length (prog cfg p))"

inductive_cases ring_stepE: "ring_step cfg s s'"

section \<open>Rings and memory\<close>

lemma prv_less [simp]: "p < n \<Longrightarrow> prv n p < n"
  by (simp add: prv_def)

lemma nxt_less [simp]: "p < n \<Longrightarrow> nxt n p < n"
  by (simp add: nxt_def)

lemma prv_nxt [simp]: "p < n \<Longrightarrow> prv n (nxt n p) = p"
  by (cases "p + 1 = n") (auto simp: prv_def nxt_def)

lemma nxt_prv [simp]: "p < n \<Longrightarrow> nxt n (prv n p) = p"
  by (cases p) (auto simp: prv_def nxt_def)

lemma write_at_outside: "x < a \<or> a + int (length xs) \<le> x \<Longrightarrow> write_at m a xs x = m x"
  by (auto simp: write_at_def)

lemma read_write_at [simp]: "i < length xs \<Longrightarrow> read_at (write_at m a xs) a i = xs ! i"
  by (simp add: read_at_def write_at_def)

lemma length_reduceCopy [simp]: "length (reduceCopy rop pre post n srcs) = n"
  by (simp add: reduceCopy_def)

lemma reduceCopy_cong:
  assumes "list_all2 (\<lambda>f g. \<forall>i < n. f i = g i) srcs srcs'"
  shows "reduceCopy rop pre post n srcs = reduceCopy rop pre post n srcs'"
proof -
  have "map (\<lambda>s. s i) srcs = map (\<lambda>s. s i) srcs'" if "i < n" for i
    using assms that by (induction rule: list_all2_induct) simp_all
  then show ?thesis by (simp add: reduceCopy_def)
qed

section \<open>What a ring algorithm provides\<close>

text \<open>Number of slices that send (receive) before slice \<open>k\<close> of a position.\<close>

definition sends :: "'a ringcfg \<Rightarrow> nat \<Rightarrow> nat \<Rightarrow> nat" where
  "sends cfg p k = length (filter opSend (take k (prog cfg p)))"

definition recvs :: "'a ringcfg \<Rightarrow> nat \<Rightarrow> nat \<Rightarrow> nat" where
  "recvs cfg p k = length (filter opRecv (take k (prog cfg p)))"

lemma sends_0 [simp]: "sends cfg p 0 = 0" and recvs_0 [simp]: "recvs cfg p 0 = 0"
  by (simp_all add: sends_def recvs_def)

lemma sends_Suc: "k < length (prog cfg p) \<Longrightarrow> sends cfg p (Suc k) = sends cfg p k + of_bool (opSend (prog cfg p ! k))"
  by (simp add: sends_def take_Suc_conv_app_nth)

lemma recvs_Suc: "k < length (prog cfg p) \<Longrightarrow> recvs cfg p (Suc k) = recvs cfg p k + of_bool (opRecv (prog cfg p ! k))"
  by (simp add: recvs_def take_Suc_conv_app_nth)

lemma count_take_mono: "j \<le> k \<Longrightarrow> length (filter P (take j xs)) \<le> length (filter P (take k xs))"
proof -
  assume "j \<le> k"
  then have "take k xs = take j xs @ take (k - j) (drop j xs)" by (metis le_add_diff_inverse take_add)
  then show ?thesis by simp
qed

lemma sends_mono: "j \<le> k \<Longrightarrow> sends cfg p j \<le> sends cfg p k"
  by (simp add: sends_def count_take_mono)

lemma recvs_mono: "j \<le> k \<Longrightarrow> recvs cfg p j \<le> recvs cfg p k"
  by (simp add: recvs_def count_take_mono)

text \<open>The sources of a slice, given the initial memory and the received message.\<close>

definition slice_srcs :: "(int \<Rightarrow> 'a) \<Rightarrow> slice_op \<Rightarrow> 'a list \<Rightarrow> (nat \<Rightarrow> 'a) list" where
  "slice_srcs m r msg = (case opSrc r of Some a \<Rightarrow> [read_at m a] | None \<Rightarrow> []) @ (if opRecv r then [(!) msg] else [])"

definition slice_value :: "'a redop \<Rightarrow> (int \<Rightarrow> 'a) \<Rightarrow> slice_op \<Rightarrow> 'a list \<Rightarrow> 'a list" where
  "slice_value rop m r msg = reduceCopy rop (opPre r) (opPost r) (opSize r) (slice_srcs m r msg)"

definition disjoint_regions :: "int \<Rightarrow> nat \<Rightarrow> int \<Rightarrow> nat \<Rightarrow> bool" where
  "disjoint_regions a l b k \<longleftrightarrow> a + int l \<le> b \<or> b + int k \<le> a \<or> l = 0 \<or> k = 0"

locale ring_run =
  fixes cfg :: "'a ringcfg" and m0 f0 :: "nat \<Rightarrow> int \<Rightarrow> 'a"
    and val :: "nat \<Rightarrow> nat \<Rightarrow> 'a list" and wt :: "nat \<Rightarrow> nat \<Rightarrow> nat" and cap :: nat
  assumes steps: "stepsPerSlice cfg * cap = NCCL_STEPS"
    and css: "0 \<le> connStepSize cfg"
    and fits: "p < nRanks cfg \<Longrightarrow> k < length (prog cfg p) \<Longrightarrow>
      int (opSize (prog cfg p ! k)) \<le> int (stepsPerSlice cfg) * connStepSize cfg"
    and wt_less: "p < nRanks cfg \<Longrightarrow> j < k \<Longrightarrow> k < length (prog cfg p) \<Longrightarrow> wt p j < wt p k"
    and source: "p < nRanks cfg \<Longrightarrow> k < length (prog cfg p) \<Longrightarrow> opRecv (prog cfg p ! k) \<Longrightarrow>
      \<exists>j < length (prog cfg (prv (nRanks cfg) p)). opSend (prog cfg (prv (nRanks cfg) p) ! j) \<and>
        sends cfg (prv (nRanks cfg) p) j = recvs cfg p k \<and> wt (prv (nRanks cfg) p) j < wt p k \<and>
        opSize (prog cfg (prv (nRanks cfg) p) ! j) = opSize (prog cfg p ! k) \<and>
        val p k = slice_value (redOp cfg) (m0 p) (prog cfg p ! k) (val (prv (nRanks cfg) p) j)"
    and local: "p < nRanks cfg \<Longrightarrow> k < length (prog cfg p) \<Longrightarrow> \<not> opRecv (prog cfg p ! k) \<Longrightarrow>
        val p k = slice_value (redOp cfg) (m0 p) (prog cfg p ! k) []"
    and room: "p < nRanks cfg \<Longrightarrow> k < length (prog cfg p) \<Longrightarrow> opSend (prog cfg p ! k) \<Longrightarrow>
      cap \<le> sends cfg p k \<Longrightarrow>
      \<exists>j < length (prog cfg (nxt (nRanks cfg) p)). opRecv (prog cfg (nxt (nRanks cfg) p) ! j) \<and>
        recvs cfg (nxt (nRanks cfg) p) j = sends cfg p k - cap \<and> wt (nxt (nRanks cfg) p) j < wt p k"
    and no_clobber: "p < nRanks cfg \<Longrightarrow> j < k \<Longrightarrow> k < length (prog cfg p) \<Longrightarrow>
      opDst (prog cfg p ! j) = Some a \<Longrightarrow> opSrc (prog cfg p ! k) = Some b \<Longrightarrow>
      disjoint_regions a (opSize (prog cfg p ! j)) b (opSize (prog cfg p ! k))"
begin

abbreviation N :: nat where "N \<equiv> nRanks cfg"
abbreviation sps :: nat where "sps \<equiv> stepsPerSlice cfg"
abbreviation plen :: "nat \<Rightarrow> nat" where "plen p \<equiv> length (prog cfg p)"

definition progress :: "'a rnet \<Rightarrow> nat \<Rightarrow> nat" where
  "progress s p = pc s p + of_bool (copied s p)"

primrec mem_after :: "nat \<Rightarrow> nat \<Rightarrow> int \<Rightarrow> 'a" where
  "mem_after p 0 = m0 p"
| "mem_after p (Suc k) = (case opDst (prog cfg p ! k) of
      Some a \<Rightarrow> write_at (mem_after p k) a (val p k) | None \<Rightarrow> mem_after p k)"

definition inv_pc :: "'a rnet \<Rightarrow> bool" where
  "inv_pc s \<longleftrightarrow> (\<forall>p < N. progress s p \<le> plen p)"

definition inv_steps :: "'a rnet \<Rightarrow> bool" where
  "inv_steps s \<longleftrightarrow> (\<forall>p < N. sendStep s p = sps * sends cfg p (pc s p) \<and> tail s p = sps * sends cfg p (pc s p) \<and>
     recvStep s p = sps * recvs cfg p (pc s p) \<and> head s p = sps * recvs cfg (nxt N p) (pc s (nxt N p)))"

definition inv_flow :: "'a rnet \<Rightarrow> bool" where
  "inv_flow s \<longleftrightarrow> (\<forall>p < N. sends cfg p (progress s p) \<le> recvs cfg (nxt N p) (pc s (nxt N p)) + cap \<and>
     recvs cfg p (progress s p) \<le> sends cfg (prv N p) (pc s (prv N p)))"

definition inv_mem :: "'a rnet \<Rightarrow> bool" where
  "inv_mem s \<longleftrightarrow> (\<forall>p < N. umem s p = mem_after p (progress s p))"

definition inv_fifo :: "'a rnet \<Rightarrow> bool" where
  "inv_fifo s \<longleftrightarrow> (\<forall>p < N. \<forall>j < progress s p. opSend (prog cfg p ! j) \<longrightarrow>
     recvs cfg (nxt N p) (pc s (nxt N p)) \<le> sends cfg p j \<longrightarrow>
     (\<forall>i < opSize (prog cfg p ! j). read_at (fifo s p) (slotAddr cfg (sps * sends cfg p j)) i = val p j ! i))"

definition inv :: "'a rnet \<Rightarrow> bool" where
  "inv s \<longleftrightarrow> inv_pc s \<and> inv_steps s \<and> inv_flow s \<and> inv_mem s \<and> inv_fifo s"

lemma sps_pos: "0 < sps" and cap_pos: "0 < cap"
  using steps by (auto simp: NCCL_STEPS_def intro: ccontr)

lemma length_val: "p < N \<Longrightarrow> k < plen p \<Longrightarrow> length (val p k) = opSize (prog cfg p ! k)"
  using source [of p k] local [of p k] by (cases "opRecv (prog cfg p ! k)") (auto simp: slice_value_def)

lemma mem_after_source:
  assumes "p < N" "k < plen p" "opSrc (prog cfg p ! k) = Some b" "i < opSize (prog cfg p ! k)" "j \<le> k"
  shows "read_at (mem_after p j) b i = read_at (m0 p) b i"
  using assms(5)
proof (induction j)
  case (Suc j)
  show ?case
  proof (cases "opDst (prog cfg p ! j)")
    case (Some a)
    have "disjoint_regions a (opSize (prog cfg p ! j)) b (opSize (prog cfg p ! k))"
      using no_clobber [of p j k a b] assms Suc.prems Some by simp
    moreover have "length (val p j) = opSize (prog cfg p ! j)"
      using assms Suc.prems by (intro length_val) simp_all
    ultimately have "read_at (write_at (mem_after p j) a (val p j)) b i = read_at (mem_after p j) b i"
      using assms(4) unfolding read_at_def disjoint_regions_def by (intro write_at_outside) auto
    then show ?thesis using Suc Some by simp
  qed (use Suc in simp)
qed simp

lemma slotAddr_eq: "slotAddr cfg (sps * i) = int (i mod cap) * (int sps * connStepSize cfg)"
  unfolding slotAddr_def by (simp add: mult_mod_right [symmetric] flip: steps)

lemma slots_disjoint:
  assumes "a < b" "b < a + cap" "int l \<le> int sps * connStepSize cfg" "int k \<le> int sps * connStepSize cfg"
  shows "disjoint_regions (slotAddr cfg (sps * a)) l (slotAddr cfg (sps * b)) k"
proof -
  let ?w = "int sps * connStepSize cfg"
  have w: "0 \<le> ?w" using css by simp
  have "a mod cap \<noteq> b mod cap"
  proof
    assume "a mod cap = b mod cap"
    then have "cap dvd b - a" using assms(1) by (metis less_imp_le_nat mod_eq_dvd_iff_nat)
    then show False using assms(1,2) by (auto dest: dvd_imp_le)
  qed
  then have "int (a mod cap) + 1 \<le> int (b mod cap) \<or> int (b mod cap) + 1 \<le> int (a mod cap)" by linarith
  then have "(int (a mod cap) + 1) * ?w \<le> int (b mod cap) * ?w \<or> (int (b mod cap) + 1) * ?w \<le> int (a mod cap) * ?w"
    using w by (auto intro: mult_right_mono)
  then show ?thesis
    using assms(3,4) unfolding disjoint_regions_def slotAddr_eq by (auto simp: distrib_right)
qed

end

section \<open>Every interleaving\<close>

definition writes_to :: "slice_op \<Rightarrow> int \<Rightarrow> bool" where
  "writes_to r x \<longleftrightarrow> (case opDst r of Some a \<Rightarrow> a \<le> x \<and> x < a + int (opSize r) | None \<Rightarrow> False)"

context ring_run
begin

lemma inv_init: "inv (ring_init m0 f0)"
  using cap_pos
  by (simp add: inv_def inv_pc_def inv_steps_def inv_flow_def inv_mem_def inv_fifo_def progress_def ring_init_def)

text \<open>The waits of the code in terms of slices.\<close>

lemma sendReady_iff:
  assumes "inv s" "p < N"
  shows "sendReady cfg s p \<longleftrightarrow> Suc (sends cfg p (pc s p)) \<le> recvs cfg (nxt N p) (pc s (nxt N p)) + cap"
proof -
  have "sendReady cfg s p \<longleftrightarrow> sps * Suc (sends cfg p (pc s p)) \<le> sps * (recvs cfg (nxt N p) (pc s (nxt N p)) + cap)"
    using assms by (simp add: sendReady_def inv_def inv_steps_def steps [symmetric] distrib_left not_less add.commute)
  then show ?thesis using sps_pos by (simp del: mult_Suc_right)
qed

lemma recvReady_iff:
  assumes "inv s" "p < N"
  shows "recvReady cfg s p \<longleftrightarrow> Suc (recvs cfg p (pc s p)) \<le> sends cfg (prv N p) (pc s (prv N p))"
proof -
  have "recvReady cfg s p \<longleftrightarrow> sps * Suc (recvs cfg p (pc s p)) \<le> sps * sends cfg (prv N p) (pc s (prv N p))"
    using assms by (simp add: recvReady_def inv_def inv_steps_def not_less add.commute)
  then show ?thesis using sps_pos by (simp del: mult_Suc_right)
qed

lemma sends_less_imp: "sends cfg p j < sends cfg p k \<Longrightarrow> j < k"
  using sends_mono [of k j cfg p] by (meson leD not_le_imp_less)

lemma recvs_less_imp: "recvs cfg p j < recvs cfg p k \<Longrightarrow> j < k"
  using recvs_mono [of k j cfg p] by (meson leD not_le_imp_less)

lemma inv_fifoD:
  "inv s \<Longrightarrow> p < N \<Longrightarrow> j < progress s p \<Longrightarrow> opSend (prog cfg p ! j) \<Longrightarrow>
   recvs cfg (nxt N p) (pc s (nxt N p)) \<le> sends cfg p j \<Longrightarrow> i < opSize (prog cfg p ! j) \<Longrightarrow>
   read_at (fifo s p) (slotAddr cfg (sps * sends cfg p j)) i = val p j ! i"
  by (simp add: inv_def inv_fifo_def)

lemma sliceData_val:
  assumes "inv s" "p < N" "pc s p < plen p" "\<not> copied s p" "opRecv (curOp cfg s p) \<longrightarrow> recvReady cfg s p"
  shows "sliceData cfg s p = val p (pc s p)"
proof -
  let ?k = "pc s p" let ?r = "prog cfg p ! ?k" let ?q = "prv N p"
  have umem: "read_at (umem s p) b i = read_at (m0 p) b i" if "opSrc ?r = Some b" "i < opSize ?r" for b i
    using assms that mem_after_source [of p ?k b i ?k] by (simp add: inv_def inv_mem_def progress_def)
  have sd: "sliceData cfg s p = reduceCopy (redOp cfg) (opPre ?r) (opPost ?r) (opSize ?r)
     ((case opSrc ?r of Some a \<Rightarrow> [read_at (umem s p) a] | None \<Rightarrow> []) @
      (if opRecv ?r then [read_at (fifo s ?q) (slotAddr cfg (recvStep s p))] else []))"
    by (simp add: sliceData_def curOp_def Let_def)
  show ?thesis
  proof (cases "opRecv ?r")
    case True
    obtain j where j: "j < plen ?q" "opSend (prog cfg ?q ! j)" "sends cfg ?q j = recvs cfg p ?k"
      "opSize (prog cfg ?q ! j) = opSize ?r" "val p ?k = slice_value (redOp cfg) (m0 p) ?r (val ?q j)"
      using source [OF assms(2,3) True] by blast
    have "sends cfg ?q j < sends cfg ?q (pc s ?q)"
      using assms True recvReady_iff [OF assms(1,2)] j(3) by (simp add: curOp_def)
    then have "j < progress s ?q" by (auto simp: progress_def dest: sends_less_imp)
    moreover have "?q < N" "nxt N ?q = p" using assms(2) by simp_all
    ultimately have msg: "\<forall>i < opSize ?r. read_at (fifo s ?q) (slotAddr cfg (sps * recvs cfg p ?k)) i = val ?q j ! i"
      using inv_fifoD [of s ?q j] assms(1) j by simp
    have "recvStep s p = sps * recvs cfg p ?k" using assms(1,2) by (simp add: inv_def inv_steps_def)
    then show ?thesis unfolding sd j(5) slice_value_def slice_srcs_def
      using True umem msg by (intro reduceCopy_cong list_all2_appendI) (auto split: option.split)
  next
    case False
    then show ?thesis unfolding sd local [OF assms(2,3) False] slice_value_def slice_srcs_def
      using umem by (intro reduceCopy_cong list_all2_appendI) (auto split: option.split)
  qed
qed

lemma inv_copy:
  assumes "inv s" "active cfg s p" "\<not> copied s p"
    and recv: "opRecv (curOp cfg s p) \<longrightarrow> recvReady cfg s p" and send: "opSend (curOp cfg s p) \<longrightarrow> sendReady cfg s p"
  shows "inv (copySlice cfg s p)"
proof -
  let ?s = "copySlice cfg s p" let ?k = "pc s p" let ?r = "prog cfg p ! ?k"
  have p: "p < N" "?k < plen p" using assms(2) by (simp_all add: active_def)
  have d: "sliceData cfg s p = val p ?k" using assms p by (intro sliceData_val) simp_all
  have same: "pc ?s = pc s" "sendStep ?s = sendStep s" "recvStep ?s = recvStep s" "tail ?s = tail s" "head ?s = head s"
    by (simp_all add: copySlice_def Let_def)
  have prog: "progress ?s q = (if q = p then Suc ?k else progress s q)" for q
    using assms(3) by (simp add: progress_def copySlice_def Let_def)
  have kp: "progress s p = ?k" using assms(3) by (simp add: progress_def)
  have um: "umem ?s q = (if q = p then mem_after p (Suc ?k) else umem s q)" for q
    using assms(1) p(1) kp by (auto simp: copySlice_def Let_def curOp_def d inv_def inv_mem_def split: option.split)
  have ff: "fifo ?s q = (if q = p \<and> opSend ?r then write_at (fifo s p) (slotAddr cfg (sps * sends cfg p ?k)) (val p ?k) else fifo s q)" for q
    using assms(1) p(1) by (auto simp: copySlice_def Let_def curOp_def d inv_def inv_steps_def)
  have "inv_pc ?s" using assms(1) p prog by (simp add: inv_def inv_pc_def)
  moreover have "inv_steps ?s" using assms(1) by (simp add: inv_def inv_steps_def same)
  moreover have "inv_flow ?s"
    using assms(1) p send recv sendReady_iff [OF assms(1) p(1)] recvReady_iff [OF assms(1) p(1)] kp
    by (auto simp: inv_def inv_flow_def same prog sends_Suc recvs_Suc curOp_def)
  moreover have "inv_mem ?s"
    using assms(1) by (simp add: inv_def inv_mem_def prog um)
  moreover have "inv_fifo ?s"
    unfolding inv_fifo_def same prog
  proof (intro allI impI)
    fix q j i
    assume q: "q < N" "j < (if q = p then Suc ?k else progress s q)" "opSend (prog cfg q ! j)"
      "recvs cfg (nxt N q) (pc s (nxt N q)) \<le> sends cfg q j" "i < opSize (prog cfg q ! j)"
    show "read_at (fifo ?s q) (slotAddr cfg (sps * sends cfg q j)) i = val q j ! i"
    proof (cases "q = p \<and> opSend ?r")
      case False
      then have "j < progress s q" using q kp by (auto simp: less_Suc_eq split: if_splits)
      then show ?thesis using False inv_fifoD [OF assms(1) q(1) _ q(3-5)] by (auto simp: ff)
    next
      case True
      show ?thesis
      proof (cases "j = ?k")
        case True
        then show ?thesis using \<open>q = p \<and> opSend ?r\<close> q(5) p length_val [OF p] by (simp add: ff)
      next
        case False
        then have j: "j < ?k" using q(2) True by simp
        have sk: "sends cfg p j < sends cfg p ?k"
          using j p(2) q(3) True sends_Suc [of j cfg p] sends_mono [of "Suc j" ?k cfg p] by simp
        have "disjoint_regions (slotAddr cfg (sps * sends cfg p j)) (opSize (prog cfg p ! j))
            (slotAddr cfg (sps * sends cfg p ?k)) (opSize ?r)"
        proof (rule slots_disjoint [OF sk])
          show "sends cfg p ?k < sends cfg p j + cap"
            using send True sendReady_iff [OF assms(1) p(1)] q(4) by (simp add: curOp_def)
        qed (use j p fits in simp_all)
        then have "read_at (fifo ?s q) (slotAddr cfg (sps * sends cfg q j)) i = read_at (fifo s q) (slotAddr cfg (sps * sends cfg q j)) i"
          using True q(5) length_val [OF p] unfolding ff read_at_def disjoint_regions_def
          by (auto intro!: write_at_outside)
        moreover have "j < progress s q" using j True kp by simp
        ultimately show ?thesis using inv_fifoD [OF assms(1) q(1) _ q(3-5)] by simp
      qed
    qed
  qed
  ultimately show ?thesis by (simp add: inv_def)
qed

lemma inv_post:
  assumes "inv s" "active cfg s p" "copied s p"
  shows "inv (postSlice cfg s p)"
proof -
  let ?s = "postSlice cfg s p" let ?k = "pc s p" let ?r = "prog cfg p ! ?k"
  have p: "p < N" "?k < plen p" using assms(2) by (simp_all add: active_def)
  have same: "umem ?s = umem s" "fifo ?s = fifo s" by (simp_all add: postSlice_def Let_def)
  have pc: "pc ?s q = (if q = p then Suc ?k else pc s q)" for q by (simp add: postSlice_def Let_def)
  have prog: "progress ?s q = progress s q" for q
    using assms(3) by (simp add: progress_def postSlice_def Let_def)
  have rm: "recvs cfg q (pc s q) \<le> recvs cfg q (pc ?s q)" and sm: "sends cfg q (pc s q) \<le> sends cfg q (pc ?s q)" for q
    by (auto simp: pc intro: recvs_mono sends_mono)
  have self: "prv N p = p \<Longrightarrow> nxt N p = p" using nxt_prv [OF p(1)] by simp
  have "inv_pc ?s" using assms(1) by (simp add: inv_def inv_pc_def prog)
  moreover have "inv_steps ?s"
    unfolding inv_steps_def
  proof (intro allI impI)
    fix q assume q: "q < N"
    have st: "sendStep s q = sps * sends cfg q (pc s q)" "tail s q = sps * sends cfg q (pc s q)"
      "recvStep s q = sps * recvs cfg q (pc s q)" "head s q = sps * recvs cfg (nxt N q) (pc s (nxt N q))"
      "recvStep s p = sps * recvs cfg p (pc s p)" "sendStep s p = sps * sends cfg p (pc s p)"
      using assms(1) q p(1) by (auto simp: inv_def inv_steps_def)
    have nq: "nxt N q = p \<longleftrightarrow> q = prv N p" using q p(1) by auto
    show "sendStep ?s q = sps * sends cfg q (pc ?s q) \<and> tail ?s q = sps * sends cfg q (pc ?s q) \<and>
      recvStep ?s q = sps * recvs cfg q (pc ?s q) \<and> head ?s q = sps * recvs cfg (nxt N q) (pc ?s (nxt N q))"
      unfolding pc nq using st p self
      by (auto simp: postSlice_def Let_def curOp_def sends_Suc recvs_Suc nq)
  qed
  moreover have "inv_flow ?s"
    unfolding inv_flow_def prog
  proof (intro allI impI)
    fix q assume "q < N"
    then have "sends cfg q (progress s q) \<le> recvs cfg (nxt N q) (pc s (nxt N q)) + cap"
      "recvs cfg q (progress s q) \<le> sends cfg (prv N q) (pc s (prv N q))"
      using assms(1) by (auto simp: inv_def inv_flow_def)
    then show "sends cfg q (progress s q) \<le> recvs cfg (nxt N q) (pc ?s (nxt N q)) + cap \<and>
      recvs cfg q (progress s q) \<le> sends cfg (prv N q) (pc ?s (prv N q))"
      using rm [of "nxt N q"] sm [of "prv N q"] by linarith
  qed
  moreover have "inv_mem ?s" using assms(1) by (simp add: inv_def inv_mem_def same prog)
  moreover have "inv_fifo ?s"
    unfolding inv_fifo_def prog same using inv_fifoD [OF assms(1)] rm by (meson order_trans)
  ultimately show ?thesis by (simp add: inv_def)
qed

lemma inv_step: "ring_step cfg s s' \<Longrightarrow> inv s \<Longrightarrow> inv s'"
  by (erule ring_stepE) (auto intro: inv_copy inv_post)

lemma inv_reachable: "(ring_step cfg)\<^sup>*\<^sup>* (ring_init m0 f0) s \<Longrightarrow> inv s"
  by (induction rule: rtranclp_induct) (auto intro: inv_init inv_step)

text \<open>Some rank can always move: the active one whose current slice comes first in the order.\<close>

lemma first_can_copy:
  assumes "inv s" "active cfg s p" "\<not> copied s p"
    and first: "\<And>q. active cfg s q \<Longrightarrow> wt p (pc s p) \<le> wt q (pc s q)"
  shows "\<exists>s'. ring_step cfg s s'"
proof -
  let ?k = "pc s p"
  have p: "p < N" "?k < plen p" using assms(2) by (simp_all add: active_def)
  have before: "j < pc s q" if "q < N" "j < plen q" "wt q j < wt p ?k" for q j
  proof (rule ccontr)
    assume "\<not> j < pc s q"
    then have j: "pc s q \<le> j" by simp
    then have "active cfg s q" using that by (simp add: active_def)
    then have "wt p ?k \<le> wt q (pc s q)" by (rule first)
    also have "\<dots> \<le> wt q j" using j that wt_less [of q "pc s q" j] by (cases "pc s q = j") auto
    finally show False using that(3) by simp
  qed
  have "recvReady cfg s p" if r: "opRecv (curOp cfg s p)"
  proof -
    obtain j where j: "j < plen (prv N p)" "opSend (prog cfg (prv N p) ! j)"
      "sends cfg (prv N p) j = recvs cfg p ?k" "wt (prv N p) j < wt p ?k"
      using source [OF p] r by (auto simp: curOp_def)
    then have "Suc j \<le> pc s (prv N p)" using before [of "prv N p" j] p(1) by simp
    then have "sends cfg (prv N p) (Suc j) \<le> sends cfg (prv N p) (pc s (prv N p))" by (rule sends_mono)
    then show ?thesis using j recvReady_iff [OF assms(1) p(1)] by (simp add: sends_Suc)
  qed
  moreover have "sendReady cfg s p" if r: "opSend (curOp cfg s p)"
  proof (cases "cap \<le> sends cfg p ?k")
    case True
    obtain j where j: "j < plen (nxt N p)" "opRecv (prog cfg (nxt N p) ! j)"
      "recvs cfg (nxt N p) j = sends cfg p ?k - cap" "wt (nxt N p) j < wt p ?k"
      using room [OF p _ True] r by (auto simp: curOp_def)
    then have "Suc j \<le> pc s (nxt N p)" using before [of "nxt N p" j] p(1) by simp
    then have "recvs cfg (nxt N p) (Suc j) \<le> recvs cfg (nxt N p) (pc s (nxt N p))" by (rule recvs_mono)
    then show ?thesis using j True sendReady_iff [OF assms(1) p(1)] by (simp add: recvs_Suc)
  qed (use sendReady_iff [OF assms(1) p(1)] in simp)
  ultimately show ?thesis using ring_step.copy [OF assms(2,3)] by blast
qed

lemma no_deadlock:
  assumes "inv s" "\<not> ring_done cfg s"
  shows "\<exists>s'. ring_step cfg s s'"
proof -
  have "\<exists>p. active cfg s p"
  proof -
    obtain p where p: "p < N" "pc s p \<noteq> plen p" using assms(2) by (auto simp: ring_done_def)
    moreover have "progress s p \<le> plen p" using assms(1) p by (simp add: inv_def inv_pc_def)
    then have "pc s p \<le> plen p" by (simp add: progress_def)
    ultimately show ?thesis by (auto simp: active_def)
  qed
  then obtain p where p: "active cfg s p" "\<And>q. active cfg s q \<Longrightarrow> wt p (pc s p) \<le> wt q (pc s q)"
    using ex_has_least_nat [of "active cfg s" _ "\<lambda>p. wt p (pc s p)"] by blast
  show ?thesis
  proof (cases "copied s p")
    case True
    then show ?thesis using ring_step.post [OF p(1)] by blast
  next
    case False
    then show ?thesis using first_can_copy [OF assms(1) p(1)] p(2) by blast
  qed
qed

text \<open>Every step is one half of a slice, so executions are bounded.\<close>

definition work :: "'a rnet \<Rightarrow> nat" where
  "work s = (\<Sum>p < N. 2 * pc s p + of_bool (copied s p))"

lemma work_step: "ring_step cfg s s' \<Longrightarrow> work s' = Suc (work s)"
proof (erule ring_stepE)
  fix p assume p: "s' = copySlice cfg s p" "active cfg s p" "\<not> copied s p"
  then have "work s' = (\<Sum>q < N. 2 * pc s q + of_bool (copied s q) + of_bool (q = p))"
    unfolding work_def by (intro sum.cong) (auto simp: copySlice_def Let_def)
  then show ?thesis using p by (simp add: sum.distrib work_def active_def sum_of_bool_eq)
next
  fix p assume p: "s' = postSlice cfg s p" "active cfg s p" "copied s p"
  then have "work s' = (\<Sum>q < N. 2 * pc s q + of_bool (copied s q) + of_bool (q = p))"
    unfolding work_def by (intro sum.cong) (auto simp: postSlice_def Let_def)
  then show ?thesis using p by (simp add: sum.distrib work_def active_def sum_of_bool_eq)
qed

lemma work_run: "(ring_step cfg ^^ k) (ring_init m0 f0) s \<Longrightarrow> work s = k"
proof (induction k arbitrary: s)
  case 0
  then show ?case by (auto simp: work_def ring_init_def)
next
  case (Suc k)
  then show ?case by (auto simp: work_step)
qed

lemma run_bounded:
  assumes "(ring_step cfg ^^ k) (ring_init m0 f0) s"
  shows "k \<le> (\<Sum>p < N. 2 * plen p)"
proof -
  have "inv s" using assms by (intro inv_reachable) (simp add: relpowp_imp_rtranclp)
  have "work s \<le> (\<Sum>p < N. 2 * plen p)"
    unfolding work_def
  proof (rule sum_mono)
    fix p assume "p \<in> {..<N}"
    then have "progress s p \<le> plen p" using \<open>inv s\<close> by (simp add: inv_def inv_pc_def)
    then show "2 * pc s p + of_bool (copied s p) \<le> 2 * plen p" by (simp add: progress_def)
  qed
  then show ?thesis using work_run [OF assms] by simp
qed

lemma run_final:
  assumes "(ring_step cfg)\<^sup>*\<^sup>* (ring_init m0 f0) s" "\<nexists>s'. ring_step cfg s s'"
  shows "ring_done cfg s" and "p < N \<Longrightarrow> umem s p = mem_after p (plen p)"
proof -
  have inv: "inv s" using assms(1) by (rule inv_reachable)
  show d: "ring_done cfg s" using no_deadlock [OF inv] assms(2) by blast
  show "umem s p = mem_after p (plen p)" if "p < N"
  proof -
    have "progress s p \<le> plen p" using inv that by (simp add: inv_def inv_pc_def)
    then have "progress s p = plen p" using d that by (simp add: progress_def ring_done_def)
    then show ?thesis using inv that by (simp add: inv_def inv_mem_def)
  qed
qed

lemma run_exists: "\<exists>s. (ring_step cfg)\<^sup>*\<^sup>* (ring_init m0 f0) s \<and> (\<nexists>s'. ring_step cfg s s')"
proof (rule ccontr)
  assume a: "\<not> ?thesis"
  have "\<exists>s. (ring_step cfg ^^ k) (ring_init m0 f0) s" for k
  proof (induction k)
    case (Suc k)
    then obtain s where s: "(ring_step cfg ^^ k) (ring_init m0 f0) s" by blast
    then have "(ring_step cfg)\<^sup>*\<^sup>* (ring_init m0 f0) s" by (rule relpowp_imp_rtranclp)
    then obtain s' where "ring_step cfg s s'" using a by blast
    then show ?case using s by auto
  qed simp
  then obtain s where "(ring_step cfg ^^ Suc (\<Sum>p < N. 2 * plen p)) (ring_init m0 f0) s" by blast
  then show False using run_bounded by fastforce
qed

lemma mem_after_unwritten:
  "p < N \<Longrightarrow> k \<le> plen p \<Longrightarrow> (\<And>j. j < k \<Longrightarrow> \<not> writes_to (prog cfg p ! j) x) \<Longrightarrow> mem_after p k x = m0 p x"
proof (induction k)
  case (Suc k)
  have "mem_after p k x = m0 p x" using Suc by simp
  moreover have "\<not> writes_to (prog cfg p ! k) x" using Suc.prems by simp
  moreover have "length (val p k) = opSize (prog cfg p ! k)" using Suc.prems by (simp add: length_val)
  ultimately show ?case by (auto simp: writes_to_def write_at_def split: option.split)
qed simp

lemma mem_after_written:
  assumes "p < N" "k \<le> plen p" "i < k" "opDst (prog cfg p ! i) = Some a" "a \<le> x" "x < a + int (opSize (prog cfg p ! i))"
    and "\<And>j. i < j \<Longrightarrow> j < k \<Longrightarrow> \<not> writes_to (prog cfg p ! j) x"
  shows "mem_after p k x = val p i ! nat (x - a)"
  using assms
proof (induction k)
  case (Suc k)
  have l: "length (val p k) = opSize (prog cfg p ! k)" using Suc.prems by (simp add: length_val)
  show ?case
  proof (cases "i = k")
    case True
    then show ?thesis using Suc.prems l by (simp add: write_at_def)
  next
    case False
    then have "mem_after p k x = val p i ! nat (x - a)" using Suc by simp
    moreover have "\<not> writes_to (prog cfg p ! k) x" using Suc.prems False by simp
    ultimately show ?thesis using l by (auto simp: writes_to_def write_at_def split: option.split)
  qed
qed simp

end

end
