(* ===== verification/Lagged_Ring.thy ===== *)
theory Lagged_Ring
  imports Ring_Net
begin

text \<open>
  The shape shared by the AllReduce, AllGather and ReduceScatter rings: a program is \<open>L\<close> blocks of
  \<open>P\<close> primitives with \<open>spc\<close> slices each; all primitives of a block but the last send, all but the
  first receive, so every slice receives what the previous rank sent one primitive earlier.  The
  contract of such a program is the locale \<open>lagged_ring\<close>, which is shown to satisfy \<open>ring_run\<close>.
\<close>

lemma div_mod_block:
  fixes k B :: nat
  assumes "0 < B"
  shows "Suc k mod B = (if Suc (k mod B) = B then 0 else Suc (k mod B))"
    and "Suc k div B = (if Suc (k mod B) = B then Suc (k div B) else k div B)"
  using assms by (auto simp: mod_Suc div_Suc)

text \<open>
  Arithmetic of the blocks: a block has \<open>B = E + s\<close> slices, the first \<open>E\<close> send and the last \<open>E\<close>
  receive.
\<close>

lemma block_sends_Suc:
  fixes k B E s :: nat
  assumes "B = E + s" "0 < s"
  shows "k div B * E + min (k mod B) E + of_bool (k mod B < E) = Suc k div B * E + min (Suc k mod B) E"
proof -
  have B: "0 < B" using assms by simp
  show ?thesis unfolding div_mod_block [OF B] using assms by (auto simp: min_def)
qed

lemma block_recvs_Suc:
  fixes k B E s :: nat
  assumes "B = E + s" "0 < s" "0 < E"
  shows "k div B * E + (k mod B - s) + of_bool (s \<le> k mod B) = Suc k div B * E + (Suc k mod B - s)"
proof -
  have B: "0 < B" using assms by simp
  show ?thesis
  proof (cases "Suc (k mod B) = B")
    case True
    then show ?thesis unfolding div_mod_block [OF B] using assms by (simp add: Suc_diff_le)
  next
    case False
    then show ?thesis unfolding div_mod_block [OF B] using assms by (auto simp: Suc_diff_le)
  qed
qed

lemma block_lag_index:
  fixes k B s :: nat
  assumes "s \<le> k mod B" "0 < B" "0 < s"
  shows "(k - s) div B = k div B" "(k - s) mod B = k mod B - s" "k - s < k"
proof -
  have lt: "k mod B - s < B" using assms(2) by (simp add: less_imp_diff_less)
  have eq: "k - s = k div B * B + (k mod B - s)"
    using assms(1) div_mult_mod_eq [of k B] by linarith
  show "(k - s) div B = k div B" "(k - s) mod B = k mod B - s"
    unfolding eq using lt by simp_all
  show "k - s < k" using assms mod_less_eq_dividend [of k B] by linarith
qed

lemma block_room_less:
  fixes k B E s c m kb km mb mm :: nat
  assumes "B = E + s" "s < c" "k = kb * B + km" "m + c = kb * E + km" "m = mb * E + mm" "mm < E" "km < E"
  shows "mb * B + (s + mm) < k"
proof (cases "mb = kb")
  case True
  then have "s + mm < km" using assms(2,4,5) by simp
  then show ?thesis using assms(3) True by simp
next
  case False
  have "mb * E < kb * E + E" using assms by linarith
  then have "mb * E < (kb + 1) * E" by (simp only: distrib_right mult_1)
  then have "mb < kb + 1" by (simp only: mult_less_cancel2)
  then have "(mb + 1) * B \<le> kb * B" using False by (intro mult_le_mono1) simp
  then have "mb * B + B \<le> kb * B" by (simp only: distrib_right mult_1)
  then show ?thesis using assms(1,3,6) by linarith
qed

lemma div_mod_pair: "r < B \<Longrightarrow> (q * B + r) div B = q \<and> (q * B + r) mod B = r" for q r B :: nat
  by simp

lemma block_room_index:
  fixes k B E s c :: nat
  assumes "B = E + s" "0 < s" "s < c" "0 < E" "k mod B < E" "c \<le> k div B * E + k mod B"
  shows "\<exists>j < k. s \<le> j mod B \<and> j div B * E + (j mod B - s) = k div B * E + k mod B - c"
proof -
  obtain m where m: "m = k div B * E + k mod B - c" by simp
  have mm: "m mod E < E" using assms(4) by simp
  have "s + m mod E < B" unfolding assms(1) using mm by linarith
  note j = div_mod_pair [OF this, of "m div E"]
  have "m + c = k div B * E + k mod B" unfolding m by (rule le_add_diff_inverse2 [OF assms(6)])
  then have less: "m div E * B + (s + m mod E) < k"
    by (rule block_room_less [OF assms(1,3) div_mult_mod_eq [symmetric] _ div_mult_mod_eq [symmetric] mm assms(5)])
  have eq: "m div E * E + (s + m mod E - s) = m" by (simp only: diff_add_inverse div_mult_mod_eq)
  show ?thesis
  proof (rule exI [of _ "m div E * B + (s + m mod E)"], intro conjI)
    show "m div E * B + (s + m mod E) < k" by (rule less)
    show "s \<le> (m div E * B + (s + m mod E)) mod B" unfolding j [THEN conjunct2] by (rule le_add1)
    show "(m div E * B + (s + m mod E)) div B * E + ((m div E * B + (s + m mod E)) mod B - s) = k div B * E + k mod B - c"
      unfolding j [THEN conjunct1] j [THEN conjunct2] eq by (rule m)
  qed
qed

locale lagged_ring =
  fixes cfg :: "'a ringcfg" and m0 :: "nat \<Rightarrow> int \<Rightarrow> 'a"
    and val :: "nat \<Rightarrow> nat \<Rightarrow> 'a list" and cap spc P L :: nat
  assumes steps: "stepsPerSlice cfg * cap = NCCL_STEPS" and spc: "0 < spc" "spc < cap" and P: "2 \<le> P"
    and css: "0 \<le> connStepSize cfg"
    and len: "p < nRanks cfg \<Longrightarrow> length (prog cfg p) = L * (P * spc)"
    and fits: "p < nRanks cfg \<Longrightarrow> k < L * (P * spc) \<Longrightarrow>
      int (opSize (prog cfg p ! k)) \<le> int (stepsPerSlice cfg) * connStepSize cfg"
    and send_iff: "p < nRanks cfg \<Longrightarrow> k < L * (P * spc) \<Longrightarrow>
      opSend (prog cfg p ! k) \<longleftrightarrow> k mod (P * spc) < (P - 1) * spc"
    and recv_iff: "p < nRanks cfg \<Longrightarrow> k < L * (P * spc) \<Longrightarrow>
      opRecv (prog cfg p ! k) \<longleftrightarrow> spc \<le> k mod (P * spc)"
    and first: "p < nRanks cfg \<Longrightarrow> k < L * (P * spc) \<Longrightarrow> k mod (P * spc) < spc \<Longrightarrow>
      val p k = slice_value (redOp cfg) (m0 p) (prog cfg p ! k) []"
    and later: "p < nRanks cfg \<Longrightarrow> k < L * (P * spc) \<Longrightarrow> spc \<le> k mod (P * spc) \<Longrightarrow>
      opSize (prog cfg (prv (nRanks cfg) p) ! (k - spc)) = opSize (prog cfg p ! k) \<and>
      val p k = slice_value (redOp cfg) (m0 p) (prog cfg p ! k) (val (prv (nRanks cfg) p) (k - spc))"
    and no_clobber: "p < nRanks cfg \<Longrightarrow> j < k \<Longrightarrow> k < L * (P * spc) \<Longrightarrow>
      opDst (prog cfg p ! j) = Some a \<Longrightarrow> opSrc (prog cfg p ! k) = Some b \<Longrightarrow>
      disjoint_regions a (opSize (prog cfg p ! j)) b (opSize (prog cfg p ! k))"
begin

abbreviation B :: nat where "B \<equiv> P * spc"
abbreviation E :: nat where "E \<equiv> (P - 1) * spc"

lemma B_eq: "B = E + spc"
proof -
  obtain P' where "P = Suc P'" using P by (cases P) auto
  then show ?thesis by simp
qed

lemma E_pos: "0 < E" using P spc by simp

lemma B_pos: "0 < B" using B_eq E_pos by simp

lemma sends_eq: "p < nRanks cfg \<Longrightarrow> k \<le> L * B \<Longrightarrow> sends cfg p k = k div B * E + min (k mod B) E"
proof (induction k)
  case (Suc k)
  then have "sends cfg p (Suc k) = k div B * E + min (k mod B) E + of_bool (k mod B < E)"
    by (simp add: sends_Suc len send_iff)
  then show ?case by (simp only: block_sends_Suc [OF B_eq spc(1)])
qed simp

lemma recvs_eq: "p < nRanks cfg \<Longrightarrow> k \<le> L * B \<Longrightarrow> recvs cfg p k = k div B * E + (k mod B - spc)"
proof (induction k)
  case (Suc k)
  then have "recvs cfg p (Suc k) = k div B * E + (k mod B - spc) + of_bool (spc \<le> k mod B)"
    by (simp add: recvs_Suc len recv_iff)
  then show ?case by (simp only: block_recvs_Suc [OF B_eq spc(1) E_pos])
qed simp

lemma lag_source:
  assumes "p < nRanks cfg" "k < length (prog cfg p)" "opRecv (prog cfg p ! k)"
  defines "q \<equiv> prv (nRanks cfg) p"
  shows "\<exists>j < length (prog cfg q). opSend (prog cfg q ! j) \<and> sends cfg q j = recvs cfg p k \<and> j < k \<and>
    opSize (prog cfg q ! j) = opSize (prog cfg p ! k) \<and>
    val p k = slice_value (redOp cfg) (m0 p) (prog cfg p ! k) (val q j)"
proof -
  have k: "k < L * B" "spc \<le> k mod B" using assms len recv_iff by auto
  have q: "q < nRanks cfg" using assms(1) by (simp add: q_def)
  note lag = block_lag_index [OF k(2) B_pos spc(1)]
  have lt: "k - spc < L * B" using lag(3) k(1) by linarith
  have ql: "length (prog cfg q) = L * B" using q by (rule len)
  have "k mod B - spc < E" using mod_less_divisor [OF B_pos, of k] B_eq E_pos by linarith
  then have "opSend (prog cfg q ! (k - spc))" "sends cfg q (k - spc) = recvs cfg p k"
    using send_iff [OF q lt] sends_eq [OF q, of "k - spc"] recvs_eq [OF assms(1), of k] k lt lag(1,2) by simp_all
  then show ?thesis
    using later [OF assms(1) k, folded q_def] lag(3) lt ql by (intro exI [of _ "k - spc"]) simp
qed

lemma lag_room:
  assumes "p < nRanks cfg" "k < length (prog cfg p)" "opSend (prog cfg p ! k)" "cap \<le> sends cfg p k"
  defines "q \<equiv> nxt (nRanks cfg) p"
  shows "\<exists>j < length (prog cfg q). opRecv (prog cfg q ! j) \<and> recvs cfg q j = sends cfg p k - cap \<and> j < k"
proof -
  have k: "k < L * B" "k mod B < E" using assms len send_iff by auto
  have q: "q < nRanks cfg" using assms(1) by (simp add: q_def)
  have s: "sends cfg p k = k div B * E + k mod B" using sends_eq [OF assms(1), of k] k by simp
  obtain j where j: "j < k" "spc \<le> j mod B" "j div B * E + (j mod B - spc) = k div B * E + k mod B - cap"
    using block_room_index [OF B_eq spc E_pos k(2) assms(4) [unfolded s]] by blast
  have "opRecv (prog cfg q ! j)" "recvs cfg q j = sends cfg p k - cap"
    using recv_iff [OF q, of j] recvs_eq [OF q, of j] j k(1) s by simp_all
  then show ?thesis using j(1) k(1) len [OF q] by (intro exI [of _ j]) simp
qed

end

sublocale lagged_ring \<subseteq> run: ring_run cfg m0 f0 val "\<lambda>_ k. k" cap for f0
proof
  show "stepsPerSlice cfg * cap = NCCL_STEPS" by (rule steps)
  show "0 \<le> connStepSize cfg" by (rule css)
  fix p k assume pk: "p < nRanks cfg" "k < length (prog cfg p)"
  then have k: "k < L * B" by (simp add: len)
  show "int (opSize (prog cfg p ! k)) \<le> int (stepsPerSlice cfg) * connStepSize cfg"
    using pk(1) k by (rule fits)
  show "\<exists>j < length (prog cfg (prv (nRanks cfg) p)). opSend (prog cfg (prv (nRanks cfg) p) ! j) \<and>
      sends cfg (prv (nRanks cfg) p) j = recvs cfg p k \<and> j < k \<and>
      opSize (prog cfg (prv (nRanks cfg) p) ! j) = opSize (prog cfg p ! k) \<and>
      val p k = slice_value (redOp cfg) (m0 p) (prog cfg p ! k) (val (prv (nRanks cfg) p) j)"
    if "opRecv (prog cfg p ! k)" using lag_source [OF pk that] .
  show "val p k = slice_value (redOp cfg) (m0 p) (prog cfg p ! k) []" if "\<not> opRecv (prog cfg p ! k)"
    using that pk(1) k by (intro first) (simp_all add: recv_iff)
  show "\<exists>j < length (prog cfg (nxt (nRanks cfg) p)). opRecv (prog cfg (nxt (nRanks cfg) p) ! j) \<and>
      recvs cfg (nxt (nRanks cfg) p) j = sends cfg p k - cap \<and> j < k"
    if "opSend (prog cfg p ! k)" "cap \<le> sends cfg p k" using lag_room [OF pk that] .
next
  fix p j k a b
  assume a: "p < nRanks cfg" "j < k" "k < length (prog cfg p)" "opDst (prog cfg p ! j) = Some a" "opSrc (prog cfg p ! k) = Some b"
  then show "disjoint_regions a (opSize (prog cfg p ! j)) b (opSize (prog cfg p ! k))"
    using no_clobber len by simp
qed auto

end
