(* ===== verification/Ring_Programs.thy ===== *)
theory Ring_Programs
  imports Work_Part Lagged_Ring
begin

text \<open>
  The ring kernels for the Simple protocol: \<^verbatim>\<open>runRing\<close> of \<^verbatim>\<open>all_reduce.h\<close>, \<^verbatim>\<open>all_gather.h\<close>,
  \<^verbatim>\<open>reduce_scatter.h\<close>, \<^verbatim>\<open>broadcast.h\<close> and \<^verbatim>\<open>reduce.h\<close> under \<^verbatim>\<open>src/src/device\<close>, as the sequence of slices
  that a rank executes, and the ring order set up by \<^verbatim>\<open>setupChannel\<close> of \<^verbatim>\<open>src/src/init.cc\<close>.  The loop
  over the elements of a channel does not end when its increment is not positive, so a program is
  an option: \<open>None\<close> is a loop that runs forever.
\<close>

section \<open>Ring order\<close>

text \<open>Index of the last occurrence, as the loop over the ring finds it (0 when there is none).\<close>

definition ring_find :: "nat list \<Rightarrow> nat \<Rightarrow> nat" where
  "ring_find ringRanks r = foldl (\<lambda>ix i. if ringRanks ! i = r then i else ix) 0 [0..<length ringRanks]"

definition ring_index :: "nat list \<Rightarrow> nat \<Rightarrow> int" where
  "ring_index ringRanks rank =
     (let ixZero = ring_find ringRanks 0; ixRank = ring_find ringRanks rank
      in (int ixRank - int ixZero + int (length ringRanks)) smod int (length ringRanks))"

definition ring_userRanks :: "nat list \<Rightarrow> nat \<Rightarrow> nat list" where
  "ring_userRanks ringRanks rank =
     (let ixRank = ring_find ringRanks rank; nranks = length ringRanks
      in map (\<lambda>i. ringRanks ! ((i + ixRank) mod nranks)) [0..<nranks])"

section \<open>Loops over a channel\<close>

partial_function (option) chunk_loop :: "(int \<Rightarrow> 's list) \<Rightarrow> int \<Rightarrow> int \<Rightarrow> int \<Rightarrow> 's list option" where
  "chunk_loop body inc cnt off =
     (if off < cnt
      then Option.bind (chunk_loop body inc cnt (off + inc)) (\<lambda>rest. Some (body off @ rest))
      else Some [])"

section \<open>Kernels\<close>

definition modRanks :: "int \<Rightarrow> int \<Rightarrow> int" where
  "modRanks nranks r = r - (if r \<ge> nranks then nranks else 0)"

text \<open>
  One iteration of the AllReduce loop.  The source overwrites its chunk count when less than a whole
  iteration remains; that is the last iteration, so no other one sees the new value.
\<close>

definition allReduce_body :: "prims \<Rightarrow> int \<Rightarrow> int \<Rightarrow> int \<Rightarrow> int \<Rightarrow> int \<Rightarrow> int \<Rightarrow> int \<Rightarrow> slice_op list" where
  "allReduce_body pr nranks ringIx gridOffset channelCount loopCount chunkCount0 elemOffset =
     (let remCount = channelCount - elemOffset;
          chunkCount = (if remCount < loopCount
                        then alignUp (divUp_s remCount nranks) (16 sdiv eltBytes pr) else chunkCount0);
          offset = (\<lambda>chunk. gridOffset + elemOffset + chunk * chunkCount);
          nelem = (\<lambda>chunk. min chunkCount (remCount - chunk * chunkCount))
      in (let chunk = modRanks nranks (ringIx + nranks - 1)
          in directSend pr (offset chunk) (offset chunk) (nelem chunk)) @
         concat (map (\<lambda>j. let chunk = modRanks nranks (ringIx + nranks - j)
           in directRecvReduceDirectSend pr (offset chunk) (offset chunk) (nelem chunk)) [2..nranks - 1]) @
         (let chunk = ringIx + 0
          in directRecvReduceCopyDirectSend pr (offset chunk) (offset chunk) (nelem chunk) True) @
         concat (map (\<lambda>j. let chunk = modRanks nranks (ringIx + nranks - j)
           in directRecvCopyDirectSend pr (offset chunk) (offset chunk) (nelem chunk)) [1..nranks - 2]) @
         (let chunk = modRanks nranks (ringIx + 1)
          in directRecv pr (offset chunk) (nelem chunk)))"

definition runRing_AllReduce :: "prims \<Rightarrow> int \<Rightarrow> int \<Rightarrow> cbd_part \<Rightarrow> slice_op list option" where
  "runRing_AllReduce pr nranks ringIx part =
     (let gridOffset = partOffset part; channelCount = partCount part; loopCount = nranks * chunkCount part
      in chunk_loop (allReduce_body pr nranks ringIx gridOffset channelCount loopCount (chunkCount part))
           loopCount channelCount 0)"

text \<open>
  AllGather without network offload.  The ring order \<open>ringRanks\<close> starts with this rank; the input is
  in place when its address is that of this rank's block in the output.
\<close>

definition allGather_body :: "prims \<Rightarrow> int \<Rightarrow> (int \<Rightarrow> int) \<Rightarrow> cbd_part \<Rightarrow> int \<Rightarrow> slice_op list" where
  "allGather_body pr nranks ringRanks part elemOffset =
     (let nelem = min (chunkCount part) (partCount part - elemOffset);
          dataOffset = partOffset part + elemOffset;
          offset = (\<lambda>rankDest. dataOffset + rankDest * cbdCount part)
      in (let off = offset (ringRanks 0)
          in if userInput pr + dataOffset = userOutput pr + off
             then directSend pr dataOffset off nelem
             else directCopySend pr dataOffset off nelem) @
         concat (map (\<lambda>j. let off = offset (ringRanks (nranks - j))
           in directRecvCopyDirectSend pr off off nelem) [1..nranks - 2]) @
         (let off = offset (ringRanks 1) in directRecv pr off nelem))"

definition runRing_AllGather :: "prims \<Rightarrow> int \<Rightarrow> (int \<Rightarrow> int) \<Rightarrow> cbd_part \<Rightarrow> slice_op list option" where
  "runRing_AllGather pr nranks ringRanks part =
     chunk_loop (allGather_body pr nranks ringRanks part) (chunkCount part) (partCount part) 0"

definition reduceScatter_body :: "prims \<Rightarrow> int \<Rightarrow> (int \<Rightarrow> int) \<Rightarrow> cbd_part \<Rightarrow> int \<Rightarrow> slice_op list" where
  "reduceScatter_body pr nranks ringRanks part elemOffset =
     (let nelem = min (chunkCount part) (partCount part - elemOffset);
          dataOffset = partOffset part + elemOffset;
          offset = (\<lambda>rankDest. dataOffset + rankDest * cbdCount part)
      in prim_send pr (offset (ringRanks (nranks - 1))) nelem @
         concat (map (\<lambda>j. recvReduceSend pr (offset (ringRanks (nranks - j))) nelem) [2..nranks - 1]) @
         recvReduceCopy pr (offset (ringRanks 0)) dataOffset nelem True)"

definition runRing_ReduceScatter :: "prims \<Rightarrow> int \<Rightarrow> (int \<Rightarrow> int) \<Rightarrow> cbd_part \<Rightarrow> slice_op list option" where
  "runRing_ReduceScatter pr nranks ringRanks part =
     chunk_loop (reduceScatter_body pr nranks ringRanks part) (chunkCount part) (partCount part) 0"

text \<open>Broadcast without network offload; \<open>ringRanks 0\<close> is this rank and \<open>ringRanks 1\<close> the next one.\<close>

definition broadcast_body :: "prims \<Rightarrow> (int \<Rightarrow> int) \<Rightarrow> int \<Rightarrow> cbd_part \<Rightarrow> int \<Rightarrow> slice_op list" where
  "broadcast_body pr ringRanks rootRank part elemOffset =
     (let offset = partOffset part + elemOffset;
          nelem = min (chunkCount part) (partCount part - elemOffset)
      in if ringRanks 0 = rootRank then
           (if userInput pr = userOutput pr then directSend pr offset offset nelem
            else directCopySend pr offset offset nelem)
         else if ringRanks 1 = rootRank then directRecv pr offset nelem
         else directRecvCopyDirectSend pr offset offset nelem)"

definition runRing_Broadcast :: "prims \<Rightarrow> (int \<Rightarrow> int) \<Rightarrow> int \<Rightarrow> cbd_part \<Rightarrow> slice_op list option" where
  "runRing_Broadcast pr ringRanks rootRank part =
     chunk_loop (broadcast_body pr ringRanks rootRank part) (chunkCount part) (partCount part) 0"

definition reduce_body :: "prims \<Rightarrow> int \<Rightarrow> (int \<Rightarrow> int) \<Rightarrow> int \<Rightarrow> cbd_part \<Rightarrow> int \<Rightarrow> slice_op list" where
  "reduce_body pr nranks ringRanks rootRank part elemOffset =
     (let offset = partOffset part + elemOffset;
          nelem = min (chunkCount part) (partCount part - elemOffset)
      in if ringRanks (nranks - 1) = rootRank then prim_send pr offset nelem
         else if ringRanks 0 = rootRank then recvReduceCopy pr offset offset nelem True
         else recvReduceSend pr offset nelem)"

definition runRing_Reduce :: "prims \<Rightarrow> int \<Rightarrow> (int \<Rightarrow> int) \<Rightarrow> int \<Rightarrow> cbd_part \<Rightarrow> slice_op list option" where
  "runRing_Reduce pr nranks ringRanks rootRank part =
     chunk_loop (reduce_body pr nranks ringRanks rootRank part) (chunkCount part) (partCount part) 0"

section \<open>The loops end\<close>

definition n_iters :: "int \<Rightarrow> int \<Rightarrow> nat" where
  "n_iters inc cnt = nat (divUp_s cnt inc)"

lemma chunk_loop_eq_aux:
  assumes "0 < inc"
  shows "chunk_loop body inc cnt off =
    Some (concat (map (\<lambda>b. body (off + int b * inc)) [0..<nat ((cnt - off + inc - 1) div inc)]))"
proof (induction "nat (cnt - off)" arbitrary: off rule: less_induct)
  case less
  show ?case
  proof (cases "off < cnt")
    case True
    let ?m = "nat ((cnt - (off + inc) + inc - 1) div inc)"
    have "(cnt - off + inc - 1) div inc = (cnt - (off + inc) + inc - 1) div inc + 1"
      using assms div_add_self2 [of inc "cnt - (off + inc) + inc - 1"] by (simp add: algebra_simps)
    moreover have "0 \<le> (cnt - (off + inc) + inc - 1) div inc"
      using True assms by (simp add: pos_imp_zdiv_nonneg_iff)
    ultimately have m: "nat ((cnt - off + inc - 1) div inc) = Suc ?m" by simp
    have "chunk_loop body inc cnt (off + inc) =
      Some (concat (map (\<lambda>b. body (off + inc + int b * inc)) [0..<?m]))"
      using less [of "off + inc"] True assms by simp
    then have "chunk_loop body inc cnt off =
      Some (body off @ concat (map (\<lambda>b. body (off + inc + int b * inc)) [0..<?m]))"
      using True by (simp add: chunk_loop.simps [of body inc cnt off])
    also have "\<dots> = Some (concat (map (\<lambda>b. body (off + int b * inc)) [0..<Suc ?m]))"
      by (simp add: upt_conv_Cons map_Suc_upt [symmetric] comp_def distrib_right add.assoc del: upt_Suc)
    finally show ?thesis by (simp only: m)
  next
    case False
    have "(cnt - off + inc - 1) div inc < 1" using False assms int_div_less_iff [of inc "cnt - off + inc - 1" 1] by simp
    then show ?thesis using False by (simp add: chunk_loop.simps [of body inc cnt off])
  qed
qed

lemma chunk_loop_eq:
  assumes "0 < inc" "0 \<le> cnt"
  shows "chunk_loop body inc cnt 0 = Some (concat (map (\<lambda>b. body (int b * inc)) [0..<n_iters inc cnt]))"
  using chunk_loop_eq_aux [OF assms(1), of body cnt 0] assms by (simp add: n_iters_def divUp_s_eq)

section \<open>Programs as blocks\<close>

lemma length_concat_uniform:
  "(\<And>i. i < m \<Longrightarrow> length (f i) = s) \<Longrightarrow> length (concat (map f [0..<m])) = m * s"
  by (induction m) simp_all

lemma nth_concat_uniform:
  "(\<And>i. i < m \<Longrightarrow> length (f i) = s) \<Longrightarrow> k < m * s \<Longrightarrow>
   concat (map f [0..<m]) ! k = f (k div s) ! (k mod s)"
proof (induction m)
  case (Suc m)
  have l: "length (concat (map f [0..<m])) = m * s" using Suc.prems(1) by (intro length_concat_uniform) simp
  show ?case
  proof (cases "k < m * s")
    case True
    then show ?thesis using Suc l by (simp add: nth_append)
  next
    case False
    then have "k = m * s + (k - m * s)" "k - m * s < s" using Suc.prems(2) by simp_all
    then have "k div s = m" "k mod s = k - m * s" by (metis div_mod_pair)+
    then show ?thesis using False l by (simp add: nth_append)
  qed
qed simp

lemma upto_conv_upt: "[int a..int b - 1] = map int [a..<b]"
proof (induction b)
  case (Suc b)
  then show ?case
    by (cases "a \<le> b") (simp_all add: upto_rec2)
qed simp

text \<open>A program of \<open>L\<close> blocks with \<open>P\<close> primitives of \<open>s\<close> slices each.\<close>

definition blocks :: "nat \<Rightarrow> nat \<Rightarrow> (nat \<Rightarrow> nat \<Rightarrow> 'b list) \<Rightarrow> 'b list" where
  "blocks L P f = concat (map (\<lambda>b. concat (map (f b) [0..<P])) [0..<L])"

lemma length_blocks: "(\<And>b u. length (f b u) = s) \<Longrightarrow> length (blocks L P f) = L * (P * s)"
  unfolding blocks_def by (intro length_concat_uniform) simp

lemma nth_blocks:
  assumes "\<And>b u. length (f b u) = s" "k < L * (P * s)"
  shows "blocks L P f ! k = f (k div (P * s)) (k mod (P * s) div s) ! (k mod (P * s) mod s)"
proof -
  have inner: "length (concat (map (f b) [0..<P])) = P * s" for b
    using assms(1) by (intro length_concat_uniform) simp
  have "0 < P * s" using assms(2) by (cases "P * s = 0") auto
  then have lt: "k mod (P * s) < P * s" by simp
  have "blocks L P f ! k = concat (map (f (k div (P * s))) [0..<P]) ! (k mod (P * s))"
    unfolding blocks_def using inner assms(2) by (intro nth_concat_uniform)
  also have "\<dots> = f (k div (P * s)) (k mod (P * s) div s) ! (k mod (P * s) mod s)"
    using assms(1) lt by (intro nth_concat_uniform)
  finally show ?thesis .
qed

text \<open>Index arithmetic: slice \<open>t\<close> of primitive \<open>u\<close> of block \<open>b\<close>.\<close>

lemma block_index:
  fixes k P s :: nat
  assumes "0 < s" "k < L * (P * s)"
  shows "k div (P * s) < L" "k mod (P * s) div s < P" "k mod (P * s) mod s < s"
proof -
  have pos: "0 < P * s" using assms(2) by (cases "P * s = 0") auto
  show "k div (P * s) < L" using assms(2) by (simp add: less_mult_imp_div_less)
  have "k mod (P * s) < P * s" using pos by simp
  then show "k mod (P * s) div s < P" by (rule less_mult_imp_div_less)
  show "k mod (P * s) mod s < s" using assms(1) by simp
qed

section \<open>Elements, chunks and slices\<close>

text \<open>
  Iterations of length \<open>LC\<close> over \<open>cnt\<close> elements, the iteration at \<open>b\<close> divided into chunks of \<open>cc\<close>
  elements.  The elements of a chunk that exist:
\<close>

definition seg_start :: "int \<Rightarrow> int \<Rightarrow> nat \<Rightarrow> nat \<Rightarrow> int" where
  "seg_start LC cc b c = int b * LC + int c * cc"

definition seg_nelem :: "int \<Rightarrow> int \<Rightarrow> int \<Rightarrow> nat \<Rightarrow> nat \<Rightarrow> int" where
  "seg_nelem LC cc cnt b c = min cc (cnt - int b * LC - int c * cc)"

lemma seg_unique:
  assumes "0 < LC" "0 < cc" "cnt - int b * LC < LC \<or> int n * cc \<le> LC" "c < n"
    and x: "0 \<le> x" "x < seg_nelem LC cc cnt b c" and e: "e = seg_start LC cc b c + x"
  shows "0 \<le> e" "e < cnt" "e div LC = int b" "(e - int b * LC) div cc = int c"
proof -
  have xc: "x < cc" "x < cnt - int b * LC - int c * cc" using x(2) by (simp_all add: seg_nelem_def)
  have r: "e - int b * LC = int c * cc + x" using e by (simp add: seg_start_def)
  have c0: "0 \<le> int c * cc" using assms(2) by simp
  have b0: "0 \<le> int b * LC" using assms(1) by simp
  show "0 \<le> e" using r x(1) c0 b0 by linarith
  show "e < cnt" using r xc(2) by linarith
  have "(int c + 1) * cc \<le> int n * cc" using assms(2,4) by (intro mult_right_mono) simp_all
  then have "int c * cc + cc \<le> int n * cc" by (simp add: distrib_right)
  then have "e - int b * LC < LC" using assms(3) r xc by linarith
  moreover have "0 \<le> e - int b * LC" using r x(1) c0 by linarith
  ultimately have "int b = e div LC" using div_eq_iff_bounds [OF assms(1), of "int b" e] by (simp add: distrib_right)
  then show "e div LC = int b" by simp
  have "int c = (e - int b * LC) div cc"
    using div_eq_iff_bounds [OF assms(2), of "int c" "e - int b * LC"] r x(1) xc(1) by (simp add: distrib_right)
  then show "(e - int b * LC) div cc = int c" by simp
qed

lemma seg_cover:
  assumes "0 \<le> e" "e < cnt" "int b = e div LC" "0 < LC" "0 < cc"
    and "cnt - int b * LC \<le> int n * cc \<or> LC \<le> int n * cc"
  shows "\<exists>c < n. 0 \<le> e - seg_start LC cc b c \<and> e - seg_start LC cc b c < seg_nelem LC cc cnt b c"
proof -
  define r where "r = e - int b * LC"
  have r: "0 \<le> r" "r < LC" using div_eq_iff_bounds [OF assms(4), of "int b" e] assms(3) by (simp_all add: r_def distrib_right)
  have rn: "r < int n * cc" using assms(2,6) r by (auto simp: r_def)
  define c where "c = nat (r div cc)"
  have c: "int c = r div cc" using r assms(5) by (simp add: c_def pos_imp_zdiv_nonneg_iff)
  have "int c < int n" unfolding c using rn assms(5) by (simp add: int_div_less_iff)
  moreover have "int c * cc \<le> r \<and> r < (int c + 1) * cc" using div_eq_iff_bounds [OF assms(5)] c by blast
  ultimately show ?thesis using assms(2)
    by (intro exI [of _ c]) (auto simp: seg_start_def seg_nelem_def r_def distrib_right)
qed

lemma n_iters_less: "0 < LC \<Longrightarrow> 0 \<le> cnt \<Longrightarrow> b < n_iters LC cnt \<longleftrightarrow> int b * LC < cnt"
proof -
  assume a: "0 < LC" "0 \<le> cnt"
  have "b < n_iters LC cnt \<longleftrightarrow> int b < (cnt + LC - 1) div LC"
    using a by (simp add: n_iters_def divUp_s_eq zless_nat_eq_int_zless)
  also have "\<dots> \<longleftrightarrow> int b + 1 \<le> (cnt + LC - 1) div LC" by linarith
  also have "\<dots> \<longleftrightarrow> (int b + 1) * LC \<le> cnt + LC - 1" using a by (simp add: int_le_div_iff)
  also have "\<dots> \<longleftrightarrow> int b * LC < cnt" by (auto simp: distrib_right)
  finally show ?thesis .
qed

section \<open>Indices of a block program\<close>

text \<open>Block, primitive and slice of an index, for blocks of \<open>P\<close> primitives with \<open>s\<close> slices.\<close>

definition bix :: "nat \<Rightarrow> nat \<Rightarrow> nat \<Rightarrow> nat" where "bix P s k = k div (P * s)"
definition uix :: "nat \<Rightarrow> nat \<Rightarrow> nat \<Rightarrow> nat" where "uix P s k = k mod (P * s) div s"
definition tix :: "nat \<Rightarrow> nat \<Rightarrow> nat \<Rightarrow> nat" where "tix P s k = k mod (P * s) mod s"

lemma ix_less:
  assumes "0 < s" "k < L * (P * s)"
  shows "bix P s k < L" "uix P s k < P" "tix P s k < s"
  using block_index [OF assms] by (simp_all only: bix_def uix_def tix_def)

lemma ix_split: "k = bix P s k * (P * s) + (uix P s k * s + tix P s k)"
  unfolding bix_def uix_def tix_def by (simp only: div_mult_mod_eq)

lemma ix_of:
  assumes "b < L" "u < P" "t < s"
  defines "k \<equiv> b * (P * s) + (u * s + t)"
  shows "k < L * (P * s)" "bix P s k = b" "uix P s k = u" "tix P s k = t"
proof -
  have "(u + 1) * s \<le> P * s" using assms(2) by (intro mult_le_mono1) simp
  then have ut: "u * s + t < P * s" using assms(3) by (simp add: distrib_right)
  have "(b + 1) * (P * s) \<le> L * (P * s)" using assms(1) by (intro mult_le_mono1) simp
  then show "k < L * (P * s)" unfolding k_def using ut by (simp add: distrib_right)
  note dm = div_mod_pair [OF ut, of b] div_mod_pair [OF assms(3), of u]
  show "bix P s k = b" "uix P s k = u" "tix P s k = t"
    unfolding bix_def uix_def tix_def k_def using dm by (simp_all only:)
qed

lemma uix_less_iff: "0 < s \<Longrightarrow> uix P s k < m \<longleftrightarrow> k mod (P * s) < m * s"
  by (simp add: uix_def div_less_iff_less_mult)

lemma ix_prev:
  assumes "s \<le> k mod (P * s)" "0 < s" "0 < P"
  shows "bix P s (k - s) = bix P s k" "tix P s (k - s) = tix P s k" "uix P s k = Suc (uix P s (k - s))"
proof -
  have B: "0 < P * s" using assms(2,3) by simp
  note lag = block_lag_index [OF assms(1) B assms(2)]
  show "bix P s (k - s) = bix P s k" unfolding bix_def by (rule lag(1))
  show "tix P s (k - s) = tix P s k" unfolding tix_def lag(2) by (rule le_mod_geq [OF assms(1), symmetric])
  show "uix P s k = Suc (uix P s (k - s))" unfolding uix_def lag(2) by (rule le_div_geq [OF assms(2,1)])
qed

section \<open>Loops with one chunk in each iteration\<close>

text \<open>
  Iteration \<open>b\<close> moves the elements \<open>[b * cc, min ((b + 1) * cc) cnt)\<close> of the channel's part, in \<open>spc\<close>
  slices.
\<close>

definition lin_slice :: "nat \<Rightarrow> nat \<Rightarrow> int \<Rightarrow> cbd_part \<Rightarrow> nat \<Rightarrow> nat \<Rightarrow> int \<times> int" where
  "lin_slice spc sps st part b t =
     genericOp_slices spc sps st (min (chunkCount part) (partCount part - int b * chunkCount part)) ! t"

definition lin_base :: "nat \<Rightarrow> nat \<Rightarrow> int \<Rightarrow> cbd_part \<Rightarrow> nat \<Rightarrow> nat \<Rightarrow> int" where
  "lin_base spc sps st part b t = partOffset part + int b * chunkCount part + fst (lin_slice spc sps st part b t)"

definition lin_in :: "nat \<Rightarrow> nat \<Rightarrow> int \<Rightarrow> cbd_part \<Rightarrow> nat \<Rightarrow> nat \<Rightarrow> int \<Rightarrow> bool" where
  "lin_in spc sps st part b t e \<longleftrightarrow> lin_base spc sps st part b t \<le> e \<and>
     e < lin_base spc sps st part b t + snd (lin_slice spc sps st part b t)"

abbreviation lin_iters :: "cbd_part \<Rightarrow> nat" where
  "lin_iters part \<equiv> n_iters (chunkCount part) (partCount part)"

definition lin_ok :: "nat \<Rightarrow> nat \<Rightarrow> int \<Rightarrow> cbd_part \<Rightarrow> bool" where
  "lin_ok spc sps st part \<longleftrightarrow> 0 < spc \<and> 0 \<le> partCount part \<and> 0 < chunkCount part \<and> 0 \<le> st \<and>
     16 dvd st * int sps \<and> chunkCount part \<le> int spc * (st * int sps)"

lemma lin_in_iff:
  "lin_in spc sps st part b t e \<longleftrightarrow>
   in_slice (e - partOffset part - int b * chunkCount part) (lin_slice spc sps st part b t)"
  by (auto simp: lin_in_def in_slice_def lin_base_def)

lemma lin_in_bounds:
  assumes "lin_ok spc sps st part" "t < spc" "lin_in spc sps st part b t e"
  defines "e' \<equiv> e - partOffset part"
  shows "0 \<le> e'" "e' < partCount part" "e' div chunkCount part = int b" "0 \<le> e' - int b * chunkCount part"
    "e' - int b * chunkCount part < min (chunkCount part) (partCount part - int b * chunkCount part)"
proof -
  let ?cc = "chunkCount part" let ?x = "e' - int b * ?cc" let ?ne = "min ?cc (partCount part - int b * ?cc)"
  obtain off sz where sl: "lin_slice spc sps st part b t = (off, sz)" by fastforce
  have "off \<le> ?x" "?x < off + sz" using assms(3) by (simp_all add: lin_in_iff e'_def in_slice_def sl)
  moreover have "0 \<le> off" "off + sz \<le> max 0 ?ne"
    using genericOp_slices_bounds [of t spc sps st ?ne off sz] assms(2) sl by (simp_all add: lin_slice_def)
  ultimately show x: "0 \<le> ?x" "?x < ?ne" by linarith+
  have cc: "0 < ?cc" using assms(1) by (simp add: lin_ok_def)
  have b0: "0 \<le> int b * ?cc" using cc by simp
  have xx: "?x < ?cc" "?x < partCount part - int b * ?cc" using x(2) by simp_all
  show "0 \<le> e'" "e' < partCount part" using x(1) xx(2) b0 by linarith+
  have "int b = e' div ?cc"
    unfolding div_eq_iff_bounds [OF cc] distrib_right mult_1 using x(1) xx(1) by linarith
  then show "e' div ?cc = int b" by (rule sym)
qed

lemma lin_in_unique:
  assumes "lin_ok spc sps st part" "t < spc" "lin_in spc sps st part b t e" "t' < spc" "lin_in spc sps st part b' t' e"
  shows "b = b' \<and> t = t'"
proof -
  note 1 = lin_in_bounds [OF assms(1,2,3)] and 2 = lin_in_bounds [OF assms(1,4,5)]
  have b: "b = b'" using 1(3) 2(3) by simp
  have "\<exists>!i. i < spc \<and> in_slice (e - partOffset part - int b * chunkCount part) (lin_slice spc sps st part b i)"
    unfolding lin_slice_def using 1(4,5) assms(2) by (intro genericOp_slices_cover) simp_all
  then show ?thesis using assms b by (auto simp: lin_in_iff)
qed

lemma lin_in_cover:
  assumes "lin_ok spc sps st part" "partOffset part \<le> e" "e < partOffset part + partCount part"
  shows "\<exists>b < lin_iters part. \<exists>t < spc. lin_in spc sps st part b t e"
proof -
  let ?e = "e - partOffset part" let ?cc = "chunkCount part"
  have cc: "0 < ?cc" "0 < spc" using assms(1) by (simp_all add: lin_ok_def)
  define b where "b = nat (?e div ?cc)"
  have b: "int b = ?e div ?cc" using assms(2) cc by (simp add: b_def pos_imp_zdiv_nonneg_iff)
  have bb: "int b * ?cc \<le> ?e" "?e < (int b + 1) * ?cc" using div_eq_iff_bounds [OF cc(1)] b by blast+
  then have bi: "b < lin_iters part" using assms n_iters_less [OF cc(1), of "partCount part" b] by simp
  have "\<exists>!i. i < spc \<and> in_slice (?e - int b * ?cc) (lin_slice spc sps st part b i)"
    unfolding lin_slice_def using bb assms(3) cc(2) by (intro genericOp_slices_cover) (simp_all add: distrib_right)
  then show ?thesis using bi by (auto simp: lin_in_iff)
qed

lemma lin_slice_fits:
  assumes "lin_ok spc sps st part" "t < spc"
  shows "snd (lin_slice spc sps st part b t) \<le> int sps * st"
  using genericOp_slices_fit [of t spc sps st "min (chunkCount part) (partCount part - int b * chunkCount part)"] assms
  by (cases "lin_slice spc sps st part b t") (auto simp: lin_slice_def lin_ok_def mult.commute)

end
