(* ===== verification/Ring_AllReduce.thy ===== *)
theory Ring_AllReduce
  imports Ring_Programs
begin

text \<open>
  Correctness of the AllReduce ring: under every interleaving of the ranks it ends, and every rank
  holds, for every element, the inputs of all ranks reduced in the order of the ring.  In-place
  buffers are covered.
\<close>

section \<open>Program\<close>

text \<open>Primitive \<open>u\<close> of an iteration works on the chunk \<open>u + 1\<close> places behind the rank.\<close>

definition ar_chunk :: "nat \<Rightarrow> nat \<Rightarrow> nat \<Rightarrow> nat" where
  "ar_chunk n p u = nat ((int p - int u - 1) mod int n)"

lemma ar_chunk_less: "0 < n \<Longrightarrow> ar_chunk n p u < n"
  by (simp add: ar_chunk_def nat_less_iff)

lemma int_ar_chunk: "0 < n \<Longrightarrow> int (ar_chunk n p u) = (int p - int u - 1) mod int n"
  by (simp add: ar_chunk_def)

lemma modRanks_eq: "0 \<le> r \<Longrightarrow> r < 2 * n \<Longrightarrow> modRanks n r = r mod n"
proof -
  assume r: "0 \<le> r" "r < 2 * n"
  show ?thesis
  proof (cases "r < n")
    case False
    then have "r mod n = (r - n) mod n" using r by (simp add: mod_diff_right_eq)
    also have "\<dots> = r - n" using r False by (intro mod_pos_pos_trivial) simp_all
    finally show ?thesis using False by (simp add: modRanks_def)
  qed (use r in \<open>simp add: modRanks_def\<close>)
qed

definition ar_chunkCount :: "int \<Rightarrow> int \<Rightarrow> int \<Rightarrow> int \<Rightarrow> int \<Rightarrow> int" where
  "ar_chunkCount n eb cc channelCount elemOffset =
     (if channelCount - elemOffset < n * cc
      then alignUp (divUp_s (channelCount - elemOffset) n) (16 sdiv eb) else cc)"

definition ar_op :: "prims \<Rightarrow> nat \<Rightarrow> nat \<Rightarrow> cbd_part \<Rightarrow> nat \<Rightarrow> nat \<Rightarrow> slice_op list" where
  "ar_op pr n p part b u =
     (let elemOffset = int b * (int n * chunkCount part);
          cc = ar_chunkCount (int n) (eltBytes pr) (chunkCount part) (partCount part) elemOffset;
          c = int (ar_chunk n p u);
          off = partOffset part + elemOffset + c * cc
      in genericOp pr (0 < u) (u < 2 * n - 2) (if u < n then Some Input else None)
           (if n - 1 \<le> u then Some Output else None) off off
           (min cc (partCount part - elemOffset - c * cc)) (u = n - 1))"

lemma length_ar_op: "length (ar_op pr n p part b u) = SlicePerChunk pr"
  by (simp add: ar_op_def Let_def)

lemma upt_split: "i \<le> j \<Longrightarrow> j \<le> k \<Longrightarrow> [i..<k] = [i..<j] @ [j..<k]"
  by (metis le_add_diff_inverse upt_add_eq_append)

lemma upt_split_ring:
  assumes "2 \<le> n"
  shows "[0..<2 * n - 1] = [0] @ [1..<n - 1] @ [n - 1] @ map (\<lambda>j. j + (n - 1)) [1..<n - 1] @ [2 * n - 2]"
proof -
  obtain m where n: "n = Suc (Suc m)" using assms by (metis add_2_eq_Suc le_Suc_ex)
  have "[0..<Suc (Suc (Suc (m + m)))] = 0 # [1..<Suc m] @ Suc m # [Suc (Suc m)..<Suc (Suc (m + m))] @ [Suc (Suc (m + m))]"
    using upt_split [of 1 "Suc m" "Suc (Suc (m + m))"] upt_conv_Cons [of 0 "Suc (Suc (m + m))"]
      upt_conv_Cons [of "Suc m" "Suc (Suc (m + m))"] by (simp del: upt_Suc add: upt_Suc_append)
  moreover have "map (\<lambda>j. j + Suc m) [1..<Suc m] = [Suc (Suc m)..<Suc (Suc (m + m))]"
    by (rule nth_equalityI) (simp_all del: upt_Suc)
  ultimately show ?thesis by (simp add: n mult_2 del: upt_Suc)
qed

lemma map_upto_shift: "map f [2..int n - 1] = map (\<lambda>u. f (int u + 1)) [1..<n - 1]"
proof -
  have "[2..int n - 1] = map int [2..<n]" using upto_conv_upt [of 2 n] by simp
  also have "[2..<n] = map Suc [1..<n - 1]"
    by (cases n) (simp_all add: map_Suc_upt numeral_2_eq_2)
  finally show ?thesis by (simp add: comp_def add.commute)
qed

lemma map_upto_ring: "map f [1..int n - 2] = map (\<lambda>j. f (int j)) [1..<n - 1]"
proof (cases n)
  case (Suc m)
  then have "[1..int n - 2] = [int 1..int m - 1]" by simp
  then show ?thesis using Suc by (simp only: upto_conv_upt) simp
qed simp

lemma ar_chunk_modRanks:
  assumes "0 \<le> r" "r < 2 * int n" "r = int p - int u - 1 + z * int n" "0 < n"
  shows "modRanks (int n) r = int (ar_chunk n p u)"
proof -
  have "r mod int n = (int p - int u - 1) mod int n" unfolding assms(3) by simp
  then show ?thesis using assms(1,2,4) by (simp add: modRanks_eq int_ar_chunk)
qed

lemma allReduce_body_eq:
  assumes "2 \<le> n" "p < n"
  shows "allReduce_body pr (int n) (int p) (partOffset part) (partCount part) (int n * chunkCount part)
      (chunkCount part) (int b * (int n * chunkCount part)) = concat (map (ar_op pr n p part b) [0..<2 * n - 1])"
proof -
  have c0: "modRanks (int n) (int p + int n - 1) = int (ar_chunk n p 0)"
    using assms by (intro ar_chunk_modRanks [where z = 1]) simp_all
  have c1: "modRanks (int n) (int p + int n - (int u + 1)) = int (ar_chunk n p u)" if "1 \<le> u" "u < n - 1" for u
    using assms that by (intro ar_chunk_modRanks [where z = 1]) simp_all
  have "int p - int (n - 1) - 1 = int p - int n" using assms by (simp add: of_nat_diff)
  then have c2: "int p + 0 = int (ar_chunk n p (n - 1))"
    using assms by (simp add: int_ar_chunk)
  have c3: "modRanks (int n) (int p + int n - int j) = int (ar_chunk n p (j + (n - 1)))" if "1 \<le> j" "j < n - 1" for j
    using assms that by (intro ar_chunk_modRanks [where z = 2]) (simp_all add: of_nat_diff)
  have c4: "modRanks (int n) (int p + 1) = int (ar_chunk n p (2 * n - 2))"
    using assms by (intro ar_chunk_modRanks [where z = 2]) (simp_all add: of_nat_diff)
  have n: "\<not> 2 * n - 2 < n" "n - 1 < 2 * n - 2" "\<not> n \<le> Suc 0" "0 < 2 * n - 2" "n - 1 \<noteq> 0" "2 * n - 2 \<noteq> n - 1" "n - 1 \<le> 2 * n - 2" using assms by auto
  have n3: "Suc 0 \<le> j \<Longrightarrow> j < n - Suc 0 \<Longrightarrow> (j + n - Suc 0 = n - Suc 0) = False \<and> (j + n - Suc 0 < 2 * n - 2) = True" for j
    using assms by auto
  show ?thesis
    unfolding allReduce_body_def Let_def upt_split_ring [OF assms(1)] map_upto_shift map_upto_ring map_append concat_append map_map
    apply (intro arg_cong2 [where f = append])
    subgoal using n by (simp add: c0 ar_op_def ar_chunkCount_def Let_def directSend_def)
    subgoal using n by (auto intro!: arg_cong [where f = concat] simp: c1 ar_op_def ar_chunkCount_def Let_def directRecvReduceDirectSend_def)
    subgoal using n by (simp add: c2 [simplified, symmetric] ar_op_def ar_chunkCount_def Let_def directRecvReduceCopyDirectSend_def)
    subgoal using n by (auto intro!: arg_cong [where f = concat] simp: c3 n3 ar_op_def ar_chunkCount_def Let_def directRecvCopyDirectSend_def)
    subgoal using n by (simp add: c4 ar_op_def ar_chunkCount_def Let_def directRecv_def)
    done
qed

section \<open>A job\<close>

text \<open>
  What the kernels of one channel get: ring size, elements per FIFO step, element size in bytes, the
  channel's part of the work, and the addresses of the input and output buffer of every ring position.
\<close>

record ringjob =
  jn :: nat
  jstep :: int
  jelt :: int
  jpart :: cbd_part
  jin :: "nat \<Rightarrow> int"
  jout :: "nat \<Rightarrow> int"

definition job_prims :: "nat \<Rightarrow> nat \<Rightarrow> ringjob \<Rightarrow> nat \<Rightarrow> prims" where
  "job_prims spc sps j p = \<lparr>stepSize = jstep j, userInput = jin j p, userOutput = jout j p,
     SlicePerChunk = spc, StepPerSlice = sps, eltBytes = jelt j\<rparr>"

lemma job_prims_sel [simp]:
  "stepSize (job_prims spc sps j p) = jstep j" "userInput (job_prims spc sps j p) = jin j p"
  "userOutput (job_prims spc sps j p) = jout j p" "SlicePerChunk (job_prims spc sps j p) = spc"
  "StepPerSlice (job_prims spc sps j p) = sps" "eltBytes (job_prims spc sps j p) = jelt j"
  by (simp_all add: job_prims_def)

definition ar_cfg :: "'a redop \<Rightarrow> ringjob \<Rightarrow> 'a ringcfg" where
  "ar_cfg rop j = \<lparr>nRanks = jn j, stepsPerSlice = 2, connStepSize = jstep j, redOp = rop,
     prog = (\<lambda>p. the (runRing_AllReduce (job_prims 2 2 j p) (int (jn j)) (int p) (jpart j)))\<rparr>"

text \<open>
  Jobs as the host code prepares them: chunks are a multiple of 16 bytes and fit the FIFO, and the
  user buffers of a rank are the same or do not overlap.
\<close>

definition ar_ok :: "ringjob \<Rightarrow> bool" where
  "ar_ok j \<longleftrightarrow> 2 \<le> jn j \<and> 0 \<le> partCount (jpart j) \<and> 0 < chunkCount (jpart j) \<and>
     chunkCount (jpart j) \<le> 4 * jstep j \<and> 8 dvd jstep j \<and>
     jelt j \<in> {1, 2, 4, 8} \<and> 16 sdiv jelt j dvd chunkCount (jpart j) \<and>
     (\<forall>p < jn j. jin j p = jout j p \<or> partCount (jpart j) \<le> \<bar>jin j p - jout j p\<bar>)"

abbreviation ar_LC :: "ringjob \<Rightarrow> int" where
  "ar_LC j \<equiv> int (jn j) * chunkCount (jpart j)"

definition ar_cc :: "ringjob \<Rightarrow> nat \<Rightarrow> int" where
  "ar_cc j b = ar_chunkCount (int (jn j)) (jelt j) (chunkCount (jpart j)) (partCount (jpart j)) (int b * ar_LC j)"

abbreviation ar_iters :: "ringjob \<Rightarrow> nat" where
  "ar_iters j \<equiv> n_iters (ar_LC j) (partCount (jpart j))"

definition ar_slice :: "ringjob \<Rightarrow> nat \<Rightarrow> nat \<Rightarrow> nat \<Rightarrow> int \<times> int" where
  "ar_slice j b c t = genericOp_slices 2 2 (jstep j) (seg_nelem (ar_LC j) (ar_cc j b) (partCount (jpart j)) b c) ! t"

definition ar_base :: "ringjob \<Rightarrow> nat \<Rightarrow> nat \<Rightarrow> nat \<Rightarrow> int" where
  "ar_base j b c t = partOffset (jpart j) + seg_start (ar_LC j) (ar_cc j b) b c + fst (ar_slice j b c t)"

text \<open>Block, primitive and slice of an index of the program.\<close>

definition ix_b :: "nat \<Rightarrow> nat \<Rightarrow> nat" where "ix_b n k = k div ((2 * n - 1) * 2)"
definition ix_u :: "nat \<Rightarrow> nat \<Rightarrow> nat" where "ix_u n k = k mod ((2 * n - 1) * 2) div 2"
definition ix_t :: "nat \<Rightarrow> nat \<Rightarrow> nat" where "ix_t n k = k mod ((2 * n - 1) * 2) mod 2"

lemma ar_LC_pos: "ar_ok j \<Longrightarrow> 0 < ar_LC j"
  by (simp add: ar_ok_def)

lemma runRing_AllReduce_blocks:
  assumes "ar_ok j" "p < jn j"
  shows "runRing_AllReduce (job_prims 2 2 j p) (int (jn j)) (int p) (jpart j) =
    Some (blocks (ar_iters j) (2 * jn j - 1) (ar_op (job_prims 2 2 j p) (jn j) p (jpart j)))"
  using assms ar_LC_pos [OF assms(1)] unfolding runRing_AllReduce_def Let_def blocks_def
  by (subst chunk_loop_eq) (simp_all add: ar_ok_def allReduce_body_eq)

lemma ar_prog_length: "ar_ok j \<Longrightarrow> p < jn j \<Longrightarrow> length (prog (ar_cfg rop j) p) = ar_iters j * ((2 * jn j - 1) * 2)"
  by (simp add: ar_cfg_def runRing_AllReduce_blocks length_blocks [where s = 2] length_ar_op)

lemma ar_prog_nth:
  assumes "ar_ok j" "p < jn j" "k < ar_iters j * ((2 * jn j - 1) * 2)"
  defines "u \<equiv> ix_u (jn j) k"
  defines "base \<equiv> ar_base j (ix_b (jn j) k) (ar_chunk (jn j) p u) (ix_t (jn j) k)"
  shows "prog (ar_cfg rop j) p ! k =
    \<lparr>opRecv = (0 < u), opSend = (u < 2 * jn j - 2), opSrc = (if u < jn j then Some (jin j p + base) else None),
     opPre = (u < jn j), opDst = (if jn j - 1 \<le> u then Some (jout j p + base) else None),
     opSize = nat (snd (ar_slice j (ix_b (jn j) k) (ar_chunk (jn j) p u) (ix_t (jn j) k))),
     opPost = (u = jn j - 1)\<rparr>"
proof -
  let ?pr = "job_prims 2 2 j p"
  have t: "ix_t (jn j) k < 2" by (simp add: ix_t_def)
  have "prog (ar_cfg rop j) p ! k = ar_op ?pr (jn j) p (jpart j) (ix_b (jn j) k) u ! ix_t (jn j) k"
    unfolding u_def ix_b_def ix_u_def ix_t_def
    by (simp add: ar_cfg_def runRing_AllReduce_blocks [OF assms(1,2)])
      (rule nth_blocks, simp add: length_ar_op, use assms(3) in simp)
  then show ?thesis
    using t by (simp add: ar_op_def Let_def nth_genericOp split_beta userPtr_def base_def ar_base_def
        ar_slice_def seg_nelem_def seg_start_def ar_cc_def)
qed

section \<open>Values\<close>

text \<open>
  The inputs of positions \<open>c + 1, \<dots>, c + 1 + m\<close>, reduced in the order the ring visits them.
\<close>

primrec ring_red :: "'a redop \<Rightarrow> nat \<Rightarrow> (nat \<Rightarrow> 'a) \<Rightarrow> nat \<Rightarrow> nat \<Rightarrow> 'a" where
  "ring_red rop n x c 0 = preOp rop (x ((c + 1) mod n))"
| "ring_red rop n x c (Suc m) = redFn rop (preOp rop (x ((c + 1 + Suc m) mod n))) (ring_red rop n x c m)"

definition ar_elt :: "'a redop \<Rightarrow> ringjob \<Rightarrow> (nat \<Rightarrow> int \<Rightarrow> 'a) \<Rightarrow> nat \<Rightarrow> nat \<Rightarrow> int \<Rightarrow> 'a" where
  "ar_elt rop j m0 u c e =
     (let x = (\<lambda>q. m0 q (jin j q + e))
      in if u < jn j - 1 then ring_red rop (jn j) x c u else postOp rop (ring_red rop (jn j) x c (jn j - 1)))"

definition ar_val :: "'a redop \<Rightarrow> ringjob \<Rightarrow> (nat \<Rightarrow> int \<Rightarrow> 'a) \<Rightarrow> nat \<Rightarrow> nat \<Rightarrow> 'a list" where
  "ar_val rop j m0 p k =
     (let u = ix_u (jn j) k; b = ix_b (jn j) k; t = ix_t (jn j) k; c = ar_chunk (jn j) p u
      in map (\<lambda>i. ar_elt rop j m0 u c (ar_base j b c t + int i)) [0..<nat (snd (ar_slice j b c t))])"

lemma ar_chunk_pos: "p < n \<Longrightarrow> (ar_chunk n p u + 1 + u) mod n = p"
proof -
  assume p: "p < n"
  have "int ((ar_chunk n p u + 1 + u) mod n) = ((int p - int u - 1) mod int n + 1 + int u) mod int n"
    using p by (simp add: zmod_int int_ar_chunk add.commute add.left_commute)
  also have "\<dots> = (int p - int u - 1 + 1 + int u) mod int n"
    by (simp only: mod_add_left_eq add.assoc)
  also have "\<dots> = int p" using p by simp
  finally show ?thesis by linarith
qed

lemma int_prv: "0 < n \<Longrightarrow> int (prv n p) = (int p - 1) mod int n"
proof -
  assume n: "0 < n"
  have "int (prv n p) = (int p + int n - 1) mod int n"
    using n by (simp add: prv_def zmod_int of_nat_diff)
  also have "\<dots> = (int p - 1 + int n) mod int n" by (simp add: algebra_simps)
  finally show ?thesis by simp
qed

lemma ar_chunk_prv: "0 < n \<Longrightarrow> ar_chunk n (prv n p) u = ar_chunk n p (Suc u)"
proof -
  assume n: "0 < n"
  have "int (ar_chunk n (prv n p) u) = ((int p - 1) mod int n - (int u + 1)) mod int n"
    using n by (simp add: int_ar_chunk int_prv algebra_simps)
  also have "\<dots> = (int p - 1 - (int u + 1)) mod int n" by (rule mod_diff_left_eq)
  also have "\<dots> = int (ar_chunk n p (Suc u))" using n by (simp add: int_ar_chunk algebra_simps)
  finally show ?thesis by linarith
qed

lemma ix_lag:
  assumes "2 \<le> k mod ((2 * n - 1) * 2)" "0 < n"
  shows "ix_b n (k - 2) = ix_b n k" "ix_t n (k - 2) = ix_t n k" "ix_u n k = Suc (ix_u n (k - 2))"
proof -
  have B: "0 < (2 * n - 1) * 2" using assms(2) by simp
  have two: "0 < (2 :: nat)" by simp
  note lag = block_lag_index [OF assms(1) B two]
  show "ix_b n (k - 2) = ix_b n k" unfolding ix_b_def by (rule lag(1))
  show "ix_t n (k - 2) = ix_t n k" unfolding ix_t_def lag(2) by (rule le_mod_geq [OF assms(1), symmetric])
  show "ix_u n k = Suc (ix_u n (k - 2))" unfolding ix_u_def lag(2) by (rule le_div_geq [OF two assms(1)])
qed

lemma ix_u_iff: "ix_u n k < m \<longleftrightarrow> k mod ((2 * n - 1) * 2) < m * 2"
  by (simp add: ix_u_def div_less_iff_less_mult)

lemma ar_first:
  assumes "ar_ok j" "p < jn j" "k < ar_iters j * ((2 * jn j - 1) * 2)" "k mod ((2 * jn j - 1) * 2) < 2"
  shows "ar_val rop j m0 p k = slice_value rop (m0 p) (prog (ar_cfg rop j) p ! k) []"
proof -
  have u: "ix_u (jn j) k = 0" using ix_u_iff [of "jn j" k 1] assms(4) by simp
  have c: "(ar_chunk (jn j) p 0 + 1) mod jn j = p" using ar_chunk_pos [of p "jn j" 0] assms(2) by simp
  have n: "1 < jn j" using assms(1) by (simp add: ar_ok_def)
  show ?thesis
    unfolding ar_prog_nth [OF assms(1-3)] slice_value_def slice_srcs_def reduceCopy_def ar_val_def Let_def u
    using n c by (simp add: reduceCopyElt_def read_at_def ar_elt_def add.assoc)
qed

lemma ar_elt_step:
  assumes "2 \<le> jn j" "(c + 1 + Suc v) mod jn j = p"
  shows "ar_elt rop j m0 (Suc v) c e = reduceCopyElt rop (Suc v < jn j) (Suc v = jn j - 1)
    ((if Suc v < jn j then [m0 p (jin j p + e)] else []) @ [ar_elt rop j m0 v c e])"
proof -
  define x where "x = (\<lambda>q. m0 q (jin j q + e))"
  have elt: "ar_elt rop j m0 u c e = (if u < jn j - 1 then ring_red rop (jn j) x c u else postOp rop (ring_red rop (jn j) x c (jn j - 1)))" for u
    by (simp add: ar_elt_def x_def)
  have step: "ring_red rop (jn j) x c (Suc v) = redFn rop (preOp rop (m0 p (jin j p + e))) (ring_red rop (jn j) x c v)"
    using assms(2) by (simp add: x_def)
  consider "Suc v < jn j - 1" | "Suc v = jn j - 1" | "jn j \<le> Suc v" using assms(1) by linarith
  then show ?thesis
  proof cases
    case 1
    then have "Suc v < jn j" "v < jn j - 1" by simp_all
    then show ?thesis using 1 unfolding elt step by (simp add: reduceCopyElt_def)
  next
    case 2
    then have "ar_elt rop j m0 (Suc v) c e = postOp rop (ring_red rop (jn j) x c (Suc v))" unfolding elt by simp
    then show ?thesis unfolding step using 2 assms(1) by (simp add: elt reduceCopyElt_def)
  next
    case 3
    then have "\<not> v < jn j - 1" "\<not> Suc v < jn j" "Suc v \<noteq> jn j - 1" using assms(1) by simp_all
    then show ?thesis unfolding elt by (simp add: reduceCopyElt_def)
  qed
qed

lemma ar_later:
  assumes "ar_ok j" "p < jn j" "k < ar_iters j * ((2 * jn j - 1) * 2)" "2 \<le> k mod ((2 * jn j - 1) * 2)"
  defines "q \<equiv> prv (jn j) p"
  shows "opSize (prog (ar_cfg rop j) q ! (k - 2)) = opSize (prog (ar_cfg rop j) p ! k)"
    and "ar_val rop j m0 p k = slice_value rop (m0 p) (prog (ar_cfg rop j) p ! k) (ar_val rop j m0 q (k - 2))"
proof -
  let ?n = "jn j" let ?v = "ix_u (jn j) (k - 2)"
  have n: "2 \<le> ?n" "0 < ?n" using assms(1) by (auto simp: ar_ok_def)
  have q: "q < ?n" using assms(2) by (simp add: q_def)
  have k2: "k - 2 < ar_iters j * ((2 * jn j - 1) * 2)" using assms(3) by simp
  note ix = ix_lag [OF assms(4) n(2)]
  have cq: "ar_chunk ?n q ?v = ar_chunk ?n p (Suc ?v)" unfolding q_def using n by (simp add: ar_chunk_prv)
  have cp: "(ar_chunk ?n p (Suc ?v) + 1 + Suc ?v) mod ?n = p" using assms(2) by (rule ar_chunk_pos)
  show "opSize (prog (ar_cfg rop j) q ! (k - 2)) = opSize (prog (ar_cfg rop j) p ! k)"
    unfolding ar_prog_nth [OF assms(1-3)] ar_prog_nth [OF assms(1) q k2] ix cq by simp
  show "ar_val rop j m0 p k = slice_value rop (m0 p) (prog (ar_cfg rop j) p ! k) (ar_val rop j m0 q (k - 2))"
    unfolding ar_prog_nth [OF assms(1-3)] slice_value_def slice_srcs_def reduceCopy_def ar_val_def Let_def ix cq
    by (auto simp: read_at_def ar_elt_step [OF n(1) cp] add.assoc)
qed

section \<open>Regions\<close>

lemma ar_cc_props:
  assumes "ar_ok j" "b < ar_iters j"
  shows "0 < ar_cc j b" "ar_cc j b \<le> chunkCount (jpart j)"
    "partCount (jpart j) - int b * ar_LC j < ar_LC j \<or> int (jn j) * ar_cc j b \<le> ar_LC j"
    "partCount (jpart j) - int b * ar_LC j \<le> int (jn j) * ar_cc j b \<or> ar_LC j \<le> int (jn j) * ar_cc j b"
proof -
  define r n C where "r = partCount (jpart j) - int b * ar_LC j" and "n = int (jn j)" and "C = chunkCount (jpart j)"
  have ok: "2 \<le> n" "0 < C" "16 sdiv jelt j dvd C" using assms(1) by (auto simp: ar_ok_def n_def C_def)
  have "0 \<le> partCount (jpart j)" using assms(1) by (simp add: ar_ok_def)
  then have r: "0 < r" using n_iters_less [OF ar_LC_pos [OF assms(1)]] assms(2) by (simp add: r_def)
  obtain k where k: "16 sdiv jelt j = 2 ^ k"
  proof -
    have "16 sdiv jelt j \<in> {2 ^ 4, 2 ^ 3, 2 ^ 2, 2 ^ 1}" using assms(1) by (auto simp: ar_ok_def)
    then show ?thesis using that by blast
  qed
  have cc: "ar_cc j b = (if r < n * C then alignUp (divUp_s r n) (2 ^ k) else C)"
    by (simp add: ar_cc_def ar_chunkCount_def r_def n_def C_def k)
  have d: "r \<le> divUp_s r n * n" using r ok by (intro divUp_s_mult_ge) simp_all
  have dpos: "0 < divUp_s r n"
  proof (rule ccontr)
    assume "\<not> 0 < divUp_s r n"
    then have "divUp_s r n * n \<le> 0" using ok(1) by (simp add: mult_nonpos_nonneg)
    then show False using d r by linarith
  qed
  note al = alignUp_int_bounds [of "divUp_s r n" k]
  have le: "alignUp (divUp_s r n) (2 ^ k) \<le> C" if "r < n * C"
  proof -
    have "divUp_s r n \<le> C" using r ok(1) that by (intro divUp_s_le) (simp_all add: mult.commute)
    then have "alignUp (divUp_s r n) (2 ^ k) < C + 2 ^ k" using al by linarith
    moreover have "2 ^ k dvd C - alignUp (divUp_s r n) (2 ^ k)" using al ok(3) k by simp
    ultimately show ?thesis
      using zdvd_imp_le [of "2 ^ k" "alignUp (divUp_s r n) (2 ^ k) - C"] by (fastforce simp: dvd_diff_commute)
  qed
  show "0 < ar_cc j b" using cc al dpos ok(2) by auto
  show "ar_cc j b \<le> chunkCount (jpart j)" using cc le by (auto simp: C_def)
  show "partCount (jpart j) - int b * ar_LC j < ar_LC j \<or> int (jn j) * ar_cc j b \<le> ar_LC j"
    using cc by (auto simp: r_def n_def C_def)
  have "divUp_s r n * n \<le> alignUp (divUp_s r n) (2 ^ k) * n" using al ok(1) by (intro mult_right_mono) simp_all
  then show "partCount (jpart j) - int b * ar_LC j \<le> int (jn j) * ar_cc j b \<or> ar_LC j \<le> int (jn j) * ar_cc j b"
    using cc d by (auto simp: r_def n_def C_def mult.commute)
qed

text \<open>Element \<open>e\<close> is moved by slice \<open>t\<close> of the primitives for chunk \<open>c\<close> of iteration \<open>b\<close>.\<close>

definition ar_in :: "ringjob \<Rightarrow> nat \<Rightarrow> nat \<Rightarrow> nat \<Rightarrow> int \<Rightarrow> bool" where
  "ar_in j b c t e \<longleftrightarrow> ar_base j b c t \<le> e \<and> e < ar_base j b c t + snd (ar_slice j b c t)"

lemma ar_in_iff:
  "ar_in j b c t e \<longleftrightarrow> in_slice (e - partOffset (jpart j) - seg_start (ar_LC j) (ar_cc j b) b c) (ar_slice j b c t)"
  by (auto simp: ar_in_def in_slice_def ar_base_def)

lemma ar_in_bounds:
  assumes "ar_ok j" "b < ar_iters j" "c < jn j" "t < 2" "ar_in j b c t e"
  defines "e' \<equiv> e - partOffset (jpart j)"
  shows "0 \<le> e'" "e' < partCount (jpart j)" "e' div ar_LC j = int b" "(e' - int b * ar_LC j) div ar_cc j b = int c"
    "0 \<le> e' - seg_start (ar_LC j) (ar_cc j b) b c"
    "e' - seg_start (ar_LC j) (ar_cc j b) b c < seg_nelem (ar_LC j) (ar_cc j b) (partCount (jpart j)) b c"
proof -
  let ?x = "e' - seg_start (ar_LC j) (ar_cc j b) b c" let ?ne = "seg_nelem (ar_LC j) (ar_cc j b) (partCount (jpart j)) b c"
  obtain off sz where sl: "ar_slice j b c t = (off, sz)" by fastforce
  have "off \<le> ?x" "?x < off + sz" using assms(5) by (simp_all add: ar_in_iff e'_def in_slice_def sl)
  moreover have "0 \<le> off" "off + sz \<le> max 0 ?ne"
    using genericOp_slices_bounds [of t 2 2 "jstep j" ?ne off sz] assms(4) sl by (simp_all add: ar_slice_def)
  ultimately show x: "0 \<le> ?x" "?x < ?ne" by linarith+
  note cc = ar_cc_props [OF assms(1,2)]
  note u = seg_unique [OF ar_LC_pos [OF assms(1)] cc(1,3) assms(3) x, of e']
  show "0 \<le> e'" "e' < partCount (jpart j)" "e' div ar_LC j = int b" "(e' - int b * ar_LC j) div ar_cc j b = int c"
    using u by simp_all
qed

lemma ar_in_unique:
  assumes "ar_ok j" "b < ar_iters j" "c < jn j" "t < 2" "ar_in j b c t e"
    and "b' < ar_iters j" "c' < jn j" "t' < 2" "ar_in j b' c' t' e"
  shows "b = b' \<and> c = c' \<and> t = t'"
proof -
  note 1 = ar_in_bounds [OF assms(1-5)] and 2 = ar_in_bounds [OF assms(1,6-9)]
  have b: "b = b'" using 1(3) 2(3) by simp
  have c: "c = c'" using 1(4) 2(4) b by simp
  have "\<exists>!i. i < 2 \<and> in_slice (e - partOffset (jpart j) - seg_start (ar_LC j) (ar_cc j b) b c) (ar_slice j b c i)"
    unfolding ar_slice_def using 1(5,6) by (intro genericOp_slices_cover) simp_all
  then show ?thesis using assms(4,5,8,9) b c by (auto simp: ar_in_iff)
qed

lemma ar_in_cover:
  assumes "ar_ok j" "partOffset (jpart j) \<le> e" "e < partOffset (jpart j) + partCount (jpart j)"
  shows "\<exists>b < ar_iters j. \<exists>c < jn j. \<exists>t < 2. ar_in j b c t e"
proof -
  let ?e = "e - partOffset (jpart j)" let ?LC = "ar_LC j"
  define b where "b = nat (?e div ?LC)"
  have LC: "0 < ?LC" using assms(1) by (rule ar_LC_pos)
  have b: "int b = ?e div ?LC" using assms(2) LC by (simp add: b_def pos_imp_zdiv_nonneg_iff)
  have "int b * ?LC \<le> ?e" using div_eq_iff_bounds [OF LC] b by blast
  then have bi: "b < ar_iters j" using assms n_iters_less [OF LC, of "partCount (jpart j)" b] by (simp add: ar_ok_def)
  note cc = ar_cc_props [OF assms(1) bi]
  obtain c where c: "c < jn j" "0 \<le> ?e - seg_start ?LC (ar_cc j b) b c"
    "?e - seg_start ?LC (ar_cc j b) b c < seg_nelem ?LC (ar_cc j b) (partCount (jpart j)) b c"
    using seg_cover [OF _ _ b LC cc(1,4)] assms(2,3) by auto
  have "\<exists>!i. i < 2 \<and> in_slice (?e - seg_start ?LC (ar_cc j b) b c) (ar_slice j b c i)"
    unfolding ar_slice_def using c(2,3) by (intro genericOp_slices_cover) simp_all
  then show ?thesis using bi c(1) by (auto simp: ar_in_iff)
qed

lemma ar_slice_fits:
  assumes "ar_ok j" "b < ar_iters j" "t < 2"
  shows "snd (ar_slice j b c t) \<le> jstep j * 2"
proof -
  let ?ne = "seg_nelem (ar_LC j) (ar_cc j b) (partCount (jpart j)) b c"
  have "?ne \<le> int 2 * (jstep j * int 2)"
    using ar_cc_props(2) [OF assms(1,2)] assms(1) by (auto simp: seg_nelem_def ar_ok_def)
  moreover have "16 dvd jstep j * int 2" "0 \<le> jstep j" using assms(1) by (auto simp: ar_ok_def)
  ultimately show ?thesis
    using genericOp_slices_fit [of t 2 2 "jstep j" ?ne] assms(3) by (cases "ar_slice j b c t") (simp add: ar_slice_def)
qed

section \<open>The kernel satisfies the contract of a ring\<close>

lemma overlap_point:
  "\<not> disjoint_regions a l b k \<Longrightarrow> \<exists>y. a \<le> y \<and> y < a + int l \<and> b \<le> y \<and> y < b + int k"
  by (intro exI [of _ "max a b"]) (auto simp: disjoint_regions_def)

lemma ix_decomp: "k = ix_b n k * ((2 * n - 1) * 2) + (ix_u n k * 2 + ix_t n k)"
  unfolding ix_b_def ix_u_def ix_t_def by (simp only: div_mult_mod_eq)

lemma ar_indices:
  assumes "ar_ok j" "k < ar_iters j * ((2 * jn j - 1) * 2)"
  shows "ix_b (jn j) k < ar_iters j" "ix_u (jn j) k < 2 * jn j - 1" "ix_t (jn j) k < 2"
  using block_index [OF _ assms(2)] by (simp_all add: ix_b_def ix_u_def ix_t_def)

lemma ar_no_clobber:
  assumes "ar_ok j" "p < jn j" "i < k" "k < ar_iters j * ((2 * jn j - 1) * 2)"
    and "opDst (prog (ar_cfg rop j) p ! i) = Some a" "opSrc (prog (ar_cfg rop j) p ! k) = Some b"
  shows "disjoint_regions a (opSize (prog (ar_cfg rop j) p ! i)) b (opSize (prog (ar_cfg rop j) p ! k))"
proof (rule ccontr)
  have il: "i < ar_iters j * ((2 * jn j - 1) * 2)" using assms(3,4) by linarith
  let ?n = "jn j"
  let ?bi = "ix_b ?n i" and ?ui = "ix_u ?n i" and ?ti = "ix_t ?n i" and ?bk = "ix_b ?n k" and ?uk = "ix_u ?n k" and ?tk = "ix_t ?n k"
  let ?ci = "ar_chunk ?n p ?ui" and ?ck = "ar_chunk ?n p ?uk"
  have n: "0 < ?n" using assms(2) by simp
  have a: "a = jout j p + ar_base j ?bi ?ci ?ti" "?n - 1 \<le> ?ui"
    using assms(5) unfolding ar_prog_nth [OF assms(1,2) il] by (auto split: if_splits)
  have b: "b = jin j p + ar_base j ?bk ?ck ?tk" "?uk < ?n"
    using assms(6) unfolding ar_prog_nth [OF assms(1,2,4)] by (auto split: if_splits)
  assume "\<not> disjoint_regions a (opSize (prog (ar_cfg rop j) p ! i)) b (opSize (prog (ar_cfg rop j) p ! k))"
  from overlap_point [OF this] obtain y where
    "a \<le> y" "y < a + int (nat (snd (ar_slice j ?bi ?ci ?ti)))" "b \<le> y" "y < b + int (nat (snd (ar_slice j ?bk ?ck ?tk)))"
    unfolding ar_prog_nth [OF assms(1,2) il] ar_prog_nth [OF assms(1,2,4)] by auto
  then have y: "ar_in j ?bi ?ci ?ti (y - jout j p)" "ar_in j ?bk ?ck ?tk (y - jin j p)"
    unfolding a(1) b(1) ar_in_def by (auto split: if_splits)
  note xi = ar_indices [OF assms(1) il] and xk = ar_indices [OF assms(1,4)]
  note ini = ar_in_bounds [OF assms(1) xi(1) ar_chunk_less [OF n] xi(3) y(1)]
  note ink = ar_in_bounds [OF assms(1) xk(1) ar_chunk_less [OF n] xk(3) y(2)]
  have "jin j p = jout j p \<or> partCount (jpart j) \<le> \<bar>jin j p - jout j p\<bar>" using assms(1,2) by (simp add: ar_ok_def)
  moreover have "\<bar>jin j p - jout j p\<bar> < partCount (jpart j)" using ini(1,2) ink(1,2) by linarith
  ultimately have "jin j p = jout j p" by linarith
  then have eq: "?bi = ?bk" "?ti = ?tk"
    using ar_in_unique [OF assms(1) xi(1) ar_chunk_less [OF n] xi(3) y(1) xk(1) ar_chunk_less [OF n] xk(3)] y(2) by simp_all
  have "?uk \<le> ?ui" using a(2) b(2) by linarith
  then have "k \<le> i" using ix_decomp [of k ?n] ix_decomp [of i ?n] eq by simp
  then show False using assms(3) by simp
qed

lemma ar_lagged_ring:
  assumes "ar_ok j"
  shows "lagged_ring (ar_cfg rop j) m0 (ar_val rop j m0) 4 2 (2 * jn j - 1) (ar_iters j)"
proof
  have n: "2 \<le> jn j" using assms by (simp add: ar_ok_def)
  have sel: "nRanks (ar_cfg rop j) = jn j" "stepsPerSlice (ar_cfg rop j) = 2" "connStepSize (ar_cfg rop j) = jstep j" "redOp (ar_cfg rop j) = rop"
    by (simp_all add: ar_cfg_def)
  show "stepsPerSlice (ar_cfg rop j) * 4 = NCCL_STEPS" by (simp add: sel NCCL_STEPS_def)
  show "2 \<le> 2 * jn j - 1" using n by linarith
  show "0 \<le> connStepSize (ar_cfg rop j)" using assms by (auto simp: sel ar_ok_def)
  fix p assume "p < nRanks (ar_cfg rop j)"
  then have p: "p < jn j" by (simp add: sel)
  show "length (prog (ar_cfg rop j) p) = ar_iters j * ((2 * jn j - 1) * 2)" using assms p by (rule ar_prog_length)
  fix k assume k: "k < ar_iters j * ((2 * jn j - 1) * 2)"
  note nth = ar_prog_nth [OF assms p k] and ix = ar_indices [OF assms k]
  show "int (opSize (prog (ar_cfg rop j) p ! k)) \<le> int (stepsPerSlice (ar_cfg rop j)) * connStepSize (ar_cfg rop j)"
  proof -
    have "0 \<le> jstep j" using assms by (auto simp: ar_ok_def)
    then show ?thesis using ar_slice_fits [OF assms ix(1,3)] by (simp add: nth sel mult.commute)
  qed
  show "opSend (prog (ar_cfg rop j) p ! k) \<longleftrightarrow> k mod ((2 * jn j - 1) * 2) < (2 * jn j - 1 - 1) * 2"
    using ix_u_iff [of "jn j" k "2 * jn j - 2"] by (simp add: nth numeral_2_eq_2)
  show "opRecv (prog (ar_cfg rop j) p ! k) \<longleftrightarrow> 2 \<le> k mod ((2 * jn j - 1) * 2)"
    using ix_u_iff [of "jn j" k 1] by (simp add: nth) linarith
  show "ar_val rop j m0 p k = slice_value (redOp (ar_cfg rop j)) (m0 p) (prog (ar_cfg rop j) p ! k) []"
    if "k mod ((2 * jn j - 1) * 2) < 2" using ar_first [OF assms p k that] by (simp add: sel)
  show "opSize (prog (ar_cfg rop j) (prv (nRanks (ar_cfg rop j)) p) ! (k - 2)) = opSize (prog (ar_cfg rop j) p ! k) \<and>
      ar_val rop j m0 p k = slice_value (redOp (ar_cfg rop j)) (m0 p) (prog (ar_cfg rop j) p ! k) (ar_val rop j m0 (prv (nRanks (ar_cfg rop j)) p) (k - 2))"
    if "2 \<le> k mod ((2 * jn j - 1) * 2)" unfolding sel using ar_later(1) [OF assms p k that] ar_later(2) [OF assms p k that] by blast
  show "disjoint_regions a (opSize (prog (ar_cfg rop j) p ! i)) b (opSize (prog (ar_cfg rop j) p ! k))"
    if "i < k" "opDst (prog (ar_cfg rop j) p ! i) = Some a" "opSrc (prog (ar_cfg rop j) p ! k) = Some b" for i a b
    using ar_no_clobber [OF assms p that(1) k that(2,3)] .
qed auto

text \<open>
  The contract holds for every prepared job.  To interpret it for all jobs at once, a job that is
  not prepared is replaced by an empty one.
\<close>

definition ar_prepared :: "ringjob \<Rightarrow> ringjob" where
  "ar_prepared j = (if ar_ok j then j
     else \<lparr>jn = 2, jstep = 8, jelt = 1, jpart = \<lparr>cbdCount = 0, partOffset = 0, partCount = 0, chunkCount = 16\<rparr>,
           jin = (\<lambda>_. 0), jout = (\<lambda>_. 0)\<rparr>)"

lemma ar_ok_prepared: "ar_ok (ar_prepared j)"
  by (simp add: ar_prepared_def ar_ok_def)

interpretation ar: lagged_ring "ar_cfg rop (ar_prepared j)" m0 "ar_val rop (ar_prepared j) m0" 4 2
    "2 * jn (ar_prepared j) - 1" "ar_iters (ar_prepared j)" for rop :: "'a redop" and j m0
  by (rule ar_lagged_ring) (rule ar_ok_prepared)

section \<open>Results\<close>

text \<open>The chunk an element belongs to.\<close>

definition ar_chunk_of :: "ringjob \<Rightarrow> int \<Rightarrow> nat" where
  "ar_chunk_of j e =
     (let e' = e - partOffset (jpart j); b = nat (e' div ar_LC j) in nat ((e' - int b * ar_LC j) div ar_cc j b))"

lemma ar_in_chunk_of:
  "ar_ok j \<Longrightarrow> b < ar_iters j \<Longrightarrow> c < jn j \<Longrightarrow> t < 2 \<Longrightarrow> ar_in j b c t e \<Longrightarrow> ar_chunk_of j e = c"
  using ar_in_bounds(3,4) [of j b c t e] by (simp add: ar_chunk_of_def Let_def)

text \<open>The primitive of an iteration in which position \<open>p\<close> writes the final value of chunk \<open>c\<close>.\<close>

lemma ar_writer:
  assumes "p < n" "c < n"
  shows "\<exists>u. n - 1 \<le> u \<and> u < 2 * n - 1 \<and> ar_chunk n p u = c"
proof -
  define u where "u = n - 1 + nat ((int p - int c) mod int n)"
  have m: "0 \<le> (int p - int c) mod int n" "(int p - int c) mod int n < int n" using assms by simp_all
  then have "nat ((int p - int c) mod int n) < n" by linarith
  then have "u < 2 * n - 1" using assms by (simp add: u_def)
  moreover have "ar_chunk n p u = c"
  proof -
    have "int p - int u - 1 = int p - (int p - int c) mod int n - int n" using m assms by (simp add: u_def of_nat_diff)
    then have "(int p - int u - 1) mod int n = (int p - (int p - int c) mod int n) mod int n"
      by (metis minus_mod_self2)
    also have "\<dots> = (int p - (int p - int c)) mod int n" by (rule mod_diff_right_eq)
    finally show ?thesis using assms by (simp add: ar_chunk_def)
  qed
  moreover have "n - 1 \<le> u" by (simp add: u_def)
  ultimately show ?thesis by blast
qed

lemma ar_chunk_inj:
  assumes "0 < n" "ar_chunk n p u = ar_chunk n p v" "n - 1 \<le> u" "u < 2 * n - 1" "n - 1 \<le> v" "v < 2 * n - 1"
  shows "u = v"
proof -
  have "(int p - int u - 1) mod int n = (int p - int v - 1) mod int n"
    using assms(1,2) by (simp flip: int_ar_chunk)
  then have "int n dvd (int p - int u - 1) - (int p - int v - 1)" by (simp add: mod_eq_dvd_iff)
  then have d: "int n dvd int v - int u" by simp
  have "\<bar>int v - int u\<bar> < int n" using assms by linarith
  then have "int v - int u = 0" using d assms(1) by (metis abs_of_nat dvd_imp_le_int leD)
  then show ?thesis by simp
qed

lemma ar_index:
  assumes "b < L" "u < 2 * n - 1" "t < 2"
  defines "k \<equiv> b * ((2 * n - 1) * 2) + (u * 2 + t)"
  shows "k < L * ((2 * n - 1) * 2)" "ix_b n k = b" "ix_u n k = u" "ix_t n k = t"
proof -
  have ut: "u * 2 + t < (2 * n - 1) * 2" using assms(2,3) by linarith
  have "(b + 1) * ((2 * n - 1) * 2) \<le> L * ((2 * n - 1) * 2)" using assms(1) by (intro mult_le_mono1) simp
  then show "k < L * ((2 * n - 1) * 2)" unfolding k_def using ut by (simp add: distrib_right)
  note dm = div_mod_pair [OF ut, of b] div_mod_pair [OF assms(3), of u]
  show "ix_b n k = b" "ix_u n k = u" "ix_t n k = t"
    unfolding ix_b_def ix_u_def ix_t_def k_def using dm by (simp_all only:)
qed

lemma ar_writes_iff:
  assumes "ar_ok j" "p < jn j" "k < ar_iters j * ((2 * jn j - 1) * 2)"
  shows "writes_to (prog (ar_cfg rop j) p ! k) (jout j p + e) \<longleftrightarrow> jn j - 1 \<le> ix_u (jn j) k \<and>
    ar_in j (ix_b (jn j) k) (ar_chunk (jn j) p (ix_u (jn j) k)) (ix_t (jn j) k) e"
  unfolding ar_prog_nth [OF assms] writes_to_def ar_in_def by auto

text \<open>Facts of the generic ring for a prepared job.\<close>

lemmas ar_bounded = ar.run.run_bounded
lemmas ar_final = ar.run.run_final
lemmas ar_written = ar.run.mem_after_written
lemmas ar_unwritten = ar.run.mem_after_unwritten

lemma ar_prepared_eq: "ar_ok j \<Longrightarrow> ar_prepared j = j"
  by (simp add: ar_prepared_def)

lemma nRanks_ar_cfg [simp]: "nRanks (ar_cfg rop j) = jn j"
  by (simp add: ar_cfg_def)

lemma ar_memory:
  assumes "ar_ok j" "(ring_step (ar_cfg rop j))\<^sup>*\<^sup>* (ring_init m f) s" "\<nexists>s'. ring_step (ar_cfg rop j) s s'" "p < jn j"
  shows "partOffset (jpart j) \<le> e \<Longrightarrow> e < partOffset (jpart j) + partCount (jpart j) \<Longrightarrow>
      umem s p (jout j p + e) = postOp rop (ring_red rop (jn j) (\<lambda>q. m q (jin j q + e)) (ar_chunk_of j e) (jn j - 1))"
    and "e < partOffset (jpart j) \<or> partOffset (jpart j) + partCount (jpart j) \<le> e \<Longrightarrow>
      umem s p (jout j p + e) = m p (jout j p + e)"
proof -
  let ?n = "jn j" let ?c = "ar_cfg rop j" let ?K = "ar_iters j * ((2 * jn j - 1) * 2)"
  have n: "0 < ?n" using assms(4) by simp
  have len: "length (prog ?c p) = ?K" using assms(1,4) by (rule ar_prog_length)
  have um: "umem s p = ar.run.mem_after rop j m p ?K"
    using ar_final(2) [of rop j m f s p] assms len by (simp add: ar_prepared_eq)
  show "umem s p (jout j p + e) = m p (jout j p + e)"
    if e: "e < partOffset (jpart j) \<or> partOffset (jpart j) + partCount (jpart j) \<le> e"
  proof -
    have "\<not> writes_to (prog ?c p ! k) (jout j p + e)" if "k < ?K" for k
      using ar_in_bounds(1,2) [OF assms(1) ar_indices(1) [OF assms(1) that] ar_chunk_less [OF n] ar_indices(3) [OF assms(1) that]]
        e ar_writes_iff [OF assms(1,4) that] by fastforce
    then show ?thesis
      using ar_unwritten [of p rop j ?K "jout j p + e" m] assms(1,4) len um by (simp add: ar_prepared_eq)
  qed
  show "umem s p (jout j p + e) = postOp rop (ring_red rop ?n (\<lambda>q. m q (jin j q + e)) (ar_chunk_of j e) (?n - 1))"
    if e: "partOffset (jpart j) \<le> e" "e < partOffset (jpart j) + partCount (jpart j)"
  proof -
    obtain b c t where bct: "b < ar_iters j" "c < ?n" "t < 2" "ar_in j b c t e"
      using ar_in_cover [OF assms(1) e] by blast
    obtain u where u: "?n - 1 \<le> u" "u < 2 * ?n - 1" "ar_chunk ?n p u = c" using ar_writer [OF assms(4) bct(2)] by blast
    define k where "k = b * ((2 * ?n - 1) * 2) + (u * 2 + t)"
    note k = ar_index [OF bct(1) u(2) bct(3), folded k_def]
    have later: "\<not> writes_to (prog ?c p ! i) (jout j p + e)" if i: "k < i" "i < ?K" for i
    proof
      assume w: "writes_to (prog ?c p ! i) (jout j p + e)"
      note ix = ar_indices [OF assms(1) i(2)]
      from w have wi: "?n - 1 \<le> ix_u ?n i" "ar_in j (ix_b ?n i) (ar_chunk ?n p (ix_u ?n i)) (ix_t ?n i) e"
        using ar_writes_iff [OF assms(1,4) i(2)] by blast+
      then have "b = ix_b ?n i \<and> c = ar_chunk ?n p (ix_u ?n i) \<and> t = ix_t ?n i"
        using ar_in_unique [OF assms(1) bct ix(1) ar_chunk_less [OF n] ix(3)] by blast
      moreover from this have "ix_u ?n i = u" using ar_chunk_inj [OF n, of p "ix_u ?n i" u] wi(1) ix(2) u by simp
      ultimately have "i = k" using ix_decomp [of i ?n] by (simp add: k_def)
      then show False using i(1) by simp
    qed
    have op: "opDst (prog ?c p ! k) = Some (jout j p + ar_base j b c t)" "int (opSize (prog ?c p ! k)) = max 0 (snd (ar_slice j b c t))"
      using u k unfolding ar_prog_nth [OF assms(1,4) k(1)] by (simp_all add: max_def)
    have "ar.run.mem_after rop j m p ?K (jout j p + e) = ar_val rop j m p k ! nat (e - ar_base j b c t)"
      using ar_written [of p rop j ?K k "jout j p + ar_base j b c t" "jout j p + e" m] assms(1,4) len k(1) op later bct(4)
      by (auto simp: ar_prepared_eq ar_in_def)
    also have "\<dots> = ar_elt rop j m u c e"
      using bct(4) u(3) k by (auto simp: ar_val_def Let_def ar_in_def nat_less_iff)
    also have "\<dots> = postOp rop (ring_red rop ?n (\<lambda>q. m q (jin j q + e)) c (?n - 1))"
      using u(1) by (simp add: ar_elt_def)
    finally show ?thesis using um ar_in_chunk_of [OF assms(1) bct] by simp
  qed
qed

text \<open>For associative and commutative operators the order of the ring does not matter.\<close>

lemma foldl_rotate1:
  assumes assoc: "\<And>a b c. f (f a b) c = f a (f b c)" and comm: "\<And>a b. f a b = f b a" and "length xs \<ge> 1"
  shows "foldl f (hd (rotate1 xs)) (tl (rotate1 xs)) = foldl f (hd xs) (tl xs)"
proof -
  have pull: "foldl f (f y a) bs = f y (foldl f a bs)" for y a bs
    by (induction bs arbitrary: a) (simp_all add: assoc)
  obtain y ys where xs: "xs = y # ys" using assms(3) by (cases xs) auto
  show ?thesis
  proof (cases ys)
    case (Cons a bs)
    then show ?thesis using pull [of y a bs] comm [of "foldl f a bs" y] by (simp add: xs)
  qed (simp add: xs)
qed

lemma foldl_rotate:
  assumes "\<And>a b c. f (f a b) c = f a (f b c)" "\<And>a b. f a b = f b a" "length xs \<ge> 1"
  shows "foldl f (hd (rotate k xs)) (tl (rotate k xs)) = foldl f (hd xs) (tl xs)"
proof (induction k)
  case (Suc k)
  then show ?case using foldl_rotate1 [OF assms(1,2), of "rotate k xs"] assms(3) by simp
qed simp

lemma ring_red_foldl:
  assumes "\<And>a b. redFn rop a b = redFn rop b a"
  shows "ring_red rop n x c m = foldl (redFn rop) (preOp rop (x ((c + 1) mod n)))
    (map (\<lambda>i. preOp rop (x ((c + 1 + i) mod n))) [1..<Suc m])"
  by (induction m) (simp_all add: assms [of "preOp rop (x (Suc (Suc (c + _)) mod n))"])

definition reduce_all :: "'a redop \<Rightarrow> nat \<Rightarrow> (nat \<Rightarrow> 'a) \<Rightarrow> 'a" where
  "reduce_all rop n x = postOp rop (foldl (redFn rop) (preOp rop (x 0)) (map (\<lambda>q. preOp rop (x q)) [1..<n]))"

lemma ring_red_reduce_all:
  assumes "\<And>a b c. redFn rop (redFn rop a b) c = redFn rop a (redFn rop b c)" "\<And>a b. redFn rop a b = redFn rop b a" "0 < n"
  shows "postOp rop (ring_red rop n x c (n - 1)) = reduce_all rop n x"
proof -
  let ?xs = "map (\<lambda>q. preOp rop (x q)) [0..<n]"
  have rot: "rotate k ?xs = map (\<lambda>i. preOp rop (x ((k + i) mod n))) [0..<n]" for k
    by (rule nth_equalityI) (simp_all add: nth_rotate)
  have up: "[0..<n] = 0 # [1..<n]" using assms(3) by (simp add: upt_conv_Cons)
  have "ring_red rop n x c (n - 1) = foldl (redFn rop) (hd (rotate (c + 1) ?xs)) (tl (rotate (c + 1) ?xs))"
    unfolding rot ring_red_foldl [OF assms(2)] using assms(3) by (simp add: up)
  also have "\<dots> = foldl (redFn rop) (hd ?xs) (tl ?xs)"
    using assms(3) by (intro foldl_rotate [OF assms(1,2)]) simp
  finally show ?thesis unfolding reduce_all_def up by simp
qed

text \<open>
  C1: The AllReduce ring is correct under every interleaving.  From any initial memory, an execution
  that can not be continued has finished on all ranks; on every rank each element of the channel's
  part of the output then is the reduction of that element of all inputs (with an associative and
  commutative operator, pre-operation on each input and post-operation on the result), and all other
  memory of the rank is unchanged.
\<close>

theorem allReduce_ring_correct:
  assumes "ar_ok j"
    and "\<forall>a b c. redFn rop (redFn rop a b) c = redFn rop a (redFn rop b c)" and "\<forall>a b. redFn rop a b = redFn rop b a"
    and "(ring_step (ar_cfg rop j))\<^sup>*\<^sup>* (ring_init m f) s" and "\<nexists>s'. ring_step (ar_cfg rop j) s s'"
  shows "ring_done (ar_cfg rop j) s \<and>
    (\<forall>p < jn j. \<forall>e. umem s p (jout j p + e) =
       (if partOffset (jpart j) \<le> e \<and> e < partOffset (jpart j) + partCount (jpart j)
        then reduce_all rop (jn j) (\<lambda>q. m q (jin j q + e)) else m p (jout j p + e)))"
proof (intro conjI allI impI)
  show "ring_done (ar_cfg rop j) s" using ar_final(1) [of rop j m f s] assms(1,4,5) by (simp add: ar_prepared_eq)
  fix p e assume p: "p < jn j"
  note mem = ar_memory [OF assms(1,4,5) p, of e]
  have r: "postOp rop (ring_red rop (jn j) x c (jn j - 1)) = reduce_all rop (jn j) x" for x c
    using assms(2,3) p by (intro ring_red_reduce_all) simp_all
  show "umem s p (jout j p + e) = (if partOffset (jpart j) \<le> e \<and> e < partOffset (jpart j) + partCount (jpart j)
        then reduce_all rop (jn j) (\<lambda>q. m q (jin j q + e)) else m p (jout j p + e))"
    using mem unfolding r by (auto simp: not_le not_less)
qed


text \<open>An example job: two ranks, one element, in place.\<close>

definition ar_example :: ringjob where
  "ar_example = \<lparr>jn = 2, jstep = 8, jelt = 4, jpart = \<lparr>cbdCount = 3, partOffset = 0, partCount = 3, chunkCount = 16\<rparr>,
     jin = (\<lambda>_. 0), jout = (\<lambda>_. 0)\<rparr>"

definition sum_op :: "int redop" where
  "sum_op = \<lparr>preOp = (\<lambda>x. x), redFn = (+), postOp = (\<lambda>x. x)\<rparr>"

lemma ar_example_sel [simp]:
  "jn ar_example = 2" "jstep ar_example = 8" "jelt ar_example = 4" "jin ar_example p = 0" "jout ar_example p = 0"
  "jpart ar_example = \<lparr>cbdCount = 3, partOffset = 0, partCount = 3, chunkCount = 16\<rparr>"
  by (simp_all add: ar_example_def)

lemma ar_ok_example: "ar_ok ar_example"
  by (simp add: ar_ok_def)

lemma ar_run_exists:
  "ar_ok j \<Longrightarrow> \<exists>s. (ring_step (ar_cfg rop j))\<^sup>*\<^sup>* (ring_init m f) s \<and> (\<nexists>s'. ring_step (ar_cfg rop j) s s')"
  using ar.run.run_exists [of rop j m f] by (simp add: ar_prepared_eq)

theorem allReduce_ring_correct_witness:
  "\<exists>s. (ring_step (ar_cfg sum_op ar_example))\<^sup>*\<^sup>* (ring_init (\<lambda>q a. if q = 0 then a + 10 else 20 * a) (\<lambda>_ _. 0)) s \<and>
     umem s 0 2 = 12 + 40 \<and> umem s 1 1 = 11 + 20 \<and> umem s 1 3 = 60"
proof -
  let ?m = "\<lambda>q a. if q = 0 then a + 10 else 20 * a :: int"
  obtain s where s: "(ring_step (ar_cfg sum_op ar_example))\<^sup>*\<^sup>* (ring_init ?m (\<lambda>_ _. 0)) s"
    "\<nexists>s'. ring_step (ar_cfg sum_op ar_example) s s'"
    using ar_run_exists [OF ar_ok_example] by blast
  have sum: "\<forall>a b c. redFn sum_op (redFn sum_op a b) c = redFn sum_op a (redFn sum_op b c)"
    "\<forall>a b. redFn sum_op a b = redFn sum_op b a" by (simp_all add: sum_op_def)
  have m: "\<forall>p < 2. \<forall>e. umem s p e = (if 0 \<le> e \<and> e < 3 then reduce_all sum_op 2 (\<lambda>q. ?m q e) else ?m p e)"
    using allReduce_ring_correct [OF ar_ok_example sum s] unfolding ar_example_sel add_0_left by simp
  have "umem s 0 2 = 12 + 40" "umem s 1 1 = 11 + 20" "umem s 1 3 = 60"
    using m [rule_format, of 0 2] m [rule_format, of 1 1] m [rule_format, of 1 3]
    by (simp_all add: reduce_all_def sum_op_def upt_conv_Cons)
  then show ?thesis using s(1) by blast
qed

text \<open>
  C2: The AllReduce ring does not deadlock and ends.  Every execution takes at most two steps for
  each slice of each rank, and a reachable state in which some rank has not finished can always be
  continued.
\<close>

theorem allReduce_ring_progress:
  assumes "ar_ok j" and "(ring_step (ar_cfg rop j) ^^ k) (ring_init m f) s"
  shows "k \<le> (\<Sum>p < jn j. 2 * length (prog (ar_cfg rop j) p)) \<and>
    (ring_done (ar_cfg rop j) s \<or> (\<exists>s'. ring_step (ar_cfg rop j) s s'))"
proof -
  have "k \<le> (\<Sum>p < jn j. 2 * length (prog (ar_cfg rop j) p))"
    using ar_bounded [of k rop j m f s] assms by (simp add: ar_prepared_eq)
  moreover have "ring_done (ar_cfg rop j) s \<or> (\<exists>s'. ring_step (ar_cfg rop j) s s')"
    using ar_final(1) [of rop j m f s] relpowp_imp_rtranclp [OF assms(2)] assms(1) by (auto simp: ar_prepared_eq)
  ultimately show ?thesis ..
qed

theorem allReduce_ring_progress_witness:
  "\<exists>s'. ring_step (ar_cfg sum_op ar_example) (ring_init (\<lambda>_ _. 0) (\<lambda>_ _. 0)) s'"
proof -
  have "\<not> ring_done (ar_cfg sum_op ar_example) (ring_init (\<lambda>_ _. 0) (\<lambda>_ _. 0))"
    using ar_prog_length [OF ar_ok_example, of 0 sum_op]
    by (auto simp: ring_done_def ring_init_def n_iters_def divUp_s_def signed_divide_int_def intro!: exI [of _ 0])
  then show ?thesis
    using allReduce_ring_progress [OF ar_ok_example, of 0 sum_op "\<lambda>_ _. 0" "\<lambda>_ _. 0"] by auto
qed

end
