(* ===== verification/Ring_AllGather.thy ===== *)
theory Ring_AllGather
  imports Ring_AllReduce
begin

text \<open>
  Correctness of the AllGather ring: under every interleaving every rank ends up with the input of
  every rank in that rank's block of its output.  In-place inputs are covered.
\<close>

section \<open>Program\<close>

text \<open>The ring order as seen from position \<open>p\<close>, when \<open>ranks\<close> is the rank at each position.\<close>

definition ring_view :: "nat \<Rightarrow> (nat \<Rightarrow> nat) \<Rightarrow> nat \<Rightarrow> int \<Rightarrow> int" where
  "ring_view n ranks p i = int (ranks ((p + nat i) mod n))"

definition ag_pos :: "nat \<Rightarrow> nat \<Rightarrow> nat \<Rightarrow> nat" where
  "ag_pos n p u = nat ((int p - int u) mod int n)"

lemma ag_pos_less: "0 < n \<Longrightarrow> ag_pos n p u < n"
  by (simp add: ag_pos_def nat_less_iff)

lemma int_ag_pos: "0 < n \<Longrightarrow> int (ag_pos n p u) = (int p - int u) mod int n"
  by (simp add: ag_pos_def)

lemma ag_pos_0: "p < n \<Longrightarrow> ag_pos n p 0 = p"
  by (simp add: ag_pos_def)

lemma ag_pos_prv: "0 < n \<Longrightarrow> ag_pos n (prv n p) u = ag_pos n p (Suc u)"
proof -
  assume n: "0 < n"
  have "int (ag_pos n (prv n p) u) = ((int p - 1) mod int n - int u) mod int n"
    using n by (simp add: int_ag_pos int_prv)
  also have "\<dots> = (int p - 1 - int u) mod int n" by (rule mod_diff_left_eq)
  also have "\<dots> = int (ag_pos n p (Suc u))" using n by (simp add: int_ag_pos algebra_simps)
  finally show ?thesis by linarith
qed

lemma ring_view_pos:
  assumes "0 < n" "int p + i = int p - int u + z * int n" "0 \<le> i"
  shows "ring_view n ranks p i = int (ranks (ag_pos n p u))"
proof -
  have "int ((p + nat i) mod n) = (int p + i) mod int n" using assms(3) by (simp add: zmod_int)
  also have "\<dots> = (int p - int u) mod int n" unfolding assms(2) by simp
  also have "\<dots> = int (ag_pos n p u)" using assms(1) by (simp add: int_ag_pos)
  finally have "(p + nat i) mod n = ag_pos n p u" by linarith
  then show ?thesis by (simp add: ring_view_def)
qed

definition ag_op :: "prims \<Rightarrow> nat \<Rightarrow> (nat \<Rightarrow> nat) \<Rightarrow> nat \<Rightarrow> cbd_part \<Rightarrow> nat \<Rightarrow> nat \<Rightarrow> slice_op list" where
  "ag_op pr n ranks p part b u =
     (let dataOffset = partOffset part + int b * chunkCount part;
          off = dataOffset + int (ranks (ag_pos n p u)) * cbdCount part
      in genericOp pr (0 < u) (u < n - 1) (if u = 0 then Some Input else None)
           (if u = 0 \<and> userInput pr + dataOffset = userOutput pr + off then None else Some Output)
           (if u = 0 then dataOffset else off) off
           (min (chunkCount part) (partCount part - int b * chunkCount part)) False)"

lemma length_ag_op: "length (ag_op pr n ranks p part b u) = SlicePerChunk pr"
  by (simp add: ag_op_def Let_def)

lemma upt_split_chain:
  assumes "2 \<le> n"
  shows "[0..<n] = [0] @ [1..<n - 1] @ [n - 1]"
proof -
  obtain m where n: "n = Suc (Suc m)" using assms by (metis add_2_eq_Suc le_Suc_ex)
  have "[0..<Suc (Suc m)] = 0 # [1..<Suc m] @ [Suc m]"
    using upt_conv_Cons [of 0 "Suc m"] by (simp add: upt_Suc_append)
  then show ?thesis by (simp add: n del: upt_Suc)
qed

lemma allGather_body_eq:
  assumes "2 \<le> n" "p < n"
  shows "allGather_body pr (int n) (ring_view n ranks p) part (int b * chunkCount part) =
    concat (map (ag_op pr n ranks p part b) [0..<n])"
proof -
  have n: "0 < n" using assms by simp
  have c0: "ring_view n ranks p 0 = int (ranks (ag_pos n p 0))"
    using n by (intro ring_view_pos [where z = 0]) simp_all
  have c1: "ring_view n ranks p (int n - int u) = int (ranks (ag_pos n p u))" if "1 \<le> u" "u < n - 1" for u
    using n that by (intro ring_view_pos [where z = 1]) simp_all
  have c2: "ring_view n ranks p 1 = int (ranks (ag_pos n p (n - 1)))"
    using assms by (intro ring_view_pos [where z = 1]) (simp_all add: of_nat_diff)
  have nn: "0 < n - 1" "n - 1 \<noteq> 0" "\<not> n \<le> Suc 0" using assms by auto
  show ?thesis
    unfolding allGather_body_def Let_def upt_split_chain [OF assms(1)] map_upto_ring map_append concat_append
    apply (intro arg_cong2 [where f = append])
    subgoal using nn by (simp add: c0 ag_op_def Let_def directSend_def directCopySend_def)
    subgoal using nn by (auto intro!: arg_cong [where f = concat] simp: c1 ag_op_def Let_def directRecvCopyDirectSend_def)
    subgoal using nn by (simp add: c2 ag_op_def Let_def directRecv_def)
    done
qed

section \<open>A job\<close>

definition ag_cfg :: "'a redop \<Rightarrow> ringjob \<Rightarrow> (nat \<Rightarrow> nat) \<Rightarrow> 'a ringcfg" where
  "ag_cfg rop j ranks = \<lparr>nRanks = jn j, stepsPerSlice = 2, connStepSize = jstep j, redOp = rop,
     prog = (\<lambda>p. the (runRing_AllGather (job_prims 2 2 j p) (int (jn j)) (ring_view (jn j) ranks p) (jpart j)))\<rparr>"

abbreviation ag_out :: "ringjob \<Rightarrow> (nat \<Rightarrow> nat) \<Rightarrow> nat \<Rightarrow> nat \<Rightarrow> int" where
  "ag_out j ranks p q \<equiv> jout j p + int (ranks q) * cbdCount (jpart j)"

text \<open>
  The channel's part lies within the count, the ranks of the ring are distinct, and the input of a
  rank is its own block of the output or does not overlap the output.
\<close>

definition ag_ok :: "ringjob \<Rightarrow> (nat \<Rightarrow> nat) \<Rightarrow> bool" where
  "ag_ok j ranks \<longleftrightarrow> 2 \<le> jn j \<and> lin_ok 2 2 (jstep j) (jpart j) \<and>
     0 \<le> partOffset (jpart j) \<and> partOffset (jpart j) + partCount (jpart j) \<le> cbdCount (jpart j) \<and>
     (\<forall>p < jn j. ranks p < jn j) \<and> inj_on ranks {..<jn j} \<and>
     (\<forall>p < jn j. jin j p = ag_out j ranks p p \<or>
        jin j p + cbdCount (jpart j) \<le> jout j p \<or> jout j p + int (jn j) * cbdCount (jpart j) \<le> jin j p)"

definition ag_inplace :: "ringjob \<Rightarrow> (nat \<Rightarrow> nat) \<Rightarrow> nat \<Rightarrow> bool" where
  "ag_inplace j ranks p \<longleftrightarrow> jin j p = ag_out j ranks p p"

abbreviation ag_base :: "ringjob \<Rightarrow> nat \<Rightarrow> int" where
  "ag_base j k \<equiv> lin_base 2 2 (jstep j) (jpart j) (bix (jn j) 2 k) (tix (jn j) 2 k)"

abbreviation ag_size :: "ringjob \<Rightarrow> nat \<Rightarrow> int" where
  "ag_size j k \<equiv> snd (lin_slice 2 2 (jstep j) (jpart j) (bix (jn j) 2 k) (tix (jn j) 2 k))"

abbreviation ag_len :: "ringjob \<Rightarrow> nat" where
  "ag_len j \<equiv> lin_iters (jpart j) * (jn j * 2)"

lemma runRing_AllGather_blocks:
  assumes "ag_ok j ranks" "p < jn j"
  shows "runRing_AllGather (job_prims 2 2 j p) (int (jn j)) (ring_view (jn j) ranks p) (jpart j) =
    Some (blocks (lin_iters (jpart j)) (jn j) (ag_op (job_prims 2 2 j p) (jn j) ranks p (jpart j)))"
  using assms unfolding runRing_AllGather_def blocks_def
  by (subst chunk_loop_eq) (simp_all add: ag_ok_def lin_ok_def allGather_body_eq)

lemma ag_prog_length: "ag_ok j ranks \<Longrightarrow> p < jn j \<Longrightarrow> length (prog (ag_cfg rop j ranks) p) = ag_len j"
  by (simp add: ag_cfg_def runRing_AllGather_blocks length_blocks [where s = 2] length_ag_op)

lemma ag_prog_nth:
  assumes "ag_ok j ranks" "p < jn j" "k < ag_len j"
  defines "u \<equiv> uix (jn j) 2 k"
  shows "prog (ag_cfg rop j ranks) p ! k =
    \<lparr>opRecv = (0 < u), opSend = (u < jn j - 1), opSrc = (if u = 0 then Some (jin j p + ag_base j k) else None),
     opPre = (u = 0),
     opDst = (if u = 0 \<and> ag_inplace j ranks p then None
              else Some (ag_out j ranks p (ag_pos (jn j) p u) + ag_base j k)),
     opSize = nat (ag_size j k), opPost = False\<rparr>"
proof -
  have t: "tix (jn j) 2 k < 2" by (simp add: tix_def)
  have "prog (ag_cfg rop j ranks) p ! k = ag_op (job_prims 2 2 j p) (jn j) ranks p (jpart j) (bix (jn j) 2 k) u ! tix (jn j) 2 k"
    unfolding u_def bix_def uix_def tix_def
    by (simp add: ag_cfg_def runRing_AllGather_blocks [OF assms(1,2)])
      (rule nth_blocks, simp add: length_ag_op, use assms(3) in simp)
  then show ?thesis
    using t assms(2) by (auto simp: ag_op_def Let_def nth_genericOp split_beta userPtr_def lin_base_def lin_slice_def
        ag_inplace_def ag_pos_0 add.assoc add.left_commute)
qed

definition ag_val :: "'a redop \<Rightarrow> ringjob \<Rightarrow> (nat \<Rightarrow> int \<Rightarrow> 'a) \<Rightarrow> nat \<Rightarrow> nat \<Rightarrow> 'a list" where
  "ag_val rop j m0 p k =
     (let q = ag_pos (jn j) p (uix (jn j) 2 k)
      in map (\<lambda>i. preOp rop (m0 q (jin j q + (ag_base j k + int i)))) [0..<nat (ag_size j k)])"

section \<open>The kernel satisfies the contract of a ring\<close>

lemma ag_indices:
  assumes "k < ag_len j"
  shows "bix (jn j) 2 k < lin_iters (jpart j)" "uix (jn j) 2 k < jn j" "tix (jn j) 2 k < 2"
  using ix_less [OF _ assms] by simp_all

lemma ag_later:
  assumes "ag_ok j ranks" "p < jn j" "k < ag_len j" "2 \<le> k mod (jn j * 2)"
  defines "q \<equiv> prv (jn j) p"
  shows "opSize (prog (ag_cfg rop j ranks) q ! (k - 2)) = opSize (prog (ag_cfg rop j ranks) p ! k)"
    and "ag_val rop j m0 p k = slice_value rop (m0 p) (prog (ag_cfg rop j ranks) p ! k) (ag_val rop j m0 q (k - 2))"
proof -
  have n: "0 < jn j" using assms(2) by simp
  have q: "q < jn j" using assms(2) by (simp add: q_def)
  have k2: "k - 2 < ag_len j" using assms(3) by linarith
  note ix = ix_prev [OF assms(4) _ n, simplified]
  have cq: "ag_pos (jn j) q (uix (jn j) 2 (k - 2)) = ag_pos (jn j) p (uix (jn j) 2 k)"
    unfolding q_def ix(3) using n by (rule ag_pos_prv)
  show "opSize (prog (ag_cfg rop j ranks) q ! (k - 2)) = opSize (prog (ag_cfg rop j ranks) p ! k)"
    unfolding ag_prog_nth [OF assms(1-3)] ag_prog_nth [OF assms(1) q k2] ix(1,2) by simp
  have "uix (jn j) 2 k \<noteq> 0" using ix(3) by simp
  then show "ag_val rop j m0 p k = slice_value rop (m0 p) (prog (ag_cfg rop j ranks) p ! k) (ag_val rop j m0 q (k - 2))"
    unfolding ag_prog_nth [OF assms(1-3)] slice_value_def slice_srcs_def reduceCopy_def ag_val_def Let_def cq ix(1,2)
    by (auto simp: reduceCopyElt_def)
qed

lemma ag_first:
  assumes "ag_ok j ranks" "p < jn j" "k < ag_len j" "k mod (jn j * 2) < 2"
  shows "ag_val rop j m0 p k = slice_value rop (m0 p) (prog (ag_cfg rop j ranks) p ! k) []"
proof -
  have "uix (jn j) 2 k = 0" using uix_less_iff [of 2 "jn j" k 1] assms(4) by simp
  then show ?thesis
    unfolding ag_prog_nth [OF assms(1-3)] slice_value_def slice_srcs_def reduceCopy_def ag_val_def Let_def
    using assms(2) by (auto simp: reduceCopyElt_def read_at_def ag_pos_0 add.assoc)
qed

text \<open>An address of the output belongs to one rank's block and one offset in it.\<close>

lemma block_address_unique:
  fixes a b :: nat and c e e' :: int
  assumes "int a * c + e = int b * c + e'" "0 \<le> e" "e < c" "0 \<le> e'" "e' < c"
  shows "a = b \<and> e = e'"
proof -
  have "int a = (int a * c + e) div c" using div_eq_iff_bounds [of c "int a" "int a * c + e"] assms(2,3) by (simp add: distrib_right)
  moreover have "int b = (int b * c + e') div c" using div_eq_iff_bounds [of c "int b" "int b * c + e'"] assms(4,5) by (simp add: distrib_right)
  ultimately have "a = b" using assms(1) by simp
  then show ?thesis using assms(1) by simp
qed

lemma ag_elt_bounds:
  assumes "ag_ok j ranks" "k < ag_len j" "lin_in 2 2 (jstep j) (jpart j) (bix (jn j) 2 k) (tix (jn j) 2 k) e"
  shows "0 \<le> e" "e < cbdCount (jpart j)" "partOffset (jpart j) \<le> e" "e < partOffset (jpart j) + partCount (jpart j)"
proof -
  have ok: "lin_ok 2 2 (jstep j) (jpart j)" "0 \<le> partOffset (jpart j)"
    "partOffset (jpart j) + partCount (jpart j) \<le> cbdCount (jpart j)"
    using assms(1) by (auto simp: ag_ok_def)
  note b = lin_in_bounds [OF ok(1) ag_indices(3) [OF assms(2)] assms(3)]
  show "0 \<le> e" "e < cbdCount (jpart j)" "partOffset (jpart j) \<le> e" "e < partOffset (jpart j) + partCount (jpart j)"
    using b(1,2) ok(2,3) by linarith+
qed

lemma ag_no_clobber:
  assumes "ag_ok j ranks" "p < jn j" "i < k" "k < ag_len j"
    and "opDst (prog (ag_cfg rop j ranks) p ! i) = Some a" "opSrc (prog (ag_cfg rop j ranks) p ! k) = Some b"
  shows "disjoint_regions a (opSize (prog (ag_cfg rop j ranks) p ! i)) b (opSize (prog (ag_cfg rop j ranks) p ! k))"
proof (rule ccontr)
  have il: "i < ag_len j" using assms(3,4) by linarith
  let ?q = "ag_pos (jn j) p (uix (jn j) 2 i)"
  have n: "0 < jn j" using assms(2) by simp
  have a: "a = ag_out j ranks p ?q + ag_base j i"
    using assms(5) unfolding ag_prog_nth [OF assms(1,2) il] by (auto split: if_splits)
  have b: "b = jin j p + ag_base j k" "uix (jn j) 2 k = 0"
    using assms(6) unfolding ag_prog_nth [OF assms(1,2,4)] by (auto split: if_splits)
  assume "\<not> disjoint_regions a (opSize (prog (ag_cfg rop j ranks) p ! i)) b (opSize (prog (ag_cfg rop j ranks) p ! k))"
  from overlap_point [OF this] obtain y where
    "a \<le> y" "y < a + int (nat (ag_size j i))" "b \<le> y" "y < b + int (nat (ag_size j k))"
    unfolding ag_prog_nth [OF assms(1,2) il] ag_prog_nth [OF assms(1,2,4)] by auto
  then have "lin_in 2 2 (jstep j) (jpart j) (bix (jn j) 2 i) (tix (jn j) 2 i) (y - ag_out j ranks p ?q)"
    "lin_in 2 2 (jstep j) (jpart j) (bix (jn j) 2 k) (tix (jn j) 2 k) (y - jin j p)"
    unfolding a b(1) lin_in_def by (auto split: if_splits)
  then obtain e e' where e: "lin_in 2 2 (jstep j) (jpart j) (bix (jn j) 2 i) (tix (jn j) 2 i) e" "y = ag_out j ranks p ?q + e"
    and e': "lin_in 2 2 (jstep j) (jpart j) (bix (jn j) 2 k) (tix (jn j) 2 k) e'" "y = jin j p + e'"
    by (metis add.commute diff_add_cancel)
  note be = ag_elt_bounds [OF assms(1) il e(1)] and be' = ag_elt_bounds [OF assms(1,4) e'(1)]
  have rq: "ranks ?q < jn j" using assms(1) ag_pos_less [OF n] by (simp add: ag_ok_def)
  have "(int (ranks ?q) + 1) * cbdCount (jpart j) \<le> int (jn j) * cbdCount (jpart j)"
    using rq be(1,2) by (intro mult_right_mono) auto
  moreover have "0 \<le> int (ranks ?q) * cbdCount (jpart j)" using be(1,2) by simp
  ultimately have "jout j p \<le> y" "y < jout j p + int (jn j) * cbdCount (jpart j)"
    using e(2) be(1,2) by (auto simp: distrib_right)
  then have "jin j p = ag_out j ranks p p"
    using assms(1,2) e'(2) be'(1,2) by (fastforce simp: ag_ok_def)
  then have "int (ranks p) * cbdCount (jpart j) + e' = int (ranks ?q) * cbdCount (jpart j) + e"
    using e(2) e'(2) by simp
  then have ee: "e = e'" using block_address_unique [OF _ be'(1,2) be(1,2)] by blast
  have "bix (jn j) 2 i = bix (jn j) 2 k \<and> tix (jn j) 2 i = tix (jn j) 2 k"
    using lin_in_unique [OF _ ag_indices(3) [OF il] e(1) ag_indices(3) [OF assms(4)]] e'(1) ee assms(1)
    by (simp add: ag_ok_def)
  then have "k \<le> i" using ix_split [of k "jn j" 2] ix_split [of i "jn j" 2] b(2) by simp
  then show False using assms(3) by simp
qed

lemma ag_lagged_ring:
  assumes "ag_ok j ranks"
  shows "lagged_ring (ag_cfg rop j ranks) m0 (ag_val rop j m0) 4 2 (jn j) (lin_iters (jpart j))"
proof
  have sel: "nRanks (ag_cfg rop j ranks) = jn j" "stepsPerSlice (ag_cfg rop j ranks) = 2"
    "connStepSize (ag_cfg rop j ranks) = jstep j" "redOp (ag_cfg rop j ranks) = rop"
    by (simp_all add: ag_cfg_def)
  have ok: "2 \<le> jn j" "lin_ok 2 2 (jstep j) (jpart j)" using assms by (simp_all add: ag_ok_def)
  show "stepsPerSlice (ag_cfg rop j ranks) * 4 = NCCL_STEPS" by (simp add: sel NCCL_STEPS_def)
  show "2 \<le> jn j" by (rule ok(1))
  show "0 \<le> connStepSize (ag_cfg rop j ranks)" using ok(2) by (simp add: sel lin_ok_def)
  fix p assume "p < nRanks (ag_cfg rop j ranks)"
  then have p: "p < jn j" by (simp add: sel)
  show "length (prog (ag_cfg rop j ranks) p) = ag_len j" using assms p by (rule ag_prog_length)
  fix k assume k: "k < ag_len j"
  note nth = ag_prog_nth [OF assms p k] and ix = ag_indices [OF k]
  show "int (opSize (prog (ag_cfg rop j ranks) p ! k)) \<le> int (stepsPerSlice (ag_cfg rop j ranks)) * connStepSize (ag_cfg rop j ranks)"
    using lin_slice_fits [OF ok(2) ix(3), of "bix (jn j) 2 k"] ok(2) by (simp add: nth sel lin_ok_def)
  show "opSend (prog (ag_cfg rop j ranks) p ! k) \<longleftrightarrow> k mod (jn j * 2) < (jn j - 1) * 2"
    using uix_less_iff [of 2 "jn j" k "jn j - 1"] by (simp add: nth)
  show "opRecv (prog (ag_cfg rop j ranks) p ! k) \<longleftrightarrow> 2 \<le> k mod (jn j * 2)"
    using uix_less_iff [of 2 "jn j" k 1] by (simp add: nth) linarith
  show "ag_val rop j m0 p k = slice_value (redOp (ag_cfg rop j ranks)) (m0 p) (prog (ag_cfg rop j ranks) p ! k) []"
    if "k mod (jn j * 2) < 2" unfolding sel using ag_first [OF assms p k that] .
  show "opSize (prog (ag_cfg rop j ranks) (prv (nRanks (ag_cfg rop j ranks)) p) ! (k - 2)) = opSize (prog (ag_cfg rop j ranks) p ! k) \<and>
      ag_val rop j m0 p k = slice_value (redOp (ag_cfg rop j ranks)) (m0 p) (prog (ag_cfg rop j ranks) p ! k)
        (ag_val rop j m0 (prv (nRanks (ag_cfg rop j ranks)) p) (k - 2))"
    if "2 \<le> k mod (jn j * 2)" unfolding sel using ag_later(1) [OF assms p k that] ag_later(2) [OF assms p k that] by blast
  show "disjoint_regions a (opSize (prog (ag_cfg rop j ranks) p ! i)) b (opSize (prog (ag_cfg rop j ranks) p ! k))"
    if "i < k" "opDst (prog (ag_cfg rop j ranks) p ! i) = Some a" "opSrc (prog (ag_cfg rop j ranks) p ! k) = Some b" for i a b
    using ag_no_clobber [OF assms p that(1) k that(2,3)] .
qed auto

definition ag_prepared :: "ringjob \<times> (nat \<Rightarrow> nat) \<Rightarrow> ringjob \<times> (nat \<Rightarrow> nat)" where
  "ag_prepared jr = (if ag_ok (fst jr) (snd jr) then jr
     else (\<lparr>jn = 2, jstep = 8, jelt = 1, jpart = \<lparr>cbdCount = 0, partOffset = 0, partCount = 0, chunkCount = 16\<rparr>,
            jin = (\<lambda>_. 0), jout = (\<lambda>_. 0)\<rparr>, \<lambda>p. p))"

lemma ag_ok_prepared: "ag_ok (fst (ag_prepared jr)) (snd (ag_prepared jr))"
  by (simp add: ag_prepared_def ag_ok_def lin_ok_def)

lemma ag_prepared_eq: "ag_ok j ranks \<Longrightarrow> ag_prepared (j, ranks) = (j, ranks)"
  by (simp add: ag_prepared_def)

interpretation ag: lagged_ring "ag_cfg rop (fst (ag_prepared jr)) (snd (ag_prepared jr))" m0
    "ag_val rop (fst (ag_prepared jr)) m0" 4 2 "jn (fst (ag_prepared jr))" "lin_iters (jpart (fst (ag_prepared jr)))"
  for rop :: "'a redop" and jr m0
  by (rule ag_lagged_ring) (rule ag_ok_prepared)

section \<open>Results\<close>

lemmas ag_bounded = ag.run.run_bounded
lemmas ag_final = ag.run.run_final
lemmas ag_written = ag.run.mem_after_written
lemmas ag_unwritten = ag.run.mem_after_unwritten

lemma nRanks_ag_cfg [simp]: "nRanks (ag_cfg rop j ranks) = jn j"
  by (simp add: ag_cfg_def)

lemma ag_pos_inv:
  assumes "p < n" "q < n"
  shows "\<exists>u < n. ag_pos n p u = q" and "u < n \<Longrightarrow> v < n \<Longrightarrow> ag_pos n p u = ag_pos n p v \<Longrightarrow> u = v"
proof -
  let ?u = "nat ((int p - int q) mod int n)"
  have m: "0 \<le> (int p - int q) mod int n" "(int p - int q) mod int n < int n" using assms by simp_all
  have "(int p - int ?u) mod int n = (int p - (int p - int q)) mod int n"
    using m(1) by (simp only: int_nat_eq if_True mod_diff_right_eq)
  then have "ag_pos n p ?u = q" using assms by (simp add: ag_pos_def)
  moreover have "?u < n" using m by linarith
  ultimately show "\<exists>u < n. ag_pos n p u = q" by blast
  assume uv: "u < n" "v < n" "ag_pos n p u = ag_pos n p v"
  then have "(int p - int u) mod int n = (int p - int v) mod int n" using int_ag_pos [of n p] assms by (metis gr_zeroI not_less0)
  then have "int n dvd (int p - int u) - (int p - int v)" by (simp add: mod_eq_dvd_iff)
  then have d: "int n dvd int v - int u" by simp
  have "\<bar>int v - int u\<bar> < int n" using uv by linarith
  then have "int v - int u = 0" using d assms by (metis abs_of_nat dvd_imp_le_int leD)
  then show "u = v" by simp
qed

lemma ag_writes_iff:
  assumes "ag_ok j ranks" "p < jn j" "q < jn j" "k < ag_len j" "0 \<le> e" "e < cbdCount (jpart j)"
  shows "writes_to (prog (ag_cfg rop j ranks) p ! k) (ag_out j ranks p q + e) \<longleftrightarrow>
    \<not> (uix (jn j) 2 k = 0 \<and> ag_inplace j ranks p) \<and> ag_pos (jn j) p (uix (jn j) 2 k) = q \<and>
    lin_in 2 2 (jstep j) (jpart j) (bix (jn j) 2 k) (tix (jn j) 2 k) e" (is "?W \<longleftrightarrow> ?R")
proof
  assume ?R
  then show ?W unfolding ag_prog_nth [OF assms(1,2,4)] writes_to_def by (auto simp: lin_in_def)
next
  let ?q = "ag_pos (jn j) p (uix (jn j) 2 k)" let ?c = "cbdCount (jpart j)"
  assume W: ?W
  then have ni: "\<not> (uix (jn j) 2 k = 0 \<and> ag_inplace j ranks p)"
    unfolding ag_prog_nth [OF assms(1,2,4)] writes_to_def by auto
  define e' where "e' = int (ranks q) * ?c + e - int (ranks ?q) * ?c"
  have in': "lin_in 2 2 (jstep j) (jpart j) (bix (jn j) 2 k) (tix (jn j) 2 k) e'"
    using W ni unfolding ag_prog_nth [OF assms(1,2,4)] writes_to_def lin_in_def e'_def by (auto split: if_splits)
  have "ranks q = ranks ?q \<and> e = e'"
    using block_address_unique [OF _ assms(5,6) ag_elt_bounds(1,2) [OF assms(1,4) in'], of "ranks q" "ranks ?q"]
    by (simp add: e'_def)
  moreover have "?q < jn j" using assms(2) by (intro ag_pos_less) simp
  ultimately have "?q = q" "e = e'" using assms(1,3) by (auto simp: ag_ok_def dest: inj_onD)
  then show ?R using ni in' by simp
qed

lemma ag_memory:
  assumes ok: "ag_ok j ranks" and run: "(ring_step (ag_cfg rop j ranks))\<^sup>*\<^sup>* (ring_init m f) s" "\<nexists>s'. ring_step (ag_cfg rop j ranks) s s'"
    and pq: "p < jn j" "q < jn j" and e: "0 \<le> e" "e < cbdCount (jpart j)"
  shows "umem s p (ag_out j ranks p q + e) =
    (if partOffset (jpart j) \<le> e \<and> e < partOffset (jpart j) + partCount (jpart j) \<and> \<not> (p = q \<and> ag_inplace j ranks p)
     then preOp rop (m q (jin j q + e)) else m p (ag_out j ranks p q + e))"
proof -
  let ?c = "ag_cfg rop j ranks" let ?n = "jn j"
  have len: "length (prog ?c p) = ag_len j" using ok pq(1) by (rule ag_prog_length)
  have um: "umem s p = ag.run.mem_after rop (j, ranks) m p (ag_len j)"
    using ag_final(2) [of rop "(j, ranks)" m f s p] ok run pq(1) len by (simp add: ag_prepared_eq)
  have lin: "lin_ok 2 2 (jstep j) (jpart j)" using ok by (simp add: ag_ok_def)
  obtain u where u: "u < ?n" "ag_pos ?n p u = q" using ag_pos_inv(1) [OF pq] by blast
  have uiff: "v < ?n \<Longrightarrow> ag_pos ?n p v = q \<longleftrightarrow> v = u" for v using ag_pos_inv(2) [OF pq, of v u] u by auto
  have u0: "u = 0 \<longleftrightarrow> p = q" using uiff [of 0] ag_pos_0 [OF pq(1)] u(1) by auto
  show ?thesis
  proof (cases "partOffset (jpart j) \<le> e \<and> e < partOffset (jpart j) + partCount (jpart j) \<and> \<not> (p = q \<and> ag_inplace j ranks p)")
    case True
    then obtain b t where bt: "b < lin_iters (jpart j)" "t < 2" "lin_in 2 2 (jstep j) (jpart j) b t e"
      using lin_in_cover [OF lin] by blast
    define k where "k = b * (?n * 2) + (u * 2 + t)"
    note k = ix_of [OF bt(1) u(1) bt(2), folded k_def]
    have later: "\<not> writes_to (prog ?c p ! i) (ag_out j ranks p q + e)" if i: "k < i" "i < ag_len j" for i
    proof
      assume "writes_to (prog ?c p ! i) (ag_out j ranks p q + e)"
      then have w: "ag_pos ?n p (uix ?n 2 i) = q" "lin_in 2 2 (jstep j) (jpart j) (bix ?n 2 i) (tix ?n 2 i) e"
        using ag_writes_iff [OF ok pq i(2) e] by blast+
      have "uix ?n 2 i = u" using uiff [OF ag_indices(2) [OF i(2)]] w(1) by blast
      moreover have "bix ?n 2 i = b \<and> tix ?n 2 i = t"
        using lin_in_unique [OF lin ag_indices(3) [OF i(2)] w(2) bt(2,3)] by blast
      ultimately have "i = k" using ix_split [of i ?n 2] by (simp add: k_def)
      then show False using i(1) by simp
    qed
    have ni: "\<not> (u = 0 \<and> ag_inplace j ranks p)" using True u0 by blast
    have op: "opDst (prog ?c p ! k) = Some (ag_out j ranks p q + ag_base j k)" "opSize (prog ?c p ! k) = nat (ag_size j k)"
      unfolding ag_prog_nth [OF ok pq(1) k(1)] k(3) using ni u(2) by simp_all
    have in': "ag_base j k \<le> e" "e < ag_base j k + ag_size j k" using bt(3) k by (simp_all add: lin_in_def)
    have "ag.run.mem_after rop (j, ranks) m p (ag_len j) (ag_out j ranks p q + e) = ag_val rop j m p k ! nat (e - ag_base j k)"
      using ag_written [of p rop "(j, ranks)" "ag_len j" k "ag_out j ranks p q + ag_base j k" "ag_out j ranks p q + e" m]
        ok pq(1) len k(1) op later in' by (simp add: ag_prepared_eq)
    also have "\<dots> = preOp rop (m q (jin j q + e))"
      unfolding ag_val_def Let_def k(3) u(2) using in' by (simp add: nat_less_iff)
    finally show ?thesis using True um by simp
  next
    case False
    have "\<not> writes_to (prog ?c p ! i) (ag_out j ranks p q + e)" if i: "i < ag_len j" for i
    proof
      assume "writes_to (prog ?c p ! i) (ag_out j ranks p q + e)"
      then have w: "\<not> (uix ?n 2 i = 0 \<and> ag_inplace j ranks p)" "ag_pos ?n p (uix ?n 2 i) = q"
        "lin_in 2 2 (jstep j) (jpart j) (bix ?n 2 i) (tix ?n 2 i) e"
        using ag_writes_iff [OF ok pq i e] by blast+
      have "uix ?n 2 i = u" using uiff [OF ag_indices(2) [OF i]] w(2) by blast
      then show False using w(1) u0 False ag_elt_bounds(3,4) [OF ok i w(3)] by blast
    qed
    then have "ag.run.mem_after rop (j, ranks) m p (ag_len j) (ag_out j ranks p q + e) = m p (ag_out j ranks p q + e)"
      using ag_unwritten [of p rop "(j, ranks)" "ag_len j" "ag_out j ranks p q + e" m] ok pq(1) len by (simp add: ag_prepared_eq)
    then show ?thesis unfolding if_not_P [OF False] um .
  qed
qed

text \<open>The functor of the copying collectives.\<close>

definition FuncCopy :: "'a redop" where
  "FuncCopy = \<lparr>preOp = (\<lambda>a. a), redFn = (\<lambda>a b. a), postOp = (\<lambda>a. a)\<rparr>"

text \<open>
  C3: The AllGather ring is correct under every interleaving.  An execution that can not be continued
  has finished on all ranks, and every rank then holds, in the output block of each rank, the
  channel's part of that rank's input; elements of the blocks outside of the channel's part are
  unchanged.
\<close>

theorem allGather_ring_correct:
  assumes "ag_ok j ranks" and "(ring_step (ag_cfg FuncCopy j ranks))\<^sup>*\<^sup>* (ring_init m f) s"
    and "\<nexists>s'. ring_step (ag_cfg FuncCopy j ranks) s s'"
  shows "ring_done (ag_cfg FuncCopy j ranks) s \<and>
    (\<forall>p < jn j. \<forall>q < jn j. \<forall>e. 0 \<le> e \<and> e < cbdCount (jpart j) \<longrightarrow>
       umem s p (jout j p + int (ranks q) * cbdCount (jpart j) + e) =
         (if partOffset (jpart j) \<le> e \<and> e < partOffset (jpart j) + partCount (jpart j)
          then m q (jin j q + e) else m p (jout j p + int (ranks q) * cbdCount (jpart j) + e)))"
proof (intro conjI allI impI)
  show "ring_done (ag_cfg FuncCopy j ranks) s"
    using ag_final(1) [of FuncCopy "(j, ranks)" m f s] assms by (simp add: ag_prepared_eq)
  fix p q e assume "p < jn j" "q < jn j" "0 \<le> e \<and> e < cbdCount (jpart j)"
  then show "umem s p (jout j p + int (ranks q) * cbdCount (jpart j) + e) =
      (if partOffset (jpart j) \<le> e \<and> e < partOffset (jpart j) + partCount (jpart j)
       then m q (jin j q + e) else m p (jout j p + int (ranks q) * cbdCount (jpart j) + e))"
    using ag_memory [OF assms, of p q e] by (auto simp: FuncCopy_def ag_inplace_def)
qed

definition ag_example :: ringjob where
  "ag_example = \<lparr>jn = 2, jstep = 8, jelt = 4, jpart = \<lparr>cbdCount = 3, partOffset = 0, partCount = 3, chunkCount = 16\<rparr>,
     jin = (\<lambda>p. if p = 0 then 3 else 100), jout = (\<lambda>_. 0)\<rparr>"

lemma ag_example_sel [simp]:
  "jn ag_example = 2" "jstep ag_example = 8" "jin ag_example p = (if p = 0 then 3 else 100)" "jout ag_example p = 0"
  "jpart ag_example = \<lparr>cbdCount = 3, partOffset = 0, partCount = 3, chunkCount = 16\<rparr>"
  by (simp_all add: ag_example_def)

lemma ag_ok_example: "ag_ok ag_example (\<lambda>p. 1 - p)"
  by (auto simp: ag_ok_def lin_ok_def inj_on_def)

lemma ag_run_exists:
  "ag_ok j ranks \<Longrightarrow> \<exists>s. (ring_step (ag_cfg rop j ranks))\<^sup>*\<^sup>* (ring_init m f) s \<and> (\<nexists>s'. ring_step (ag_cfg rop j ranks) s s')"
  using ag.run.run_exists [of rop "(j, ranks)" m f] by (simp add: ag_prepared_eq)

theorem allGather_ring_correct_witness:
  "\<exists>s. (ring_step (ag_cfg FuncCopy ag_example (\<lambda>p. 1 - p)))\<^sup>*\<^sup>* (ring_init (\<lambda>q a. int q * 1000 + a) (\<lambda>_ _. 0)) s \<and>
     umem s 0 1 = 1101 \<and> umem s 0 4 = 4 \<and> umem s 1 3 = 3"
proof -
  obtain s where s: "(ring_step (ag_cfg FuncCopy ag_example (\<lambda>p. 1 - p)))\<^sup>*\<^sup>* (ring_init (\<lambda>q a. int q * 1000 + a) (\<lambda>_ _. 0)) s"
    "\<nexists>s'. ring_step (ag_cfg FuncCopy ag_example (\<lambda>p. 1 - p)) s s'"
    using ag_run_exists [OF ag_ok_example] by blast
  note c = allGather_ring_correct [OF ag_ok_example s, THEN conjunct2, rule_format]
  have "umem s 0 1 = 1101" "umem s 0 4 = 4" "umem s 1 3 = 3"
    using c [of 0 1 1] c [of 0 0 1] c [of 1 0 0] by simp_all
  then show ?thesis using s(1) by blast
qed

end
