(* ===== verification/Ring_ReduceScatter.thy ===== *)
theory Ring_ReduceScatter
  imports Ring_AllGather
begin

text \<open>
  Correctness of the ReduceScatter ring: under every interleaving every rank ends up with the
  reduction, in ring order, of its own block of all inputs.  In-place outputs are covered.
\<close>

section \<open>Program\<close>

definition rs_op :: "prims \<Rightarrow> nat \<Rightarrow> (nat \<Rightarrow> nat) \<Rightarrow> nat \<Rightarrow> cbd_part \<Rightarrow> nat \<Rightarrow> nat \<Rightarrow> slice_op list" where
  "rs_op pr n ranks p part b u =
     (let dataOffset = partOffset part + int b * chunkCount part;
          off = dataOffset + int (ranks (ar_chunk n p u)) * cbdCount part
      in genericOp pr (0 < u) (u < n - 1) (Some Input) (if u = n - 1 then Some Output else None)
           off (if u = n - 1 then dataOffset else -1)
           (min (chunkCount part) (partCount part - int b * chunkCount part)) (u = n - 1))"

lemma length_rs_op: "length (rs_op pr n ranks p part b u) = SlicePerChunk pr"
  by (simp add: rs_op_def Let_def)

lemma ring_view_chunk:
  assumes "0 < n" "int p + i = int p - int u - 1 + z * int n" "0 \<le> i"
  shows "ring_view n ranks p i = int (ranks (ar_chunk n p u))"
proof -
  have "int p + i = int p - int (Suc u) + z * int n" using assms(2) by simp
  then have "ring_view n ranks p i = int (ranks (ag_pos n p (Suc u)))" using assms by (intro ring_view_pos)
  moreover have "ag_pos n p (Suc u) = ar_chunk n p u" by (simp add: ag_pos_def ar_chunk_def algebra_simps)
  ultimately show ?thesis by simp
qed

lemma reduceScatter_body_eq:
  assumes "2 \<le> n" "p < n"
  shows "reduceScatter_body pr (int n) (ring_view n ranks p) part (int b * chunkCount part) =
    concat (map (rs_op pr n ranks p part b) [0..<n])"
proof -
  have n: "0 < n" using assms by simp
  have c0: "ring_view n ranks p (int n - 1) = int (ranks (ar_chunk n p 0))"
    using n by (intro ring_view_chunk [where z = 1]) simp_all
  have c1: "ring_view n ranks p (int n - (int u + 1)) = int (ranks (ar_chunk n p u))" if "1 \<le> u" "u < n - 1" for u
    using n that by (intro ring_view_chunk [where z = 1]) simp_all
  have c2: "ring_view n ranks p 0 = int (ranks (ar_chunk n p (n - 1)))"
    using assms by (intro ring_view_chunk [where z = 1]) (simp_all add: of_nat_diff)
  have nn: "0 < n - 1" "n - 1 \<noteq> 0" "\<not> n \<le> Suc 0" using assms by auto
  show ?thesis
    unfolding reduceScatter_body_def Let_def upt_split_chain [OF assms(1)] map_upto_shift map_append concat_append
    apply (intro arg_cong2 [where f = append])
    subgoal using nn by (simp add: c0 rs_op_def Let_def prim_send_def)
    subgoal using nn by (auto intro!: arg_cong [where f = concat] simp: c1 rs_op_def Let_def recvReduceSend_def)
    subgoal using nn by (simp add: c2 rs_op_def Let_def recvReduceCopy_def)
    done
qed

section \<open>A job\<close>

definition rs_cfg :: "'a redop \<Rightarrow> ringjob \<Rightarrow> (nat \<Rightarrow> nat) \<Rightarrow> 'a ringcfg" where
  "rs_cfg rop j ranks = \<lparr>nRanks = jn j, stepsPerSlice = 2, connStepSize = jstep j, redOp = rop,
     prog = (\<lambda>p. the (runRing_ReduceScatter (job_prims 2 2 j p) (int (jn j)) (ring_view (jn j) ranks p) (jpart j)))\<rparr>"

abbreviation rs_in :: "ringjob \<Rightarrow> (nat \<Rightarrow> nat) \<Rightarrow> nat \<Rightarrow> nat \<Rightarrow> int" where
  "rs_in j ranks p q \<equiv> jin j p + int (ranks q) * cbdCount (jpart j)"

definition rs_ok :: "ringjob \<Rightarrow> (nat \<Rightarrow> nat) \<Rightarrow> bool" where
  "rs_ok j ranks \<longleftrightarrow> 2 \<le> jn j \<and> lin_ok 2 2 (jstep j) (jpart j) \<and>
     0 \<le> partOffset (jpart j) \<and> partOffset (jpart j) + partCount (jpart j) \<le> cbdCount (jpart j) \<and>
     (\<forall>p < jn j. ranks p < jn j) \<and> inj_on ranks {..<jn j} \<and>
     (\<forall>p < jn j. jout j p = rs_in j ranks p p \<or>
        jout j p + cbdCount (jpart j) \<le> jin j p \<or> jin j p + int (jn j) * cbdCount (jpart j) \<le> jout j p)"

lemma runRing_ReduceScatter_blocks:
  assumes "rs_ok j ranks" "p < jn j"
  shows "runRing_ReduceScatter (job_prims 2 2 j p) (int (jn j)) (ring_view (jn j) ranks p) (jpart j) =
    Some (blocks (lin_iters (jpart j)) (jn j) (rs_op (job_prims 2 2 j p) (jn j) ranks p (jpart j)))"
  using assms unfolding runRing_ReduceScatter_def blocks_def
  by (subst chunk_loop_eq) (simp_all add: rs_ok_def lin_ok_def reduceScatter_body_eq)

lemma rs_prog_length: "rs_ok j ranks \<Longrightarrow> p < jn j \<Longrightarrow> length (prog (rs_cfg rop j ranks) p) = ag_len j"
  by (simp add: rs_cfg_def runRing_ReduceScatter_blocks length_blocks [where s = 2] length_rs_op)

lemma rs_prog_nth:
  assumes "rs_ok j ranks" "p < jn j" "k < ag_len j"
  defines "u \<equiv> uix (jn j) 2 k"
  shows "prog (rs_cfg rop j ranks) p ! k =
    \<lparr>opRecv = (0 < u), opSend = (u < jn j - 1),
     opSrc = Some (rs_in j ranks p (ar_chunk (jn j) p u) + ag_base j k), opPre = True,
     opDst = (if u = jn j - 1 then Some (jout j p + ag_base j k) else None),
     opSize = nat (ag_size j k), opPost = (u = jn j - 1)\<rparr>"
proof -
  have t: "tix (jn j) 2 k < 2" by (simp add: tix_def)
  have "prog (rs_cfg rop j ranks) p ! k = rs_op (job_prims 2 2 j p) (jn j) ranks p (jpart j) (bix (jn j) 2 k) u ! tix (jn j) 2 k"
    unfolding u_def bix_def uix_def tix_def
    by (simp add: rs_cfg_def runRing_ReduceScatter_blocks [OF assms(1,2)])
      (rule nth_blocks, simp add: length_rs_op, use assms(3) in simp)
  then show ?thesis
    using t assms(2) by (auto simp: rs_op_def Let_def nth_genericOp split_beta userPtr_def lin_base_def lin_slice_def
        add.assoc add.left_commute)
qed

definition rs_elt :: "'a redop \<Rightarrow> ringjob \<Rightarrow> (nat \<Rightarrow> nat) \<Rightarrow> (nat \<Rightarrow> int \<Rightarrow> 'a) \<Rightarrow> nat \<Rightarrow> nat \<Rightarrow> int \<Rightarrow> 'a" where
  "rs_elt rop j ranks m0 u c e =
     (let r = ring_red rop (jn j) (\<lambda>q. m0 q (rs_in j ranks q c + e)) c u
      in if u = jn j - 1 then postOp rop r else r)"

definition rs_val :: "'a redop \<Rightarrow> ringjob \<Rightarrow> (nat \<Rightarrow> nat) \<Rightarrow> (nat \<Rightarrow> int \<Rightarrow> 'a) \<Rightarrow> nat \<Rightarrow> nat \<Rightarrow> 'a list" where
  "rs_val rop j ranks m0 p k =
     (let u = uix (jn j) 2 k
      in map (\<lambda>i. rs_elt rop j ranks m0 u (ar_chunk (jn j) p u) (ag_base j k + int i)) [0..<nat (ag_size j k)])"

lemma rs_elt_step:
  assumes "Suc v < jn j" "(c + 1 + Suc v) mod jn j = p"
  shows "rs_elt rop j ranks m0 (Suc v) c e =
    reduceCopyElt rop True (Suc v = jn j - 1) [m0 p (rs_in j ranks p c + e), rs_elt rop j ranks m0 v c e]"
proof -
  define x where "x = (\<lambda>q. m0 q (rs_in j ranks q c + e))"
  have v: "v \<noteq> jn j - 1" using assms(1) by simp
  have step: "ring_red rop (jn j) x c (Suc v) = redFn rop (preOp rop (m0 p (rs_in j ranks p c + e))) (ring_red rop (jn j) x c v)"
    using assms(2) by (simp add: x_def)
  show ?thesis unfolding rs_elt_def Let_def x_def [symmetric] step using v by (auto simp: reduceCopyElt_def)
qed

section \<open>The kernel satisfies the contract of a ring\<close>

lemma rs_later:
  assumes "rs_ok j ranks" "p < jn j" "k < ag_len j" "2 \<le> k mod (jn j * 2)"
  defines "q \<equiv> prv (jn j) p"
  shows "opSize (prog (rs_cfg rop j ranks) q ! (k - 2)) = opSize (prog (rs_cfg rop j ranks) p ! k)"
    and "rs_val rop j ranks m0 p k = slice_value rop (m0 p) (prog (rs_cfg rop j ranks) p ! k) (rs_val rop j ranks m0 q (k - 2))"
proof -
  have n: "0 < jn j" using assms(2) by simp
  have q: "q < jn j" using assms(2) by (simp add: q_def)
  have k2: "k - 2 < ag_len j" using assms(3) by linarith
  note ix = ix_prev [OF assms(4) _ n, simplified]
  have cq: "ar_chunk (jn j) q (uix (jn j) 2 (k - 2)) = ar_chunk (jn j) p (Suc (uix (jn j) 2 (k - 2)))"
    unfolding q_def using n by (rule ar_chunk_prv)
  note cp = ar_chunk_pos [OF assms(2), of "Suc (uix (jn j) 2 (k - 2))"]
  have lt: "Suc (uix (jn j) 2 (k - 2)) < jn j" using ix_less(2) [OF _ assms(3)] ix(3) by simp
  show "opSize (prog (rs_cfg rop j ranks) q ! (k - 2)) = opSize (prog (rs_cfg rop j ranks) p ! k)"
    unfolding rs_prog_nth [OF assms(1-3)] rs_prog_nth [OF assms(1) q k2] ix(1,2) by simp
  show "rs_val rop j ranks m0 p k = slice_value rop (m0 p) (prog (rs_cfg rop j ranks) p ! k) (rs_val rop j ranks m0 q (k - 2))"
    unfolding rs_prog_nth [OF assms(1-3)] slice_value_def slice_srcs_def reduceCopy_def rs_val_def Let_def cq ix
    by (auto simp: rs_elt_step [OF lt cp] read_at_def add.assoc)
qed

lemma rs_first:
  assumes "rs_ok j ranks" "p < jn j" "k < ag_len j" "k mod (jn j * 2) < 2"
  shows "rs_val rop j ranks m0 p k = slice_value rop (m0 p) (prog (rs_cfg rop j ranks) p ! k) []"
proof -
  have u: "uix (jn j) 2 k = 0" using uix_less_iff [of 2 "jn j" k 1] assms(4) by simp
  have c: "Suc (ar_chunk (jn j) p 0) mod jn j = p" using ar_chunk_pos [of p "jn j" 0] assms(2) by simp
  have "jn j \<noteq> Suc 0" using assms(1) by (auto simp: rs_ok_def)
  then show ?thesis
    unfolding rs_prog_nth [OF assms(1-3)] slice_value_def slice_srcs_def reduceCopy_def rs_val_def Let_def u
    using c by (auto simp: reduceCopyElt_def read_at_def rs_elt_def add.assoc)
qed

lemma rs_elt_bounds:
  assumes "rs_ok j ranks" "k < ag_len j" "lin_in 2 2 (jstep j) (jpart j) (bix (jn j) 2 k) (tix (jn j) 2 k) e"
  shows "0 \<le> e" "e < cbdCount (jpart j)" "partOffset (jpart j) \<le> e" "e < partOffset (jpart j) + partCount (jpart j)"
proof -
  have ok: "lin_ok 2 2 (jstep j) (jpart j)" "0 \<le> partOffset (jpart j)"
    "partOffset (jpart j) + partCount (jpart j) \<le> cbdCount (jpart j)"
    using assms(1) by (auto simp: rs_ok_def)
  note b = lin_in_bounds [OF ok(1) ag_indices(3) [OF assms(2)] assms(3)]
  show "0 \<le> e" "e < cbdCount (jpart j)" "partOffset (jpart j) \<le> e" "e < partOffset (jpart j) + partCount (jpart j)"
    using b(1,2) ok(2,3) by linarith+
qed

lemma rs_no_clobber:
  assumes "rs_ok j ranks" "p < jn j" "i < k" "k < ag_len j"
    and "opDst (prog (rs_cfg rop j ranks) p ! i) = Some a" "opSrc (prog (rs_cfg rop j ranks) p ! k) = Some b"
  shows "disjoint_regions a (opSize (prog (rs_cfg rop j ranks) p ! i)) b (opSize (prog (rs_cfg rop j ranks) p ! k))"
proof (rule ccontr)
  have il: "i < ag_len j" using assms(3,4) by linarith
  let ?c = "ar_chunk (jn j) p (uix (jn j) 2 k)"
  have n: "0 < jn j" using assms(2) by simp
  have a: "a = jout j p + ag_base j i" "uix (jn j) 2 i = jn j - 1"
    using assms(5) unfolding rs_prog_nth [OF assms(1,2) il] by (auto split: if_splits)
  have b: "b = rs_in j ranks p ?c + ag_base j k"
    using assms(6) unfolding rs_prog_nth [OF assms(1,2,4)] by (auto split: if_splits)
  assume "\<not> disjoint_regions a (opSize (prog (rs_cfg rop j ranks) p ! i)) b (opSize (prog (rs_cfg rop j ranks) p ! k))"
  from overlap_point [OF this] obtain y where
    "a \<le> y" "y < a + int (nat (ag_size j i))" "b \<le> y" "y < b + int (nat (ag_size j k))"
    unfolding rs_prog_nth [OF assms(1,2) il] rs_prog_nth [OF assms(1,2,4)] by auto
  then have "lin_in 2 2 (jstep j) (jpart j) (bix (jn j) 2 i) (tix (jn j) 2 i) (y - jout j p)"
    "lin_in 2 2 (jstep j) (jpart j) (bix (jn j) 2 k) (tix (jn j) 2 k) (y - rs_in j ranks p ?c)"
    unfolding a(1) b lin_in_def by (auto split: if_splits)
  then obtain e e' where e: "lin_in 2 2 (jstep j) (jpart j) (bix (jn j) 2 i) (tix (jn j) 2 i) e" "y = jout j p + e"
    and e': "lin_in 2 2 (jstep j) (jpart j) (bix (jn j) 2 k) (tix (jn j) 2 k) e'" "y = rs_in j ranks p ?c + e'"
    by (metis add.commute diff_add_cancel)
  note be = rs_elt_bounds [OF assms(1) il e(1)] and be' = rs_elt_bounds [OF assms(1,4) e'(1)]
  have rq: "ranks ?c < jn j" using assms(1) ar_chunk_less [OF n] by (simp add: rs_ok_def)
  have "(int (ranks ?c) + 1) * cbdCount (jpart j) \<le> int (jn j) * cbdCount (jpart j)"
    using rq be(1,2) by (intro mult_right_mono) auto
  moreover have "0 \<le> int (ranks ?c) * cbdCount (jpart j)" using be(1,2) by simp
  ultimately have "jin j p \<le> y" "y < jin j p + int (jn j) * cbdCount (jpart j)"
    using e'(2) be'(1,2) by (auto simp: distrib_right)
  then have "jout j p = rs_in j ranks p p"
    using assms(1,2) e(2) be(1,2) by (fastforce simp: rs_ok_def)
  then have "int (ranks p) * cbdCount (jpart j) + e = int (ranks ?c) * cbdCount (jpart j) + e'"
    using e(2) e'(2) by simp
  then have ee: "e = e'" using block_address_unique [OF _ be(1,2) be'(1,2)] by blast
  have bt: "bix (jn j) 2 i = bix (jn j) 2 k \<and> tix (jn j) 2 i = tix (jn j) 2 k"
    using lin_in_unique [OF _ ag_indices(3) [OF il] e(1) ag_indices(3) [OF assms(4)]] e'(1) ee assms(1)
    by (simp add: rs_ok_def)
  have "uix (jn j) 2 k \<le> uix (jn j) 2 i" using ag_indices(2) [OF assms(4)] a(2) by linarith
  then have "k \<le> i" using ix_split [of k "jn j" 2] ix_split [of i "jn j" 2] bt by simp
  then show False using assms(3) by simp
qed

lemma rs_lagged_ring:
  assumes "rs_ok j ranks"
  shows "lagged_ring (rs_cfg rop j ranks) m0 (rs_val rop j ranks m0) 4 2 (jn j) (lin_iters (jpart j))"
proof
  have sel: "nRanks (rs_cfg rop j ranks) = jn j" "stepsPerSlice (rs_cfg rop j ranks) = 2"
    "connStepSize (rs_cfg rop j ranks) = jstep j" "redOp (rs_cfg rop j ranks) = rop"
    by (simp_all add: rs_cfg_def)
  have ok: "2 \<le> jn j" "lin_ok 2 2 (jstep j) (jpart j)" using assms by (simp_all add: rs_ok_def)
  show "stepsPerSlice (rs_cfg rop j ranks) * 4 = NCCL_STEPS" by (simp add: sel NCCL_STEPS_def)
  show "2 \<le> jn j" by (rule ok(1))
  show "0 \<le> connStepSize (rs_cfg rop j ranks)" using ok(2) by (simp add: sel lin_ok_def)
  fix p assume "p < nRanks (rs_cfg rop j ranks)"
  then have p: "p < jn j" by (simp add: sel)
  show "length (prog (rs_cfg rop j ranks) p) = ag_len j" using assms p by (rule rs_prog_length)
  fix k assume k: "k < ag_len j"
  note nth = rs_prog_nth [OF assms p k] and ix = ag_indices [OF k]
  show "int (opSize (prog (rs_cfg rop j ranks) p ! k)) \<le> int (stepsPerSlice (rs_cfg rop j ranks)) * connStepSize (rs_cfg rop j ranks)"
    using lin_slice_fits [OF ok(2) ix(3), of "bix (jn j) 2 k"] ok(2) by (simp add: nth sel lin_ok_def)
  show "opSend (prog (rs_cfg rop j ranks) p ! k) \<longleftrightarrow> k mod (jn j * 2) < (jn j - 1) * 2"
    using uix_less_iff [of 2 "jn j" k "jn j - 1"] by (simp add: nth)
  show "opRecv (prog (rs_cfg rop j ranks) p ! k) \<longleftrightarrow> 2 \<le> k mod (jn j * 2)"
    using uix_less_iff [of 2 "jn j" k 1] by (simp add: nth) linarith
  show "rs_val rop j ranks m0 p k = slice_value (redOp (rs_cfg rop j ranks)) (m0 p) (prog (rs_cfg rop j ranks) p ! k) []"
    if "k mod (jn j * 2) < 2" unfolding sel using rs_first [OF assms p k that] .
  show "opSize (prog (rs_cfg rop j ranks) (prv (nRanks (rs_cfg rop j ranks)) p) ! (k - 2)) = opSize (prog (rs_cfg rop j ranks) p ! k) \<and>
      rs_val rop j ranks m0 p k = slice_value (redOp (rs_cfg rop j ranks)) (m0 p) (prog (rs_cfg rop j ranks) p ! k)
        (rs_val rop j ranks m0 (prv (nRanks (rs_cfg rop j ranks)) p) (k - 2))"
    if "2 \<le> k mod (jn j * 2)" unfolding sel using rs_later(1) [OF assms p k that] rs_later(2) [OF assms p k that] by blast
  show "disjoint_regions a (opSize (prog (rs_cfg rop j ranks) p ! i)) b (opSize (prog (rs_cfg rop j ranks) p ! k))"
    if "i < k" "opDst (prog (rs_cfg rop j ranks) p ! i) = Some a" "opSrc (prog (rs_cfg rop j ranks) p ! k) = Some b" for i a b
    using rs_no_clobber [OF assms p that(1) k that(2,3)] .
qed auto

definition rs_prepared :: "ringjob \<times> (nat \<Rightarrow> nat) \<Rightarrow> ringjob \<times> (nat \<Rightarrow> nat)" where
  "rs_prepared jr = (if rs_ok (fst jr) (snd jr) then jr
     else (\<lparr>jn = 2, jstep = 8, jelt = 1, jpart = \<lparr>cbdCount = 0, partOffset = 0, partCount = 0, chunkCount = 16\<rparr>,
            jin = (\<lambda>_. 0), jout = (\<lambda>_. 0)\<rparr>, \<lambda>p. p))"

lemma rs_ok_prepared: "rs_ok (fst (rs_prepared jr)) (snd (rs_prepared jr))"
  by (simp add: rs_prepared_def rs_ok_def lin_ok_def)

lemma rs_prepared_eq: "rs_ok j ranks \<Longrightarrow> rs_prepared (j, ranks) = (j, ranks)"
  by (simp add: rs_prepared_def)

interpretation rs: lagged_ring "rs_cfg rop (fst (rs_prepared jr)) (snd (rs_prepared jr))" m0
    "rs_val rop (fst (rs_prepared jr)) (snd (rs_prepared jr)) m0" 4 2 "jn (fst (rs_prepared jr))"
    "lin_iters (jpart (fst (rs_prepared jr)))"
  for rop :: "'a redop" and jr m0
  by (rule rs_lagged_ring) (rule rs_ok_prepared)

section \<open>Results\<close>

lemmas rs_bounded = rs.run.run_bounded
lemmas rs_final = rs.run.run_final
lemmas rs_written = rs.run.mem_after_written
lemmas rs_unwritten = rs.run.mem_after_unwritten

lemma nRanks_rs_cfg [simp]: "nRanks (rs_cfg rop j ranks) = jn j"
  by (simp add: rs_cfg_def)

lemma rs_writes_iff:
  assumes "rs_ok j ranks" "p < jn j" "k < ag_len j"
  shows "writes_to (prog (rs_cfg rop j ranks) p ! k) (jout j p + e) \<longleftrightarrow> uix (jn j) 2 k = jn j - 1 \<and>
    lin_in 2 2 (jstep j) (jpart j) (bix (jn j) 2 k) (tix (jn j) 2 k) e"
  unfolding rs_prog_nth [OF assms] writes_to_def lin_in_def by (auto split: if_splits)

lemma rs_memory:
  assumes ok: "rs_ok j ranks" and run: "(ring_step (rs_cfg rop j ranks))\<^sup>*\<^sup>* (ring_init m f) s" "\<nexists>s'. ring_step (rs_cfg rop j ranks) s s'"
    and p: "p < jn j"
  shows "umem s p (jout j p + e) =
    (if partOffset (jpart j) \<le> e \<and> e < partOffset (jpart j) + partCount (jpart j)
     then postOp rop (ring_red rop (jn j) (\<lambda>q. m q (rs_in j ranks q p + e)) p (jn j - 1)) else m p (jout j p + e))"
proof -
  let ?c = "rs_cfg rop j ranks" let ?n = "jn j"
  have n: "0 < ?n" "?n - 1 < ?n" using p by simp_all
  have len: "length (prog ?c p) = ag_len j" using ok p by (rule rs_prog_length)
  have um: "umem s p = rs.run.mem_after rop (j, ranks) m p (ag_len j)"
    using rs_final(2) [of rop "(j, ranks)" m f s p] ok run p len by (simp add: rs_prepared_eq)
  have lin: "lin_ok 2 2 (jstep j) (jpart j)" using ok by (simp add: rs_ok_def)
  show ?thesis
  proof (cases "partOffset (jpart j) \<le> e \<and> e < partOffset (jpart j) + partCount (jpart j)")
    case True
    then obtain b t where bt: "b < lin_iters (jpart j)" "t < 2" "lin_in 2 2 (jstep j) (jpart j) b t e"
      using lin_in_cover [OF lin] by blast
    define k where "k = b * (?n * 2) + ((?n - 1) * 2 + t)"
    note k = ix_of [OF bt(1) n(2) bt(2), folded k_def]
    have later: "\<not> writes_to (prog ?c p ! i) (jout j p + e)" if i: "k < i" "i < ag_len j" for i
    proof
      assume "writes_to (prog ?c p ! i) (jout j p + e)"
      then have w: "uix ?n 2 i = ?n - 1" "lin_in 2 2 (jstep j) (jpart j) (bix ?n 2 i) (tix ?n 2 i) e"
        using rs_writes_iff [OF ok p i(2)] by blast+
      have "bix ?n 2 i = b \<and> tix ?n 2 i = t"
        using lin_in_unique [OF lin ag_indices(3) [OF i(2)] w(2) bt(2,3)] by blast
      then have "i = k" using ix_split [of i ?n 2] w(1) by (simp add: k_def)
      then show False using i(1) by simp
    qed
    have op: "opDst (prog ?c p ! k) = Some (jout j p + ag_base j k)" "opSize (prog ?c p ! k) = nat (ag_size j k)"
      unfolding rs_prog_nth [OF ok p k(1)] k(3) by simp_all
    have in': "ag_base j k \<le> e" "e < ag_base j k + ag_size j k" using bt(3) k by (simp_all add: lin_in_def)
    have cp: "ar_chunk ?n p (?n - 1) = p" using p by (simp add: ar_chunk_def of_nat_diff)
    have "rs.run.mem_after rop (j, ranks) m p (ag_len j) (jout j p + e) = rs_val rop j ranks m p k ! nat (e - ag_base j k)"
      using rs_written [of p rop "(j, ranks)" "ag_len j" k "jout j p + ag_base j k" "jout j p + e" m]
        ok p len k(1) op later in' by (simp add: rs_prepared_eq)
    also have "\<dots> = postOp rop (ring_red rop ?n (\<lambda>q. m q (rs_in j ranks q p + e)) p (?n - 1))"
      unfolding rs_val_def Let_def k(3) cp using in' by (simp add: nat_less_iff rs_elt_def)
    finally show ?thesis unfolding if_P [OF True] um .
  next
    case False
    have "\<not> writes_to (prog ?c p ! i) (jout j p + e)" if i: "i < ag_len j" for i
      using rs_writes_iff [OF ok p i] rs_elt_bounds(3,4) [OF ok i] False by blast
    then have "rs.run.mem_after rop (j, ranks) m p (ag_len j) (jout j p + e) = m p (jout j p + e)"
      using rs_unwritten [of p rop "(j, ranks)" "ag_len j" "jout j p + e" m] ok p len by (simp add: rs_prepared_eq)
    then show ?thesis unfolding if_not_P [OF False] um .
  qed
qed

text \<open>
  C4: The ReduceScatter ring is correct under every interleaving.  An execution that can not be
  continued has finished on all ranks; on the rank at ring position \<open>p\<close> each element of the channel's
  part of the output then is the reduction of that element of block \<open>ranks p\<close> of all inputs, with an
  associative and commutative operator, and all other memory of the rank is unchanged.
\<close>

theorem reduceScatter_ring_correct:
  assumes "rs_ok j ranks"
    and "\<forall>a b c. redFn rop (redFn rop a b) c = redFn rop a (redFn rop b c)" and "\<forall>a b. redFn rop a b = redFn rop b a"
    and "(ring_step (rs_cfg rop j ranks))\<^sup>*\<^sup>* (ring_init m f) s" and "\<nexists>s'. ring_step (rs_cfg rop j ranks) s s'"
  shows "ring_done (rs_cfg rop j ranks) s \<and>
    (\<forall>p < jn j. \<forall>e. umem s p (jout j p + e) =
       (if partOffset (jpart j) \<le> e \<and> e < partOffset (jpart j) + partCount (jpart j)
        then reduce_all rop (jn j) (\<lambda>q. m q (jin j q + int (ranks p) * cbdCount (jpart j) + e)) else m p (jout j p + e)))"
proof (intro conjI allI impI)
  show "ring_done (rs_cfg rop j ranks) s"
    using rs_final(1) [of rop "(j, ranks)" m f s] assms(1,4,5) by (simp add: rs_prepared_eq)
  fix p e assume p: "p < jn j"
  have r: "postOp rop (ring_red rop (jn j) x c (jn j - 1)) = reduce_all rop (jn j) x" for x c
    using assms(2,3) p by (intro ring_red_reduce_all) simp_all
  show "umem s p (jout j p + e) = (if partOffset (jpart j) \<le> e \<and> e < partOffset (jpart j) + partCount (jpart j)
        then reduce_all rop (jn j) (\<lambda>q. m q (jin j q + int (ranks p) * cbdCount (jpart j) + e)) else m p (jout j p + e))"
    using rs_memory [OF assms(1,4,5) p, of e] unfolding r .
qed

definition rs_example :: ringjob where
  "rs_example = \<lparr>jn = 2, jstep = 8, jelt = 4, jpart = \<lparr>cbdCount = 3, partOffset = 0, partCount = 3, chunkCount = 16\<rparr>,
     jin = (\<lambda>_. 0), jout = (\<lambda>p. if p = 0 then 3 else 100)\<rparr>"

lemma rs_example_sel [simp]:
  "jn rs_example = 2" "jstep rs_example = 8" "jin rs_example p = 0" "jout rs_example p = (if p = 0 then 3 else 100)"
  "jpart rs_example = \<lparr>cbdCount = 3, partOffset = 0, partCount = 3, chunkCount = 16\<rparr>"
  by (simp_all add: rs_example_def)

lemma rs_ok_example: "rs_ok rs_example (\<lambda>p. 1 - p)"
  by (auto simp: rs_ok_def lin_ok_def inj_on_def)

lemma rs_run_exists:
  "rs_ok j ranks \<Longrightarrow> \<exists>s. (ring_step (rs_cfg rop j ranks))\<^sup>*\<^sup>* (ring_init m f) s \<and> (\<nexists>s'. ring_step (rs_cfg rop j ranks) s s')"
  using rs.run.run_exists [of rop "(j, ranks)" m f] by (simp add: rs_prepared_eq)

theorem reduceScatter_ring_correct_witness:
  "\<exists>s. (ring_step (rs_cfg sum_op rs_example (\<lambda>p. 1 - p)))\<^sup>*\<^sup>* (ring_init (\<lambda>q a. int q * 1000 + a) (\<lambda>_ _. 0)) s \<and>
     umem s 0 4 = 1008 \<and> umem s 1 102 = 1004 \<and> umem s 0 6 = 6"
proof -
  obtain s where s: "(ring_step (rs_cfg sum_op rs_example (\<lambda>p. 1 - p)))\<^sup>*\<^sup>* (ring_init (\<lambda>q a. int q * 1000 + a) (\<lambda>_ _. 0)) s"
    "\<nexists>s'. ring_step (rs_cfg sum_op rs_example (\<lambda>p. 1 - p)) s s'"
    using rs_run_exists [OF rs_ok_example] by blast
  have sum: "\<forall>a b c. redFn sum_op (redFn sum_op a b) c = redFn sum_op a (redFn sum_op b c)"
    "\<forall>a b. redFn sum_op a b = redFn sum_op b a" by (simp_all add: sum_op_def)
  note c = reduceScatter_ring_correct [OF rs_ok_example sum s, THEN conjunct2, rule_format]
  have "umem s 0 4 = 1008" "umem s 1 102 = 1004" "umem s 0 6 = 6"
    using c [of 0 1] c [of 1 2] c [of 0 3] by (simp_all add: reduce_all_def sum_op_def upt_conv_Cons)
  then show ?thesis using s(1) by blast
qed

end
