(* ===== verification/Chain_Ring.thy ===== *)
theory Chain_Ring
  imports Ring_Net
begin

text \<open>
  The shape shared by the Broadcast and Reduce rings: the ring is used as a chain from a first to a
  last rank.  Every rank executes the same number of slices; slice \<open>k\<close> of a rank receives slice \<open>k\<close>
  of the previous one, except on the first rank, and is sent on, except on the last.  The contract
  is the locale \<open>chain_ring\<close>, which is shown to satisfy \<open>ring_run\<close>.
\<close>

definition chain_dist :: "nat \<Rightarrow> nat \<Rightarrow> nat \<Rightarrow> nat" where
  "chain_dist n z p = (if z \<le> p then p - z else p + n - z)"

lemma chain_dist_less: "p < n \<Longrightarrow> z < n \<Longrightarrow> chain_dist n z p < n"
  by (auto simp: chain_dist_def)

lemma chain_dist_prv: "p < n \<Longrightarrow> z < n \<Longrightarrow> 0 < chain_dist n z p \<Longrightarrow> chain_dist n z (prv n p) = chain_dist n z p - 1"
  by (cases "p = 0") (auto simp: chain_dist_def prv_def mod_if split: if_splits)

lemma chain_dist_nxt: "p < n \<Longrightarrow> z < n \<Longrightarrow> Suc (chain_dist n z p) < n \<Longrightarrow> chain_dist n z (nxt n p) = Suc (chain_dist n z p)"
  by (auto simp: chain_dist_def nxt_def mod_if split: if_splits)

locale chain_ring =
  fixes cfg :: "'a ringcfg" and m0 :: "nat \<Rightarrow> int \<Rightarrow> 'a"
    and val :: "nat \<Rightarrow> nat \<Rightarrow> 'a list" and cap z L :: nat
  assumes steps: "stepsPerSlice cfg * cap = NCCL_STEPS" and n: "2 \<le> nRanks cfg" and z: "z < nRanks cfg"
    and css: "0 \<le> connStepSize cfg"
    and len: "p < nRanks cfg \<Longrightarrow> length (prog cfg p) = L"
    and fits: "p < nRanks cfg \<Longrightarrow> k < L \<Longrightarrow>
      int (opSize (prog cfg p ! k)) \<le> int (stepsPerSlice cfg) * connStepSize cfg"
    and send_iff: "p < nRanks cfg \<Longrightarrow> k < L \<Longrightarrow>
      opSend (prog cfg p ! k) \<longleftrightarrow> Suc (chain_dist (nRanks cfg) z p) < nRanks cfg"
    and recv_iff: "p < nRanks cfg \<Longrightarrow> k < L \<Longrightarrow>
      opRecv (prog cfg p ! k) \<longleftrightarrow> 0 < chain_dist (nRanks cfg) z p"
    and first: "p < nRanks cfg \<Longrightarrow> k < L \<Longrightarrow> chain_dist (nRanks cfg) z p = 0 \<Longrightarrow>
      val p k = slice_value (redOp cfg) (m0 p) (prog cfg p ! k) []"
    and later: "p < nRanks cfg \<Longrightarrow> k < L \<Longrightarrow> 0 < chain_dist (nRanks cfg) z p \<Longrightarrow>
      opSize (prog cfg (prv (nRanks cfg) p) ! k) = opSize (prog cfg p ! k) \<and>
      val p k = slice_value (redOp cfg) (m0 p) (prog cfg p ! k) (val (prv (nRanks cfg) p) k)"
    and no_clobber: "p < nRanks cfg \<Longrightarrow> j < k \<Longrightarrow> k < L \<Longrightarrow>
      opDst (prog cfg p ! j) = Some a \<Longrightarrow> opSrc (prog cfg p ! k) = Some b \<Longrightarrow>
      disjoint_regions a (opSize (prog cfg p ! j)) b (opSize (prog cfg p ! k))"
begin

abbreviation dist :: "nat \<Rightarrow> nat" where "dist \<equiv> chain_dist (nRanks cfg) z"

lemma sends_eq: "p < nRanks cfg \<Longrightarrow> k \<le> L \<Longrightarrow> Suc (dist p) < nRanks cfg \<Longrightarrow> sends cfg p k = k"
  by (induction k) (simp_all add: sends_Suc len send_iff)

lemma recvs_eq: "p < nRanks cfg \<Longrightarrow> k \<le> L \<Longrightarrow> 0 < dist p \<Longrightarrow> recvs cfg p k = k"
  by (induction k) (simp_all add: recvs_Suc len recv_iff)

lemma cap_pos: "0 < cap"
  using steps by (cases cap) (simp_all add: NCCL_STEPS_def)

abbreviation wt :: "nat \<Rightarrow> nat \<Rightarrow> nat" where "wt p k \<equiv> k * nRanks cfg + dist p"

lemma chain_source:
  assumes "p < nRanks cfg" "k < L" "opRecv (prog cfg p ! k)"
  shows "\<exists>j < length (prog cfg (prv (nRanks cfg) p)). opSend (prog cfg (prv (nRanks cfg) p) ! j) \<and>
      sends cfg (prv (nRanks cfg) p) j = recvs cfg p k \<and> wt (prv (nRanks cfg) p) j < wt p k \<and>
      opSize (prog cfg (prv (nRanks cfg) p) ! j) = opSize (prog cfg p ! k) \<and>
      val p k = slice_value (redOp cfg) (m0 p) (prog cfg p ! k) (val (prv (nRanks cfg) p) j)"
proof (rule exI [of _ k])
  let ?q = "prv (nRanks cfg) p"
  have d: "0 < dist p" "dist p < nRanks cfg" using assms recv_iff chain_dist_less [OF assms(1) z] by auto
  have q: "?q < nRanks cfg" "dist ?q = dist p - 1"
    using assms(1) z d chain_dist_prv by (simp_all add: prv_less)
  have "Suc (dist ?q) < nRanks cfg" using d q(2) by simp
  then show "k < length (prog cfg ?q) \<and> opSend (prog cfg ?q ! k) \<and>
      sends cfg ?q k = recvs cfg p k \<and> wt ?q k < wt p k \<and>
      opSize (prog cfg ?q ! k) = opSize (prog cfg p ! k) \<and>
      val p k = slice_value (redOp cfg) (m0 p) (prog cfg p ! k) (val ?q k)"
    using assms(1,2) q d later len send_iff sends_eq recvs_eq by auto
qed

lemma chain_room:
  assumes "p < nRanks cfg" "k < L" "opSend (prog cfg p ! k)" "cap \<le> sends cfg p k"
  shows "\<exists>j < length (prog cfg (nxt (nRanks cfg) p)). opRecv (prog cfg (nxt (nRanks cfg) p) ! j) \<and>
      recvs cfg (nxt (nRanks cfg) p) j = sends cfg p k - cap \<and> wt (nxt (nRanks cfg) p) j < wt p k"
proof (rule exI [of _ "k - cap"])
  let ?q = "nxt (nRanks cfg) p"
  have d: "Suc (dist p) < nRanks cfg" using assms send_iff by blast
  have q: "?q < nRanks cfg" "dist ?q = Suc (dist p)"
    using assms(1) z d chain_dist_nxt by (simp_all add: nxt_less)
  have s: "sends cfg p k = k" using assms(1,2) d by (intro sends_eq) simp_all
  have c: "cap \<le> k" "k - cap < L" using assms(2,4) s by simp_all
  have "(k - cap + 1) * nRanks cfg \<le> k * nRanks cfg"
    using c(1) cap_pos by (intro mult_le_mono1) simp
  then have "wt ?q (k - cap) < wt p k" using q(2) n by (simp add: distrib_right)
  then show "k - cap < length (prog cfg ?q) \<and> opRecv (prog cfg ?q ! (k - cap)) \<and>
      recvs cfg ?q (k - cap) = sends cfg p k - cap \<and> wt ?q (k - cap) < wt p k"
    using q c s len recv_iff recvs_eq by auto
qed

end

sublocale chain_ring \<subseteq> run: ring_run cfg m0 f0 val "\<lambda>p k. k * nRanks cfg + chain_dist (nRanks cfg) z p" cap for f0
proof
  show "stepsPerSlice cfg * cap = NCCL_STEPS" by (rule steps)
  show "0 \<le> connStepSize cfg" by (rule css)
  fix p k assume pk: "p < nRanks cfg" "k < length (prog cfg p)"
  then have k: "k < L" by (simp add: len)
  show "int (opSize (prog cfg p ! k)) \<le> int (stepsPerSlice cfg) * connStepSize cfg"
    using pk(1) k by (rule fits)
  show "\<exists>j < length (prog cfg (prv (nRanks cfg) p)). opSend (prog cfg (prv (nRanks cfg) p) ! j) \<and>
      sends cfg (prv (nRanks cfg) p) j = recvs cfg p k \<and> wt (prv (nRanks cfg) p) j < wt p k \<and>
      opSize (prog cfg (prv (nRanks cfg) p) ! j) = opSize (prog cfg p ! k) \<and>
      val p k = slice_value (redOp cfg) (m0 p) (prog cfg p ! k) (val (prv (nRanks cfg) p) j)"
    if "opRecv (prog cfg p ! k)" using chain_source [OF pk(1) k that] .
  show "val p k = slice_value (redOp cfg) (m0 p) (prog cfg p ! k) []" if "\<not> opRecv (prog cfg p ! k)"
    using that pk(1) k by (intro first) (simp_all add: recv_iff)
  show "\<exists>j < length (prog cfg (nxt (nRanks cfg) p)). opRecv (prog cfg (nxt (nRanks cfg) p) ! j) \<and>
      recvs cfg (nxt (nRanks cfg) p) j = sends cfg p k - cap \<and> wt (nxt (nRanks cfg) p) j < wt p k"
    if "opSend (prog cfg p ! k)" "cap \<le> sends cfg p k" using chain_room [OF pk(1) k that] .
next
  fix p j k a b
  assume a: "p < nRanks cfg" "j < k" "k < length (prog cfg p)" "opDst (prog cfg p ! j) = Some a" "opSrc (prog cfg p ! k) = Some b"
  then show "disjoint_regions a (opSize (prog cfg p ! j)) b (opSize (prog cfg p ! k))"
    using no_clobber len by simp
next
  fix p j k assume "p < nRanks cfg" "j < k" "k < length (prog cfg p)"
  then show "wt p j < wt p k" using n by simp
qed

end
