(* ===== verification/Ring_Chain.thy ===== *)
theory Ring_Chain
  imports Ring_ReduceScatter Chain_Ring
begin

text \<open>
  Correctness of the Broadcast and Reduce rings: under every interleaving the root's input reaches
  every rank, and the reduction of all inputs reaches the root.
\<close>

section \<open>Roles in the ring\<close>

lemma ring_view_root:
  assumes "inj_on ranks {..<n}" "p < n" "r0 < n" "0 < n"
  shows "ring_view n ranks p i = int (ranks r0) \<longleftrightarrow> (p + nat i) mod n = r0"
  using assms by (auto simp: ring_view_def inj_on_def)

lemma chain_dist_0_iff: "p < n \<Longrightarrow> z < n \<Longrightarrow> chain_dist n z p = 0 \<longleftrightarrow> p = z"
  by (auto simp: chain_dist_def)

lemma chain_dist_last_iff: "p < n \<Longrightarrow> z < n \<Longrightarrow> Suc (chain_dist n z p) = n \<longleftrightarrow> nxt n p = z"
  by (auto simp: chain_dist_def nxt_def mod_if)

lemma chain_dist_pos: "p < n \<Longrightarrow> z < n \<Longrightarrow> (z + chain_dist n z p) mod n = p"
  by (auto simp: chain_dist_def)

abbreviation chain_base :: "ringjob \<Rightarrow> nat \<Rightarrow> int" where
  "chain_base j k \<equiv> lin_base 1 1 (jstep j) (jpart j) k 0"

abbreviation chain_size :: "ringjob \<Rightarrow> nat \<Rightarrow> int" where
  "chain_size j k \<equiv> snd (lin_slice 1 1 (jstep j) (jpart j) k 0)"

abbreviation chain_in :: "ringjob \<Rightarrow> nat \<Rightarrow> int \<Rightarrow> bool" where
  "chain_in j k e \<equiv> lin_in 1 1 (jstep j) (jpart j) k 0 e"

lemma chain_in_bounds:
  assumes "lin_ok 1 1 (jstep j) (jpart j)" "chain_in j k e"
  shows "partOffset (jpart j) \<le> e" "e < partOffset (jpart j) + partCount (jpart j)"
  using lin_in_bounds(1,2) [OF assms(1) _ assms(2)] by simp_all

section \<open>Broadcast\<close>

definition bc_op :: "prims \<Rightarrow> nat \<Rightarrow> nat \<Rightarrow> nat \<Rightarrow> cbd_part \<Rightarrow> nat \<Rightarrow> slice_op list" where
  "bc_op pr n r0 p part b =
     (let off = partOffset part + int b * chunkCount part; d = chain_dist n r0 p
      in genericOp pr (0 < d) (Suc d < n) (if d = 0 then Some Input else None)
           (if d = 0 \<and> userInput pr = userOutput pr then None else Some Output) off off
           (min (chunkCount part) (partCount part - int b * chunkCount part)) False)"

lemma broadcast_body_eq:
  assumes "2 \<le> n" "p < n" "r0 < n" "inj_on ranks {..<n}"
  shows "broadcast_body pr (ring_view n ranks p) (int (ranks r0)) part (int b * chunkCount part) = bc_op pr n r0 p part b"
proof -
  have d: "chain_dist n r0 p < n" using assms by (simp add: chain_dist_less)
  have root: "ring_view n ranks p 0 = int (ranks r0) \<longleftrightarrow> chain_dist n r0 p = 0"
    using assms ring_view_root [OF assms(4,2,3), of 0] by (simp add: chain_dist_0_iff)
  have last: "ring_view n ranks p 1 = int (ranks r0) \<longleftrightarrow> \<not> Suc (chain_dist n r0 p) < n"
    using assms d ring_view_root [OF assms(4,2,3), of 1] chain_dist_last_iff [OF assms(2,3)]
    by (auto simp: nxt_def)
  show ?thesis
    unfolding broadcast_body_def Let_def root last bc_op_def
    using assms(1) by (auto simp: directSend_def directCopySend_def directRecv_def directRecvCopyDirectSend_def)
qed

definition bc_cfg :: "'a redop \<Rightarrow> ringjob \<Rightarrow> (nat \<Rightarrow> nat) \<Rightarrow> nat \<Rightarrow> 'a ringcfg" where
  "bc_cfg rop j ranks r0 = \<lparr>nRanks = jn j, stepsPerSlice = 1, connStepSize = jstep j, redOp = rop,
     prog = (\<lambda>p. the (runRing_Broadcast (job_prims 1 1 j p) (ring_view (jn j) ranks p) (int (ranks r0)) (jpart j)))\<rparr>"

text \<open>The root is at position \<open>r0\<close>; its input and output are the same buffer or do not overlap.\<close>

definition bc_ok :: "ringjob \<Rightarrow> (nat \<Rightarrow> nat) \<Rightarrow> nat \<Rightarrow> bool" where
  "bc_ok j ranks r0 \<longleftrightarrow> 2 \<le> jn j \<and> r0 < jn j \<and> lin_ok 1 1 (jstep j) (jpart j) \<and> inj_on ranks {..<jn j} \<and>
     (jin j r0 = jout j r0 \<or> jout j r0 + partCount (jpart j) \<le> jin j r0 \<or> jin j r0 + partCount (jpart j) \<le> jout j r0)"

lemma runRing_Broadcast_concat:
  assumes "bc_ok j ranks r0" "p < jn j"
  shows "runRing_Broadcast (job_prims 1 1 j p) (ring_view (jn j) ranks p) (int (ranks r0)) (jpart j) =
    Some (concat (map (bc_op (job_prims 1 1 j p) (jn j) r0 p (jpart j)) [0..<lin_iters (jpart j)]))"
  using assms unfolding runRing_Broadcast_def
  by (subst chunk_loop_eq) (simp_all add: bc_ok_def lin_ok_def broadcast_body_eq)

lemma length_bc_op: "length (bc_op pr n r0 p part b) = SlicePerChunk pr"
  by (simp add: bc_op_def Let_def)

lemma bc_prog_length: "bc_ok j ranks r0 \<Longrightarrow> p < jn j \<Longrightarrow> length (prog (bc_cfg rop j ranks r0) p) = lin_iters (jpart j)"
  by (simp add: bc_cfg_def runRing_Broadcast_concat length_concat_uniform [where s = 1] length_bc_op
      del: One_nat_def)

lemma bc_prog_nth:
  assumes "bc_ok j ranks r0" "p < jn j" "k < lin_iters (jpart j)"
  defines "d \<equiv> chain_dist (jn j) r0 p"
  shows "prog (bc_cfg rop j ranks r0) p ! k =
    \<lparr>opRecv = (0 < d), opSend = (Suc d < jn j), opSrc = (if d = 0 then Some (jin j p + chain_base j k) else None), opPre = (d = 0),
     opDst = (if d = 0 \<and> jin j p = jout j p then None else Some (jout j p + chain_base j k)),
     opSize = nat (chain_size j k), opPost = False\<rparr>"
proof -
  have "concat (map (bc_op (job_prims 1 1 j p) (jn j) r0 p (jpart j)) [0..<lin_iters (jpart j)]) ! k =
      bc_op (job_prims 1 1 j p) (jn j) r0 p (jpart j) (k div 1) ! (k mod 1)"
    using assms(3) by (intro nth_concat_uniform) (simp_all add: length_bc_op)
  then have "prog (bc_cfg rop j ranks r0) p ! k = bc_op (job_prims 1 1 j p) (jn j) r0 p (jpart j) k ! 0"
    by (simp add: bc_cfg_def runRing_Broadcast_concat [OF assms(1,2)] del: One_nat_def)
  then show ?thesis
    by (auto simp: bc_op_def Let_def nth_genericOp split_beta userPtr_def lin_base_def lin_slice_def d_def add.assoc)
qed

definition bc_val :: "'a redop \<Rightarrow> ringjob \<Rightarrow> nat \<Rightarrow> (nat \<Rightarrow> int \<Rightarrow> 'a) \<Rightarrow> nat \<Rightarrow> 'a list" where
  "bc_val rop j r0 m0 k = map (\<lambda>i. preOp rop (m0 r0 (jin j r0 + chain_base j k + int i))) [0..<nat (chain_size j k)]"

lemma bc_chain_ring:
  assumes "bc_ok j ranks r0"
  shows "chain_ring (bc_cfg rop j ranks r0) m0 (\<lambda>_. bc_val rop j r0 m0) 8 r0 (lin_iters (jpart j))"
proof
  have sel: "nRanks (bc_cfg rop j ranks r0) = jn j" "stepsPerSlice (bc_cfg rop j ranks r0) = 1"
    "connStepSize (bc_cfg rop j ranks r0) = jstep j" "redOp (bc_cfg rop j ranks r0) = rop"
    by (simp_all add: bc_cfg_def)
  have ok: "2 \<le> jn j" "lin_ok 1 1 (jstep j) (jpart j)" "r0 < jn j" using assms by (simp_all add: bc_ok_def)
  show "stepsPerSlice (bc_cfg rop j ranks r0) * 8 = NCCL_STEPS" by (simp add: sel NCCL_STEPS_def)
  show "2 \<le> nRanks (bc_cfg rop j ranks r0)" "r0 < nRanks (bc_cfg rop j ranks r0)" using ok by (simp_all add: sel)
  show "0 \<le> connStepSize (bc_cfg rop j ranks r0)" using ok(2) by (simp add: sel lin_ok_def)
  fix p assume "p < nRanks (bc_cfg rop j ranks r0)"
  then have p: "p < jn j" by (simp add: sel)
  then have q: "prv (jn j) p < jn j" by simp
  show "length (prog (bc_cfg rop j ranks r0) p) = lin_iters (jpart j)" using assms p by (rule bc_prog_length)
  fix k assume k: "k < lin_iters (jpart j)"
  note nth = bc_prog_nth [OF assms p k] bc_prog_nth [OF assms q k]
  show "int (opSize (prog (bc_cfg rop j ranks r0) p ! k)) \<le> int (stepsPerSlice (bc_cfg rop j ranks r0)) * connStepSize (bc_cfg rop j ranks r0)"
    using lin_slice_fits [OF ok(2), of 0 k] ok(2) by (simp add: nth sel lin_ok_def)
  show "opSend (prog (bc_cfg rop j ranks r0) p ! k) \<longleftrightarrow> Suc (chain_dist (nRanks (bc_cfg rop j ranks r0)) r0 p) < nRanks (bc_cfg rop j ranks r0)"
    "opRecv (prog (bc_cfg rop j ranks r0) p ! k) \<longleftrightarrow> 0 < chain_dist (nRanks (bc_cfg rop j ranks r0)) r0 p"
    by (simp_all add: nth sel)
  show "bc_val rop j r0 m0 k = slice_value (redOp (bc_cfg rop j ranks r0)) (m0 p) (prog (bc_cfg rop j ranks r0) p ! k) []"
    if "chain_dist (nRanks (bc_cfg rop j ranks r0)) r0 p = 0"
    using that p ok(3) unfolding sel nth
    by (auto simp: chain_dist_0_iff chain_dist_0_iff [THEN iffD2] read_at_def bc_val_def slice_value_def reduceCopy_def slice_srcs_def reduceCopyElt_def)
  show "opSize (prog (bc_cfg rop j ranks r0) (prv (nRanks (bc_cfg rop j ranks r0)) p) ! k) = opSize (prog (bc_cfg rop j ranks r0) p ! k) \<and>
      bc_val rop j r0 m0 k = slice_value (redOp (bc_cfg rop j ranks r0)) (m0 p) (prog (bc_cfg rop j ranks r0) p ! k) (bc_val rop j r0 m0 k)"
    if "0 < chain_dist (nRanks (bc_cfg rop j ranks r0)) r0 p"
    using that unfolding sel nth
    by (auto simp: bc_val_def slice_value_def reduceCopy_def slice_srcs_def reduceCopyElt_def)
  show "disjoint_regions a (opSize (prog (bc_cfg rop j ranks r0) p ! i)) b (opSize (prog (bc_cfg rop j ranks r0) p ! k))"
    if ik: "i < k" and ab: "opDst (prog (bc_cfg rop j ranks r0) p ! i) = Some a" "opSrc (prog (bc_cfg rop j ranks r0) p ! k) = Some b" for i a b
  proof (rule ccontr)
    have i: "i < lin_iters (jpart j)" using ik k by simp
    note nthi = bc_prog_nth [OF assms p i]
    assume "\<not> disjoint_regions a (opSize (prog (bc_cfg rop j ranks r0) p ! i)) b (opSize (prog (bc_cfg rop j ranks r0) p ! k))"
    from overlap_point [OF this] obtain y where y:
      "a \<le> y" "y < a + int (nat (chain_size j i))" "b \<le> y" "y < b + int (nat (chain_size j k))"
      unfolding nth nthi by auto
    have pr: "p = r0" "jin j r0 \<noteq> jout j r0" "a = jout j r0 + chain_base j i" "b = jin j r0 + chain_base j k"
      using ab p ok(3) unfolding nth nthi by (auto simp: chain_dist_0_iff split: if_splits)
    have "chain_in j i (y - jout j r0)" "chain_in j k (y - jin j r0)"
      using y unfolding pr lin_in_def by (auto split: if_splits)
    then show False using chain_in_bounds [OF ok(2)] assms pr(2) unfolding bc_ok_def by fastforce
  qed
qed

definition bc_prepared :: "ringjob \<times> (nat \<Rightarrow> nat) \<times> nat \<Rightarrow> ringjob \<times> (nat \<Rightarrow> nat) \<times> nat" where
  "bc_prepared jr = (if bc_ok (fst jr) (fst (snd jr)) (snd (snd jr)) then jr
     else (\<lparr>jn = 2, jstep = 16, jelt = 1, jpart = \<lparr>cbdCount = 0, partOffset = 0, partCount = 0, chunkCount = 16\<rparr>,
            jin = (\<lambda>_. 0), jout = (\<lambda>_. 0)\<rparr>, \<lambda>p. p, 0))"

lemma bc_ok_prepared: "bc_ok (fst (bc_prepared jr)) (fst (snd (bc_prepared jr))) (snd (snd (bc_prepared jr)))"
  by (simp add: bc_prepared_def bc_ok_def lin_ok_def)

lemma bc_prepared_eq: "bc_ok j ranks r0 \<Longrightarrow> bc_prepared (j, ranks, r0) = (j, ranks, r0)"
  by (simp add: bc_prepared_def)

interpretation bc: chain_ring "bc_cfg rop (fst (bc_prepared jr)) (fst (snd (bc_prepared jr))) (snd (snd (bc_prepared jr)))" m0
    "\<lambda>_. bc_val rop (fst (bc_prepared jr)) (snd (snd (bc_prepared jr))) m0" 8 "snd (snd (bc_prepared jr))"
    "lin_iters (jpart (fst (bc_prepared jr)))"
  for rop :: "'a redop" and jr m0
  by (rule bc_chain_ring) (rule bc_ok_prepared)

lemmas bc_final = bc.run.run_final
lemmas bc_written = bc.run.mem_after_written
lemmas bc_unwritten = bc.run.mem_after_unwritten

lemma nRanks_bc_cfg [simp]: "nRanks (bc_cfg rop j ranks r0) = jn j"
  by (simp add: bc_cfg_def)

lemma bc_writes_iff:
  assumes "bc_ok j ranks r0" "p < jn j" "k < lin_iters (jpart j)"
  shows "writes_to (prog (bc_cfg rop j ranks r0) p ! k) (jout j p + e) \<longleftrightarrow>
    \<not> (p = r0 \<and> jin j p = jout j p) \<and> chain_in j k e"
  unfolding bc_prog_nth [OF assms] writes_to_def lin_in_def
  using assms(1,2) by (auto simp: bc_ok_def chain_dist_0_iff split: if_splits)

text \<open>Every element of the channel's part is in the slice of exactly one iteration.\<close>

lemma chain_in_unique:
  assumes "lin_ok 1 1 (jstep j) (jpart j)" "chain_in j k e" "chain_in j i e"
  shows "i = k"
  using lin_in_unique [OF assms(1) _ assms(3) _ assms(2)] by simp

lemma chain_in_cover:
  assumes "lin_ok 1 1 (jstep j) (jpart j)" "partOffset (jpart j) \<le> e \<and> e < partOffset (jpart j) + partCount (jpart j)"
  shows "\<exists>k < lin_iters (jpart j). chain_in j k e"
  using lin_in_cover [OF assms(1)] assms(2) by (simp del: One_nat_def)

lemma bc_memory:
  assumes ok: "bc_ok j ranks r0" and run: "(ring_step (bc_cfg rop j ranks r0))\<^sup>*\<^sup>* (ring_init m f) s"
      "\<nexists>s'. ring_step (bc_cfg rop j ranks r0) s s'" and p: "p < jn j"
  shows "umem s p (jout j p + e) =
    (if partOffset (jpart j) \<le> e \<and> e < partOffset (jpart j) + partCount (jpart j) \<and> \<not> (p = r0 \<and> jin j p = jout j p)
     then preOp rop (m r0 (jin j r0 + e)) else m p (jout j p + e))"
proof -
  let ?c = "bc_cfg rop j ranks r0" let ?L = "lin_iters (jpart j)"
  have len: "length (prog ?c p) = ?L" using ok p by (rule bc_prog_length)
  have um: "umem s p = bc.run.mem_after rop (j, ranks, r0) m p ?L"
    using bc_final(2) [of rop "(j, ranks, r0)" m f s p] ok run p len by (simp add: bc_prepared_eq)
  have lin: "lin_ok 1 1 (jstep j) (jpart j)" using ok by (simp add: bc_ok_def)
  show ?thesis
  proof (cases "partOffset (jpart j) \<le> e \<and> e < partOffset (jpart j) + partCount (jpart j) \<and> \<not> (p = r0 \<and> jin j p = jout j p)")
    case True
    then obtain k where k: "k < ?L" "chain_in j k e" using chain_in_cover [OF lin, of e] by blast
    have later: "\<not> writes_to (prog ?c p ! i) (jout j p + e)" if i: "k < i" "i < ?L" for i
      using bc_writes_iff [OF ok p i(2)] chain_in_unique [OF lin k(2), of i] i(1) by auto
    have w: "writes_to (prog ?c p ! k) (jout j p + e)" using bc_writes_iff [OF ok p k(1)] k(2) True by blast
    have op: "opDst (prog ?c p ! k) = Some (jout j p + chain_base j k)" "opSize (prog ?c p ! k) = nat (chain_size j k)"
      using w unfolding bc_prog_nth [OF ok p k(1)] by (auto simp: writes_to_def split: if_splits)
    have in': "chain_base j k \<le> e" "e < chain_base j k + chain_size j k" using k(2) by (simp_all add: lin_in_def)
    have "bc.run.mem_after rop (j, ranks, r0) m p ?L (jout j p + e) = bc_val rop j r0 m k ! nat (e - chain_base j k)"
      using bc_written [of p rop "(j, ranks, r0)" ?L k "jout j p + chain_base j k" "jout j p + e" m]
        ok p len k(1) op later in' by (simp add: bc_prepared_eq)
    also have "\<dots> = preOp rop (m r0 (jin j r0 + e))" unfolding bc_val_def using in' by (simp add: nat_less_iff)
    finally show ?thesis unfolding if_P [OF True] um .
  next
    case False
    have "\<not> writes_to (prog ?c p ! i) (jout j p + e)" if i: "i < ?L" for i
      using bc_writes_iff [OF ok p i] chain_in_bounds [OF lin] False by blast
    then have "bc.run.mem_after rop (j, ranks, r0) m p ?L (jout j p + e) = m p (jout j p + e)"
      using bc_unwritten [of p rop "(j, ranks, r0)" ?L "jout j p + e" m] ok p len by (simp add: bc_prepared_eq)
    then show ?thesis unfolding if_not_P [OF False] um .
  qed
qed

lemma bc_run_exists:
  "bc_ok j ranks r0 \<Longrightarrow> \<exists>s. (ring_step (bc_cfg rop j ranks r0))\<^sup>*\<^sup>* (ring_init m f) s \<and> (\<nexists>s'. ring_step (bc_cfg rop j ranks r0) s s')"
  using bc.run.run_exists [of rop "(j, ranks, r0)" m f] by (simp add: bc_prepared_eq)

text \<open>
  C5: The Broadcast ring is correct under every interleaving.  An execution that can not be
  continued has finished on all ranks; on every rank the channel's part of the output then is that
  part of the input of the root, in place or not, and all other memory of the rank is unchanged.
\<close>

theorem broadcast_ring_correct:
  assumes "bc_ok j ranks r0" and "(ring_step (bc_cfg FuncCopy j ranks r0))\<^sup>*\<^sup>* (ring_init m f) s"
    and "\<nexists>s'. ring_step (bc_cfg FuncCopy j ranks r0) s s'"
  shows "ring_done (bc_cfg FuncCopy j ranks r0) s \<and>
    (\<forall>p < jn j. \<forall>e. umem s p (jout j p + e) =
       (if partOffset (jpart j) \<le> e \<and> e < partOffset (jpart j) + partCount (jpart j)
        then m r0 (jin j r0 + e) else m p (jout j p + e)))"
proof (intro conjI allI impI)
  show "ring_done (bc_cfg FuncCopy j ranks r0) s"
    using bc_final(1) [of FuncCopy "(j, ranks, r0)" m f s] assms by (simp add: bc_prepared_eq)
  fix p e assume "p < jn j"
  then show "umem s p (jout j p + e) =
       (if partOffset (jpart j) \<le> e \<and> e < partOffset (jpart j) + partCount (jpart j)
        then m r0 (jin j r0 + e) else m p (jout j p + e))"
    using bc_memory [OF assms, of p e] by (auto simp: FuncCopy_def)
qed

definition bc_example :: ringjob where
  "bc_example = \<lparr>jn = 3, jstep = 16, jelt = 4, jpart = \<lparr>cbdCount = 40, partOffset = 2, partCount = 38, chunkCount = 16\<rparr>,
     jin = (\<lambda>_. 0), jout = (\<lambda>_. 100)\<rparr>"

lemma bc_example_sel [simp]:
  "jn bc_example = 3" "jstep bc_example = 16" "jin bc_example p = 0" "jout bc_example p = 100"
  "jpart bc_example = \<lparr>cbdCount = 40, partOffset = 2, partCount = 38, chunkCount = 16\<rparr>"
  by (simp_all add: bc_example_def)

lemma bc_ok_example: "bc_ok bc_example (\<lambda>p. 2 - p) 1"
  by (auto simp: bc_ok_def lin_ok_def inj_on_def)

theorem broadcast_ring_correct_witness:
  "\<exists>s. (ring_step (bc_cfg FuncCopy bc_example (\<lambda>p. 2 - p) 1))\<^sup>*\<^sup>* (ring_init (\<lambda>q a. int q * 1000 + a) (\<lambda>_ _. 0)) s \<and>
     umem s 0 101 = 101 \<and> umem s 0 102 = 1002 \<and> umem s 2 139 = 1039"
proof -
  obtain s where s: "(ring_step (bc_cfg FuncCopy bc_example (\<lambda>p. 2 - p) 1))\<^sup>*\<^sup>* (ring_init (\<lambda>q a. int q * 1000 + a) (\<lambda>_ _. 0)) s"
    "\<nexists>s'. ring_step (bc_cfg FuncCopy bc_example (\<lambda>p. 2 - p) 1) s s'"
    using bc_run_exists [OF bc_ok_example] by blast
  note c = broadcast_ring_correct [OF bc_ok_example s, THEN conjunct2, rule_format]
  have "umem s 0 101 = 101" "umem s 0 102 = 1002" "umem s 2 139 = 1039"
    using c [of 0 1] c [of 0 2] c [of 2 39] by simp_all
  then show ?thesis using s(1) by blast
qed

section \<open>Reduce\<close>

text \<open>The chain starts at the position after the root and ends at the root.\<close>

definition rd_op :: "prims \<Rightarrow> nat \<Rightarrow> nat \<Rightarrow> nat \<Rightarrow> cbd_part \<Rightarrow> nat \<Rightarrow> slice_op list" where
  "rd_op pr n r0 p part b =
     (let off = partOffset part + int b * chunkCount part; d = chain_dist n (nxt n r0) p
      in genericOp pr (0 < d) (Suc d < n) (Some Input) (if Suc d = n then Some Output else None)
           off (if Suc d = n then off else -1)
           (min (chunkCount part) (partCount part - int b * chunkCount part)) (Suc d = n))"

lemma nxt_inj: "p < n \<Longrightarrow> q < n \<Longrightarrow> nxt n p = nxt n q \<longleftrightarrow> p = q"
  by (metis prv_nxt)

lemma chain_dist_end: "p < n \<Longrightarrow> r0 < n \<Longrightarrow> Suc (chain_dist n (nxt n r0) p) = n \<longleftrightarrow> p = r0"
  by (simp add: chain_dist_last_iff nxt_inj)

lemma reduce_body_eq:
  assumes "2 \<le> n" "p < n" "r0 < n" "inj_on ranks {..<n}"
  shows "reduce_body pr (int n) (ring_view n ranks p) (int (ranks r0)) part (int b * chunkCount part) = rd_op pr n r0 p part b"
proof -
  have d: "chain_dist n (nxt n r0) p < n" using assms by (simp add: chain_dist_less)
  have "nat (int n - 1) = n - 1" by linarith
  then have root: "ring_view n ranks p (int n - 1) = int (ranks r0) \<longleftrightarrow> chain_dist n (nxt n r0) p = 0"
    using assms ring_view_root [OF assms(4,2,3), of "int n - 1"] nxt_prv [OF assms(2)] prv_nxt [OF assms(3)]
    by (auto simp: chain_dist_0_iff prv_def)
  have last: "ring_view n ranks p 0 = int (ranks r0) \<longleftrightarrow> Suc (chain_dist n (nxt n r0) p) = n"
    using assms ring_view_root [OF assms(4,2,3), of 0] chain_dist_end [OF assms(2,3)] by simp
  show ?thesis
    unfolding reduce_body_def Let_def root last rd_op_def
    using assms(1) d by (auto simp: prim_send_def recvReduceCopy_def recvReduceSend_def)
qed

definition rd_cfg :: "'a redop \<Rightarrow> ringjob \<Rightarrow> (nat \<Rightarrow> nat) \<Rightarrow> nat \<Rightarrow> 'a ringcfg" where
  "rd_cfg rop j ranks r0 = \<lparr>nRanks = jn j, stepsPerSlice = 1, connStepSize = jstep j, redOp = rop,
     prog = (\<lambda>p. the (runRing_Reduce (job_prims 1 1 j p) (int (jn j)) (ring_view (jn j) ranks p) (int (ranks r0)) (jpart j)))\<rparr>"

lemma runRing_Reduce_concat:
  assumes "bc_ok j ranks r0" "p < jn j"
  shows "runRing_Reduce (job_prims 1 1 j p) (int (jn j)) (ring_view (jn j) ranks p) (int (ranks r0)) (jpart j) =
    Some (concat (map (rd_op (job_prims 1 1 j p) (jn j) r0 p (jpart j)) [0..<lin_iters (jpart j)]))"
  using assms unfolding runRing_Reduce_def
  by (subst chunk_loop_eq) (simp_all add: bc_ok_def lin_ok_def reduce_body_eq)

lemma length_rd_op: "length (rd_op pr n r0 p part b) = SlicePerChunk pr"
  by (simp add: rd_op_def Let_def)

lemma rd_prog_length: "bc_ok j ranks r0 \<Longrightarrow> p < jn j \<Longrightarrow> length (prog (rd_cfg rop j ranks r0) p) = lin_iters (jpart j)"
  by (simp add: rd_cfg_def runRing_Reduce_concat length_concat_uniform [where s = 1] length_rd_op del: One_nat_def)

lemma rd_prog_nth:
  assumes "bc_ok j ranks r0" "p < jn j" "k < lin_iters (jpart j)"
  defines "d \<equiv> chain_dist (jn j) (nxt (jn j) r0) p"
  shows "prog (rd_cfg rop j ranks r0) p ! k =
    \<lparr>opRecv = (0 < d), opSend = (Suc d < jn j), opSrc = Some (jin j p + chain_base j k), opPre = True,
     opDst = (if Suc d = jn j then Some (jout j p + chain_base j k) else None),
     opSize = nat (chain_size j k), opPost = (Suc d = jn j)\<rparr>"
proof -
  have "concat (map (rd_op (job_prims 1 1 j p) (jn j) r0 p (jpart j)) [0..<lin_iters (jpart j)]) ! k =
      rd_op (job_prims 1 1 j p) (jn j) r0 p (jpart j) (k div 1) ! (k mod 1)"
    using assms(3) by (intro nth_concat_uniform) (simp_all add: length_rd_op)
  then have "prog (rd_cfg rop j ranks r0) p ! k = rd_op (job_prims 1 1 j p) (jn j) r0 p (jpart j) k ! 0"
    by (simp add: rd_cfg_def runRing_Reduce_concat [OF assms(1,2)] del: One_nat_def)
  then show ?thesis
    by (auto simp: rd_op_def Let_def nth_genericOp split_beta userPtr_def lin_base_def lin_slice_def d_def add.assoc)
qed

text \<open>The partial result at distance \<open>d\<close> from the start of the chain.\<close>

definition rd_elt :: "'a redop \<Rightarrow> ringjob \<Rightarrow> nat \<Rightarrow> (nat \<Rightarrow> int \<Rightarrow> 'a) \<Rightarrow> nat \<Rightarrow> int \<Rightarrow> 'a" where
  "rd_elt rop j r0 m0 d e =
     (let r = ring_red rop (jn j) (\<lambda>q. m0 q (jin j q + e)) r0 d in if Suc d = jn j then postOp rop r else r)"

definition rd_val :: "'a redop \<Rightarrow> ringjob \<Rightarrow> nat \<Rightarrow> (nat \<Rightarrow> int \<Rightarrow> 'a) \<Rightarrow> nat \<Rightarrow> nat \<Rightarrow> 'a list" where
  "rd_val rop j r0 m0 p k =
     map (\<lambda>i. rd_elt rop j r0 m0 (chain_dist (jn j) (nxt (jn j) r0) p) (chain_base j k + int i)) [0..<nat (chain_size j k)]"

lemma rd_elt_step:
  assumes "Suc v < jn j" "(r0 + 1 + Suc v) mod jn j = p"
  shows "rd_elt rop j r0 m0 (Suc v) e =
    reduceCopyElt rop True (Suc (Suc v) = jn j) [m0 p (jin j p + e), rd_elt rop j r0 m0 v e]"
proof -
  define x where "x = (\<lambda>q. m0 q (jin j q + e))"
  have v: "Suc v \<noteq> jn j" using assms(1) by simp
  have step: "ring_red rop (jn j) x r0 (Suc v) = redFn rop (preOp rop (m0 p (jin j p + e))) (ring_red rop (jn j) x r0 v)"
    using assms(2) by (simp add: x_def)
  show ?thesis unfolding rd_elt_def Let_def x_def [symmetric] step using v by (auto simp: reduceCopyElt_def)
qed

lemma chain_dist_from: "p < n \<Longrightarrow> r0 < n \<Longrightarrow> (r0 + 1 + chain_dist n (nxt n r0) p) mod n = p"
  using chain_dist_pos [of p n "nxt n r0"] by (simp add: nxt_def mod_add_left_eq)

lemma rd_first:
  assumes "bc_ok j ranks r0" "p < jn j" "k < lin_iters (jpart j)" "chain_dist (jn j) (nxt (jn j) r0) p = 0"
  shows "rd_val rop j r0 m0 p k = slice_value rop (m0 p) (prog (rd_cfg rop j ranks r0) p ! k) []"
proof -
  have 1: "Suc 0 \<noteq> jn j" "r0 < jn j" using assms(1) by (auto simp: bc_ok_def)
  have p: "(r0 + 1) mod jn j = p" using chain_dist_from [OF assms(2) 1(2)] assms(4) by simp
  show ?thesis
    unfolding rd_prog_nth [OF assms(1,2,3)] assms(4) rd_val_def rd_elt_def Let_def using 1 p
    by (auto simp: slice_value_def reduceCopy_def slice_srcs_def reduceCopyElt_def read_at_def algebra_simps)
qed

lemma rd_later:
  assumes "bc_ok j ranks r0" "p < jn j" "k < lin_iters (jpart j)" "0 < chain_dist (jn j) (nxt (jn j) r0) p"
  shows "rd_val rop j r0 m0 p k = slice_value rop (m0 p) (prog (rd_cfg rop j ranks r0) p ! k) (rd_val rop j r0 m0 (prv (jn j) p) k)"
proof -
  have r0: "r0 < jn j" "nxt (jn j) r0 < jn j" using assms(1) by (auto simp: bc_ok_def)
  obtain v where v: "chain_dist (jn j) (nxt (jn j) r0) p = Suc v" using assms(4) gr0_conv_Suc by blast
  have q: "chain_dist (jn j) (nxt (jn j) r0) (prv (jn j) p) = v"
    using chain_dist_prv [OF assms(2) r0(2) assms(4)] v by simp
  have sv: "Suc v < jn j" using chain_dist_less [OF assms(2) r0(2)] v by simp
  have p: "(r0 + 1 + Suc v) mod jn j = p" using chain_dist_from [OF assms(2) r0(1)] v by simp
  show ?thesis
    unfolding rd_prog_nth [OF assms(1,2,3)] rd_val_def v q rd_elt_step [OF sv p]
    by (auto simp: slice_value_def reduceCopy_def slice_srcs_def read_at_def algebra_simps)
qed

lemma rd_no_clobber:
  assumes "bc_ok j ranks r0" "p < jn j" "i < k" "k < lin_iters (jpart j)"
    and "opDst (prog (rd_cfg rop j ranks r0) p ! i) = Some a" "opSrc (prog (rd_cfg rop j ranks r0) p ! k) = Some b"
  shows "disjoint_regions a (opSize (prog (rd_cfg rop j ranks r0) p ! i)) b (opSize (prog (rd_cfg rop j ranks r0) p ! k))"
proof (rule ccontr)
  have i: "i < lin_iters (jpart j)" using assms(3,4) by simp
  have ok: "r0 < jn j" "lin_ok 1 1 (jstep j) (jpart j)" using assms(1) by (simp_all add: bc_ok_def)
  note nth = rd_prog_nth [OF assms(1,2,4)] rd_prog_nth [OF assms(1,2) i]
  assume "\<not> disjoint_regions a (opSize (prog (rd_cfg rop j ranks r0) p ! i)) b (opSize (prog (rd_cfg rop j ranks r0) p ! k))"
  from overlap_point [OF this] obtain y where y:
    "a \<le> y" "y < a + int (nat (chain_size j i))" "b \<le> y" "y < b + int (nat (chain_size j k))"
    unfolding nth by auto
  have pr: "p = r0" "a = jout j r0 + chain_base j i" "b = jin j r0 + chain_base j k"
    using assms(2,5,6) ok(1) unfolding nth by (auto simp: chain_dist_end split: if_splits)
  have in': "chain_in j i (y - jout j r0)" "chain_in j k (y - jin j r0)"
    using y unfolding pr lin_in_def by (auto split: if_splits)
  then have "jin j r0 = jout j r0" using chain_in_bounds [OF ok(2)] assms(1) unfolding bc_ok_def by fastforce
  then have "i = k" using in' chain_in_unique [OF ok(2)] by metis
  then show False using assms(3) by simp
qed

lemma rd_chain_ring:
  assumes "bc_ok j ranks r0"
  shows "chain_ring (rd_cfg rop j ranks r0) m0 (rd_val rop j r0 m0) 8 (nxt (jn j) r0) (lin_iters (jpart j))"
proof
  have sel: "nRanks (rd_cfg rop j ranks r0) = jn j" "stepsPerSlice (rd_cfg rop j ranks r0) = 1"
    "connStepSize (rd_cfg rop j ranks r0) = jstep j" "redOp (rd_cfg rop j ranks r0) = rop"
    by (simp_all add: rd_cfg_def)
  have ok: "2 \<le> jn j" "lin_ok 1 1 (jstep j) (jpart j)" "r0 < jn j" using assms by (simp_all add: bc_ok_def)
  show "stepsPerSlice (rd_cfg rop j ranks r0) * 8 = NCCL_STEPS" by (simp add: sel NCCL_STEPS_def)
  show "2 \<le> nRanks (rd_cfg rop j ranks r0)" "nxt (jn j) r0 < nRanks (rd_cfg rop j ranks r0)" using ok by (simp_all add: sel)
  show "0 \<le> connStepSize (rd_cfg rop j ranks r0)" using ok(2) by (simp add: sel lin_ok_def)
  fix p assume "p < nRanks (rd_cfg rop j ranks r0)"
  then have p: "p < jn j" by (simp add: sel)
  then have q: "prv (jn j) p < jn j" by simp
  show "length (prog (rd_cfg rop j ranks r0) p) = lin_iters (jpart j)" using assms p by (rule rd_prog_length)
  fix k assume k: "k < lin_iters (jpart j)"
  note nth = rd_prog_nth [OF assms p k] rd_prog_nth [OF assms q k]
  have opsz: "opSize (prog (rd_cfg rop j ranks r0) (prv (jn j) p) ! k) = opSize (prog (rd_cfg rop j ranks r0) p ! k)"
    unfolding nth by simp
  show "int (opSize (prog (rd_cfg rop j ranks r0) p ! k)) \<le> int (stepsPerSlice (rd_cfg rop j ranks r0)) * connStepSize (rd_cfg rop j ranks r0)"
    using lin_slice_fits [OF ok(2), of 0 k] ok(2) by (simp add: nth sel lin_ok_def)
  show "opSend (prog (rd_cfg rop j ranks r0) p ! k) \<longleftrightarrow>
      Suc (chain_dist (nRanks (rd_cfg rop j ranks r0)) (nxt (jn j) r0) p) < nRanks (rd_cfg rop j ranks r0)"
    "opRecv (prog (rd_cfg rop j ranks r0) p ! k) \<longleftrightarrow> 0 < chain_dist (nRanks (rd_cfg rop j ranks r0)) (nxt (jn j) r0) p"
    by (simp_all add: nth sel)
  show "rd_val rop j r0 m0 p k = slice_value (redOp (rd_cfg rop j ranks r0)) (m0 p) (prog (rd_cfg rop j ranks r0) p ! k) []"
    if "chain_dist (nRanks (rd_cfg rop j ranks r0)) (nxt (jn j) r0) p = 0"
    using rd_first [OF assms p k] that unfolding sel by blast
  show "opSize (prog (rd_cfg rop j ranks r0) (prv (nRanks (rd_cfg rop j ranks r0)) p) ! k) = opSize (prog (rd_cfg rop j ranks r0) p ! k) \<and>
      rd_val rop j r0 m0 p k = slice_value (redOp (rd_cfg rop j ranks r0)) (m0 p) (prog (rd_cfg rop j ranks r0) p ! k)
        (rd_val rop j r0 m0 (prv (nRanks (rd_cfg rop j ranks r0)) p) k)"
    if "0 < chain_dist (nRanks (rd_cfg rop j ranks r0)) (nxt (jn j) r0) p"
    unfolding sel using rd_later [OF assms p k that [unfolded sel]] opsz by blast
  show "disjoint_regions a (opSize (prog (rd_cfg rop j ranks r0) p ! i)) b (opSize (prog (rd_cfg rop j ranks r0) p ! k))"
    if "i < k" "opDst (prog (rd_cfg rop j ranks r0) p ! i) = Some a" "opSrc (prog (rd_cfg rop j ranks r0) p ! k) = Some b" for i a b
    using rd_no_clobber [OF assms p that(1) k that(2,3)] .
qed

interpretation rd: chain_ring "rd_cfg rop (fst (bc_prepared jr)) (fst (snd (bc_prepared jr))) (snd (snd (bc_prepared jr)))" m0
    "rd_val rop (fst (bc_prepared jr)) (snd (snd (bc_prepared jr))) m0" 8
    "nxt (jn (fst (bc_prepared jr))) (snd (snd (bc_prepared jr)))" "lin_iters (jpart (fst (bc_prepared jr)))"
  for rop :: "'a redop" and jr m0
  by (rule rd_chain_ring) (rule bc_ok_prepared)

lemmas rd_final = rd.run.run_final
lemmas rd_written = rd.run.mem_after_written
lemmas rd_unwritten = rd.run.mem_after_unwritten

lemma nRanks_rd_cfg [simp]: "nRanks (rd_cfg rop j ranks r0) = jn j"
  by (simp add: rd_cfg_def)

lemma rd_writes_iff:
  assumes "bc_ok j ranks r0" "p < jn j" "k < lin_iters (jpart j)"
  shows "writes_to (prog (rd_cfg rop j ranks r0) p ! k) (jout j p + e) \<longleftrightarrow> p = r0 \<and> chain_in j k e"
proof -
  have "Suc (chain_dist (jn j) (nxt (jn j) r0) p) = jn j \<longleftrightarrow> p = r0"
    using assms(1,2) by (simp add: bc_ok_def chain_dist_end)
  then show ?thesis
    unfolding rd_prog_nth [OF assms] writes_to_def lin_in_def by (auto split: if_splits)
qed

lemma rd_memory:
  assumes ok: "bc_ok j ranks r0" and run: "(ring_step (rd_cfg rop j ranks r0))\<^sup>*\<^sup>* (ring_init m f) s"
      "\<nexists>s'. ring_step (rd_cfg rop j ranks r0) s s'" and p: "p < jn j"
  shows "umem s p (jout j p + e) =
    (if partOffset (jpart j) \<le> e \<and> e < partOffset (jpart j) + partCount (jpart j) \<and> p = r0
     then postOp rop (ring_red rop (jn j) (\<lambda>q. m q (jin j q + e)) r0 (jn j - 1)) else m p (jout j p + e))"
proof -
  let ?c = "rd_cfg rop j ranks r0" let ?L = "lin_iters (jpart j)"
  have len: "length (prog ?c p) = ?L" using ok p by (rule rd_prog_length)
  have um: "umem s p = rd.run.mem_after rop (j, ranks, r0) m p ?L"
    using rd_final(2) [of rop "(j, ranks, r0)" m f s p] ok run p len by (simp add: bc_prepared_eq)
  have lin: "lin_ok 1 1 (jstep j) (jpart j)" using ok by (simp add: bc_ok_def)
  show ?thesis
  proof (cases "partOffset (jpart j) \<le> e \<and> e < partOffset (jpart j) + partCount (jpart j) \<and> p = r0")
    case True
    then obtain k where k: "k < ?L" "chain_in j k e" using chain_in_cover [OF lin, of e] by blast
    have later: "\<not> writes_to (prog ?c p ! i) (jout j p + e)" if i: "k < i" "i < ?L" for i
      using rd_writes_iff [OF ok p i(2)] chain_in_unique [OF lin k(2), of i] i(1) by auto
    have w: "writes_to (prog ?c p ! k) (jout j p + e)" using rd_writes_iff [OF ok p k(1)] k(2) True by blast
    have op: "opDst (prog ?c p ! k) = Some (jout j p + chain_base j k)" "opSize (prog ?c p ! k) = nat (chain_size j k)"
      using w unfolding rd_prog_nth [OF ok p k(1)] by (auto simp: writes_to_def split: if_splits)
    have in': "chain_base j k \<le> e" "e < chain_base j k + chain_size j k" using k(2) by (simp_all add: lin_in_def)
    have d: "Suc (chain_dist (jn j) (nxt (jn j) r0) p) = jn j" using True p ok by (simp add: bc_ok_def chain_dist_end)
    then have d': "chain_dist (jn j) (nxt (jn j) r0) p = jn j - 1" by simp
    have "rd.run.mem_after rop (j, ranks, r0) m p ?L (jout j p + e) = rd_val rop j r0 m p k ! nat (e - chain_base j k)"
      using rd_written [of p rop "(j, ranks, r0)" ?L k "jout j p + chain_base j k" "jout j p + e" m]
        ok p len k(1) op later in' by (simp add: bc_prepared_eq)
    also have "\<dots> = postOp rop (ring_red rop (jn j) (\<lambda>q. m q (jin j q + e)) r0 (jn j - 1))"
      unfolding rd_val_def rd_elt_def Let_def d' using p in' by (simp add: nat_less_iff)
    finally show ?thesis unfolding if_P [OF True] um .
  next
    case False
    have "\<not> writes_to (prog ?c p ! i) (jout j p + e)" if i: "i < ?L" for i
      using rd_writes_iff [OF ok p i] chain_in_bounds [OF lin] False by blast
    then have "rd.run.mem_after rop (j, ranks, r0) m p ?L (jout j p + e) = m p (jout j p + e)"
      using rd_unwritten [of p rop "(j, ranks, r0)" ?L "jout j p + e" m] ok p len by (simp add: bc_prepared_eq)
    then show ?thesis unfolding if_not_P [OF False] um .
  qed
qed

lemma rd_run_exists:
  "bc_ok j ranks r0 \<Longrightarrow> \<exists>s. (ring_step (rd_cfg rop j ranks r0))\<^sup>*\<^sup>* (ring_init m f) s \<and> (\<nexists>s'. ring_step (rd_cfg rop j ranks r0) s s')"
  using rd.run.run_exists [of rop "(j, ranks, r0)" m f] by (simp add: bc_prepared_eq)

text \<open>
  C6: The Reduce ring is correct under every interleaving.  An execution that can not be continued
  has finished on all ranks; the channel's part of the root's output then is the reduction of all
  inputs, with an associative and commutative operator, and all other memory is unchanged.
\<close>

theorem reduce_ring_correct:
  assumes "bc_ok j ranks r0"
    and "\<forall>a b c. redFn rop (redFn rop a b) c = redFn rop a (redFn rop b c)" and "\<forall>a b. redFn rop a b = redFn rop b a"
    and "(ring_step (rd_cfg rop j ranks r0))\<^sup>*\<^sup>* (ring_init m f) s" and "\<nexists>s'. ring_step (rd_cfg rop j ranks r0) s s'"
  shows "ring_done (rd_cfg rop j ranks r0) s \<and>
    (\<forall>p < jn j. \<forall>e. umem s p (jout j p + e) =
       (if partOffset (jpart j) \<le> e \<and> e < partOffset (jpart j) + partCount (jpart j) \<and> p = r0
        then reduce_all rop (jn j) (\<lambda>q. m q (jin j q + e)) else m p (jout j p + e)))"
proof (intro conjI allI impI)
  show "ring_done (rd_cfg rop j ranks r0) s"
    using rd_final(1) [of rop "(j, ranks, r0)" m f s] assms(1,4,5) by (simp add: bc_prepared_eq)
  fix p e assume p: "p < jn j"
  have r: "postOp rop (ring_red rop (jn j) x c (jn j - 1)) = reduce_all rop (jn j) x" for x c
    using assms(2,3) p by (intro ring_red_reduce_all) simp_all
  show "umem s p (jout j p + e) =
       (if partOffset (jpart j) \<le> e \<and> e < partOffset (jpart j) + partCount (jpart j) \<and> p = r0
        then reduce_all rop (jn j) (\<lambda>q. m q (jin j q + e)) else m p (jout j p + e))"
    using rd_memory [OF assms(1,4,5) p, of e] unfolding r .
qed

theorem reduce_ring_correct_witness:
  "\<exists>s. (ring_step (rd_cfg sum_op bc_example (\<lambda>p. 2 - p) 1))\<^sup>*\<^sup>* (ring_init (\<lambda>q a. int q * 1000 + a) (\<lambda>_ _. 0)) s \<and>
     umem s 1 101 = 1101 \<and> umem s 1 102 = 3006 \<and> umem s 0 102 = 102"
proof -
  obtain s where s: "(ring_step (rd_cfg sum_op bc_example (\<lambda>p. 2 - p) 1))\<^sup>*\<^sup>* (ring_init (\<lambda>q a. int q * 1000 + a) (\<lambda>_ _. 0)) s"
    "\<nexists>s'. ring_step (rd_cfg sum_op bc_example (\<lambda>p. 2 - p) 1) s s'"
    using rd_run_exists [OF bc_ok_example] by blast
  have sum: "\<forall>a b c. redFn sum_op (redFn sum_op a b) c = redFn sum_op a (redFn sum_op b c)"
    "\<forall>a b. redFn sum_op a b = redFn sum_op b a" by (simp_all add: sum_op_def)
  note c = reduce_ring_correct [OF bc_ok_example sum s, THEN conjunct2, rule_format]
  have "umem s 1 101 = 1101" "umem s 1 102 = 3006" "umem s 0 102 = 102"
    using c [of 1 1] c [of 1 2] c [of 0 2] by (simp_all add: reduce_all_def sum_op_def upt_conv_Cons)
  then show ?thesis using s(1) by blast
qed

end
