(* ===== verification/Space.thy ===== *)
theory Space
  imports Bitops
begin

unbundle bit_operations_syntax

text \<open>
  The allocator of segments of non-negative integers (\<^verbatim>\<open>ncclSpace\<close> of \<^verbatim>\<open>src/src/allocator.cc\<close>): a sorted array of
  cuts between full and empty segments.  The abstract state is the set of allocated positions; the
  cuts stay strictly sorted and positive, allocation and release change the set as they should.
\<close>

section \<open>State and operations\<close>

text \<open>
  The array of cuts is a list, whose length is the field \<^verbatim>\<open>count\<close>; its capacity and the failure of the
  unchecked \<^verbatim>\<open>malloc\<close> that grows it are left out.  Cuts, limits, sizes and offsets are integers in the range of
  \<^verbatim>\<open>int64_t\<close>.  The search for a place converts them to \<^verbatim>\<open>size_t\<close>, whose arithmetic wraps, and its results back;
  the signed sum of \<^verbatim>\<open>ncclSpaceFree\<close> is undefined when it overflows.
\<close>

type_synonym ncclSpace = "int list"

definition asSizeT :: "int \<Rightarrow> int" where
  "asSizeT x = x mod 2 ^ 64"

definition asInt64 :: "int \<Rightarrow> int" where
  "asInt64 x = (x + 2 ^ 63) mod 2 ^ 64 - 2 ^ 63"

definition ncclSpaceConstruct :: ncclSpace where
  "ncclSpaceConstruct = []"

text \<open>
  The filter loop of \<^verbatim>\<open>insertSegment\<close>: the cuts written so far, the previous cut, and those not yet read.
\<close>

fun filterCuts :: "int list \<Rightarrow> int \<Rightarrow> int list \<Rightarrow> int list" where
  "filterCuts w prev [] = w"
| "filterCuts w prev (cur # r) =
     (let w = w @ [cur]
      in if prev = cur then filterCuts (take (length w - (if length w = 1 then 1 else 2)) w) 0 r
         else filterCuts w cur r)"

definition insertSegment :: "ncclSpace \<Rightarrow> nat \<Rightarrow> int \<Rightarrow> int \<Rightarrow> ncclSpace" where
  "insertSegment a index lo hi =
     (let prev = (if index = 0 then 0 else a ! (index - 1))
      in filterCuts (take index a) prev (lo # hi # drop index a))"

function tryAllocFrom :: "ncclSpace \<Rightarrow> int \<Rightarrow> int \<Rightarrow> int \<Rightarrow> nat \<Rightarrow> (int \<times> ncclSpace) nccl" where
  "tryAllocFrom a limit sz align i =
     (if i \<le> length a then
        let lo = asSizeT (if i = 0 then 0 else a ! (i - 1));
            hi = asSizeT (if i = length a then limit else a ! i);
            off = asSizeT (alignUp lo align);
            stop = asSizeT (off + sz)
        in if stop \<le> hi then
             Inr (asInt64 off, if i = 0 \<or> stop = hi then insertSegment a i (asInt64 off) (asInt64 stop)
                       else a[i - 1 := asInt64 stop])
           else tryAllocFrom a limit sz align (i + 2)
      else Inl ncclInternalError)"
  by pat_completeness auto
termination by (relation "measure (\<lambda>(a, _, _, _, i). Suc (length a) - i)") auto

declare tryAllocFrom.simps [simp del]

definition ncclSpaceTryAlloc :: "ncclSpace \<Rightarrow> int \<Rightarrow> int \<Rightarrow> int \<Rightarrow> (int \<times> ncclSpace) nccl" where
  "ncclSpaceTryAlloc a limit sz align = tryAllocFrom a limit sz align (length a mod 2)"

definition ncclSpaceAlloc :: "ncclSpace \<Rightarrow> int \<Rightarrow> int \<Rightarrow> int \<Rightarrow> (int \<times> ncclSpace) nccl" where
  "ncclSpaceAlloc a limit sz align = ncclSpaceTryAlloc a limit sz align"

text \<open>The search for the full segment; \<open>None\<close> is an access beyond the cuts.\<close>

function findFull :: "ncclSpace \<Rightarrow> int \<Rightarrow> nat \<Rightarrow> nat option" where
  "findFull a offset i =
     (if i < length a then if a ! i \<le> offset then findFull a offset (i + 2) else Some i else None)"
  by pat_completeness auto
termination by (relation "measure (\<lambda>(a, _, i). length a - i)") auto

declare findFull.simps [simp del]

text \<open>The sum of offset and size as \<^verbatim>\<open>int64_t\<close>; \<open>None\<close> when it overflows, which is undefined.\<close>

definition sum64 :: "int \<Rightarrow> int \<Rightarrow> int option" where
  "sum64 x y = (if - (2 ^ 63) \<le> x + y \<and> x + y < 2 ^ 63 then Some (x + y) else None)"

definition ncclSpaceFree :: "ncclSpace \<Rightarrow> int \<Rightarrow> int \<Rightarrow> ncclSpace nccl option" where
  "ncclSpaceFree a offset sz =
     (if length a = 0 \<or> a ! (length a - 1) \<le> offset then Some (Inl ncclInternalError) else
      case findFull a offset (1 - length a mod 2) of None \<Rightarrow> None
      | Some i \<Rightarrow>
          let lo = (if i = 0 then 0 else a ! (i - 1)); hi = a ! i
          in if offset < lo then Some (Inl ncclInternalError) else
             (case sum64 offset sz of None \<Rightarrow> None
              | Some stop \<Rightarrow>
                  if hi < stop then Some (Inl ncclInternalError)
                  else if i \<noteq> 0 \<and> lo = offset \<and> stop \<noteq> hi then Some (Inr (a[i - 1 := stop]))
                  else if lo \<noteq> offset \<and> stop = hi then Some (Inr (a[i := offset]))
                  else Some (Inr (insertSegment a i offset stop))))"

section \<open>The set of allocated positions\<close>

text \<open>A position is in a full segment when an odd number of cuts lies above it.\<close>

definition cuts_above :: "int list \<Rightarrow> int \<Rightarrow> nat" where
  "cuts_above a x = length (filter (\<lambda>c. x < c) a)"

definition space_full :: "ncclSpace \<Rightarrow> int \<Rightarrow> bool" where
  "space_full a x \<longleftrightarrow> 0 \<le> x \<and> odd (cuts_above a x)"

definition cuts_sorted :: "ncclSpace \<Rightarrow> bool" where
  "cuts_sorted a \<longleftrightarrow> sorted_wrt (<) (0 # a)"

lemma cuts_sorted_iff: "cuts_sorted a \<longleftrightarrow> sorted_wrt (<) a \<and> (\<forall>c \<in> set a. 0 < c)"
  by (auto simp: cuts_sorted_def)

lemma cuts_above_append: "cuts_above (a @ b) x = cuts_above a x + cuts_above b x"
  by (simp add: cuts_above_def)

lemma cuts_above_Cons: "cuts_above (c # a) x = of_bool (x < c) + cuts_above a x"
  by (simp add: cuts_above_def)

lemma cuts_above_Nil [simp]: "cuts_above [] x = 0"
  by (simp add: cuts_above_def)

text \<open>
  The filter keeps the parity of the cuts above every position, and its result is strictly sorted:
  \<open>prev\<close> is the last cut written, or 0 after a pair has been dropped.
\<close>

definition filter_state :: "int list \<Rightarrow> int \<Rightarrow> int list \<Rightarrow> bool" where
  "filter_state w prev r \<longleftrightarrow> cuts_sorted w \<and> sorted (w @ r) \<and> (\<forall>c \<in> set r. 0 \<le> c) \<and>
     (prev = 0 \<and> (\<forall>c \<in> set w. \<forall>d \<in> set r. c < d) \<or> w \<noteq> [] \<and> prev = last w)"

lemma cuts_sorted_append: "cuts_sorted (w @ [c]) \<longleftrightarrow> cuts_sorted w \<and> 0 < c \<and> (\<forall>d \<in> set w. d < c)"
  by (auto simp: cuts_sorted_iff sorted_wrt_append)

lemma filter_state_drop:
  assumes "filter_state w prev (cur # r)" "prev = cur"
  defines "w' \<equiv> take (length (w @ [cur]) - (if length (w @ [cur]) = 1 then 1 else 2)) (w @ [cur])"
  shows "filter_state w' 0 r \<and> (0 \<le> x \<longrightarrow> odd (cuts_above (w' @ r) x) = odd (cuts_above (w @ cur # r) x))"
proof (cases "w = []")
  case True
  then have "cur = 0" "w' = []" using assms by (auto simp: filter_state_def)
  then show ?thesis using assms(1) True by (auto simp: filter_state_def cuts_above_Cons)
next
  case False
  then obtain v l where w: "w = v @ [l]" by (metis rev_exhaust)
  have l: "0 < l" "\<forall>d \<in> set v. d < l" "cuts_sorted v" "l \<le> cur" "sorted v" "sorted r" "\<forall>d \<in> set r. cur \<le> d"
    using assms(1) unfolding filter_state_def w cuts_sorted_append by (auto simp: sorted_append)
  have "cur = l" using assms(1,2) l by (auto simp: filter_state_def w)
  moreover have "w' = v" by (simp add: w'_def w)
  moreover have "filter_state v 0 r" using l assms(1) \<open>cur = l\<close> unfolding filter_state_def w
    by (fastforce simp: sorted_append)
  ultimately show ?thesis by (simp add: w cuts_above_append cuts_above_Cons)
qed

lemma filter_state_keep:
  assumes "filter_state w prev (cur # r)" "prev \<noteq> cur"
  shows "filter_state (w @ [cur]) cur r"
proof -
  have s: "sorted (w @ cur # r)" "cuts_sorted w" "0 \<le> cur" using assms(1) by (auto simp: filter_state_def)
  have "0 < cur \<and> (\<forall>d \<in> set w. d < cur)"
  proof (cases "w = []")
    case True
    then show ?thesis using assms by (auto simp: filter_state_def)
  next
    case False
    then obtain v l where w: "w = v @ [l]" by (metis rev_exhaust)
    have "0 < l" "\<forall>d \<in> set v. d < l" "l \<le> cur" using s unfolding w cuts_sorted_append by (auto simp: sorted_append)
    moreover have "l \<noteq> cur" using assms by (auto simp: filter_state_def w)
    ultimately show ?thesis by (auto simp: w)
  qed
  then show ?thesis using s assms(1) by (auto simp: filter_state_def cuts_sorted_append)
qed

lemma filterCuts_props:
  "filter_state w prev r \<Longrightarrow> cuts_sorted (filterCuts w prev r) \<and>
     (0 \<le> x \<longrightarrow> odd (cuts_above (filterCuts w prev r) x) = odd (cuts_above (w @ r) x))"
proof (induction w prev r rule: filterCuts.induct)
  case (1 w prev)
  then show ?case by (simp add: filter_state_def)
next
  case (2 w prev cur r)
  show ?case
  proof (cases "prev = cur")
    case True
    note d = filter_state_drop [OF "2.prems" True, of x]
    have eq: "filterCuts w prev (cur # r) =
        filterCuts (take (length (w @ [cur]) - (if length (w @ [cur]) = 1 then 1 else 2)) (w @ [cur])) 0 r"
      by (simp only: filterCuts.simps Let_def if_P [OF True])
    show ?thesis unfolding eq using "2.IH"(1) [OF refl True] d by auto
  next
    case False
    have eq: "filterCuts w prev (cur # r) = filterCuts (w @ [cur]) cur r" using False by simp
    show ?thesis unfolding eq using "2.IH"(2) [OF refl False filter_state_keep [OF "2.prems" False]] by simp
  qed
qed

text \<open>Inserting a segment toggles its positions.\<close>

lemma insertSegment_props:
  assumes "cuts_sorted a" "i \<le> length a" "0 \<le> lo" "lo \<le> hi" "i = 0 \<or> a ! (i - 1) \<le> lo" "i < length a \<Longrightarrow> hi \<le> a ! i"
  shows "cuts_sorted (insertSegment a i lo hi)"
    and "space_full (insertSegment a i lo hi) x \<longleftrightarrow> (space_full a x \<noteq> (lo \<le> x \<and> x < hi))"
proof -
  let ?w = "take i a" let ?d = "drop i a"
  have inv: "sorted_wrt (<) a" "\<forall>c \<in> set a. 0 < c" using assms(1) by (auto simp: cuts_sorted_iff)
  have sa: "sorted a" using inv(1) by (rule strict_sorted_imp_sorted)
  have w: "\<forall>c \<in> set ?w. c \<le> lo"
  proof
    fix c assume "c \<in> set ?w"
    then obtain k where k: "k < i" "k < length a" "c = a ! k" by (auto simp: in_set_conv_nth)
    then have "a ! k \<le> a ! (i - 1)" using sa assms(2) by (intro sorted_nth_mono) auto
    then show "c \<le> lo" using k assms(5) by auto
  qed
  have d: "\<forall>c \<in> set ?d. hi \<le> c"
  proof
    fix c assume "c \<in> set ?d"
    then obtain k where k: "i + k < length a" "c = a ! (i + k)"
      using assms(2) unfolding in_set_conv_nth by (metis add.commute length_drop less_diff_conv nth_drop)
    then have "a ! i \<le> a ! (i + k)" using sa by (intro sorted_nth_mono) auto
    then show "hi \<le> c" using k assms(6) by auto
  qed
  have sw: "cuts_sorted ?w" using inv by (auto simp: cuts_sorted_iff sorted_wrt_take dest: in_set_takeD)
  have last: "?w \<noteq> [] \<Longrightarrow> last ?w = a ! (i - 1)" using assms(2) by (simp add: last_conv_nth)
  have cross: "\<forall>c \<in> set ?w. c \<le> hi \<and> (\<forall>e \<in> set ?d. c \<le> e)" "\<forall>e \<in> set ?d. lo \<le> e"
    using w d assms(4) by (meson order_trans)+
  have "sorted ?w" "sorted ?d" using sa by (simp_all add: sorted_wrt_take sorted_wrt_drop)
  then have "sorted (?w @ lo # hi # ?d)" using w d cross assms(4) by (simp add: sorted_append)
  moreover have "\<forall>c \<in> set (lo # hi # ?d). 0 \<le> c" using assms(3,4) cross(2) by auto
  moreover have "(if i = 0 then 0 else a ! (i - 1)) = 0 \<and> ?w = [] \<or> ?w \<noteq> [] \<and> (if i = 0 then 0 else a ! (i - 1)) = last ?w"
  proof (cases "i = 0")
    case False
    then have "?w \<noteq> []" using assms(2) by auto
    then show ?thesis using last False by simp
  qed simp
  ultimately have fs: "filter_state ?w (if i = 0 then 0 else a ! (i - 1)) (lo # hi # ?d)"
    unfolding filter_state_def using sw by auto
  note p = filterCuts_props [OF fs, of x]
  show "cuts_sorted (insertSegment a i lo hi)" using p by (simp add: insertSegment_def Let_def)
  have split: "cuts_above a x = cuts_above ?w x + cuts_above ?d x"
    using cuts_above_append [of ?w ?d x] unfolding append_take_drop_id .
  have odd: "odd (cuts_above (insertSegment a i lo hi) x) = odd (cuts_above ?w x + (of_bool (x < lo) + (of_bool (x < hi) + cuts_above ?d x)))"
    if "0 \<le> x" using p that by (simp add: insertSegment_def Let_def cuts_above_append cuts_above_Cons)
  show "space_full (insertSegment a i lo hi) x \<longleftrightarrow> (space_full a x \<noteq> (lo \<le> x \<and> x < hi))"
  proof (cases "0 \<le> x")
    case True
    show ?thesis unfolding space_full_def odd [OF True] split using True assms(4) by (cases "x < lo"; cases "x < hi") simp_all
  qed (use assms(3) in \<open>simp add: space_full_def\<close>)
qed

lemma filterCuts_set: "set (filterCuts w prev r) \<subseteq> set w \<union> set r"
proof (induction w prev r rule: filterCuts.induct)
  case (2 w prev cur r)
  have "set (take n (w @ [cur])) \<subseteq> insert cur (set w)" for n using set_take_subset [of n "w @ [cur]"] by simp
  with 2 show ?case unfolding filterCuts.simps Let_def by (cases "prev = cur") fastforce+
qed simp

lemma insertSegment_set: "set (insertSegment a i lo hi) \<subseteq> insert lo (insert hi (set a))"
proof -
  have "set (take i a) \<union> set (lo # hi # drop i a) \<subseteq> insert lo (insert hi (set a))"
    using set_take_subset [of i a] set_drop_subset [of i a] by auto
  then show ?thesis unfolding insertSegment_def Let_def by (rule subset_trans [OF filterCuts_set])
qed

section \<open>Segments\<close>

text \<open>The positions between two neighbouring cuts are all full or all empty.\<close>

definition seg_lo :: "ncclSpace \<Rightarrow> nat \<Rightarrow> int" where
  "seg_lo a i = (if i = 0 then 0 else a ! (i - 1))"

lemma cuts_sorted_mono:
  assumes "cuts_sorted a" "i \<le> j" "j < length a"
  shows "a ! i \<le> a ! j"
  using assms by (intro sorted_nth_mono strict_sorted_imp_sorted) (auto simp: cuts_sorted_iff)

lemma cuts_sorted_less:
  assumes "cuts_sorted a" "i < j" "j < length a"
  shows "a ! i < a ! j"
  using assms by (intro sorted_wrt_nth_less [of "(<)"]) (auto simp: cuts_sorted_iff)

lemma seg_lo_nonneg: "cuts_sorted a \<Longrightarrow> i \<le> length a \<Longrightarrow> 0 \<le> seg_lo a i"
  by (auto simp: seg_lo_def cuts_sorted_iff intro!: less_imp_le)

lemma seg_lo_less: "cuts_sorted a \<Longrightarrow> i < length a \<Longrightarrow> seg_lo a i < a ! i"
  by (auto simp: seg_lo_def cuts_sorted_iff intro: sorted_wrt_nth_less [of "(<)"])

lemma cuts_above_segment:
  assumes "cuts_sorted a" "i \<le> length a" "seg_lo a i \<le> x" "i < length a \<Longrightarrow> x < a ! i"
  shows "cuts_above a x = length a - i"
proof -
  have w: "\<forall>c \<in> set (take i a). \<not> x < c"
  proof
    fix c assume "c \<in> set (take i a)"
    then obtain k where k: "k < i" "k < length a" "c = a ! k" by (auto simp: in_set_conv_nth)
    then have "c \<le> a ! (i - 1)" using cuts_sorted_mono [OF assms(1), of k "i - 1"] assms(2) by auto
    then show "\<not> x < c" using k assms(3) by (auto simp: seg_lo_def)
  qed
  have d: "\<forall>c \<in> set (drop i a). x < c"
  proof
    fix c assume "c \<in> set (drop i a)"
    then obtain k where k: "k < length a - i" "c = drop i a ! k" unfolding in_set_conv_nth by auto
    then have "a ! i \<le> c" using cuts_sorted_mono [OF assms(1), of i "i + k"] by simp
    moreover have "x < a ! i" using k assms(4) by simp
    ultimately show "x < c" by simp
  qed
  have "cuts_above a x = cuts_above (take i a) x + cuts_above (drop i a) x"
    using cuts_above_append [of "take i a" "drop i a" x] unfolding append_take_drop_id .
  moreover have "cuts_above (take i a) x = 0" unfolding cuts_above_def using w by (simp add: filter_False)
  moreover have "cuts_above (drop i a) x = length a - i" unfolding cuts_above_def using d by (simp add: filter_True)
  ultimately show ?thesis by simp
qed

lemma space_full_segment:
  assumes "cuts_sorted a" "i \<le> length a" "seg_lo a i \<le> x" "i < length a \<Longrightarrow> x < a ! i"
  shows "space_full a x \<longleftrightarrow> odd (length a - i)"
  using cuts_above_segment [OF assms] seg_lo_nonneg [OF assms(1,2)] assms(3) by (simp add: space_full_def)

text \<open>Moving one cut within its two segments toggles the positions in between.\<close>

lemma move_cut:
  assumes "cuts_sorted a" "i < length a" "0 < c" "seg_lo a i < c" "Suc i < length a \<Longrightarrow> c < a ! Suc i"
  shows "cuts_sorted (a[i := c])"
    and "space_full (a[i := c]) x \<longleftrightarrow> (space_full a x \<noteq> (min c (a ! i) \<le> x \<and> x < max c (a ! i)))"
proof -
  have upd: "a[i := c] = take i a @ c # drop (Suc i) a" using assms(2) by (simp add: upd_conv_take_nth_drop)
  have a: "a = take i a @ a ! i # drop (Suc i) a" using assms(2) by (simp add: id_take_nth_drop)
  have inv: "sorted_wrt (<) (a[i := c])"
    unfolding sorted_wrt_iff_nth_less
  proof (intro allI impI)
    fix k l assume kl: "k < l" "l < length (a[i := c])"
    have lt: "a ! k < a ! l" using kl by (intro cuts_sorted_less [OF assms(1)]) simp_all
    show "a[i := c] ! k < a[i := c] ! l"
    proof (cases "k = i")
      case True
      have "c < a ! Suc i" using kl True by (intro assms(5)) simp
      also have "\<dots> \<le> a ! l" using kl True by (intro cuts_sorted_mono [OF assms(1)]) simp_all
      finally show ?thesis using kl True by simp
    next
      case False
      show ?thesis
      proof (cases "l = i")
        case True
        have "a ! k \<le> a ! (i - 1)" using kl True assms(2) by (intro cuts_sorted_mono [OF assms(1)]) simp_all
        then show ?thesis using kl True assms(4) False by (simp add: seg_lo_def split: if_splits)
      qed (use False lt in simp)
    qed
  qed
  have "\<forall>d \<in> set (a[i := c]). 0 < d"
    using assms(1,3) set_update_subset_insert [of a i c] by (auto simp: cuts_sorted_iff)
  then show "cuts_sorted (a[i := c])" using inv by (simp add: cuts_sorted_iff)
  have "cuts_above (a[i := c]) x + of_bool (x < a ! i) = cuts_above a x + of_bool (x < c)"
    unfolding upd by (subst (3) a) (simp add: cuts_above_append cuts_above_Cons)
  moreover have "odd n \<longleftrightarrow> (odd m \<noteq> (p \<noteq> q))" if "n + of_bool p = m + of_bool q" for n m :: nat and p q
    using arg_cong [OF that, of odd] by (cases p; cases q) auto
  ultimately have "odd (cuts_above (a[i := c]) x) \<longleftrightarrow> (odd (cuts_above a x) \<noteq> ((x < a ! i) \<noteq> (x < c)))" by blast
  moreover have "0 < a ! i" using assms(1,2) by (simp add: cuts_sorted_iff)
  ultimately show "space_full (a[i := c]) x \<longleftrightarrow> (space_full a x \<noteq> (min c (a ! i) \<le> x \<and> x < max c (a ! i)))"
    using assms(3) unfolding space_full_def by (cases "0 \<le> x") auto
qed

text \<open>Every position is in one segment.\<close>

lemma segment_of:
  assumes "cuts_sorted a" "0 \<le> x"
  shows "\<exists>i \<le> length a. seg_lo a i \<le> x \<and> (i < length a \<longrightarrow> x < a ! i)"
proof -
  define i where "i = (LEAST i. i = length a \<or> x < a ! i)"
  have i: "i = length a \<or> x < a ! i" unfolding i_def by (rule LeastI [of _ "length a"]) simp
  have before: "\<not> (k = length a \<or> x < a ! k)" if "k < i" for k
    using that unfolding i_def by (rule not_less_Least)
  have "i \<le> length a" unfolding i_def by (rule Least_le) simp
  moreover have "seg_lo a i \<le> x" using before [of "i - 1"] assms(2) by (auto simp: seg_lo_def)
  ultimately show ?thesis using i by auto
qed

lemma free_region_segment:
  assumes "cuts_sorted a" "0 \<le> off" "0 < sz" "\<And>x. off \<le> x \<Longrightarrow> x < off + sz \<Longrightarrow> space_full a x = b"
  shows "\<exists>i \<le> length a. odd (length a - i) = b \<and> seg_lo a i \<le> off \<and> (i < length a \<longrightarrow> off + sz \<le> a ! i)"
proof -
  obtain i where i: "i \<le> length a" "seg_lo a i \<le> off" "i < length a \<longrightarrow> off < a ! i"
    using segment_of [OF assms(1,2)] by blast
  have b: "odd (length a - i) = b"
    using space_full_segment [OF assms(1) i(1,2)] i(3) assms(3) assms(4) [of off] by auto
  moreover have "off + sz \<le> a ! i" if il: "i < length a"
  proof (rule ccontr)
    assume n: "\<not> off + sz \<le> a ! i"
    have "space_full a (a ! i) \<longleftrightarrow> odd (length a - Suc i)"
    proof (rule space_full_segment [OF assms(1)])
      show "Suc i \<le> length a" "seg_lo a (Suc i) \<le> a ! i" using il by (simp_all add: seg_lo_def)
      show "a ! i < a ! Suc i" if "Suc i < length a" using cuts_sorted_less [OF assms(1) lessI that] .
    qed
    moreover have "space_full a (a ! i) = b" using n i(3) il by (intro assms(4)) auto
    ultimately show False using b il by (auto simp: Suc_diff_Suc [symmetric])
  qed
  ultimately show ?thesis using i(1,2) by blast
qed

section \<open>Allocation\<close>

text \<open>The invariant: the cuts are sorted and values of \<^verbatim>\<open>int64_t\<close>.\<close>

definition space_inv :: "ncclSpace \<Rightarrow> bool" where
  "space_inv a \<longleftrightarrow> cuts_sorted a \<and> (\<forall>c \<in> set a. c < 2 ^ 63)"

lemma alignUp_props:
  fixes lo :: int
  assumes "0 \<le> lo"
  shows "lo \<le> alignUp lo (2 ^ k)" "alignUp lo (2 ^ k) < lo + 2 ^ k" "2 ^ k dvd alignUp lo (2 ^ k)"
    "lo \<le> off \<Longrightarrow> 2 ^ k dvd off \<Longrightarrow> alignUp lo (2 ^ k) \<le> off"
proof -
  note b = alignUp_int_bounds [of lo k]
  then show "lo \<le> alignUp lo (2 ^ k)" "alignUp lo (2 ^ k) < lo + 2 ^ k" "2 ^ k dvd alignUp lo (2 ^ k)" by simp_all
  show "alignUp lo (2 ^ k) \<le> off" if "lo \<le> off" "2 ^ k dvd off"
  proof (rule ccontr)
    assume "\<not> alignUp lo (2 ^ k) \<le> off"
    then have "0 < alignUp lo (2 ^ k) - off" by simp
    moreover have "2 ^ k dvd alignUp lo (2 ^ k) - off" using b that(2) by (intro dvd_diff) simp_all
    ultimately have "2 ^ k \<le> alignUp lo (2 ^ k) - off" by (rule zdvd_imp_le [rotated])
    then show False using b that(1) by linarith
  qed
qed

definition seg_hi :: "ncclSpace \<Rightarrow> int \<Rightarrow> nat \<Rightarrow> int" where
  "seg_hi a limit i = (if i = length a then limit else a ! i)"

text \<open>The cuts after a region is placed at \<open>off\<close> into the empty segment that ends at cut \<open>i\<close>.\<close>

definition place :: "ncclSpace \<Rightarrow> int \<Rightarrow> int \<Rightarrow> int \<Rightarrow> nat \<Rightarrow> ncclSpace" where
  "place a limit sz off i =
     (if i = 0 \<or> off + sz = seg_hi a limit i then insertSegment a i off (off + sz) else a[i - 1 := off + sz])"

text \<open>
  What an allocation promises: an aligned region that was free and is full afterwards.  It ends at or below the limit,
  unless allocations under a larger limit left cuts above it; nothing else is filled but alignment padding
  above the cut the region was placed at.
\<close>

definition alloc_post :: "ncclSpace \<Rightarrow> int \<Rightarrow> int \<Rightarrow> int \<Rightarrow> int \<Rightarrow> ncclSpace \<Rightarrow> bool" where
  "alloc_post a limit sz align off a' \<longleftrightarrow> 0 \<le> off \<and> align dvd off \<and> space_inv a' \<and>
     (off + sz \<le> limit \<or> (\<exists>c \<in> set a. off + sz \<le> c)) \<and>
     ((\<forall>c \<in> set a. c \<le> limit) \<longrightarrow> off + sz \<le> limit \<and> (\<forall>c \<in> set a'. c \<le> limit)) \<and>
     (\<forall>x. off \<le> x \<and> x < off + sz \<longrightarrow> \<not> space_full a x \<and> space_full a' x) \<and>
     (\<forall>x. space_full a x \<longrightarrow> space_full a' x) \<and>
     (\<forall>x. space_full a' x \<and> \<not> space_full a x \<longrightarrow>
        x < off + sz \<and> (off \<le> x \<or> (\<exists>c \<in> insert 0 (set a). c \<le> x \<and> off < c + align)))"

lemma empty_segment:
  assumes "cuts_sorted a" "i \<le> length a" "even (length a - i)" "seg_lo a i \<le> x" "x < seg_hi a limit i"
  shows "\<not> space_full a x"
  using space_full_segment [OF assms(1,2,4)] assms(3,5) by (simp add: seg_hi_def split: if_splits)

text \<open>Moving the cut below fills the padding as well, inserting a segment does not.\<close>

lemma place_props:
  assumes "cuts_sorted a" "0 \<le> sz" "i \<le> length a" "even (length a - i)" "seg_lo a i \<le> off" "off + sz \<le> seg_hi a limit i"
  shows "cuts_sorted (place a limit sz off i)" (is ?sorted)
    and "space_full (place a limit sz off i) x \<longleftrightarrow> space_full a x \<or>
           (if i = 0 \<or> off + sz = seg_hi a limit i then off else seg_lo a i) \<le> x \<and> x < off + sz" (is ?full)
proof -
  have hi: "i < length a \<Longrightarrow> off + sz \<le> a ! i" using assms(6) by (simp add: seg_hi_def)
  have off0: "0 \<le> off" using seg_lo_nonneg [OF assms(1,3)] assms(5) by linarith
  have empty: "\<not> space_full a x" if "seg_lo a i \<le> x" "x < off + sz" for x
    using empty_segment [OF assms(1,3,4) that(1), of limit] that(2) assms(6) by linarith
  have "?sorted \<and> ?full"
  proof (cases "i = 0 \<or> off + sz = seg_hi a limit i")
    case True
    have "i = 0 \<or> a ! (i - 1) \<le> off" using assms(5) by (cases "i = 0") (simp_all add: seg_lo_def)
    note ins = insertSegment_props [OF assms(1,3) off0 _ this, of "off + sz"]
    have "space_full (insertSegment a i off (off + sz)) x \<longleftrightarrow> (space_full a x \<noteq> (off \<le> x \<and> x < off + sz))"
      using ins(2) hi assms(2) by simp
    moreover have "\<not> space_full a x" if "off \<le> x" "x < off + sz" using empty that assms(5) by simp
    ultimately show ?thesis unfolding place_def if_P [OF True] using ins(1) hi assms(2) by auto
  next
    case False
    then have i: "0 < i" "i - 1 < length a" "Suc (i - 1) = i" using assms(3) by auto
    have ai: "a ! (i - 1) = seg_lo a i" using i by (simp add: seg_lo_def)
    have "seg_lo a (i - 1) < seg_lo a i" using seg_lo_less [OF assms(1) i(2)] ai by simp
    then have c: "0 < off + sz" "seg_lo a (i - 1) < off + sz"
      using assms(2,5) seg_lo_nonneg [OF assms(1), of "i - 1"] i(2) by linarith+
    have "Suc (i - 1) < length a \<Longrightarrow> off + sz < a ! Suc (i - 1)"
      using False assms(6) unfolding i(3) by (simp add: seg_hi_def split: if_splits)
    note mv = move_cut [OF assms(1) i(2) c this, unfolded ai]
    have "min (off + sz) (seg_lo a i) = seg_lo a i" "max (off + sz) (seg_lo a i) = off + sz" using assms(2,5) by simp_all
    then have "space_full (a[i - 1 := off + sz]) x \<longleftrightarrow> (space_full a x \<noteq> (seg_lo a i \<le> x \<and> x < off + sz))"
      using mv(2) by metis
    then show ?thesis unfolding place_def if_not_P [OF False] using mv(1) empty by auto
  qed
  then show ?sorted ?full by simp_all
qed

lemma place_set: "set (place a limit sz off i) \<subseteq> insert off (insert (off + sz) (set a))"
  using insertSegment_set [of a i off "off + sz"] set_update_subset_insert [of a "i - 1" "off + sz"]
  by (auto simp: place_def)

lemma alloc_step:
  fixes limit :: int and k :: nat
  assumes "space_inv a" "limit < 2 ^ 63" "0 \<le> sz" "i \<le> length a" "even (length a - i)"
  defines "off \<equiv> alignUp (seg_lo a i) (2 ^ k)"
  assumes fit: "off + sz \<le> seg_hi a limit i"
  shows "alloc_post a limit sz (2 ^ k) off (place a limit sz off i)"
proof -
  have inv: "cuts_sorted a" "\<forall>c \<in> set a. c < 2 ^ 63" using assms(1) by (simp_all add: space_inv_def)
  have lo: "0 \<le> seg_lo a i" using inv(1) assms(4) by (rule seg_lo_nonneg)
  note al = alignUp_props [OF lo, where k = k, folded off_def]
  note pl = place_props [OF inv(1) assms(3-5) al(1) fit]
  have top: "off + sz \<le> limit \<or> (\<exists>c \<in> set a. off + sz \<le> c)"
    using fit assms(4) by (cases "i = length a") (auto simp: seg_hi_def intro: bexI [where x = "a ! i"])
  then have "off + sz < 2 ^ 63" using inv(2) assms(2) by force
  then have "\<forall>c \<in> set (place a limit sz off i). c < 2 ^ 63" using place_set [of a limit sz off i] inv(2) assms(3) by force
  then have "space_inv (place a limit sz off i)" using pl(1) by (simp add: space_inv_def)
  moreover have "\<forall>c \<in> set (place a limit sz off i). c \<le> limit" if "\<forall>c \<in> set a. c \<le> limit"
    using place_set [of a limit sz off i] that top assms(3) by force
  moreover have "seg_lo a i \<in> insert 0 (set a)" using assms(4) by (cases i) (simp_all add: seg_lo_def)
  moreover have "\<not> space_full a x" if "off \<le> x" "x < off + sz" for x
    using empty_segment [OF inv(1) assms(4,5), of x limit] that al(1) fit by linarith
  ultimately show ?thesis unfolding alloc_post_def pl(2) using top lo al by (auto split: if_splits)
qed

text \<open>For arguments in range the conversions change nothing: an aligned offset is at most \<open>2 ^ 63\<close>.\<close>

lemma asSizeT_id: "0 \<le> x \<Longrightarrow> x < 2 ^ 64 \<Longrightarrow> asSizeT x = x"
  by (simp add: asSizeT_def)

lemma asInt64_id: "0 \<le> x \<Longrightarrow> x < 2 ^ 63 \<Longrightarrow> asInt64 x = x"
  by (simp add: asInt64_def)

lemma alignUp_int64:
  fixes lo :: int
  assumes "0 \<le> lo" "lo < 2 ^ 63" "k \<le> 30"
  shows "alignUp lo (2 ^ k) \<le> 2 ^ 63"
proof -
  have "(2::int) ^ k dvd 2 ^ 63" using assms(3) by (intro le_imp_power_dvd) simp
  then show ?thesis using alignUp_props(4) [OF assms(1)] assms(2) by simp
qed

lemma tryAllocFrom_exact:
  assumes "space_inv a" "0 \<le> limit" "limit < 2 ^ 63" "0 \<le> sz" "sz < 2 ^ 63" "k \<le> 30" "i \<le> length a"
  shows "tryAllocFrom a limit sz (2 ^ k) i =
           (if alignUp (seg_lo a i) (2 ^ k) + sz \<le> seg_hi a limit i
            then Inr (alignUp (seg_lo a i) (2 ^ k), place a limit sz (alignUp (seg_lo a i) (2 ^ k)) i)
            else tryAllocFrom a limit sz (2 ^ k) (i + 2))"
proof -
  have inv: "cuts_sorted a" "\<forall>c \<in> set a. 0 < c \<and> c < 2 ^ 63" using assms(1) by (simp_all add: space_inv_def cuts_sorted_iff)
  have lo: "0 \<le> seg_lo a i" "seg_lo a i < 2 ^ 63"
    using inv(2) seg_lo_nonneg [OF inv(1) assms(7)] assms(7) by (auto simp: seg_lo_def)
  have hi: "0 \<le> seg_hi a limit i" "seg_hi a limit i < 2 ^ 63"
    using inv(2) assms(2,3,7) by (auto simp: seg_hi_def intro: less_imp_le)
  let ?off = "alignUp (seg_lo a i) (2 ^ k)"
  have off: "0 \<le> ?off" "?off \<le> 2 ^ 63" using alignUp_props(1) [OF lo(1), of k] lo(1) alignUp_int64 [OF lo assms(6)] by linarith+
  have c: "asSizeT (if i = 0 then 0 else a ! (i - 1)) = seg_lo a i" "asSizeT (if i = length a then limit else a ! i) = seg_hi a limit i"
    "asSizeT ?off = ?off" "asSizeT (?off + sz) = ?off + sz"
    using asSizeT_id [OF lo(1)] asSizeT_id [OF hi(1)] lo(2) hi(2) off assms(4,5)
    by (simp_all add: asSizeT_id flip: seg_lo_def seg_hi_def)
  have "asInt64 ?off = ?off" "asInt64 (?off + sz) = ?off + sz" if "?off + sz \<le> seg_hi a limit i"
    using that off(1) hi(2) assms(4) by (simp_all add: asInt64_id)
  then show ?thesis
    by (subst tryAllocFrom.simps) (simp add: Let_def c assms(7) place_def del: One_nat_def)
qed

text \<open>The search takes the first empty segment with room, or there is none.\<close>

lemma tryAllocFrom_cases:
  assumes "space_inv a" "0 \<le> limit" "limit < 2 ^ 63" "0 \<le> sz" "sz < 2 ^ 63" "k \<le> 30" "even (length a + i)"
  shows "(\<exists>j \<le> length a. even (length a - j) \<and> alignUp (seg_lo a j) (2 ^ k) + sz \<le> seg_hi a limit j \<and>
            tryAllocFrom a limit sz (2 ^ k) i = Inr (alignUp (seg_lo a j) (2 ^ k), place a limit sz (alignUp (seg_lo a j) (2 ^ k)) j)) \<or>
         tryAllocFrom a limit sz (2 ^ k) i = Inl ncclInternalError \<and>
           (\<forall>j \<le> length a. i \<le> j \<and> even (i + j) \<longrightarrow> seg_hi a limit j < alignUp (seg_lo a j) (2 ^ k) + sz)"
  using assms(7)
proof (induction "Suc (length a) - i" arbitrary: i rule: less_induct)
  case less
  show ?case
  proof (cases "i \<le> length a")
    case False
    then show ?thesis by (simp add: tryAllocFrom.simps)
  next
    case i: True
    note ex = tryAllocFrom_exact [OF assms(1-6) i]
    show ?thesis
    proof (cases "alignUp (seg_lo a i) (2 ^ k) + sz \<le> seg_hi a limit i")
      case True
      then show ?thesis using ex i less.prems by (intro disjI1 exI [of _ i]) simp
    next
      case False
      have nxt: "j = i \<or> i + 2 \<le> j \<and> even (i + 2 + j)" if "i \<le> j" "even (i + j)" for j
        using that by (cases "j = i + 1") auto
      have step: "tryAllocFrom a limit sz (2 ^ k) i = tryAllocFrom a limit sz (2 ^ k) (i + 2)" using ex False by simp
      have "Suc (length a) - (i + 2) < Suc (length a) - i" "even (length a + (i + 2))" using i less.prems by auto
      note IH = less.hyps [OF this]
      have "\<forall>j \<le> length a. i \<le> j \<and> even (i + j) \<longrightarrow> seg_hi a limit j < alignUp (seg_lo a j) (2 ^ k) + sz"
        if "\<forall>j \<le> length a. i + 2 \<le> j \<and> even (i + 2 + j) \<longrightarrow> seg_hi a limit j < alignUp (seg_lo a j) (2 ^ k) + sz"
      proof (intro allI impI)
        fix j assume "j \<le> length a" "i \<le> j \<and> even (i + j)"
        then show "seg_hi a limit j < alignUp (seg_lo a j) (2 ^ k) + sz" using nxt [of j] that False by auto
      qed
      with IH show ?thesis unfolding step by blast
    qed
  qed
qed

definition fits :: "ncclSpace \<Rightarrow> int \<Rightarrow> int \<Rightarrow> int \<Rightarrow> int \<Rightarrow> bool" where
  "fits a limit sz align off \<longleftrightarrow> 0 \<le> off \<and> align dvd off \<and> off + sz \<le> limit \<and>
     (\<forall>x. off \<le> x \<and> x < off + sz \<longrightarrow> \<not> space_full a x)"

lemma space_alloc_cases:
  assumes "space_inv a" "0 \<le> limit" "limit < 2 ^ 63" "0 < sz" "sz < 2 ^ 63" "k \<le> 30"
  obtains (placed) j where "j \<le> length a" "even (length a - j)" "alignUp (seg_lo a j) (2 ^ k) + sz \<le> seg_hi a limit j"
      "ncclSpaceAlloc a limit sz (2 ^ k) = Inr (alignUp (seg_lo a j) (2 ^ k), place a limit sz (alignUp (seg_lo a j) (2 ^ k)) j)"
    | (full) "ncclSpaceAlloc a limit sz (2 ^ k) = Inl ncclInternalError" "\<And>off. \<not> fits a limit sz (2 ^ k) off"
proof -
  have inv: "cuts_sorted a" using assms(1) by (simp add: space_inv_def)
  have par: "even (length a + length a mod 2)" by presburger
  have sz: "0 \<le> sz" using assms(4) by simp
  from tryAllocFrom_cases [OF assms(1-3) sz assms(5,6) par] show thesis
  proof (elim disjE exE conjE)
    fix j assume "j \<le> length a" "even (length a - j)" "alignUp (seg_lo a j) (2 ^ k) + sz \<le> seg_hi a limit j"
      "tryAllocFrom a limit sz (2 ^ k) (length a mod 2) = Inr (alignUp (seg_lo a j) (2 ^ k), place a limit sz (alignUp (seg_lo a j) (2 ^ k)) j)"
    then show thesis by (intro placed) (simp_all add: ncclSpaceAlloc_def ncclSpaceTryAlloc_def)
  next
    assume none: "tryAllocFrom a limit sz (2 ^ k) (length a mod 2) = Inl ncclInternalError"
      "\<forall>j \<le> length a. length a mod 2 \<le> j \<and> even (length a mod 2 + j) \<longrightarrow> seg_hi a limit j < alignUp (seg_lo a j) (2 ^ k) + sz"
    have "\<not> fits a limit sz (2 ^ k) off" for off
    proof
      assume f: "fits a limit sz (2 ^ k) off"
      obtain j where j: "j \<le> length a" "even (length a - j)" "seg_lo a j \<le> off" "j < length a \<longrightarrow> off + sz \<le> a ! j"
        using free_region_segment [of a off sz False] inv assms(4) f by (auto simp: fits_def)
      have "even (length a + j)" using j(1,2) by simp
      then have "length a mod 2 \<le> j \<and> even (length a mod 2 + j)"
        by (cases "even (length a)") (auto simp: odd_iff_mod_2_eq_one intro: odd_pos Suc_leI)
      then have "seg_hi a limit j < alignUp (seg_lo a j) (2 ^ k) + sz" using none(2) j(1) by blast
      moreover have "alignUp (seg_lo a j) (2 ^ k) \<le> off"
        using alignUp_props(4) [OF seg_lo_nonneg [OF inv j(1)] j(3)] f by (simp add: fits_def)
      ultimately show False using j(1,4) f by (simp add: fits_def seg_hi_def split: if_splits)
    qed
    then show thesis using none(1) by (intro full) (simp_all add: ncclSpaceAlloc_def ncclSpaceTryAlloc_def)
  qed
qed

text \<open>C21: an allocation of a positive size with a power-of-two alignment under a non-negative limit gives an aligned region
that was free, is full afterwards and ends at or below the limit (when an earlier allocation under a larger limit left cuts
above it, at or below such a cut).  It keeps every allocated position and the invariant of the cuts, also that none exceeds
the limit, and fills besides the region only alignment padding: positions between the cut the region was placed above and
the region.  It fails, with an internal error, only when no aligned free region of that size ends at or below the limit.
The bounds are those of the parameters' types, \<^verbatim>\<open>int64_t\<close> and \<^verbatim>\<open>int\<close>: the wrap-around of the
\<^verbatim>\<open>size_t\<close> arithmetic is never reached.\<close>

theorem ncclSpaceAlloc_correct:
  assumes "space_inv a" "0 \<le> limit" "limit < 2 ^ 63" "0 < sz" "sz < 2 ^ 63" "k \<le> 30"
  shows "(case ncclSpaceAlloc a limit sz (2 ^ k) of
            Inr (off, a') \<Rightarrow> alloc_post a limit sz (2 ^ k) off a'
          | Inl e \<Rightarrow> e = ncclInternalError \<and> \<not> (\<exists>off. fits a limit sz (2 ^ k) off))"
proof (cases rule: space_alloc_cases [OF assms, case_names placed full])
  case (placed j)
  then show ?thesis using alloc_step [OF assms(1,3) _ placed(1-3)] assms(4) by simp
next
  case full
  then show ?thesis by simp
qed

lemma example_alloc: "ncclSpaceAlloc [10] 64 4 8 = Inr (16, [20])"
  by (simp add: ncclSpaceAlloc_def ncclSpaceTryAlloc_def tryAllocFrom.simps alignUp_def asSizeT_def asInt64_def Let_def)

theorem ncclSpaceAlloc_correct_witness:
  "space_inv [10] \<and> ncclSpaceAlloc [10] 64 4 (2 ^ 3) = Inr (16, [20]) \<and> alloc_post [10] 64 4 (2 ^ 3) 16 [20] \<and>
   ncclSpaceAlloc [10] 64 60 (2 ^ 3) = Inl ncclInternalError \<and> \<not> (\<exists>off. fits [10] 64 60 (2 ^ 3) off)"
proof -
  have inv: "space_inv [10]" by (simp add: space_inv_def cuts_sorted_def)
  have full: "ncclSpaceAlloc [10] 64 60 (2 ^ 3) = Inl ncclInternalError"
    by (simp add: ncclSpaceAlloc_def ncclSpaceTryAlloc_def tryAllocFrom.simps alignUp_def asSizeT_def asInt64_def Let_def)
  have "alloc_post [10] 64 4 (2 ^ 3) 16 [20]" using ncclSpaceAlloc_correct [OF inv, of 64 4 3] by (simp add: example_alloc)
  moreover have "\<not> (\<exists>off. fits [10] 64 60 (2 ^ 3) off)" using ncclSpaceAlloc_correct [OF inv, of 64 60 3] unfolding full by simp
  ultimately show ?thesis using inv full by (simp add: example_alloc)
qed

section \<open>Freeing\<close>

lemma findFull_props:
  assumes "odd (length a + i)" "0 < length a" "offset < a ! (length a - 1)" "i \<le> length a"
    "i = 0 \<or> i = 1 \<or> a ! (i - 2) \<le> offset"
  shows "\<exists>j < length a. findFull a offset i = Some j \<and> odd (length a + j) \<and> offset < a ! j \<and>
           (j = 0 \<or> j = 1 \<or> a ! (j - 2) \<le> offset)"
  using assms
proof (induction "length a - i" arbitrary: i rule: less_induct)
  case less
  have i: "i < length a" using less.prems(1,4) by (cases "i = length a") auto
  show ?case
  proof (cases "a ! i \<le> offset")
    case False
    then show ?thesis using i less.prems by (subst findFull.simps) auto
  next
    case True
    then have "i \<noteq> length a - 1" using less.prems(3) by auto
    then have "i + 2 \<le> length a" using i by linarith
    then have "\<exists>j < length a. findFull a offset (i + 2) = Some j \<and> odd (length a + j) \<and> offset < a ! j \<and>
           (j = 0 \<or> j = 1 \<or> a ! (j - 2) \<le> offset)"
      using less.prems True i by (intro less.hyps) auto
    then show ?thesis using i True by (subst findFull.simps) simp
  qed
qed

lemma full_segment_unique:
  assumes "cuts_sorted a" "i < length a" "j < length a" "even (i + j)"
    "seg_lo a i \<le> x" "x < a ! i" "x < a ! j" "j = 0 \<or> j = 1 \<or> a ! (j - 2) \<le> x"
  shows "i = j"
proof (rule linorder_cases [of i j])
  assume "i < j"
  moreover then have "j \<noteq> Suc i" using assms(4) by auto
  ultimately have "i \<le> j - 2" "j \<noteq> 0" "j \<noteq> 1" "j - 2 < length a" using assms(3) by linarith+
  then show ?thesis using cuts_sorted_mono [OF assms(1), of i "j - 2"] assms(6,8) by linarith
next
  assume "j < i"
  moreover then have "i \<noteq> Suc j" using assms(4) by auto
  ultimately have "j < i - 1" "i - 1 < length a" "i \<noteq> 0" using assms(2) by linarith+
  then show ?thesis using cuts_sorted_less [OF assms(1), of j "i - 1"] assms(5,7) unfolding seg_lo_def by simp
qed simp

lemma free_step_cuts:
  assumes "cuts_sorted a" "0 < sz" "i < length a" "odd (length a + i)" "seg_lo a i \<le> offset" "offset + sz \<le> a ! i"
  defines "a' \<equiv> (if i \<noteq> 0 \<and> seg_lo a i = offset \<and> offset + sz \<noteq> a ! i then a[i - 1 := offset + sz]
                 else if seg_lo a i \<noteq> offset \<and> offset + sz = a ! i then a[i := offset]
                 else insertSegment a i offset (offset + sz))"
  shows "cuts_sorted a' \<and> (\<forall>x. space_full a' x \<longleftrightarrow> space_full a x \<and> \<not> (offset \<le> x \<and> x < offset + sz))"
proof -
  have full: "space_full a x" if "offset \<le> x" "x < offset + sz" for x
    using space_full_segment [OF assms(1), of i x] assms(3-6) that by simp
  have lo: "0 \<le> seg_lo a i" using seg_lo_nonneg [OF assms(1)] assms(3) by simp
  have "i \<noteq> 0 \<and> seg_lo a i = offset \<and> offset + sz \<noteq> a ! i \<and> a' = a[i - 1 := offset + sz] \<or>
      seg_lo a i \<noteq> offset \<and> offset + sz = a ! i \<and> a' = a[i := offset] \<or> a' = insertSegment a i offset (offset + sz)"
    unfolding a'_def by presburger
  then consider (up) "i \<noteq> 0" "seg_lo a i = offset" "offset + sz \<noteq> a ! i" "a' = a[i - 1 := offset + sz]"
    | (down) "seg_lo a i \<noteq> offset" "offset + sz = a ! i" "a' = a[i := offset]"
    | (slow) "a' = insertSegment a i offset (offset + sz)"
    by blast
  then have "cuts_sorted a' \<and> (\<forall>x. space_full a' x \<longleftrightarrow> (space_full a x \<noteq> (offset \<le> x \<and> x < offset + sz)))"
  proof cases
    case up
    then have i: "i - 1 < length a" "Suc (i - 1) = i" "a ! (i - 1) = offset" using assms(3) by (simp_all add: seg_lo_def)
    have c: "0 < offset + sz" "seg_lo a (i - 1) < offset + sz"
      using assms(2,5) lo seg_lo_less [OF assms(1) i(1)] i(3) by linarith+
    have "offset + sz < a ! Suc (i - 1)" using assms(6) up(3) unfolding i(2) by simp
    note mv = move_cut [OF assms(1) i(1) c this, unfolded i(3)]
    have "min (offset + sz) offset = offset" "max (offset + sz) offset = offset + sz" using assms(2) by simp_all
    then show ?thesis unfolding up(4) using mv by metis
  next
    case down
    have c: "0 < offset" "seg_lo a i < offset" using assms(5) down(1) lo by linarith+
    have "offset < a ! Suc i" if "Suc i < length a"
      using cuts_sorted_less [OF assms(1) lessI that] assms(2) down(2) by linarith
    note mv = move_cut [OF assms(1,3) c this, folded down(2)]
    have "min offset (offset + sz) = offset" "max offset (offset + sz) = offset + sz" using assms(2) by simp_all
    then show ?thesis unfolding down(3) using mv by metis
  next
    case slow
    have "i = 0 \<or> a ! (i - 1) \<le> offset" using assms(5) by (cases "i = 0") (simp_all add: seg_lo_def)
    then show ?thesis unfolding slow
      using insertSegment_props [OF assms(1) less_imp_le [OF assms(3)], of offset "offset + sz"] lo assms(2,5,6) by auto
  qed
  then show ?thesis using full by blast
qed

text \<open>The cuts after the region is removed from the full segment that ends at cut \<open>i\<close>.\<close>

definition unplace :: "ncclSpace \<Rightarrow> int \<Rightarrow> int \<Rightarrow> nat \<Rightarrow> ncclSpace" where
  "unplace a offset sz i =
     (if i \<noteq> 0 \<and> seg_lo a i = offset \<and> offset + sz \<noteq> a ! i then a[i - 1 := offset + sz]
      else if seg_lo a i \<noteq> offset \<and> offset + sz = a ! i then a[i := offset]
      else insertSegment a i offset (offset + sz))"

lemma unplace_set: "set (unplace a offset sz i) \<subseteq> insert offset (insert (offset + sz) (set a))"
  using insertSegment_set [of a i offset "offset + sz"] set_update_subset_insert [of a "i - 1" "offset + sz"]
    set_update_subset_insert [of a i offset]
  by (auto simp: unplace_def)

lemma ncclSpaceFree_found:
  assumes "0 < length a" "offset < a ! (length a - 1)" "findFull a offset (1 - length a mod 2) = Some i"
  shows "ncclSpaceFree a offset sz =
     (if offset < seg_lo a i then Some (Inl ncclInternalError) else if sum64 offset sz = None then None
      else if a ! i < offset + sz then Some (Inl ncclInternalError) else Some (Inr (unplace a offset sz i)))"
proof -
  have n: "\<not> (length a = 0 \<or> a ! (length a - 1) \<le> offset)" using assms(1,2) by simp
  show ?thesis
    unfolding ncclSpaceFree_def if_not_P [OF n] assms(3) option.case Let_def unplace_def seg_lo_def sum64_def
    by (cases "- (2 ^ 63) \<le> offset + sz \<and> offset + sz < 2 ^ 63") (simp_all del: One_nat_def)
qed

definition free_post :: "ncclSpace \<Rightarrow> int \<Rightarrow> int \<Rightarrow> ncclSpace \<Rightarrow> bool" where
  "free_post a offset sz a' \<longleftrightarrow> space_inv a' \<and>
     (\<forall>x. space_full a' x \<longleftrightarrow> space_full a x \<and> \<not> (offset \<le> x \<and> x < offset + sz))"

lemma free_step:
  assumes "space_inv a" "0 < sz" "i < length a" "odd (length a + i)" "seg_lo a i \<le> offset" "offset + sz \<le> a ! i"
  shows "free_post a offset sz (unplace a offset sz i)"
proof -
  have inv: "cuts_sorted a" "\<forall>c \<in> set a. c < 2 ^ 63" using assms(1) by (simp_all add: space_inv_def)
  have "a ! i < 2 ^ 63" using inv(2) assms(3) by simp
  then have "\<forall>c \<in> set (unplace a offset sz i). c < 2 ^ 63" using unplace_set [of a offset sz i] inv(2) assms(2,6) by force
  then show ?thesis using free_step_cuts [OF inv(1) assms(2-6), folded unplace_def] by (simp add: free_post_def space_inv_def)
qed

lemma full_region_segment:
  assumes "cuts_sorted a" "0 \<le> offset" "0 < sz" "\<forall>x. offset \<le> x \<and> x < offset + sz \<longrightarrow> space_full a x"
  obtains i where "i < length a" "odd (length a + i)" "seg_lo a i \<le> offset" "offset + sz \<le> a ! i"
proof -
  obtain i where i: "i \<le> length a" "odd (length a - i)" "seg_lo a i \<le> offset" "i < length a \<longrightarrow> offset + sz \<le> a ! i"
    using free_region_segment [OF assms(1-3), of True] assms(4) by auto
  then have "i < length a" by (cases "i = length a") auto
  then show thesis using i by (intro that) simp_all
qed

lemma space_free_cases:
  assumes "space_inv a" "0 \<le> offset" "0 < sz"
  shows "if \<forall>x. offset \<le> x \<and> x < offset + sz \<longrightarrow> space_full a x
         then \<exists>a'. ncclSpaceFree a offset sz = Some (Inr a') \<and> free_post a offset sz a'
         else if space_full a offset \<and> 2 ^ 63 \<le> offset + sz then ncclSpaceFree a offset sz = None
         else ncclSpaceFree a offset sz = Some (Inl ncclInternalError)" (is "if ?all then _ else _")
proof (cases "length a = 0 \<or> a ! (length a - 1) \<le> offset")
  case True
  have inv: "cuts_sorted a" using assms(1) by (simp add: space_inv_def)
  have "\<not> space_full a offset"
  proof
    assume "space_full a offset"
    then have "\<forall>x. offset \<le> x \<and> x < offset + 1 \<longrightarrow> space_full a x" by (auto simp: order_antisym_conv)
    then obtain i where "i < length a" "offset + 1 \<le> a ! i" by (rule full_region_segment [OF inv assms(2) zero_less_one])
    moreover then have "a ! i \<le> a ! (length a - 1)" by (intro cuts_sorted_mono [OF inv]) auto
    ultimately show False using True by auto
  qed
  moreover then have "\<not> ?all" using assms(3) by auto
  ultimately show ?thesis using True by (simp add: ncclSpaceFree_def)
next
  case False
  then have n: "0 < length a" "offset < a ! (length a - 1)" by simp_all
  have inv: "cuts_sorted a" "\<forall>c \<in> set a. c < 2 ^ 63" using assms(1) by (simp_all add: space_inv_def)
  have par: "odd (length a + (1 - length a mod 2))" by presburger
  have start: "1 - length a mod 2 \<le> length a" "1 - length a mod 2 = 0 \<or> 1 - length a mod 2 = 1 \<or> a ! (1 - length a mod 2 - 2) \<le> offset"
    using n(1) by linarith+
  obtain j where j: "j < length a" "findFull a offset (1 - length a mod 2) = Some j" "odd (length a + j)"
      "offset < a ! j" "j = 0 \<or> j = 1 \<or> a ! (j - 2) \<le> offset"
    using findFull_props [OF par n start] by blast
  have in_j: "i = j" if "i < length a" "odd (length a + i)" "seg_lo a i \<le> offset" "offset < a ! i" for i
    using full_segment_unique [OF inv(1) that(1) j(1) _ that(3,4) j(4,5)] that(2) j(3) by simp
  have part: "space_full a offset \<longleftrightarrow> seg_lo a j \<le> offset"
  proof
    assume "space_full a offset"
    then have "\<forall>x. offset \<le> x \<and> x < offset + 1 \<longrightarrow> space_full a x" by (auto simp: order_antisym_conv)
    then obtain i where "i < length a" "odd (length a + i)" "seg_lo a i \<le> offset" "offset + 1 \<le> a ! i"
      by (rule full_region_segment [OF inv(1) assms(2) zero_less_one])
    then show "seg_lo a j \<le> offset" using in_j [of i] by simp
  qed (use space_full_segment [OF inv(1), of j offset] j(1,3,4) in simp)
  have all: "?all \<longleftrightarrow> seg_lo a j \<le> offset \<and> offset + sz \<le> a ! j"
  proof
    assume "?all"
    then obtain i where "i < length a" "odd (length a + i)" "seg_lo a i \<le> offset" "offset + sz \<le> a ! i"
      by (rule full_region_segment [OF inv(1) assms(2,3)])
    then show "seg_lo a j \<le> offset \<and> offset + sz \<le> a ! j" using in_j [of i] assms(3) by simp
  qed (use space_full_segment [OF inv(1), of j] j(1,3) in auto)
  have "a ! j < 2 ^ 63" using inv(2) j(1) by simp
  then show ?thesis unfolding all part ncclSpaceFree_found [OF n j(2)] sum64_def
    using free_step [OF assms(1,3) j(1,3)] assms(2,3) by auto
qed

text \<open>C22: freeing a region succeeds exactly when the whole region is allocated; then precisely its positions become
free and the cuts keep their invariant.  Every other request is refused with an internal error, and the search for the
segment never leaves the array.  The one exception is a size so large that the end of the region is no value of
\<^verbatim>\<open>int64_t\<close>: when the region starts at an allocated position, the signed sum overflows, which is undefined.\<close>

theorem ncclSpaceFree_correct:
  assumes "space_inv a" "0 \<le> offset" "0 < sz"
  shows "if \<forall>x. offset \<le> x \<and> x < offset + sz \<longrightarrow> space_full a x
         then \<exists>a'. ncclSpaceFree a offset sz = Some (Inr a') \<and> free_post a offset sz a'
         else if space_full a offset \<and> 2 ^ 63 \<le> offset + sz then ncclSpaceFree a offset sz = None
         else ncclSpaceFree a offset sz = Some (Inl ncclInternalError)"
  using assms by (rule space_free_cases)

lemma example_free: "ncclSpaceFree [20] 16 4 = Some (Inr [16])"
  by (simp add: ncclSpaceFree_def findFull.simps sum64_def)

theorem ncclSpaceFree_correct_witness:
  "free_post [20] 16 4 [16] \<and> ncclSpaceFree [20] 16 8 = Some (Inl ncclInternalError) \<and> ncclSpaceFree [20] 16 (2 ^ 63 - 1) = None"
proof -
  have inv: "space_inv [20]" by (simp add: space_inv_def cuts_sorted_def)
  have "\<forall>x. 16 \<le> x \<and> x < 16 + 4 \<longrightarrow> space_full [20] x" by (simp add: space_full_def cuts_above_def)
  then have "free_post [20] 16 4 [16]" using ncclSpaceFree_correct [OF inv, of 16 4] by (simp add: example_free)
  moreover have start: "space_full [20] 16" by (simp add: space_full_def cuts_above_def)
  have "\<not> (\<forall>x. 16 \<le> x \<and> x < 16 + (8::int) \<longrightarrow> space_full [20] x)" "\<not> (\<forall>x. 16 \<le> x \<and> x < 16 + (2 ^ 63 - 1 :: int) \<longrightarrow> space_full [20] x)"
    by (auto simp: space_full_def cuts_above_def intro!: exI [of _ 20])
  note no = this [THEN if_not_P]
  have "ncclSpaceFree [20] 16 8 = Some (Inl ncclInternalError)" using ncclSpaceFree_correct [OF inv, of 16 8, unfolded no(1)] by simp
  moreover have "ncclSpaceFree [20] 16 (2 ^ 63 - 1) = None"
    using ncclSpaceFree_correct [OF inv, of 16 "2 ^ 63 - 1", unfolded no(2)] start by simp
  ultimately show ?thesis by simp
qed

lemma padding_empty:
  fixes c off :: int
  assumes "2 ^ k dvd c" "2 ^ k dvd off" "off < c + 2 ^ k"
  shows "off \<le> c"
proof (rule ccontr)
  assume "\<not> off \<le> c"
  then have "2 ^ k \<le> off - c" using assms(1,2) by (intro zdvd_imp_le dvd_diff) simp_all
  then show False using assms(3) by linarith
qed

lemma space_alloc_free:
  assumes "space_inv a" "0 \<le> limit" "limit < 2 ^ 63" "0 < sz" "sz < 2 ^ 63" "k \<le> 30"
    "ncclSpaceAlloc a limit sz (2 ^ k) = Inr (off, a')"
  obtains j a'' where "j \<le> length a" "even (length a - j)" "off = alignUp (seg_lo a j) (2 ^ k)" "off + sz \<le> seg_hi a limit j"
    "a' = place a limit sz off j" "ncclSpaceFree a' off sz = Some (Inr a'')" "free_post a' off sz a''"
proof (cases rule: space_alloc_cases [OF assms(1-6), case_names placed full])
  case (placed j)
  then have off: "off = alignUp (seg_lo a j) (2 ^ k)" "a' = place a limit sz off j" using assms(7) by simp_all
  have "alloc_post a limit sz (2 ^ k) off a'"
    unfolding off using alloc_step [OF assms(1,3) less_imp_le [OF assms(4)] placed(1-3)] .
  then have inv: "space_inv a'" "0 \<le> off" and full: "\<forall>x. off \<le> x \<and> x < off + sz \<longrightarrow> space_full a' x"
    unfolding alloc_post_def by blast+
  obtain a'' where "ncclSpaceFree a' off sz = Some (Inr a'')" "free_post a' off sz a''"
    using space_free_cases [OF inv assms(4), unfolded if_P [OF full]] by blast
  then show thesis using that placed(1-3) off by blast
qed (use assms(7) in simp)

text \<open>C23: what an allocation returned can be freed.  No other allocated position is lost, and when every cut lies on a
multiple of the alignment, exactly the positions allocated before are allocated again.  The bounds are those of
the parameters' types, with a non-negative limit.\<close>

theorem space_alloc_free_roundtrip:
  assumes "space_inv a" "0 \<le> limit" "limit < 2 ^ 63" "0 < sz" "sz < 2 ^ 63" "k \<le> 30"
    "ncclSpaceAlloc a limit sz (2 ^ k) = Inr (off, a')"
  shows "\<exists>a''. ncclSpaceFree a' off sz = Some (Inr a'') \<and> space_inv a'' \<and> (\<forall>x. space_full a x \<longrightarrow> space_full a'' x) \<and>
           ((\<forall>c \<in> set a. 2 ^ k dvd c) \<longrightarrow> (\<forall>x. space_full a'' x \<longleftrightarrow> space_full a x))"
proof -
  obtain j a'' where j: "j \<le> length a" "even (length a - j)" "off = alignUp (seg_lo a j) (2 ^ k)" "off + sz \<le> seg_hi a limit j"
    "a' = place a limit sz off j" and f: "ncclSpaceFree a' off sz = Some (Inr a'')" "free_post a' off sz a''"
    by (rule space_alloc_free [OF assms])
  have al: "alloc_post a limit sz (2 ^ k) off a'"
    using alloc_step [OF assms(1,3) less_imp_le [OF assms(4)] j(1,2), of k] j(3-5) by simp
  have keep: "space_full a'' x" if "space_full a x" for x using f(2) that al unfolding free_post_def alloc_post_def by blast
  have "space_full a x" if d: "\<forall>c \<in> set a. 2 ^ k dvd c" and x: "space_full a'' x" for x
  proof (rule ccontr)
    assume "\<not> space_full a x"
    moreover have "space_full a' x" "\<not> (off \<le> x \<and> x < off + sz)" using f(2) x by (simp_all add: free_post_def)
    ultimately obtain c where c: "c \<in> insert 0 (set a)" "c \<le> x" "off < c + 2 ^ k" "x < off"
      using al unfolding alloc_post_def by (meson not_le)
    moreover have "2 ^ k dvd off" using al by (simp add: alloc_post_def)
    ultimately have "off \<le> c" using padding_empty [of k c off] d by auto
    then show False using c by linarith
  qed
  then show ?thesis using f keep unfolding free_post_def by blast
qed

theorem space_alloc_free_roundtrip_witness:
  "\<exists>a''. ncclSpaceFree [20] 16 4 = Some (Inr a'') \<and> space_inv a'' \<and> (\<forall>x. space_full [16] x \<longleftrightarrow> space_full a'' x)"
proof -
  have inv: "space_inv [16]" by (simp add: space_inv_def cuts_sorted_def)
  have run: "ncclSpaceAlloc [16] 64 4 (2 ^ 3) = Inr (16, [20])"
    by (simp add: ncclSpaceAlloc_def ncclSpaceTryAlloc_def tryAllocFrom.simps alignUp_def asSizeT_def asInt64_def Let_def)
  have "\<forall>c \<in> set [16]. (2::int) ^ 3 dvd c" by simp
  then show ?thesis using space_alloc_free_roundtrip [OF inv _ _ _ _ _ run] by auto
qed

lemma segment_unique:
  assumes "cuts_sorted a" "i \<le> length a" "j \<le> length a" "seg_lo a i \<le> x" "i < length a \<Longrightarrow> x < a ! i"
    "seg_lo a j \<le> x" "j < length a \<Longrightarrow> x < a ! j"
  shows "i = j"
proof -
  have "\<not> p < q" if "p \<le> length a" "q \<le> length a" "p < length a \<Longrightarrow> x < a ! p" "seg_lo a q \<le> x" for p q
  proof
    assume "p < q"
    then have "a ! p \<le> a ! (q - 1)" "x < a ! p" using that(1-3) by (auto intro: cuts_sorted_mono [OF assms(1)])
    then show False using that(4) \<open>p < q\<close> by (simp add: seg_lo_def)
  qed
  then show ?thesis using assms by (meson linorder_neqE_nat)
qed

text \<open>C24: alignment padding is not given back.  When an object is placed above the full segment that ends at some cut, with
room left below the next cut (or the limit), freeing it restores all positions but the padding: those from the cut
to the object's offset stay allocated although no object covers them.\<close>

theorem space_padding_leak:
  assumes "space_inv a" "0 \<le> limit" "limit < 2 ^ 63" "0 < sz" "sz < 2 ^ 63" "k \<le> 30"
    "ncclSpaceAlloc a limit sz (2 ^ k) = Inr (off, a')"
    "i < length a" "a ! i \<le> off" "off + sz < (if Suc i = length a then limit else a ! Suc i)"
  shows "\<exists>a''. ncclSpaceFree a' off sz = Some (Inr a'') \<and> (\<forall>x. space_full a'' x \<longleftrightarrow> space_full a x \<or> a ! i \<le> x \<and> x < off)"
proof -
  have inv: "cuts_sorted a" using assms(1) by (simp add: space_inv_def)
  obtain j a'' where j: "j \<le> length a" "even (length a - j)" "off = alignUp (seg_lo a j) (2 ^ k)" "off + sz \<le> seg_hi a limit j"
    "a' = place a limit sz off j" and f: "ncclSpaceFree a' off sz = Some (Inr a'')" "free_post a' off sz a''"
    by (rule space_alloc_free [OF assms(1-7)])
  have lo: "seg_lo a j \<le> off" using alignUp_props(1) [OF seg_lo_nonneg [OF inv j(1)]] j(3) by simp
  have "j = Suc i"
  proof (rule segment_unique [OF inv j(1)])
    show "seg_lo a (Suc i) \<le> off" using assms(9) by (simp add: seg_lo_def)
    show "off < a ! j" if "j < length a" using j(4) that assms(4) by (simp add: seg_hi_def)
    show "off < a ! Suc i" if "Suc i < length a" using assms(4,10) that by simp
  qed (use assms(8) lo in simp_all)
  then have "space_full a' x \<longleftrightarrow> space_full a x \<or> a ! i \<le> x \<and> x < off + sz" for x
    using place_props(2) [OF inv less_imp_le [OF assms(4)] j(1,2) lo j(4)] assms(10) j(5) by (simp add: seg_hi_def seg_lo_def)
  moreover have "\<not> space_full a x" if "off \<le> x" "x < off + sz" for x
    using empty_segment [OF inv j(1,2), of x limit] that lo j(4) by linarith
  ultimately show ?thesis using f unfolding free_post_def using assms(4) by auto
qed

theorem space_padding_leak_witness:
  "ncclSpaceAlloc [10] 64 4 (2 ^ 3) = Inr (16, [20]) \<and> ncclSpaceFree [20] 16 4 = Some (Inr [16]) \<and>
   (\<forall>x. space_full [16] x \<longleftrightarrow> space_full [10] x \<or> 10 \<le> x \<and> x < 16)"
proof -
  have inv: "space_inv [10]" by (simp add: space_inv_def cuts_sorted_def)
  have run: "ncclSpaceAlloc [10] 64 4 (2 ^ 3) = Inr (16, [20])" by (simp add: example_alloc)
  show ?thesis using space_padding_leak [OF inv _ _ _ _ _ run, of 0] run by (simp add: example_free)
qed

end
