(* ===== verification/Trees.thy ===== *)
theory Trees
  imports Nccl_Prelude
begin

unbundle bit_operations_syntax

text \<open>
  The binary trees between nodes (\<^verbatim>\<open>src/src/graph/trees.cc\<close>).  Ranks are natural numbers, the results are
  integers with \<open>- 1\<close> for no rank.  The parent and the children that each rank computes for itself agree with
  each other, and every rank reaches the root within as many steps as the number of ranks has bits.
\<close>

section \<open>The trees of the code\<close>

text \<open>The search for the lowest bit of the rank; the loop variable \<^verbatim>\<open>bit\<close> is \<open>2 ^ k\<close>.\<close>

function btreeBit :: "nat \<Rightarrow> nat \<Rightarrow> nat \<Rightarrow> nat" where
  "btreeBit nranks rank k =
     (if 2 ^ k < nranks then if bit rank k then k else btreeBit nranks rank (k + 1) else k)"
  by pat_completeness auto
termination
proof (relation "measure (\<lambda>(nranks, _, k). nranks - 2 ^ k)")
  show "((nranks, rank, k + 1), (nranks, rank, k)) \<in> measure (\<lambda>(nranks, _, k). nranks - 2 ^ k)"
    if "2 ^ k < nranks" for nranks rank k :: nat
    using diff_less_mono2 [of "2 ^ k" "2 ^ (k + 1)" nranks] that by simp
qed simp

declare btreeBit.simps [simp del]

function down1Loop :: "nat \<Rightarrow> nat \<Rightarrow> nat \<Rightarrow> int \<Rightarrow> int" where
  "down1Loop nranks rank lowbit down1 =
     (if down1 \<ge> int nranks
      then down1Loop nranks rank (lowbit div 2) (if lowbit = 0 then - 1 else int rank + int lowbit)
      else down1)"
  by pat_completeness auto
termination
  by (relation "measure (\<lambda>(nranks, _, lowbit, down1). if down1 \<ge> int nranks then lowbit + 1 else 0)") auto

declare down1Loop.simps [simp del]

text \<open>Parent, first and second child, and which child of its parent a rank is (not set for the root).\<close>

record btree =
  up :: int
  down0 :: int
  down1 :: int
  parentChildType :: "nat option"

definition ncclGetBtree :: "nat \<Rightarrow> nat \<Rightarrow> btree" where
  "ncclGetBtree nranks rank =
     (let k = btreeBit nranks rank 0; bitv = 2 ^ k
      in if rank = 0 then
           \<lparr>up = - 1, down0 = - 1, down1 = (if nranks > 1 then int (bitv div 2) else - 1), parentChildType = None\<rparr>
         else
           let u = (rank XOR bitv) OR (bitv * 2);
               u = (if u \<ge> nranks then rank XOR bitv else u);
               lowbit = bitv div 2;
               d0 = (if lowbit = 0 then - 1 else int rank - int lowbit);
               d1 = (if lowbit = 0 then - 1 else int rank + int lowbit)
           in \<lparr>up = int u, down0 = d0, down1 = down1Loop nranks rank lowbit d1, parentChildType = Some (if rank < u then 0 else 1)\<rparr>)"

definition ncclGetDtree :: "nat \<Rightarrow> nat \<Rightarrow> btree \<times> btree" where
  "ncclGetDtree nranks rank =
     (let t0 = ncclGetBtree nranks rank
      in if nranks mod 2 = 1 then
           let shiftrank = (rank + nranks - 1) mod nranks;
               t = ncclGetBtree nranks shiftrank;
               shift = (\<lambda>x. if x = - 1 then - 1 else (x + 1) mod int nranks)
           in (t0, \<lparr>up = shift (up t), down0 = shift (down0 t), down1 = shift (down1 t), parentChildType = parentChildType t\<rparr>)
         else
           let t = ncclGetBtree nranks (nranks - 1 - rank);
               mirror = (\<lambda>x. if x = - 1 then - 1 else int nranks - 1 - x)
           in (t0, \<lparr>up = mirror (up t), down0 = mirror (down0 t), down1 = mirror (down1 t), parentChildType = parentChildType t\<rparr>))"

section \<open>The lowest bit\<close>

lemma btreeBit_lowest:
  assumes "rank < nranks" "rank \<noteq> 0" "\<forall>j < k. \<not> bit rank j"
  shows "bit rank (btreeBit nranks rank k) \<and> (\<forall>j < btreeBit nranks rank k. \<not> bit rank j)"
  using assms
proof (induction nranks rank k rule: btreeBit.induct)
  case (1 nranks rank k)
  have "2 ^ k < nranks"
  proof -
    have "take_bit k rank = 0" using "1.prems"(3) by (intro bit_eqI) (simp add: bit_take_bit_iff)
    then have "2 ^ k dvd rank" by (simp add: take_bit_eq_0_iff)
    then have "2 ^ k \<le> rank" using "1.prems"(2) by (intro dvd_imp_le) simp_all
    then show ?thesis using "1.prems"(1) by simp
  qed
  then have s: "btreeBit nranks rank k = (if bit rank k then k else btreeBit nranks rank (k + 1))"
    by (subst btreeBit.simps) simp
  show ?case
  proof (cases "bit rank k")
    case True
    then show ?thesis using "1.prems" by (simp add: s)
  next
    case False
    then have "\<forall>j < k + 1. \<not> bit rank j" using "1.prems"(3) by (auto simp: less_Suc_eq)
    then show ?thesis using "1.IH" [OF \<open>2 ^ k < nranks\<close> False] "1.prems" False by (simp add: s)
  qed
qed

lemma lowest_bit_form:
  fixes x :: nat
  assumes "bit x k" "\<forall>j < k. \<not> bit x j"
  shows "\<exists>m. x = m * 2 ^ (k + 1) + 2 ^ k"
proof -
  have "take_bit k x = 0" using assms(2) by (intro bit_eqI) (simp add: bit_take_bit_iff)
  then have d: "x mod 2 ^ k = 0" by (simp add: take_bit_eq_mod)
  have "odd (x div 2 ^ k)" using assms(1) by (simp add: bit_iff_odd)
  then obtain m where "x div 2 ^ k = 2 * m + 1" by (auto elim: oddE)
  then have "x = (2 * m + 1) * 2 ^ k" using div_mult_mod_eq [of x "2 ^ k"] d by simp
  then show ?thesis by (auto simp: algebra_simps)
qed

lemma btreeBit_form:
  assumes "0 < rank" "rank < nranks"
  shows "\<exists>m. rank = m * 2 ^ (btreeBit nranks rank 0 + 1) + 2 ^ btreeBit nranks rank 0"
  using btreeBit_lowest [of rank nranks 0] lowest_bit_form assms by simp

lemma not_bit_multiple: "2 ^ Suc j dvd (u::nat) \<Longrightarrow> \<not> bit u j"
  by (auto simp: bit_iff_odd elim!: dvdE)

lemma btreeBit_unique:
  assumes "rank = m * 2 ^ (k + 1) + 2 ^ k" "rank < nranks"
  shows "btreeBit nranks rank 0 = k"
proof -
  let ?l = "btreeBit nranks rank 0"
  have bk: "bit rank k" unfolding assms(1) bit_iff_odd by simp
  have "\<not> bit rank j" if "j < k" for j
  proof -
    have "rank = (m * 2 ^ (k - j + 1) + 2 ^ (k - j)) * 2 ^ j"
      unfolding assms(1) using that by (simp add: algebra_simps flip: power_add)
    then have "rank div 2 ^ j = m * 2 ^ (k - j + 1) + 2 ^ (k - j)" by simp
    then show ?thesis using that by (simp add: bit_iff_odd)
  qed
  moreover have "bit rank ?l" "\<forall>j < ?l. \<not> bit rank j" using btreeBit_lowest [of rank nranks 0] assms by auto
  ultimately show ?thesis using bk by (meson linorder_neqE_nat)
qed

lemma btreeBit_zero:
  assumes "1 < nranks"
  shows "nranks \<le> 2 ^ btreeBit nranks 0 0 \<and> 0 < btreeBit nranks 0 0 \<and> 2 ^ (btreeBit nranks 0 0 - 1) < nranks"
proof -
  have "nranks \<le> 2 ^ btreeBit nranks 0 k \<and> (k = 0 \<or> 2 ^ (k - 1) < nranks \<longrightarrow> 2 ^ (btreeBit nranks 0 k - 1) < nranks \<or> btreeBit nranks 0 k = 0)" for k
  proof (induction nranks "0::nat" k rule: btreeBit.induct)
    case (1 nranks k)
    then show ?case by (subst (1 2 3) btreeBit.simps) auto
  qed
  from this [of 0] show ?thesis using assms by (cases "btreeBit nranks 0 0 = 0") auto
qed

section \<open>Parents and children\<close>

lemma bits_of_form:
  fixes m :: nat
  shows "(m * 2 ^ (k + 1) + 2 ^ k) XOR 2 ^ k = m * 2 ^ (k + 1)"
    "(m * 2 ^ (k + 1)) OR (2 ^ k * 2) = (if odd m then m else m + 1) * 2 ^ (k + 1)"
proof -
  have a: "j * 2 ^ (l + 1) AND 2 ^ l = (0::nat)" for j l :: nat
  proof (intro bit_eqI)
    fix n
    have "\<not> bit (j * 2 ^ (l + 1)) l" by (simp add: bit_iff_odd)
    then show "bit (j * 2 ^ (l + 1) AND 2 ^ l) n = bit (0::nat) n" by (auto simp: bit_and_iff bit_exp_iff)
  qed
  show "(m * 2 ^ (k + 1) + 2 ^ k) XOR 2 ^ k = m * 2 ^ (k + 1)"
    unfolding disjunctive_add_eq_xor [OF a] by (simp add: xor.assoc)
  show "(m * 2 ^ (k + 1)) OR (2 ^ k * 2) = (if odd m then m else m + 1) * 2 ^ (k + 1)"
  proof (cases "odd m")
    case True
    then obtain j where "m = 2 * j + 1" by (auto elim: oddE)
    then have "m * 2 ^ (k + 1) = j * 2 ^ (k + 1 + 1) + 2 ^ (k + 1)" by (simp add: algebra_simps)
    also have "\<dots> = (j * 2 ^ (k + 1 + 1)) OR 2 ^ (k + 1)" by (rule disjunctive_add_eq_or [OF a])
    finally show ?thesis using True by (simp add: or.assoc mult.commute)
  next
    case False
    then obtain j where "m = 2 * j" by (auto elim: evenE)
    then have "m * 2 ^ (k + 1) = j * 2 ^ (k + 1 + 1)" by simp
    moreover have "(j * 2 ^ (k + 1 + 1)) OR 2 ^ (k + 1) = j * 2 ^ (k + 1 + 1) + 2 ^ (k + 1)"
      by (rule disjunctive_add_eq_or [OF a, symmetric])
    ultimately show ?thesis using False by (simp add: algebra_simps)
  qed
qed

lemma up_form:
  assumes "rank = m * 2 ^ (k + 1) + 2 ^ k" "rank < nranks"
  defines "u \<equiv> (if odd m then m * 2 ^ (k + 1) else if (m + 1) * 2 ^ (k + 1) < nranks then (m + 1) * 2 ^ (k + 1) else m * 2 ^ (k + 1))"
  shows "up (ncclGetBtree nranks rank) = int u" "parentChildType (ncclGetBtree nranks rank) = Some (if rank < u then 0 else 1)"
proof -
  have k: "btreeBit nranks rank 0 = k" using assms(1,2) by (rule btreeBit_unique)
  have r: "rank \<noteq> 0" using assms(1) by simp
  have x: "rank XOR 2 ^ k = m * 2 ^ (k + 1)" unfolding assms(1) by (rule bits_of_form)
  have le: "m * 2 ^ (k + 1) < nranks" using assms(1,2) by simp
  have u: "(if nranks \<le> (m * 2 ^ (k + 1) OR 2 ^ k * 2) then m * 2 ^ (k + 1) else (m * 2 ^ (k + 1) OR 2 ^ k * 2)) = u"
    unfolding bits_of_form(2) u_def using le by (auto simp: not_less)
  show "up (ncclGetBtree nranks rank) = int u" "parentChildType (ncclGetBtree nranks rank) = Some (if rank < u then 0 else 1)"
    unfolding ncclGetBtree_def k Let_def x if_not_P [OF r] by (simp_all only: u btree.simps)
qed

lemma down0_form:
  assumes "rank = m * 2 ^ (k + 1) + 2 ^ k" "rank < nranks"
  shows "down0 (ncclGetBtree nranks rank) = (if k = 0 then - 1 else int (m * 2 ^ (k + 1) + 2 ^ (k - 1)))"
proof -
  have k: "btreeBit nranks rank 0 = k" using assms(1,2) by (rule btreeBit_unique)
  have r: "rank \<noteq> 0" using assms(1) by simp
  have d: "down0 (ncclGetBtree nranks rank) = (if (2::nat) ^ k div 2 = 0 then - 1 else int rank - int (2 ^ k div 2))"
    unfolding ncclGetBtree_def k Let_def if_not_P [OF r] by simp
  show ?thesis unfolding d by (cases k) (simp_all add: assms(1))
qed

definition down1_spec :: "nat \<Rightarrow> nat \<Rightarrow> nat \<Rightarrow> int \<Rightarrow> bool" where
  "down1_spec nranks rank i r \<longleftrightarrow> r = - 1 \<and> nranks \<le> rank + 1 \<or>
     (\<exists>l \<le> i. r = int (rank + 2 ^ l) \<and> rank + 2 ^ l < nranks \<and> (l < i \<longrightarrow> nranks \<le> rank + 2 ^ (l + 1)))"

lemma down1Loop_spec:
  assumes "int nranks \<le> d"
  shows "down1_spec nranks rank i (down1Loop nranks rank (2 ^ i) d)"
  using assms
proof (induction i arbitrary: d)
  case 0
  have step: "down1Loop nranks rank 1 d = down1Loop nranks rank 0 (int rank + 1)" using 0 by (subst down1Loop.simps) simp
  show ?case
  proof (cases "rank + 1 < nranks")
    case True
    then have "down1Loop nranks rank 0 (int rank + 1) = int (rank + 1)" by (subst down1Loop.simps) simp
    then show ?thesis using True step unfolding down1_spec_def by (intro disjI2 exI [of _ 0]) simp
  next
    case False
    have "down1Loop nranks rank 0 (int rank + 1) = down1Loop nranks rank 0 (- 1)" using False by (subst down1Loop.simps) simp
    also have "\<dots> = - 1" by (subst down1Loop.simps) simp
    finally show ?thesis using False step by (simp add: down1_spec_def)
  qed
next
  case (Suc i)
  have step: "down1Loop nranks rank (2 ^ Suc i) d = down1Loop nranks rank (2 ^ i) (int rank + 2 ^ Suc i)"
    using Suc.prems by (subst down1Loop.simps) simp
  have c: "int rank + 2 ^ Suc i = int (rank + 2 ^ Suc i)" by simp
  show ?case
  proof (cases "rank + 2 ^ Suc i < nranks")
    case True
    then have "int rank + 2 ^ Suc i < int nranks" unfolding c of_nat_less_iff .
    then have "down1Loop nranks rank (2 ^ i) (int rank + 2 ^ Suc i) = int rank + 2 ^ Suc i" by (subst down1Loop.simps) simp
    then show ?thesis using True unfolding step down1_spec_def by (intro disjI2 exI [of _ "Suc i"]) simp
  next
    case False
    then have "int nranks \<le> int rank + 2 ^ Suc i" unfolding c of_nat_le_iff by simp
    from Suc.IH [OF this] consider "down1Loop nranks rank (2 ^ i) (int rank + 2 ^ Suc i) = - 1" "nranks \<le> rank + 1"
      | l where "l \<le> i" "down1Loop nranks rank (2 ^ i) (int rank + 2 ^ Suc i) = int (rank + 2 ^ l)" "rank + 2 ^ l < nranks"
          "l < i \<longrightarrow> nranks \<le> rank + 2 ^ (l + 1)"
      unfolding down1_spec_def by blast
    then show ?thesis
    proof cases
      case 1
      then show ?thesis unfolding step down1_spec_def by simp
    next
      case (2 l)
      have "nranks \<le> rank + 2 ^ (l + 1)" using 2 False by (cases "l = i") auto
      then show ?thesis using 2 unfolding step down1_spec_def by (intro disjI2 exI [of _ l]) simp
    qed
  qed
qed

lemma down1_form:
  assumes "rank = m * 2 ^ (k + 1) + 2 ^ k" "rank < nranks"
  shows "if k = 0 then down1 (ncclGetBtree nranks rank) = - 1 else down1_spec nranks rank (k - 1) (down1 (ncclGetBtree nranks rank))"
proof -
  have k: "btreeBit nranks rank 0 = k" using assms(1,2) by (rule btreeBit_unique)
  have r: "rank \<noteq> 0" using assms(1) by simp
  have d: "down1 (ncclGetBtree nranks rank) =
      down1Loop nranks rank (2 ^ k div 2) (if (2::nat) ^ k div 2 = 0 then - 1 else int rank + int (2 ^ k div 2))"
    unfolding ncclGetBtree_def k Let_def if_not_P [OF r] by simp
  show ?thesis
  proof (cases k)
    case 0
    then show ?thesis unfolding d by (subst down1Loop.simps) simp
  next
    case (Suc j)
    have e: "down1 (ncclGetBtree nranks rank) = down1Loop nranks rank (2 ^ j) (int (rank + 2 ^ j))" unfolding d by (simp add: Suc)
    show ?thesis
    proof (cases "rank + 2 ^ j < nranks")
      case True
      then have "down1Loop nranks rank (2 ^ j) (int (rank + 2 ^ j)) = int (rank + 2 ^ j)"
        unfolding down1Loop.simps [of nranks rank "2 ^ j" "int (rank + 2 ^ j)"] of_nat_le_iff by simp
      then show ?thesis using True unfolding e down1_spec_def Suc by auto
    next
      case False
      then have "int nranks \<le> int (rank + 2 ^ j)" unfolding of_nat_le_iff by simp
      then show ?thesis unfolding e using down1Loop_spec [of nranks "int (rank + 2 ^ j)" rank j] by (simp add: Suc)
    qed
  qed
qed

lemma child_parent_down0:
  assumes "rank < nranks" "down0 (ncclGetBtree nranks rank) \<noteq> - 1"
  shows "\<exists>c. down0 (ncclGetBtree nranks rank) = int c \<and> 0 < c \<and> c < nranks \<and> up (ncclGetBtree nranks c) = int rank"
proof -
  have "rank \<noteq> 0"
  proof
    assume "rank = 0"
    then have "down0 (ncclGetBtree nranks rank) = - 1" by (simp add: ncclGetBtree_def Let_def)
    then show False using assms(2) by simp
  qed
  then obtain m where r: "rank = m * 2 ^ (btreeBit nranks rank 0 + 1) + 2 ^ btreeBit nranks rank 0"
    using btreeBit_form assms(1) by blast
  define k where "k = btreeBit nranks rank 0"
  have r: "rank = m * 2 ^ (k + 1) + 2 ^ k" using r by (simp add: k_def)
  note d = down0_form [OF r assms(1)]
  then have "k \<noteq> 0" using assms(2) by (simp split: if_splits)
  then obtain j where k: "k = Suc j" using not0_implies_Suc by blast
  define c where "c = m * 2 ^ (k + 1) + 2 ^ j"
  have c: "c = (2 * m) * 2 ^ (j + 1) + 2 ^ j" "(2 * m + 1) * 2 ^ (j + 1) = rank" "c < nranks"
    using assms(1) by (simp_all add: c_def r k)
  have "up (ncclGetBtree nranks c) = int rank" using up_form(1) [OF c(1,3)] c(2) assms(1) by simp
  moreover have "0 < c" by (simp add: c_def)
  moreover have "down0 (ncclGetBtree nranks rank) = int c" using d by (simp add: c_def k)
  ultimately show ?thesis using c(3) by blast
qed

lemma up_of_second_child:
  assumes "rank + 2 ^ l < nranks" "2 ^ (l + 1) dvd rank" "odd (rank div 2 ^ (l + 1)) \<or> nranks \<le> rank + 2 ^ (l + 1)"
  shows "up (ncclGetBtree nranks (rank + 2 ^ l)) = int rank"
proof -
  define M where "M = rank div 2 ^ (l + 1)"
  have r: "rank = M * 2 ^ (l + 1)" using assms(2) by (simp add: M_def)
  have c: "rank + 2 ^ l = M * 2 ^ (l + 1) + 2 ^ l" by (simp add: r)
  show ?thesis using up_form(1) [OF c assms(1)] assms(3) unfolding M_def [symmetric] by (auto simp: r)
qed

lemma child_parent_down1:
  assumes "rank < nranks" "down1 (ncclGetBtree nranks rank) \<noteq> - 1"
  shows "\<exists>c. down1 (ncclGetBtree nranks rank) = int c \<and> 0 < c \<and> c < nranks \<and> up (ncclGetBtree nranks c) = int rank"
proof (cases "rank = 0")
  case True
  then have n: "1 < nranks" using assms(2) by (simp add: ncclGetBtree_def Let_def split: if_splits)
  note z = btreeBit_zero [OF n]
  then obtain l where l: "btreeBit nranks 0 0 = Suc l" using not0_implies_Suc by blast
  have z: "nranks \<le> 2 ^ Suc l" "2 ^ l < nranks" using z by (simp_all add: l)
  have "down1 (ncclGetBtree nranks rank) = int (2 ^ l)"
    using n unfolding True ncclGetBtree_def Let_def l by simp
  moreover have "up (ncclGetBtree nranks (0 + 2 ^ l)) = int 0" using z by (intro up_of_second_child) simp_all
  ultimately show ?thesis using z True by auto
next
  case False
  then obtain m where r0: "rank = m * 2 ^ (btreeBit nranks rank 0 + 1) + 2 ^ btreeBit nranks rank 0"
    using btreeBit_form assms(1) by blast
  define k where "k = btreeBit nranks rank 0"
  have r: "rank = m * 2 ^ (k + 1) + 2 ^ k" using r0 by (simp add: k_def)
  note d = down1_form [OF r assms(1)]
  then have k: "k \<noteq> 0" using assms(2) by (simp split: if_splits)
  then obtain l where l: "l \<le> k - 1" "down1 (ncclGetBtree nranks rank) = int (rank + 2 ^ l)" "rank + 2 ^ l < nranks"
      "l < k - 1 \<longrightarrow> nranks \<le> rank + 2 ^ (l + 1)"
    using d assms(2) by (auto simp: down1_spec_def)
  have "k = (k - l - 1) + (l + 1)" using l(1) k by simp
  then have "(2::nat) ^ k = 2 ^ (k - l - 1) * 2 ^ (l + 1)" by (metis power_add)
  then have "rank = (2 * m + 1) * 2 ^ (k - l - 1) * 2 ^ (l + 1)" by (simp add: r algebra_simps)
  then have "2 ^ (l + 1) dvd rank" "rank div 2 ^ (l + 1) = (2 * m + 1) * 2 ^ (k - l - 1)" by simp_all
  moreover have "l = k - 1 \<Longrightarrow> k - l - 1 = 0" by simp
  ultimately have "up (ncclGetBtree nranks (rank + 2 ^ l)) = int rank"
    using l by (intro up_of_second_child) (cases "l = k - 1"; simp)+
  then show ?thesis using l(2,3) by (intro exI [of _ "rank + 2 ^ l"]) simp
qed

lemma second_child_down1:
  assumes "u + 2 ^ k < nranks" "2 ^ (k + 1) dvd u" "odd (u div 2 ^ (k + 1)) \<or> nranks \<le> u + 2 ^ (k + 1)"
  shows "down1 (ncclGetBtree nranks u) = int (u + 2 ^ k)"
proof (cases "u = 0")
  case True
  have "1 \<le> (2::nat) ^ k" by simp
  moreover have "2 ^ k < nranks" using assms(1) True by simp
  ultimately have n: "1 < nranks" by (rule le_less_trans)
  have z: "nranks \<le> 2 ^ btreeBit nranks 0 0" "0 < btreeBit nranks 0 0" "2 ^ (btreeBit nranks 0 0 - 1) < nranks"
    using btreeBit_zero [OF n] by auto
  have "2 ^ k < (2::nat) ^ btreeBit nranks 0 0" "2 ^ (btreeBit nranks 0 0 - 1) < (2::nat) ^ (k + 1)"
    using less_le_trans [OF \<open>2 ^ k < nranks\<close> z(1)] less_le_trans [OF z(3), of "2 ^ (k + 1)"] assms(3) True by auto
  then have "k < btreeBit nranks 0 0" "btreeBit nranks 0 0 - 1 < k + 1" by (simp_all only: power_strict_increasing_iff one_less_numeral_iff semiring_norm)
  then have "btreeBit nranks 0 0 = Suc k" using z(2) by linarith
  then show ?thesis using n True by (simp add: ncclGetBtree_def Let_def)
next
  case False
  have un: "u < nranks" using assms(1) by simp
  obtain m where "u = m * 2 ^ (btreeBit nranks u 0 + 1) + 2 ^ btreeBit nranks u 0" using btreeBit_form [of u nranks] False un by auto
  moreover define k' where "k' = btreeBit nranks u 0"
  ultimately have u: "u = m * 2 ^ (k' + 1) + 2 ^ k'" by simp
  have bu: "bit u k'" "\<forall>j < k'. \<not> bit u j" using btreeBit_lowest [of u nranks 0] un False by (auto simp: k'_def)
  have "\<not> bit u j" if "j < k + 1" for j
  proof -
    have "2 ^ Suc j dvd u" using assms(2) that by (meson Suc_leI dvd_trans le_imp_power_dvd)
    then show ?thesis by (rule not_bit_multiple)
  qed
  then have k': "k + 1 \<le> k'" using bu(1) by (meson not_le_imp_less)
  have le: "k' = k + 1 \<or> nranks \<le> u + 2 ^ (k + 1)" using assms(3) bu k' by (metis bit_iff_odd le_neq_implies_less)
  have "down1_spec nranks u (k' - 1) (down1 (ncclGetBtree nranks u))" using down1_form [OF u un] k' by (simp split: if_splits)
  moreover have "\<not> nranks \<le> u + 1" using assms(1) by (metis One_nat_def add_le_cancel_left leD less_le_trans nat_add_left_cancel_less one_le_numeral one_le_power)
  ultimately obtain l where l: "l \<le> k' - 1" "down1 (ncclGetBtree nranks u) = int (u + 2 ^ l)" "u + 2 ^ l < nranks"
      "l < k' - 1 \<longrightarrow> nranks \<le> u + 2 ^ (l + 1)"
    by (auto simp: down1_spec_def)
  have "l \<le> k"
  proof (rule ccontr)
    assume "\<not> l \<le> k"
    then have "nranks \<le> u + 2 ^ (k + 1)" "k + 1 \<le> l" using le l(1) by auto
    moreover have "(2::nat) ^ (k + 1) \<le> 2 ^ l" using \<open>k + 1 \<le> l\<close> by (rule power_increasing) simp
    ultimately show False using l(3) by linarith
  qed
  moreover have "\<not> l < k"
  proof
    assume "l < k"
    then have "nranks \<le> u + 2 ^ (l + 1)" "l + 1 \<le> k" using l(4) k' by auto
    moreover have "(2::nat) ^ (l + 1) \<le> 2 ^ k" using \<open>l + 1 \<le> k\<close> by (rule power_increasing) simp
    ultimately show False using assms(1) by linarith
  qed
  ultimately show ?thesis using l(2) by simp
qed

lemma parent_child:
  assumes "0 < rank" "rank < nranks"
  shows "\<exists>u < nranks. up (ncclGetBtree nranks rank) = int u \<and>
    (if rank < u then down0 (ncclGetBtree nranks u) = int rank \<and> parentChildType (ncclGetBtree nranks rank) = Some 0
     else down1 (ncclGetBtree nranks u) = int rank \<and> parentChildType (ncclGetBtree nranks rank) = Some 1)"
proof -
  obtain m where r: "rank = m * 2 ^ (btreeBit nranks rank 0 + 1) + 2 ^ btreeBit nranks rank 0"
    using btreeBit_form assms by blast
  define k where "k = btreeBit nranks rank 0"
  have r: "rank = m * 2 ^ (k + 1) + 2 ^ k" using r by (simp add: k_def)
  note u = up_form [OF r assms(2)]
  show ?thesis
  proof (cases "even m \<and> (m + 1) * 2 ^ (k + 1) < nranks")
    case True
    then obtain j where j: "m = 2 * j" by auto
    let ?u = "(m + 1) * 2 ^ (k + 1)"
    have f: "?u = j * 2 ^ (Suc k + 1) + 2 ^ Suc k" by (simp add: j algebra_simps)
    have "down0 (ncclGetBtree nranks ?u) = int rank" using down0_form [OF f] True by (simp add: r j algebra_simps)
    moreover have "rank < ?u" by (simp add: r)
    ultimately show ?thesis using u True by (intro exI [of _ ?u]) simp
  next
    case False
    let ?u = "m * 2 ^ (k + 1)"
    have "down1 (ncclGetBtree nranks ?u) = int (?u + 2 ^ k)"
      using False assms(2) by (intro second_child_down1) (auto simp: r)
    moreover have "\<not> rank < ?u" "?u < nranks" using assms(2) by (simp_all add: r)
    ultimately show ?thesis using u False r by (intro exI [of _ ?u]) (simp add: not_less split: if_splits)
  qed
qed

section \<open>Consistency and depth\<close>

definition child :: "btree \<Rightarrow> int \<Rightarrow> bool" where
  "child t c \<longleftrightarrow> c \<noteq> - 1 \<and> (down0 t = c \<or> down1 t = c)"

definition tree_consistent :: "nat \<Rightarrow> nat \<Rightarrow> (nat \<Rightarrow> btree) \<Rightarrow> bool" where
  "tree_consistent nranks root T \<longleftrightarrow> root < nranks \<and> up (T root) = - 1 \<and>
     (\<forall>r < nranks. r \<noteq> root \<longrightarrow> (\<exists>u < nranks. up (T r) = int u \<and>
        (parentChildType (T r) = Some 0 \<and> down0 (T u) = int r \<or> parentChildType (T r) = Some 1 \<and> down1 (T u) = int r))) \<and>
     (\<forall>r < nranks. \<forall>c. child (T r) c \<longrightarrow> (\<exists>c' < nranks. c = int c' \<and> c' \<noteq> root \<and> up (T c') = int r))"

lemma btree_consistent: "0 < nranks \<Longrightarrow> tree_consistent nranks 0 (ncclGetBtree nranks)"
  unfolding tree_consistent_def
proof (intro conjI allI impI)
  show "up (ncclGetBtree nranks 0) = - 1" by (simp add: ncclGetBtree_def Let_def)
  fix r assume r: "r < nranks"
  show "\<exists>u < nranks. up (ncclGetBtree nranks r) = int u \<and>
      (parentChildType (ncclGetBtree nranks r) = Some 0 \<and> down0 (ncclGetBtree nranks u) = int r \<or>
       parentChildType (ncclGetBtree nranks r) = Some 1 \<and> down1 (ncclGetBtree nranks u) = int r)" if "r \<noteq> 0"
    using parent_child [of r nranks] that r by (auto split: if_splits)
  show "\<exists>c' < nranks. c = int c' \<and> c' \<noteq> 0 \<and> up (ncclGetBtree nranks c') = int r" if "child (ncclGetBtree nranks r) c" for c
    using child_parent_down0 [OF r] child_parent_down1 [OF r] that unfolding child_def by blast
qed

text \<open>The second tree renames the ranks of the first.\<close>

definition relabel :: "(nat \<Rightarrow> nat) \<Rightarrow> btree \<Rightarrow> btree" where
  "relabel f t = (let g = (\<lambda>x. if x = - 1 then - 1 else int (f (nat x)))
     in \<lparr>up = g (up t), down0 = g (down0 t), down1 = g (down1 t), parentChildType = parentChildType t\<rparr>)"

lemma relabel_sel [simp]:
  "up (relabel f t) = (if up t = - 1 then - 1 else int (f (nat (up t))))"
  "down0 (relabel f t) = (if down0 t = - 1 then - 1 else int (f (nat (down0 t))))"
  "down1 (relabel f t) = (if down1 t = - 1 then - 1 else int (f (nat (down1 t))))"
  "parentChildType (relabel f t) = parentChildType t"
  by (simp_all add: relabel_def Let_def)

lemma relabel_consistent:
  assumes "tree_consistent nranks root T" "\<And>i. i < nranks \<Longrightarrow> f i < nranks \<and> g (f i) = i" "\<And>i. i < nranks \<Longrightarrow> g i < nranks \<and> f (g i) = i"
  shows "tree_consistent nranks (f root) (\<lambda>r. relabel f (T (g r)))"
  unfolding tree_consistent_def
proof (intro conjI allI impI)
  note T = assms(1) [unfolded tree_consistent_def]
  have root: "root < nranks" using T by simp
  show "f root < nranks" using assms(2) [OF root] by simp
  show "up (relabel f (T (g (f root)))) = - 1" using T assms(2) [OF root] by simp
  fix r assume r: "r < nranks"
  note gr = assms(3) [OF r]
  show "\<exists>u < nranks. up (relabel f (T (g r))) = int u \<and>
      (parentChildType (relabel f (T (g r))) = Some 0 \<and> down0 (relabel f (T (g u))) = int r \<or>
       parentChildType (relabel f (T (g r))) = Some 1 \<and> down1 (relabel f (T (g u))) = int r)" if "r \<noteq> f root"
  proof -
    have "g r \<noteq> root" using gr that by auto
    then obtain u where u: "u < nranks" "up (T (g r)) = int u"
        "parentChildType (T (g r)) = Some 0 \<and> down0 (T u) = int (g r) \<or> parentChildType (T (g r)) = Some 1 \<and> down1 (T u) = int (g r)"
      using T gr by blast
    show ?thesis using u assms(2) [OF u(1)] gr by (intro exI [of _ "f u"]) auto
  qed
  show "\<exists>c' < nranks. c = int c' \<and> c' \<noteq> f root \<and> up (relabel f (T (g c'))) = int r" if c: "child (relabel f (T (g r))) c" for c
  proof -
    obtain d where d: "child (T (g r)) d" "c = int (f (nat d))" using c by (auto simp: child_def split: if_splits)
    then obtain d' where d': "d' < nranks" "d = int d'" "d' \<noteq> root" "up (T d') = int (g r)" using T gr by blast
    have "f d' \<noteq> f root" using d'(1,3) assms(2) [of d'] assms(2) [OF root] by metis
    then show ?thesis using d(2) d' assms(2) [OF d'(1)] gr by (intro exI [of _ "f d'"]) simp
  qed
qed

lemma btree_range:
  assumes "r < nranks"
  shows "up (ncclGetBtree nranks r) = - 1 \<or> 0 \<le> up (ncclGetBtree nranks r) \<and> up (ncclGetBtree nranks r) < int nranks"
    "down0 (ncclGetBtree nranks r) = - 1 \<or> 0 \<le> down0 (ncclGetBtree nranks r) \<and> down0 (ncclGetBtree nranks r) < int nranks"
    "down1 (ncclGetBtree nranks r) = - 1 \<or> 0 \<le> down1 (ncclGetBtree nranks r) \<and> down1 (ncclGetBtree nranks r) < int nranks"
proof -
  note T = btree_consistent [of nranks, unfolded tree_consistent_def child_def]
  have n: "0 < nranks" using assms by simp
  show "up (ncclGetBtree nranks r) = - 1 \<or> 0 \<le> up (ncclGetBtree nranks r) \<and> up (ncclGetBtree nranks r) < int nranks"
    using T [OF n] assms by (cases "r = 0") fastforce+
  show "down0 (ncclGetBtree nranks r) = - 1 \<or> 0 \<le> down0 (ncclGetBtree nranks r) \<and> down0 (ncclGetBtree nranks r) < int nranks"
    using child_parent_down0 [OF assms] by auto
  show "down1 (ncclGetBtree nranks r) = - 1 \<or> 0 \<le> down1 (ncclGetBtree nranks r) \<and> down1 (ncclGetBtree nranks r) < int nranks"
    using child_parent_down1 [OF assms] by auto
qed

lemma second_tree_odd:
  assumes "r < nranks" "nranks mod 2 = 1"
  shows "snd (ncclGetDtree nranks r) = relabel (\<lambda>i. (i + 1) mod nranks) (ncclGetBtree nranks ((r + nranks - 1) mod nranks))"
proof -
  have "(r + nranks - 1) mod nranks < nranks" using assms by simp
  note b = btree_range [OF this]
  have s: "(if x = - 1 then - 1 else (x + 1) mod int nranks) = (if x = - 1 then - 1 else int ((nat x + 1) mod nranks))"
    if "x = - 1 \<or> 0 \<le> x \<and> x < int nranks" for x :: int
    using that by (auto simp: zmod_int add.commute)
  show ?thesis
    unfolding ncclGetDtree_def Let_def if_P [OF assms(2)] relabel_def snd_conv s [OF b(1)] s [OF b(2)] s [OF b(3)] ..
qed

lemma second_tree_even:
  assumes "r < nranks" "nranks mod 2 \<noteq> 1"
  shows "snd (ncclGetDtree nranks r) = relabel (\<lambda>i. nranks - 1 - i) (ncclGetBtree nranks (nranks - 1 - r))"
proof -
  have "nranks - 1 - r < nranks" using assms(1) by simp
  note b = btree_range [OF this]
  have s: "(if x = - 1 then - 1 else int nranks - 1 - x) = (if x = - 1 then - 1 else int (nranks - 1 - nat x))"
    if "x = - 1 \<or> 0 \<le> x \<and> x < int nranks" for x :: int
    using that by (auto simp: of_nat_diff)
  show ?thesis
    unfolding ncclGetDtree_def Let_def if_not_P [OF assms(2)] relabel_def snd_conv s [OF b(1)] s [OF b(2)] s [OF b(3)] ..
qed

lemma shift_inverse:
  assumes "i < (n::nat)"
  shows "(i + 1) mod n < n" "((i + 1) mod n + n - 1) mod n = i" "(i + n - 1) mod n < n" "((i + n - 1) mod n + 1) mod n = i"
proof -
  show "(i + 1) mod n < n" "(i + n - 1) mod n < n" using assms by simp_all
  show "((i + 1) mod n + n - 1) mod n = i" using assms by (cases "i + 1 = n") auto
  show "((i + n - 1) mod n + 1) mod n = i" using assms by (cases i) auto
qed

lemma tree_consistent_cong:
  "(\<And>r. r < nranks \<Longrightarrow> T r = T' r) \<Longrightarrow> tree_consistent nranks root T = tree_consistent nranks root T'"
  unfolding tree_consistent_def by (auto; metis)

definition dtree_root :: "nat \<Rightarrow> nat" where
  "dtree_root nranks = (if nranks mod 2 = 1 then 1 mod nranks else nranks - 1)"

lemma dtree_second_consistent:
  assumes "0 < nranks"
  shows "tree_consistent nranks (dtree_root nranks) (\<lambda>r. snd (ncclGetDtree nranks r))"
proof (cases "nranks mod 2 = 1")
  case True
  have "tree_consistent nranks ((0 + 1) mod nranks) (\<lambda>r. relabel (\<lambda>i. (i + 1) mod nranks) (ncclGetBtree nranks ((r + nranks - 1) mod nranks)))"
    by (rule relabel_consistent [OF btree_consistent [OF assms]]) (simp_all only: shift_inverse simp_thms)
  then show ?thesis
    using tree_consistent_cong [of nranks "\<lambda>r. snd (ncclGetDtree nranks r)"] second_tree_odd [OF _ True] True by (simp add: dtree_root_def)
next
  case False
  have "tree_consistent nranks (nranks - 1 - 0) (\<lambda>r. relabel (\<lambda>i. nranks - 1 - i) (ncclGetBtree nranks (nranks - 1 - r)))"
    by (rule relabel_consistent [OF btree_consistent [OF assms]]) auto
  then show ?thesis
    using tree_consistent_cong [of nranks "\<lambda>r. snd (ncclGetDtree nranks r)"] second_tree_even [OF _ False] False by (simp add: dtree_root_def)
qed

text \<open>C32: the double binary tree is consistent.  In both trees the root has no parent, every other rank is the child of
its parent that it says it is, and every child of a rank has that rank as its parent.\<close>

theorem dtree_consistent:
  assumes "0 < nranks"
  shows "tree_consistent nranks 0 (\<lambda>r. fst (ncclGetDtree nranks r)) \<and>
         tree_consistent nranks (dtree_root nranks) (\<lambda>r. snd (ncclGetDtree nranks r))"
proof -
  have "fst (ncclGetDtree nranks r) = ncclGetBtree nranks r" for r by (simp add: ncclGetDtree_def Let_def)
  then show ?thesis using btree_consistent [OF assms] dtree_second_consistent [OF assms] by simp
qed

theorem dtree_consistent_witness:
  "tree_consistent 13 0 (\<lambda>r. fst (ncclGetDtree 13 r)) \<and> tree_consistent 13 1 (\<lambda>r. snd (ncclGetDtree 13 r))"
  using dtree_consistent [of 13] by (simp add: dtree_root_def)

definition parent :: "(nat \<Rightarrow> btree) \<Rightarrow> nat \<Rightarrow> nat" where
  "parent T r = nat (up (T r))"

lemma lowest_bit_multiple:
  assumes "2 ^ k dvd u" "0 < u" "u < nranks"
  shows "k \<le> btreeBit nranks u 0"
proof (rule ccontr)
  assume "\<not> k \<le> btreeBit nranks u 0"
  then have "2 ^ Suc (btreeBit nranks u 0) dvd u" using assms(1) by (meson dvd_trans le_imp_power_dvd not_less_eq_eq)
  moreover have "bit u (btreeBit nranks u 0)" using btreeBit_lowest [of u nranks 0] assms(2,3) by simp
  ultimately show False using not_bit_multiple by blast
qed

lemma parent_lowest_bit:
  assumes "0 < r" "r < nranks"
  shows "parent (ncclGetBtree nranks) r < nranks \<and> 2 ^ (btreeBit nranks r 0 + 1) dvd parent (ncclGetBtree nranks) r"
proof -
  obtain m where f: "r = m * 2 ^ (btreeBit nranks r 0 + 1) + 2 ^ btreeBit nranks r 0" using btreeBit_form assms by blast
  have "parent (ncclGetBtree nranks) r < nranks" using parent_child [OF assms] by (auto simp: parent_def)
  moreover have "2 ^ (btreeBit nranks r 0 + 1) dvd parent (ncclGetBtree nranks) r"
    unfolding parent_def up_form(1) [OF f assms(2)] nat_int by (simp only: dvd_triv_right split: if_split) simp
  ultimately show ?thesis by blast
qed

lemma btree_depth:
  assumes "r < nranks" "nranks \<le> 2 ^ K"
  shows "\<exists>i \<le> K. (parent (ncclGetBtree nranks) ^^ i) r = 0"
proof -
  have "\<exists>i \<le> d. (parent (ncclGetBtree nranks) ^^ i) r = 0"
    if "r < nranks" "r = 0 \<or> K - btreeBit nranks r 0 \<le> d" for r d
    using that
  proof (induction d arbitrary: r)
    case 0
    have "r = 0"
    proof (rule ccontr)
      assume "r \<noteq> 0"
      then have "2 ^ btreeBit nranks r 0 \<le> r" using btreeBit_form [of r nranks] "0.prems"(1) by (metis gr0I le_add2)
      moreover have "(2::nat) ^ K \<le> 2 ^ btreeBit nranks r 0" using 0 \<open>r \<noteq> 0\<close> by (intro power_increasing) auto
      ultimately show False using assms(2) "0.prems"(1) by linarith
    qed
    then show ?case by simp
  next
    case (Suc d)
    show ?case
    proof (cases "r = 0")
      case True
      then show ?thesis by (intro exI [of _ 0]) simp
    next
      case False
      let ?p = "parent (ncclGetBtree nranks) r"
      have p: "?p < nranks" "2 ^ (btreeBit nranks r 0 + 1) dvd ?p" using parent_lowest_bit Suc.prems(1) False by auto
      have "?p = 0 \<or> K - btreeBit nranks ?p 0 \<le> d"
        using lowest_bit_multiple [OF p(2) _ p(1)] Suc.prems(2) False by fastforce
      then obtain i where "i \<le> d" "(parent (ncclGetBtree nranks) ^^ i) ?p = 0" using Suc.IH [OF p(1)] by blast
      then show ?thesis by (intro exI [of _ "Suc i"]) (simp add: funpow_swap1)
    qed
  qed
  from this [OF assms(1), of K] show ?thesis by simp
qed

lemma relabel_depth:
  assumes "r < nranks" "\<And>i. i < nranks \<Longrightarrow> f i < nranks \<and> g (f i) = i" "\<And>i. i < nranks \<Longrightarrow> g i < nranks \<and> f (g i) = i"
    "(parent (ncclGetBtree nranks) ^^ i) (g r) = 0" "\<And>r. r < nranks \<Longrightarrow> T r = relabel f (ncclGetBtree nranks (g r))"
  shows "\<exists>j \<le> i. (parent T ^^ j) r = f 0"
  using assms(1,4)
proof (induction i arbitrary: r)
  case 0
  then show ?case using assms(3) [of r] by (intro exI [of _ 0]) (auto dest: arg_cong [of _ _ f])
next
  case (Suc i)
  show ?case
  proof (cases "g r = 0")
    case True
    then show ?thesis using assms(3) [OF Suc.prems(1)] by (intro exI [of _ 0]) (auto dest: arg_cong [of _ _ f])
  next
    case False
    let ?p = "parent (ncclGetBtree nranks) (g r)"
    have gr: "0 < g r" "g r < nranks" using False assms(3) [OF Suc.prems(1)] by auto
    have p: "?p < nranks" using parent_lowest_bit [OF gr] by simp
    have "up (ncclGetBtree nranks (g r)) \<noteq> - 1" using parent_child [OF gr] by auto
    then have pT: "parent T r = f ?p" by (simp add: parent_def assms(5) [OF Suc.prems(1)])
    have fp: "f ?p < nranks" "g (f ?p) = ?p" using assms(2) [OF p] by auto
    then have "\<exists>j \<le> i. (parent T ^^ j) (f ?p) = f 0" using Suc.IH [of "f ?p"] Suc.prems(2) by (simp add: funpow_swap1)
    then obtain j where "j \<le> i" "(parent T ^^ j) (f ?p) = f 0" by blast
    then show ?thesis using pT by (intro exI [of _ "Suc j"]) (simp add: funpow_swap1)
  qed
qed

lemma dtree_second_depth:
  assumes "r < nranks" "nranks \<le> 2 ^ K"
  shows "\<exists>i \<le> K. (parent (\<lambda>r. snd (ncclGetDtree nranks r)) ^^ i) r = dtree_root nranks"
proof (cases "nranks mod 2 = 1")
  case True
  obtain i where i: "i \<le> K" "(parent (ncclGetBtree nranks) ^^ i) ((r + nranks - 1) mod nranks) = 0"
    using btree_depth [OF shift_inverse(3) [OF assms(1)] assms(2)] by blast
  have "\<exists>j \<le> i. (parent (\<lambda>r. snd (ncclGetDtree nranks r)) ^^ j) r = (0 + 1) mod nranks"
    by (rule relabel_depth [where f = "\<lambda>i. (i + 1) mod nranks" and g = "\<lambda>r. (r + nranks - 1) mod nranks", OF assms(1) _ _ i(2)])
      (simp_all only: shift_inverse simp_thms second_tree_odd [OF _ True])
  moreover have "dtree_root nranks = (0 + 1) mod nranks" using True by (simp add: dtree_root_def)
  ultimately show ?thesis using i(1) order_trans by metis
next
  case False
  have "nranks - 1 - r < nranks" using assms(1) by simp
  then obtain i where i: "i \<le> K" "(parent (ncclGetBtree nranks) ^^ i) (nranks - 1 - r) = 0"
    using btree_depth [OF _ assms(2)] by blast
  have "\<exists>j \<le> i. (parent (\<lambda>r. snd (ncclGetDtree nranks r)) ^^ j) r = nranks - 1 - 0"
    by (rule relabel_depth [where f = "\<lambda>i. nranks - 1 - i" and g = "\<lambda>r. nranks - 1 - r", OF assms(1) _ _ i(2)])
      (auto simp: second_tree_even [OF _ False])
  moreover have "dtree_root nranks = nranks - 1 - 0" using False by (simp add: dtree_root_def)
  ultimately show ?thesis using i(1) order_trans by metis
qed

lemma dtree_first: "(\<lambda>r. fst (ncclGetDtree nranks r)) = ncclGetBtree nranks"
  by (rule ext) (simp add: ncclGetDtree_def Let_def)

text \<open>C33: following parents from any rank reaches the root of either tree, within as many steps as the logarithm of the
number of ranks, rounded up.\<close>

theorem dtree_depth:
  assumes "r < nranks" "nranks \<le> 2 ^ K"
  shows "(\<exists>i \<le> K. (parent (\<lambda>r. fst (ncclGetDtree nranks r)) ^^ i) r = 0) \<and>
         (\<exists>i \<le> K. (parent (\<lambda>r. snd (ncclGetDtree nranks r)) ^^ i) r = dtree_root nranks)"
  unfolding dtree_first using btree_depth [OF assms] dtree_second_depth [OF assms] by blast

theorem dtree_depth_witness:
  "(\<exists>i \<le> 4. (parent (\<lambda>r. fst (ncclGetDtree 14 r)) ^^ i) 5 = 0) \<and> (\<exists>i \<le> 4. (parent (\<lambda>r. snd (ncclGetDtree 14 r)) ^^ i) 5 = 13)"
  using dtree_depth [of 5 14 4] by (simp add: dtree_root_def)

section \<open>Balance\<close>

definition nchildren :: "btree \<Rightarrow> nat" where
  "nchildren t = (if down0 t = - 1 then 0 else 1) + (if down1 t = - 1 then 0 else 1)"

lemma odd_rank_leaf:
  assumes "odd r" "r < nranks"
  shows "nchildren (ncclGetBtree nranks r) = 0"
proof -
  have f: "r = (r div 2) * 2 ^ (0 + 1) + 2 ^ 0" using assms(1) by (auto elim!: oddE)
  show ?thesis using down0_form [OF f assms(2)] down1_form [OF f assms(2)] by (simp add: nchildren_def)
qed

lemma nchildren_le: "nchildren t \<le> 2"
  by (simp add: nchildren_def)

lemma nchildren_relabel [simp]: "nchildren (relabel f t) = nchildren t"
  by (simp add: nchildren_def)

lemma last_rank_children:
  assumes "even nranks \<Longrightarrow> False" "0 < nranks"
  shows "nchildren (ncclGetBtree nranks (nranks - 1)) \<le> 1"
proof (cases "nranks = 1")
  case True
  then show ?thesis by (simp add: ncclGetBtree_def Let_def nchildren_def)
next
  case False
  then have r: "0 < nranks - 1" "nranks - 1 < nranks" using assms(2) by auto
  have "down1 (ncclGetBtree nranks (nranks - 1)) = - 1"
  proof (rule ccontr)
    assume n: "down1 (ncclGetBtree nranks (nranks - 1)) \<noteq> - 1"
    obtain m where f: "nranks - 1 = m * 2 ^ (btreeBit nranks (nranks - 1) 0 + 1) + 2 ^ btreeBit nranks (nranks - 1) 0"
      using btreeBit_form [OF r] by blast
    have "nranks \<le> nranks - 1 + 2 ^ l" for l using one_le_power [of "2::nat" l] r by linarith
    then show False using down1_form [OF f r(2)] n by (auto simp: down1_spec_def not_less [symmetric] split: if_splits)
  qed
  then show ?thesis by (simp add: nchildren_def)
qed

text \<open>C34: the two trees share the load: over both trees together no rank has more than two children.\<close>

theorem dtree_balanced:
  assumes "r < nranks"
  shows "nchildren (fst (ncclGetDtree nranks r)) + nchildren (snd (ncclGetDtree nranks r)) \<le> 2"
proof -
  have t0: "fst (ncclGetDtree nranks r) = ncclGetBtree nranks r" by (simp add: ncclGetDtree_def Let_def)
  consider "r = 0" "odd nranks" | "r \<noteq> 0" "odd nranks" | "even nranks" by blast
  then show ?thesis
  proof cases
    case 1
    have "nchildren (ncclGetBtree nranks 0) \<le> 1" by (simp add: ncclGetBtree_def Let_def nchildren_def)
    moreover have "(r + nranks - 1) mod nranks = nranks - 1" using 1 assms by simp
    ultimately show ?thesis
      using last_rank_children [of nranks] second_tree_odd [OF assms] 1 assms unfolding t0 by (simp add: odd_iff_mod_2_eq_one)
  next
    case 2
    have s: "(r + nranks - 1) mod nranks = r - 1" using 2 assms by (cases r) simp_all
    have "nchildren (ncclGetBtree nranks r) = 0 \<or> nchildren (ncclGetBtree nranks (r - 1)) = 0"
      using odd_rank_leaf [of r nranks] odd_rank_leaf [of "r - 1" nranks] 2 assms by (cases "odd r") auto
    moreover have "nranks mod 2 = 1" using 2 by (simp add: odd_iff_mod_2_eq_one)
    ultimately show ?thesis using nchildren_le unfolding t0 second_tree_odd [OF assms \<open>nranks mod 2 = 1\<close>] s by auto
  next
    case 3
    have "nchildren (ncclGetBtree nranks r) = 0 \<or> nchildren (ncclGetBtree nranks (nranks - 1 - r)) = 0"
      using odd_rank_leaf [of r nranks] odd_rank_leaf [of "nranks - 1 - r" nranks] 3 assms by (cases "odd r") auto
    then show ?thesis using second_tree_even [OF assms] 3 nchildren_le unfolding t0 by auto
  qed
qed

theorem dtree_balanced_witness:
  "nchildren (fst (ncclGetDtree 12 6)) + nchildren (snd (ncclGetDtree 12 6)) \<le> 2"
  using dtree_balanced [of 6 12] by simp

end
