(* ===== verification/Ring_Check.thy ===== *)
theory Ring_Check
  imports Nccl_Prelude
begin

unbundle bit_operations_syntax

text \<open>
  The check of the rings (\<^verbatim>\<open>src/src/graph/rings.cc\<close>): every ring is followed from the own rank through the
  successors of all ranks, the visited ranks are marked in an array of 64-bit words, and the ring is accepted when
  it closes and all ranks are marked.
\<close>

section \<open>The code\<close>

definition markRank :: "u64 list \<Rightarrow> nat \<Rightarrow> u64 list" where
  "markRank rankFound current = rankFound[current div 64 := rankFound ! (current div 64) OR push_bit (current mod 64) 1]"

text \<open>The walk along one ring; \<open>None\<close> is an access outside of the array of successors.\<close>

fun walkRing :: "int list \<Rightarrow> nat \<Rightarrow> int \<Rightarrow> u64 list \<Rightarrow> (int list \<times> int \<times> u64 list) option" where
  "walkRing next 0 current rankFound = Some ([], current, rankFound)"
| "walkRing next (Suc i) current rankFound =
     (if 0 \<le> current \<and> current < int (length next) then
        case walkRing next i (next ! nat current) (markRank rankFound (nat current)) of None \<Rightarrow> None
        | Some (ring, current1, rankFound) \<Rightarrow> Some (current # ring, current1, rankFound)
      else None)"

text \<open>The loop over all ranks, which skips a word with all bits set.\<close>

function checkRanks :: "nat \<Rightarrow> u64 list \<Rightarrow> nat \<Rightarrow> bool" where
  "checkRanks nranks rankFound i =
     (if i < nranks then
        let bits = rankFound ! (i div 64); mask = push_bit (i mod 64) 1
        in if mask = 1 \<and> bits = 0xffffffffffffffff then checkRanks nranks rankFound (i + 63 + 1)
           else if bits AND mask = 0 then False
           else checkRanks nranks rankFound (i + 1)
      else True)"
  by pat_completeness auto
termination by (relation "measure (\<lambda>(nranks, _, i). nranks - i)") auto

declare checkRanks.simps [simp del]

fun buildRingsFrom :: "int list list \<Rightarrow> nat \<Rightarrow> nat \<Rightarrow> u64 list \<Rightarrow> (int list list) nccl option" where
  "buildRingsFrom [] rank nranks rankFound = Some (Inr [])"
| "buildRingsFrom (next # nexts) rank nranks rankFound =
     (case walkRing next nranks (int rank) rankFound of None \<Rightarrow> None
      | Some (ring, current, rankFound) \<Rightarrow>
          if current \<noteq> int rank then Some (Inl ncclInternalError)
          else if \<not> checkRanks nranks rankFound 0 then Some (Inl ncclInternalError)
          else case buildRingsFrom nexts rank nranks (replicate (length rankFound) 0) of
                 Some (Inr rings) \<Rightarrow> Some (Inr (ring # rings)) | r \<Rightarrow> r)"

text \<open>\<open>callocOk\<close> is the success of the allocation of the marks; \<open>nexts\<close> has one array of successors per ring.\<close>

definition ncclBuildRings :: "bool \<Rightarrow> int list list \<Rightarrow> nat \<Rightarrow> nat \<Rightarrow> (int list list) nccl option" where
  "ncclBuildRings callocOk nexts rank nranks =
     (if \<not> callocOk then Some (Inl ncclSystemError)
      else buildRingsFrom nexts rank nranks (replicate ((nranks + 63) div 64) 0))"

section \<open>Correctness\<close>

definition succ_of :: "int list \<Rightarrow> nat \<Rightarrow> nat" where
  "succ_of next r = nat (next ! r)"

definition ring_from :: "int list \<Rightarrow> nat \<Rightarrow> nat \<Rightarrow> nat list" where
  "ring_from next rank n = map (\<lambda>i. (succ_of next ^^ i) rank) [0..<n]"

definition ring_ok :: "int list \<Rightarrow> nat \<Rightarrow> nat \<Rightarrow> bool" where
  "ring_ok next rank nranks \<longleftrightarrow> (succ_of next ^^ nranks) rank = rank \<and> set (ring_from next rank nranks) = {..<nranks}"

definition marked :: "u64 list \<Rightarrow> nat \<Rightarrow> bool" where
  "marked rankFound r \<longleftrightarrow> bit (rankFound ! (r div 64)) (r mod 64)"

lemma marked_markRank:
  assumes "current div 64 < length rankFound"
  shows "marked (markRank rankFound current) r \<longleftrightarrow> r = current \<or> marked rankFound r"
proof (cases "r div 64 = current div 64")
  case True
  have "bit (push_bit (current mod 64) (1::u64)) (r mod 64) \<longleftrightarrow> r mod 64 = current mod 64"
    by (auto simp: bit_exp_iff)
  moreover have "r = current \<longleftrightarrow> r mod 64 = current mod 64" using True by (metis div_mult_mod_eq)
  ultimately show ?thesis using True assms by (auto simp: marked_def markRank_def bit_or_iff)
next
  case False
  then show ?thesis by (auto simp: marked_def markRank_def)
qed

lemma ring_from_Suc: "ring_from next rank (Suc n) = rank # ring_from next (succ_of next rank) n"
  unfolding ring_from_def upt_conv_Cons [OF zero_less_Suc] by (simp add: map_Suc_upt [symmetric] funpow_swap1 del: upt_Suc)

lemma walkRing_correct:
  assumes "rank < length next" "\<forall>x \<in> set next. 0 \<le> x \<and> x < int (length next)" "(length next + 63) div 64 \<le> length rankFound"
  shows "\<exists>found'. walkRing next n (int rank) rankFound = Some (map int (ring_from next rank n), int ((succ_of next ^^ n) rank), found') \<and>
           length found' = length rankFound \<and> (\<forall>r. marked found' r \<longleftrightarrow> r \<in> set (ring_from next rank n) \<or> marked rankFound r)"
  using assms(1,3)
proof (induction n arbitrary: rank rankFound)
  case 0
  then show ?case by (simp add: ring_from_def)
next
  case (Suc n)
  have s: "next ! rank = int (succ_of next rank)" "succ_of next rank < length next"
    using assms(2) Suc.prems(1) nth_mem [of rank "next"] by (auto simp: succ_of_def nat_less_iff)
  have l: "rank div 64 < length rankFound" using Suc.prems by linarith
  have m: "length (markRank rankFound rank) = length rankFound" by (simp add: markRank_def)
  obtain found' where "walkRing next n (int (succ_of next rank)) (markRank rankFound rank) =
        Some (map int (ring_from next (succ_of next rank) n), int ((succ_of next ^^ n) (succ_of next rank)), found')"
      "length found' = length rankFound"
      "\<forall>r. marked found' r \<longleftrightarrow> r \<in> set (ring_from next (succ_of next rank) n) \<or> marked (markRank rankFound rank) r"
    using Suc.IH [OF s(2), of "markRank rankFound rank"] Suc.prems(2) m by auto
  then show ?case using Suc.prems(1) s(1) marked_markRank [OF l] by (auto simp: ring_from_Suc funpow_swap1)
qed

lemma checkRanks_correct:
  "checkRanks nranks rankFound i \<longleftrightarrow> (\<forall>r. i \<le> r \<and> r < nranks \<longrightarrow> marked rankFound r)"
proof (induction nranks rankFound i rule: checkRanks.induct)
  case (1 nranks rankFound i)
  let ?bits = "rankFound ! (i div 64)" let ?mask = "push_bit (i mod 64) (1::u64)"
  show ?case
  proof (cases "i < nranks")
    case False
    then show ?thesis by (subst checkRanks.simps) auto
  next
    case True
    have bm: "?bits AND ?mask = 0 \<longleftrightarrow> \<not> marked rankFound i"
    proof -
      have "?bits AND ?mask = 0 \<longleftrightarrow> \<not> bit ?bits (i mod 64)"
        by (auto simp: and_exp_eq_0_iff_not_bit)
      then show ?thesis by (simp add: marked_def)
    qed
    show ?thesis
    proof (cases "?mask = 1 \<and> ?bits = 0xffffffffffffffff")
      case full: True
      have m: "i mod 64 = 0"
      proof (rule ccontr)
        assume "i mod 64 \<noteq> 0"
        then have "\<not> bit ?mask 0" by (simp add: bit_exp_iff)
        then show False using full by simp
      qed
      have w: "(0xffffffffffffffff :: u64) = - 1" by simp
      have all: "marked rankFound r" if "i \<le> r" "r < i + 64" for r
      proof -
        obtain q where q: "i = 64 * q" using m by (auto simp: mod_eq_0_iff_dvd)
        then have "r div 64 = q" using that by (intro div_nat_eqI) simp_all
        then have "r div 64 = i div 64" by (simp add: q)
        then show ?thesis using full unfolding marked_def w by simp
      qed
      have "checkRanks nranks rankFound i = checkRanks nranks rankFound (i + 63 + 1)"
        using True full by (subst checkRanks.simps) (simp only: Let_def if_True simp_thms)
      also have "\<dots> \<longleftrightarrow> (\<forall>r. i + 63 + 1 \<le> r \<and> r < nranks \<longrightarrow> marked rankFound r)"
        using "1.IH"(1) [OF True refl refl full] .
      also have "\<dots> \<longleftrightarrow> (\<forall>r. i \<le> r \<and> r < nranks \<longrightarrow> marked rankFound r)"
      proof (intro iffI allI impI)
        fix r assume a: "\<forall>r. i + 63 + 1 \<le> r \<and> r < nranks \<longrightarrow> marked rankFound r" and r: "i \<le> r \<and> r < nranks"
        show "marked rankFound r"
        proof (cases "r < i + 64")
          case True
          then show ?thesis using all r by blast
        next
          case False
          then have "i + 63 + 1 \<le> r" by simp
          then show ?thesis using a r by blast
        qed
      qed simp
      finally show ?thesis .
    next
      case nf: False
      have e: "checkRanks nranks rankFound i = (if ?bits AND ?mask = 0 then False else checkRanks nranks rankFound (i + 1))"
        using True nf by (subst checkRanks.simps) (simp only: Let_def if_True if_False)
      have "(\<forall>r. i \<le> r \<and> r < nranks \<longrightarrow> marked rankFound r) \<longleftrightarrow> marked rankFound i \<and> (\<forall>r. i + 1 \<le> r \<and> r < nranks \<longrightarrow> marked rankFound r)"
      proof (intro iffI conjI allI impI)
        fix r assume a: "marked rankFound i \<and> (\<forall>r. i + 1 \<le> r \<and> r < nranks \<longrightarrow> marked rankFound r)" and r: "i \<le> r \<and> r < nranks"
        then show "marked rankFound r" by (cases "r = i") auto
      qed (use True in simp_all)
      then show ?thesis using "1.IH"(2) [OF True refl refl nf] bm unfolding e by auto
    qed
  qed
qed

lemma marked_replicate: "r div 64 < n \<Longrightarrow> \<not> marked (replicate n 0) r"
  by (simp add: marked_def)

lemma buildRingsFrom_correct:
  assumes "rank < nranks" "\<forall>next \<in> set nexts. length next = nranks \<and> (\<forall>x \<in> set next. 0 \<le> x \<and> x < int nranks)"
  shows "buildRingsFrom nexts rank nranks (replicate ((nranks + 63) div 64) 0) =
     Some (if \<forall>next \<in> set nexts. ring_ok next rank nranks then Inr (map (\<lambda>next. map int (ring_from next rank nranks)) nexts)
           else Inl ncclInternalError)"
  using assms(2)
proof (induction nexts)
  case (Cons nxt nexts)
  let ?found = "replicate ((nranks + 63) div 64) (0::u64)"
  have n: "length nxt = nranks" "\<forall>x \<in> set nxt. 0 \<le> x \<and> x < int (length nxt)" using Cons.prems by auto
  obtain found where w: "walkRing nxt nranks (int rank) ?found = Some (map int (ring_from nxt rank nranks), int ((succ_of nxt ^^ nranks) rank), found)"
      "length found = (nranks + 63) div 64" "\<forall>r. marked found r \<longleftrightarrow> r \<in> set (ring_from nxt rank nranks) \<or> marked ?found r"
    using walkRing_correct [of rank nxt ?found nranks] n assms(1) by auto
  have z: "\<not> marked ?found r" if "r < nranks" for r using that by (intro marked_replicate) linarith
  have range: "set (ring_from nxt rank nranks) \<subseteq> {..<nranks}"
  proof -
    have "(succ_of nxt ^^ i) rank < nranks" for i
      using assms(1) n by (induction i) (auto simp: succ_of_def nat_less_iff)
    then show ?thesis by (auto simp: ring_from_def)
  qed
  have chk: "checkRanks nranks found 0 \<longleftrightarrow> set (ring_from nxt rank nranks) = {..<nranks}"
    unfolding checkRanks_correct using w(3) z range by auto
  have IH: "buildRingsFrom nexts rank nranks ?found = Some (if \<forall>next \<in> set nexts. ring_ok next rank nranks
      then Inr (map (\<lambda>next. map int (ring_from next rank nranks)) nexts) else Inl ncclInternalError)"
    using Cons by simp
  show ?case using w(1,2) chk IH by (simp add: ring_ok_def)
qed simp

text \<open>C35: the rings are accepted exactly when each of them is a ring: following the successors from the own rank visits
every rank and comes back after as many steps as there are ranks.  Then the result is the order of the ranks from the
own rank on, and otherwise it is an internal error.\<close>

theorem ncclBuildRings_correct:
  assumes "rank < nranks" "\<forall>next \<in> set nexts. length next = nranks \<and> (\<forall>x \<in> set next. 0 \<le> x \<and> x < int nranks)"
  shows "ncclBuildRings True nexts rank nranks =
     Some (if \<forall>next \<in> set nexts. ring_ok next rank nranks then Inr (map (\<lambda>next. map int (ring_from next rank nranks)) nexts)
           else Inl ncclInternalError)"
  using buildRingsFrom_correct [OF assms] by (simp add: ncclBuildRings_def)

theorem ncclBuildRings_correct_witness:
  "ncclBuildRings True [[2, 0, 1], [1, 2, 0]] 1 3 = Some (Inr [[1, 0, 2], [1, 2, 0]]) \<and>
   ncclBuildRings True [[1, 0, 2]] 1 3 = Some (Inl ncclInternalError)"
proof -
  have u: "[0..<3] = [0, 1, 2::nat]" by (simp add: upt_rec numeral_eq_Suc)
  have r: "ring_from [2, 0, 1] 1 3 = [1, 0, 2]" "ring_from [1, 2, 0] 1 3 = [1, 2, 0]" "ring_from [1, 0, 2] 1 3 = [1, 0, 1]"
    by (simp_all add: ring_from_def u succ_of_def numeral_eq_Suc)
  have c: "(succ_of [2, 0, 1] ^^ 3) 1 = 1" "(succ_of [1, 2, 0] ^^ 3) 1 = 1" by (simp_all add: succ_of_def numeral_eq_Suc)
  have t: "{..<3::nat} = {0, 1, 2}" by (auto simp: less_Suc_eq numeral_eq_Suc)
  have ok: "ring_ok [2, 0, 1] 1 3" "ring_ok [1, 2, 0] 1 3"
    unfolding ring_ok_def r c t by (simp_all add: insert_commute)
  have "2 \<notin> set (ring_from [1, 0, 2] 1 3)" unfolding r by simp
  moreover have "(2::nat) \<in> {..<3}" by simp
  ultimately have no: "\<not> ring_ok [1, 0, 2] 1 3" unfolding ring_ok_def by metis
  have a: "ncclBuildRings True [[2, 0, 1], [1, 2, 0]] 1 3 =
      Some (Inr (map (\<lambda>next. map int (ring_from next 1 3)) [[2, 0, 1], [1, 2, 0]]))"
    using ncclBuildRings_correct [of 1 3 "[[2, 0, 1], [1, 2, 0]]"] ok by simp
  have b: "ncclBuildRings True [[1, 0, 2]] 1 3 = Some (Inl ncclInternalError)"
    using ncclBuildRings_correct [of 1 3 "[[1, 0, 2]]"] no by simp
  show ?thesis using b unfolding a by (simp only: list.map r simp_thms) simp
qed

end
