(* ===== verification/Topo_Connect.thy ===== *)
theory Topo_Connect
  imports Trees Ring_Check Bit_Scans
begin

unbundle bit_operations_syntax

text \<open>
  The connection of the nodes (\<^verbatim>\<open>src/src/graph/connect.cc\<close>): every rank describes its place in the rings and
  trees of its node (\<^verbatim>\<open>ncclTopoPreset\<close>), the descriptions of all ranks are gathered, and every rank joins the
  nodes to rings and trees (\<^verbatim>\<open>ncclTopoPostset\<close>).  An array with one row per channel is a function of the channel
  and the index in the row; \<open>- 1\<close> stands for no rank.
\<close>

section \<open>Data\<close>

definition MAXCHANNELS :: nat where "MAXCHANNELS = 64"
definition NCCL_MAX_TREE_ARITY :: nat where "NCCL_MAX_TREE_ARITY = 3"
definition NCCL_MAX_DIRECT_ARITY :: nat where "NCCL_MAX_DIRECT_ARITY = 7"
definition NCCL_MAX_NVLS_ARITY :: nat where "NCCL_MAX_NVLS_ARITY = 32"

record ncclRing =
  ring_prev :: int
  ring_next :: int

record ncclTree =
  tree_depth :: int
  tree_up :: int
  tree_down :: "int list"

record ncclDirect =
  direct_depth :: int
  direct_out :: int
  direct_nHeads :: int
  direct_headRank :: int
  direct_shift :: int
  direct_heads :: "int list"
  direct_up :: "int list"
  direct_down :: "int list"

record ncclNvls =
  nvls_out :: int
  nvls_nHeads :: int
  nvls_headRank :: int
  nvls_up :: "int list"
  nvls_down :: int
  nvls_treeUp :: int
  nvls_treeDown :: "int list"

record ncclChannel =
  ring :: ncclRing
  tree :: ncclTree
  collnetChain :: ncclTree
  collnetDirect :: ncclDirect
  nvls :: ncclNvls

datatype topoPattern = PATTERN_BALANCED_TREE | PATTERN_SPLIT_TREE | PATTERN_TREE | PATTERN_RING | PATTERN_NVLS | PATTERN_COLLNET_DIRECT

text \<open>What is used of a graph: its pattern, the order of the local ranks in every channel, and the outcome of the
comparisons of its bandwidths (\<open>bwIntra > bwInter\<close> and \<open>bwIntra > 45.0\<close>).\<close>

record ncclTopoGraph =
  pattern :: topoPattern
  crossNic :: int
  graph_nChannels :: nat
  intra :: "nat \<Rightarrow> int list"
  intraFaster :: bool
  intraHigh :: bool

record topoGraphs =
  graphRing :: ncclTopoGraph
  graphTree :: ncclTopoGraph
  graphCollNetChain :: ncclTopoGraph
  graphCollNetDirect :: ncclTopoGraph
  graphNvls :: ncclTopoGraph

record ncclTopoRanks =
  crossNicRing :: int
  ringRecv :: "nat \<Rightarrow> int"
  ringSend :: "nat \<Rightarrow> int"
  ringPrev :: "nat \<Rightarrow> int"
  ringNext :: "nat \<Rightarrow> int"
  treeToParent :: "nat \<Rightarrow> int"
  treeToChild0 :: "nat \<Rightarrow> int"
  treeToChild1 :: "nat \<Rightarrow> int"
  topoNvlsHeads :: "int list"

record ncclComm =
  rank :: nat
  nRanks :: nat
  nNodes :: nat
  node :: nat
  localRanks :: nat
  maxLocalRanks :: nat
  rankToNode :: "nat \<Rightarrow> nat"
  nChannels :: nat
  nvlsChannels :: nat
  collChannels :: nat
  channels :: "nat \<Rightarrow> ncclChannel"
  comm_nvlsHeads :: "int list"
  collnetEnable :: bool
  minCompCap :: int
  netDeviceUnpack :: bool
  minCTAs :: int
  maxCTAs :: int
  ownsSharedRes :: bool
  tpNChannels :: int

section \<open>The place of a rank in its node\<close>

definition resetChannel :: "ncclChannel \<Rightarrow> ncclChannel" where
  "resetChannel channel = channel\<lparr>
     ring := (ring channel)\<lparr>ring_prev := - 1, ring_next := - 1\<rparr>,
     tree := (tree channel)\<lparr>tree_up := - 1, tree_down := replicate NCCL_MAX_TREE_ARITY (- 1)\<rparr>,
     collnetChain := (collnetChain channel)\<lparr>tree_up := - 1, tree_down := replicate NCCL_MAX_TREE_ARITY (- 1)\<rparr>,
     collnetDirect := (collnetDirect channel)\<lparr>direct_out := - 1, direct_headRank := - 1, direct_nHeads := 0, direct_shift := 0,
       direct_heads := replicate (NCCL_MAX_DIRECT_ARITY + 1) (- 1), direct_up := replicate NCCL_MAX_DIRECT_ARITY (- 1),
       direct_down := replicate NCCL_MAX_DIRECT_ARITY (- 1)\<rparr>\<rparr>"

definition presetRing :: "int list \<Rightarrow> nat \<Rightarrow> nat \<Rightarrow> nat \<Rightarrow> ncclTopoRanks \<Rightarrow> ncclTopoRanks" where
  "presetRing ringIntra lr c i tr = tr\<lparr>
     ringRecv := (ringRecv tr)(c := ringIntra ! 0),
     ringSend := (ringSend tr)(c := ringIntra ! (lr - 1)),
     ringPrev := (ringPrev tr)(c := if i = 0 then - 1 else ringIntra ! (i - 1)),
     ringNext := (ringNext tr)(c := if i = lr - 1 then - 1 else ringIntra ! (i + 1))\<rparr>"

definition presetTree :: "topoPattern \<Rightarrow> int list \<Rightarrow> nat \<Rightarrow> nat \<Rightarrow> nat \<Rightarrow> ncclTopoRanks \<times> ncclChannel \<Rightarrow> ncclTopoRanks \<times> ncclChannel" where
  "presetTree pat treeIntra lr c i s =
     (let (tr, channel) = s;
          parentIndex = 0;
          child0Index = (if pat = PATTERN_TREE then 0 else 1);
          child1Index = (if pat = PATTERN_SPLIT_TREE then 1 else 0)
      in (tr\<lparr>treeToParent := (treeToParent tr)(c := treeIntra ! parentIndex),
             treeToChild0 := (treeToChild0 tr)(c := treeIntra ! child0Index),
             treeToChild1 := (treeToChild1 tr)(c := treeIntra ! child1Index)\<rparr>,
          channel\<lparr>tree := (tree channel)\<lparr>tree_up := (if i = 0 then - 1 else treeIntra ! (i - 1)),
             tree_down := (tree_down (tree channel))[0 := if i = lr - 1 then - 1 else treeIntra ! (i + 1)]\<rparr>\<rparr>))"

definition presetRank :: "topoGraphs \<Rightarrow> nat \<Rightarrow> nat \<Rightarrow> nat \<Rightarrow> nat \<Rightarrow> nat \<Rightarrow> ncclTopoRanks \<times> ncclChannel \<Rightarrow> ncclTopoRanks \<times> ncclChannel" where
  "presetRank graphs r nr lr c i s =
     (let ringIntra = intra (graphRing graphs) c; treeIntra = intra (graphTree graphs) c; collNetIntra = intra (graphCollNetChain graphs) c;
          s = (if ringIntra ! i = int r then (presetRing ringIntra lr c i (fst s), snd s) else s);
          s = (if treeIntra ! i = int r then presetTree (pattern (graphTree graphs)) treeIntra lr c i s else s)
      in if collNetIntra ! i = int r then
           (fst s, (snd s)\<lparr>collnetChain := (collnetChain (snd s))\<lparr>tree_up := (if i = 0 then int nr else collNetIntra ! (i - 1)),
              tree_down := (tree_down (collnetChain (snd s)))[0 := if i = lr - 1 then - 1 else collNetIntra ! (i + 1)]\<rparr>\<rparr>)
         else s)"

definition presetChannel :: "topoGraphs \<Rightarrow> nat \<Rightarrow> nat \<Rightarrow> nat \<Rightarrow> nat \<Rightarrow> ncclTopoRanks \<times> (nat \<Rightarrow> ncclChannel) \<Rightarrow> ncclTopoRanks \<times> (nat \<Rightarrow> ncclChannel)" where
  "presetChannel graphs r nr lr c s =
     (let (tr, channel) = fold (presetRank graphs r nr lr c) [0..<lr] (fst s, resetChannel (snd s c))
      in (tr, (snd s)(c := channel)))"

definition addHead :: "int \<Rightarrow> int list \<Rightarrow> int list" where
  "addHead head heads = (if head \<in> set heads then heads else heads @ [head])"

definition ncclTopoPreset :: "ncclComm \<Rightarrow> topoGraphs \<Rightarrow> ncclTopoRanks \<Rightarrow> ncclComm \<times> ncclTopoRanks" where
  "ncclTopoPreset comm graphs topoRanks =
     (let topoRanks = topoRanks\<lparr>crossNicRing := crossNic (graphRing graphs), topoNvlsHeads := []\<rparr>;
          (topoRanks, chs) = fold (presetChannel graphs (rank comm) (nRanks comm) (localRanks comm)) [0..<nChannels comm] (topoRanks, channels comm);
          chs = (\<lambda>c. if nChannels comm \<le> c \<and> c < 2 * nChannels comm then chs (c - nChannels comm) else chs c);
          heads = fold (\<lambda>c. addHead (intra (graphNvls graphs) c ! 0)) [0..<graph_nChannels (graphNvls graphs)] (topoNvlsHeads topoRanks);
          topoRanks = topoRanks\<lparr>topoNvlsHeads := heads\<rparr>
      in (comm\<lparr>channels := chs, comm_nvlsHeads := heads\<rparr>, topoRanks))"

section \<open>Joining the nodes\<close>

definition connectRing :: "nat \<Rightarrow> (nat \<Rightarrow> int) \<Rightarrow> (nat \<Rightarrow> int) \<Rightarrow> nat \<Rightarrow> (nat \<Rightarrow> int) \<times> (nat \<Rightarrow> int) \<Rightarrow> (nat \<Rightarrow> int) \<times> (nat \<Rightarrow> int)" where
  "connectRing nn recv send n s =
     (let (prev, nxt) = s;
          recvRank = recv n; prevSendRank = send ((n + nn - 1) mod nn);
          prev = prev(nat recvRank := prevSendRank);
          sendRank = send n; nextRecvRank = recv ((n + 1) mod nn);
          nxt = nxt(nat sendRank := nextRecvRank)
      in (prev, nxt))"

definition connectRings :: "nat \<Rightarrow> nat \<Rightarrow> (nat \<Rightarrow> nat \<Rightarrow> int) \<Rightarrow> (nat \<Rightarrow> nat \<Rightarrow> int) \<Rightarrow> (nat \<Rightarrow> nat \<Rightarrow> int) \<Rightarrow> (nat \<Rightarrow> nat \<Rightarrow> int)
    \<Rightarrow> (nat \<Rightarrow> nat \<Rightarrow> int) \<times> (nat \<Rightarrow> nat \<Rightarrow> int)" where
  "connectRings nc nn recv send prev nxt =
     fold (\<lambda>c (prev, nxt). let (p, x) = fold (connectRing nn (recv c) (send c)) [0..<nn] (prev c, nxt c) in (prev(c := p), nxt(c := x)))
       [0..<nc] (prev, nxt)"

definition setTreeUp :: "ncclTree \<Rightarrow> (nat \<Rightarrow> int) \<Rightarrow> int \<Rightarrow> ncclTree" where
  "setTreeUp t indexes u = (if u = - 1 then t else t\<lparr>tree_up := indexes (nat u)\<rparr>)"

definition setTreeDown :: "ncclTree \<Rightarrow> (nat \<Rightarrow> int) \<Rightarrow> int \<Rightarrow> ncclTree nccl" where
  "setTreeDown t indexes d =
     (if d = - 1 then Inr t
      else let x = length (takeWhile (\<lambda>v. v \<ge> 0) (take NCCL_MAX_TREE_ARITY (tree_down t)))
           in if x = NCCL_MAX_TREE_ARITY then Inl ncclInternalError
              else Inr (t\<lparr>tree_down := (tree_down t)[x := indexes (nat d)]\<rparr>))"

definition withTree :: "ncclChannel \<Rightarrow> ncclTree nccl \<Rightarrow> ncclChannel nccl" where
  "withTree channel r = map_sum id (\<lambda>t. channel\<lparr>tree := t\<rparr>) r"

text \<open>What \<^verbatim>\<open>connectTrees\<close> does to one of the two channels of a tree: \<open>t\<close> is the place of the own node in the tree
of the nodes.\<close>

definition connectTree :: "ncclComm \<Rightarrow> btree \<Rightarrow> (nat \<Rightarrow> int) \<Rightarrow> (nat \<Rightarrow> int) \<Rightarrow> (nat \<Rightarrow> int) \<Rightarrow> int \<Rightarrow> ncclTree \<Rightarrow> ncclTree nccl" where
  "connectTree comm t ttp ttc0 ttc1 depth tr =
     (let r = int (rank comm); childType = (case parentChildType t of None \<Rightarrow> 0 | Some x \<Rightarrow> x);
          tr = (if r = ttp (node comm) then setTreeUp tr (if childType = 0 then ttc0 else ttc1) (up t) else tr)
      in case (if r = ttc0 (node comm) then setTreeDown tr ttp (down0 t) else Inr tr) of Inl e \<Rightarrow> Inl e
         | Inr tr \<Rightarrow>
             (case (if r = ttc1 (node comm) then setTreeDown tr ttp (down1 t) else Inr tr) of Inl e \<Rightarrow> Inl e
              | Inr tr \<Rightarrow> Inr (tr\<lparr>tree_depth := depth\<rparr>)))"

fun connectTreesFrom :: "ncclComm \<Rightarrow> btree \<Rightarrow> btree \<Rightarrow> (nat \<Rightarrow> nat \<Rightarrow> int) \<Rightarrow> (nat \<Rightarrow> nat \<Rightarrow> int) \<Rightarrow> (nat \<Rightarrow> nat \<Rightarrow> int) \<Rightarrow> int
    \<Rightarrow> nat list \<Rightarrow> (nat \<Rightarrow> ncclChannel) \<Rightarrow> (nat \<Rightarrow> ncclChannel) nccl" where
  "connectTreesFrom comm t0 t1 ttp ttc0 ttc1 depth [] chs = Inr chs"
| "connectTreesFrom comm t0 t1 ttp ttc0 ttc1 depth (c # cs) chs =
     (case connectTree comm t0 (ttp c) (ttc0 c) (ttc1 c) depth (tree (chs c)) of Inl e \<Rightarrow> Inl e
      | Inr tr0 \<Rightarrow>
         (case connectTree comm t1 (ttp c) (ttc0 c) (ttc1 c) depth (tree (chs (c + nChannels comm))) of Inl e \<Rightarrow> Inl e
          | Inr tr1 \<Rightarrow> connectTreesFrom comm t0 t1 ttp ttc0 ttc1 depth cs
              (chs(c := (chs c)\<lparr>tree := tr0\<rparr>, c + nChannels comm := (chs (c + nChannels comm))\<lparr>tree := tr1\<rparr>))))"

definition connectTrees :: "ncclComm \<Rightarrow> (nat \<Rightarrow> nat \<Rightarrow> int) \<Rightarrow> (nat \<Rightarrow> nat \<Rightarrow> int) \<Rightarrow> (nat \<Rightarrow> nat \<Rightarrow> int) \<Rightarrow> ncclComm nccl" where
  "connectTrees comm ttp ttc0 ttc1 =
     (let depth = int (nRanks comm div nNodes comm) - 1 + log2Down (of_nat (nNodes comm) :: u64);
          (t0, t1) = ncclGetDtree (nNodes comm) (node comm)
      in map_sum id (\<lambda>chs. comm\<lparr>channels := chs\<rparr>)
           (connectTreesFrom comm t0 t1 ttp ttc0 ttc1 depth [0..<nChannels comm] (channels comm)))"

text \<open>Writing values to the front of an array.\<close>

definition overwrite :: "int list \<Rightarrow> int list \<Rightarrow> int list" where
  "overwrite xs ys = xs @ drop (length xs) ys"

definition collNetHeads :: "ncclTopoGraph \<Rightarrow> int list" where
  "collNetHeads graph =
     fold (\<lambda>c heads. let head = intra graph c ! 0 in if head \<in> set heads \<or> head = - 1 then heads else heads @ [head])
       [0..<graph_nChannels graph] []"

definition collNetDirectChannel :: "ncclComm \<Rightarrow> ncclTopoGraph \<Rightarrow> int list \<Rightarrow> ncclDirect \<Rightarrow> ncclDirect" where
  "collNetDirectChannel comm graph heads d =
     (let r = int (rank comm); nHeads = length heads;
          i = length (takeWhile (\<lambda>h. h \<noteq> r) heads);
          downs = (if i < nHeads then filter (\<lambda>x. x \<noteq> r) (take (localRanks comm) (intra graph i)) else []);
          d = (if i < nHeads then d\<lparr>direct_headRank := int i, direct_out := int (nRanks comm), direct_down := overwrite downs (direct_down d)\<rparr> else d);
          ups = filter (\<lambda>h. h \<noteq> r) heads;
          d = d\<lparr>direct_up := overwrite ups (direct_up d)\<rparr>;
          h0 = (if direct_headRank d = - 1 then 0 else nat (direct_headRank d));
          d = d\<lparr>direct_heads := overwrite (map (\<lambda>h1. heads ! ((h0 + h1) mod nHeads)) [0..<nHeads]) (direct_heads d)\<rparr>
      in d\<lparr>direct_nHeads := int nHeads, direct_shift := int ((rank comm mod localRanks comm) mod nHeads),
           direct_depth := (if ups = [] \<and> downs = [] then 1 else 2)\<rparr>)"

definition connectCollNet :: "ncclComm \<Rightarrow> ncclTopoGraph \<Rightarrow> ncclComm" where
  "connectCollNet comm collNetGraph =
     (let heads = collNetHeads collNetGraph
      in comm\<lparr>channels := (\<lambda>c. if c < nChannels comm
            then (channels comm c)\<lparr>collnetDirect := collNetDirectChannel comm collNetGraph heads (collnetDirect (channels comm c))\<rparr>
            else channels comm c)\<rparr>)"

definition nvlsHeadRank :: "ncclComm \<Rightarrow> (nat \<Rightarrow> nat \<Rightarrow> int) \<Rightarrow> nat \<Rightarrow> int" where
  "nvlsHeadRank comm nvlsHeads nHeads =
     fold (\<lambda>h headRank. if nvlsHeads h (node comm) = int (rank comm) then int h else headRank) [0..<nHeads] (- 1)"

definition nvlsChannel :: "ncclComm \<Rightarrow> nat \<Rightarrow> int \<Rightarrow> ncclNvls \<Rightarrow> ncclNvls" where
  "nvlsChannel comm nHeads headRank nv = nv\<lparr>
     nvls_nHeads := int nHeads,
     nvls_up := map (\<lambda>h. int (nRanks comm + 1 + h)) [0..<nHeads] @ replicate (NCCL_MAX_NVLS_ARITY - nHeads) (- 1),
     nvls_down := int (nRanks comm) + 1 + headRank,
     nvls_out := (if collnetEnable comm \<and> headRank \<noteq> - 1 then int (nRanks comm) else - 1),
     nvls_headRank := headRank,
     nvls_treeUp := - 1, nvls_treeDown := [- 1, - 1, - 1]\<rparr>"

definition nvlsPeer :: "(nat \<Rightarrow> int) \<Rightarrow> int \<Rightarrow> int" where
  "nvlsPeer heads n = (if n = - 1 then - 1 else heads (nat n))"

definition nvlsTree :: "ncclNvls \<Rightarrow> int \<Rightarrow> int \<Rightarrow> int \<Rightarrow> ncclNvls" where
  "nvlsTree nv treeUp treeDown0 treeDown1 =
     (let down = (nvls_treeDown nv)[0 := nvls_down nv];
          (down, ix) = (if treeDown0 \<noteq> - 1 then (down[1 := treeDown0], 2) else (down, 1));
          down = (if treeDown1 \<noteq> - 1 then down[ix := treeDown1] else down)
      in nv\<lparr>nvls_treeUp := treeUp, nvls_treeDown := down\<rparr>)"

definition connectNvls :: "ncclComm \<Rightarrow> (nat \<Rightarrow> nat \<Rightarrow> int) \<Rightarrow> nat \<Rightarrow> ncclComm" where
  "connectNvls comm nvlsHeads nHeads =
     (if nHeads = 0 then comm\<lparr>nvlsChannels := 0\<rparr>
      else
        let headRank = nvlsHeadRank comm nvlsHeads nHeads;
            upd = (\<lambda>f comm. comm\<lparr>channels := (\<lambda>c. if c < nvlsChannels comm then (channels comm c)\<lparr>nvls := f c (nvls (channels comm c))\<rparr> else channels comm c)\<rparr>);
            comm = upd (\<lambda>c. nvlsChannel comm nHeads headRank) comm
        in if nNodes comm = 1 then comm
           else
             let (t0, t1) = ncclGetDtree (nNodes comm) (node comm);
                 mine = filter (\<lambda>h. nvlsHeads h (node comm) = int (rank comm)) [0..<nHeads];
                 peer = (\<lambda>n. if mine = [] then - 1 else nvlsPeer (nvlsHeads (hd mine)) n);
                 t = (\<lambda>c. if even c then t0 else t1)
             in upd (\<lambda>c nv. nvlsTree nv (peer (up (t c))) (peer (down0 (t c))) (peer (down1 (t c)))) comm)"

section \<open>Numbers of channels\<close>

record channelParams =
  paramMinNrings :: int
  paramMaxNrings :: int
  paramMinNchannels :: int
  paramMaxNchannels :: int
  paramWorkArgsBytes :: u64
  paramUnpackDoubleNChannels :: bool

definition ncclMinNchannels :: "channelParams \<Rightarrow> int" where
  "ncclMinNchannels p =
     (let m = 0;
          m = (if paramMinNrings p \<noteq> - 2 then paramMinNrings p else m);
          m = (if paramMinNchannels p \<noteq> - 2 then paramMinNchannels p else m);
          m = (if m > int MAXCHANNELS then int MAXCHANNELS else m)
      in if m < 0 then 0 else m)"

definition ncclDevMaxChannelsForArgsBytes :: "u64 \<Rightarrow> int" where
  "ncclDevMaxChannelsForArgsBytes argsBytes = int (min MAXCHANNELS (unat ((argsBytes - 32) div 16)))"

definition ncclMaxNchannels :: "channelParams \<Rightarrow> int" where
  "ncclMaxNchannels p =
     (let m = int MAXCHANNELS;
          m = (if paramMaxNrings p \<noteq> - 2 then paramMaxNrings p else m);
          m = (if paramMaxNchannels p \<noteq> - 2 then paramMaxNchannels p else m);
          m = min m (ncclDevMaxChannelsForArgsBytes (paramWorkArgsBytes p));
          m = (if m > int MAXCHANNELS then int MAXCHANNELS else m)
      in if m < 1 then 1 else m)"

text \<open>The state of \<^verbatim>\<open>ncclTopoPostset\<close> while it multiplies the channels: the communicator and the links of all rings.\<close>

type_synonym postset = "ncclComm \<times> (nat \<Rightarrow> nat \<Rightarrow> int) \<times> (nat \<Rightarrow> nat \<Rightarrow> int)"

definition copyChannel :: "nat \<Rightarrow> nat \<Rightarrow> postset \<Rightarrow> postset" where
  "copyChannel start c s =
     (let (comm, prev, nxt) = s
      in (comm\<lparr>channels := (channels comm)(c := channels comm (c - start))\<rparr>, prev(c := prev (c - start)), nxt(c := nxt (c - start))))"

definition copyChannels :: "nat \<Rightarrow> nat \<Rightarrow> postset \<Rightarrow> postset" where
  "copyChannels start end1 s =
     (let (comm, prev, nxt) = fold (copyChannel start) [start..<end1] s
      in (comm\<lparr>nChannels := max start end1\<rparr>, prev, nxt))"

section \<open>Joining all ranks\<close>

definition exchangeValues :: "(nat \<Rightarrow> int) \<Rightarrow> nat \<Rightarrow> nat \<Rightarrow> (nat \<Rightarrow> int)" where
  "exchangeValues f i j = (let tmp = f j; f = f(j := f i) in f(i := tmp))"

definition exchangeRing :: "nat \<Rightarrow> ncclTopoRanks \<Rightarrow> ncclTopoRanks" where
  "exchangeRing c tr = tr\<lparr>
     ringRecv := exchangeValues (ringRecv tr) c (c XOR 1), ringSend := exchangeValues (ringSend tr) c (c XOR 1),
     ringPrev := exchangeValues (ringPrev tr) c (c XOR 1), ringNext := exchangeValues (ringNext tr) c (c XOR 1)\<rparr>"

definition alternateRings :: "nat \<Rightarrow> nat \<Rightarrow> ncclTopoRanks \<Rightarrow> ncclTopoRanks" where
  "alternateRings nc nd tr =
     (if crossNicRing tr = 2 \<and> nc mod 2 = 0 \<and> nd mod 2 = 1
      then fold (\<lambda>k. exchangeRing (2 * k)) [0..<nc div 2] tr else tr)"

definition minHeads :: "nat \<Rightarrow> (nat \<Rightarrow> nat) \<Rightarrow> (nat \<Rightarrow> ncclTopoRanks) \<Rightarrow> nat" where
  "minHeads nn firstRanks allRanks =
     fold (\<lambda>n m. let h = length (topoNvlsHeads (allRanks (firstRanks n))) in if m > h then h else m) [0..<nn] 2147483647"

text \<open>The parent communicator, when its resources are shared and it uses NVLS.\<close>

record sharedParent =
  parentNvlsChannels :: nat
  parentTpNChannels :: nat

definition setRing :: "nat \<Rightarrow> nat \<Rightarrow> (nat \<Rightarrow> nat \<Rightarrow> int) \<Rightarrow> (nat \<Rightarrow> nat \<Rightarrow> int) \<Rightarrow> nat \<Rightarrow> (nat \<Rightarrow> ncclChannel) \<Rightarrow> (nat \<Rightarrow> ncclChannel)" where
  "setRing nc r prev nxt c chs =
     (let set = (\<lambda>ch. ch\<lparr>ring := (ring ch)\<lparr>ring_prev := prev c r, ring_next := nxt c r\<rparr>\<rparr>)
      in chs(c := set (chs c), c + nc := set (chs (c + nc))))"

text \<open>The growth of the number of channels after the duplication.\<close>

definition growChannels :: "channelParams \<Rightarrow> topoGraphs \<Rightarrow> postset \<Rightarrow> postset" where
  "growChannels params graphs s =
     (let s = (if collnetEnable (fst s) then
                 let s = (if intraFaster (graphCollNetChain graphs) \<and> nRanks (fst s) > nNodes (fst s)
                          then copyChannels (nChannels (fst s)) (min MAXCHANNELS (nChannels (fst s) + nChannels (fst s) div 2)) s else s);
                     (comm, prev, nxt) = s;
                     comm = comm\<lparr>channels := (\<lambda>c. if c < nChannels comm
                        then (channels comm c)\<lparr>collnetChain := (collnetChain (channels comm c))\<lparr>tree_depth := int (nRanks comm div nNodes comm)\<rparr>\<rparr>
                        else channels comm c)\<rparr>;
                     comm = (if maxLocalRanks comm \<le> NCCL_MAX_DIRECT_ARITY + 1 then connectCollNet comm (graphCollNetDirect graphs) else comm)
                 in (comm, prev, nxt)
               else s);
          s = (if minCompCap (fst s) \<ge> 90 \<and> nNodes (fst s) > 1 \<and> intraHigh (graphRing graphs) \<and> nChannels (fst s) < 16
               then copyChannels (nChannels (fst s)) (2 * nChannels (fst s)) s else s)
      in if netDeviceUnpack (fst s) \<and> nNodes (fst s) > 1 \<and> nChannels (fst s) < 16 \<and> paramUnpackDoubleNChannels params
         then copyChannels (nChannels (fst s)) (2 * nChannels (fst s)) s else s)"

definition limitChannels :: "channelParams \<Rightarrow> postset \<Rightarrow> postset" where
  "limitChannels params s =
     (let (comm, prev, nxt) = s
      in if \<not> ownsSharedRes comm then
           let n = nat (min (min (min (ncclMaxNchannels params) (int (nChannels comm))) (maxCTAs comm)) (tpNChannels comm))
           in copyChannels n (nat (min (max (ncclMinNchannels params) (minCTAs comm)) (tpNChannels comm))) (comm\<lparr>nChannels := n\<rparr>, prev, nxt)
         else
           let n = nat (min (min (ncclMaxNchannels params) (int (nChannels comm))) (maxCTAs comm))
           in copyChannels n (nat (max (ncclMinNchannels params) (minCTAs comm))) (comm\<lparr>nChannels := n\<rparr>, prev, nxt))"

definition finishChannels :: "sharedParent option \<Rightarrow> (nat \<Rightarrow> nat \<Rightarrow> int) \<Rightarrow> nat \<Rightarrow> ncclComm \<Rightarrow> ncclComm" where
  "finishChannels par nvlsHeads minHeadNum comm =
     (let comm = comm\<lparr>collChannels := nChannels comm\<rparr>;
          comm = (case par of Some p \<Rightarrow> if nvlsChannels comm > parentNvlsChannels p then comm\<lparr>nvlsChannels := parentNvlsChannels p\<rparr> else comm
                  | None \<Rightarrow> comm);
          comm = connectNvls comm nvlsHeads minHeadNum
      in case par of
           Some p \<Rightarrow> if nChannels comm > parentTpNChannels p
             then comm\<lparr>nChannels := parentTpNChannels p, collChannels := min (collChannels comm) (parentTpNChannels p)\<rparr> else comm
         | None \<Rightarrow> comm)"

definition ncclTopoPostset :: "bool \<Rightarrow> channelParams \<Rightarrow> ncclComm \<Rightarrow> (nat \<Rightarrow> nat) \<Rightarrow> (nat \<Rightarrow> ncclTopoRanks) \<Rightarrow> topoGraphs
    \<Rightarrow> sharedParent option \<Rightarrow> (ncclComm \<times> int list list) nccl option" where
  "ncclTopoPostset callocOk params comm firstRanks allTopoRanks graphs par =
     (if \<not> callocOk then Some (Inl ncclSystemError) else
      let nc = nChannels comm; nn = nNodes comm; nr = nRanks comm;
          allRanks = (\<lambda>r. alternateRings nc (rankToNode comm r) (allTopoRanks r));
          row = (\<lambda>f c n. if c < nc then f (allRanks (firstRanks n)) c else 0);
          minHeadNum = minHeads nn firstRanks allRanks;
          nvlsHeads = (\<lambda>c n. topoNvlsHeads (allRanks (firstRanks n)) ! c);
          prev = (\<lambda>c r. if c < nc then ringPrev (allRanks r) c else 0);
          nxt = (\<lambda>c r. if c < nc then ringNext (allRanks r) c else 0);
          (prev, nxt) = connectRings nc nn (row ringRecv) (row ringSend) prev nxt
      in case connectTrees comm (row treeToParent) (row treeToChild0) (row treeToChild1) of Inl e \<Rightarrow> Some (Inl e)
         | Inr comm \<Rightarrow>
             let prev = (\<lambda>c. if nc \<le> c \<and> c < 2 * nc then prev (c - nc) else prev c);
                 nxt = (\<lambda>c. if nc \<le> c \<and> c < 2 * nc then nxt (c - nc) else nxt c);
                 comm = comm\<lparr>channels := fold (setRing nc (rank comm) prev nxt) [0..<nc] (channels comm), nChannels := min MAXCHANNELS (nc * 2)\<rparr>;
                 (comm, prev, nxt) = limitChannels params (growChannels params graphs (comm, prev, nxt));
                 comm = finishChannels par nvlsHeads minHeadNum comm
             in (case ncclBuildRings callocOk (map (\<lambda>c. map (nxt c) [0..<nr]) [0..<nChannels comm]) (rank comm) nr of None \<Rightarrow> None
                 | Some (Inl e) \<Rightarrow> Some (Inl e)
                 | Some (Inr rings) \<Rightarrow> Some (Inr (comm, rings))))"

end
