(* ===== verification/Topo_Rings.thy ===== *)
theory Topo_Rings
  imports Topo_Connect
begin

unbundle bit_operations_syntax

text \<open>
  The rings of all nodes.  From the orders of the local ranks on every node, the places that the ranks describe in
  \<^verbatim>\<open>ncclTopoPreset\<close> and the joints that \<^verbatim>\<open>ncclTopoPostset\<close> makes, every channel gets one ring through all
  ranks, and the check of the rings accepts it.
\<close>

section \<open>The description of a rank\<close>

definition ringInfo :: "ncclTopoRanks \<Rightarrow> nat \<Rightarrow> int \<times> int \<times> int \<times> int" where
  "ringInfo tr c = (ringRecv tr c, ringSend tr c, ringPrev tr c, ringNext tr c)"

definition placeInfo :: "int list \<Rightarrow> nat \<Rightarrow> nat \<Rightarrow> int \<times> int \<times> int \<times> int" where
  "placeInfo xs l i = (xs ! 0, xs ! (l - 1), if i = 0 then - 1 else xs ! (i - 1), if i = l - 1 then - 1 else xs ! (i + 1))"

lemma presetRank_ringInfo:
  "ringInfo (fst (presetRank graphs r nr l c i s)) c' =
     (if c' = c \<and> intra (graphRing graphs) c ! i = int r then placeInfo (intra (graphRing graphs) c) l i else ringInfo (fst s) c')"
  by (simp add: presetRank_def Let_def presetRing_def presetTree_def ringInfo_def placeInfo_def case_prod_beta)

lemma presetRank_crossNic: "crossNicRing (fst (presetRank graphs r nr l c i s)) = crossNicRing (fst s)"
  by (simp add: presetRank_def Let_def presetRing_def presetTree_def case_prod_beta)

lemma fold_presetRank_ringInfo:
  "ringInfo (fst (fold (presetRank graphs r nr l c) is s)) c' =
     (if c' = c \<and> (\<exists>i \<in> set is. intra (graphRing graphs) c ! i = int r)
      then placeInfo (intra (graphRing graphs) c) l (last (filter (\<lambda>i. intra (graphRing graphs) c ! i = int r) is))
      else ringInfo (fst s) c')"
proof (induction "is" rule: rev_induct)
  case (snoc i "is")
  then show ?case by (auto simp: presetRank_ringInfo)
qed simp

lemma fold_presetRank_crossNic: "crossNicRing (fst (fold (presetRank graphs r nr l c) is s)) = crossNicRing (fst s)"
  by (induction "is" rule: rev_induct) (simp_all add: presetRank_crossNic)

lemma filter_upt_single: "i < l \<Longrightarrow> filter (\<lambda>j. j = i) [0..<l] = [i]"
  by (induction l) (auto simp: less_Suc_eq filter_empty_conv)

lemma filter_place:
  assumes "distinct xs" "i < length xs"
  shows "filter (\<lambda>j. map int xs ! j = int (xs ! i)) [0..<length xs] = [i]"
proof -
  have "filter (\<lambda>j. map int xs ! j = int (xs ! i)) [0..<length xs] = filter (\<lambda>j. j = i) [0..<length xs]"
    using nth_eq_iff_index_eq [OF assms(1) _ assms(2)] by (intro filter_cong refl) auto
  then show ?thesis using filter_upt_single [OF assms(2)] by simp
qed

lemma presetChannel_ringInfo:
  assumes "intra (graphRing graphs) c = map int xs" "distinct xs" "length xs = l" "i < l" "xs ! i = r"
  shows "ringInfo (fst (presetChannel graphs r nr l c s)) c' = (if c' = c then placeInfo (map int xs) l i else ringInfo (fst s) c')"
proof -
  have f: "filter (\<lambda>j. map int xs ! j = int r) [0..<l] = [i]" using filter_place [of xs i] assms(2-5) by simp
  have ex: "(\<exists>j \<in> set [0..<l]. map int xs ! j = int r) = True" using assms(3-5) by (intro eqTrueI bexI [of _ i]) auto
  have "ringInfo (fst (presetChannel graphs r nr l c s)) c' =
      ringInfo (fst (fold (presetRank graphs r nr l c) [0..<l] (fst s, resetChannel (snd s c)))) c'"
    by (simp add: presetChannel_def Let_def case_prod_beta)
  also have "\<dots> = (if c' = c \<and> (\<exists>j \<in> set [0..<l]. map int xs ! j = int r)
      then placeInfo (map int xs) l (last (filter (\<lambda>j. map int xs ! j = int r) [0..<l]))
      else ringInfo (fst s) c')"
    by (subst fold_presetRank_ringInfo) (simp only: assms(1) fst_conv)
  also have "\<dots> = (if c' = c then placeInfo (map int xs) l i else ringInfo (fst s) c')"
    by (simp only: f ex simp_thms) simp
  finally show ?thesis .
qed

lemma presetChannel_crossNic: "crossNicRing (fst (presetChannel graphs r nr l c s)) = crossNicRing (fst s)"
  by (simp add: presetChannel_def Let_def case_prod_beta fold_presetRank_crossNic)

lemma ncclTopoPreset_ringInfo:
  assumes "c < nChannels comm" "\<And>c. c < nChannels comm \<Longrightarrow> intra (graphRing graphs) c = map int (xs c)"
    "\<And>c. c < nChannels comm \<Longrightarrow> distinct (xs c) \<and> length (xs c) = localRanks comm \<and> (\<exists>i < localRanks comm. xs c ! i = rank comm)"
    "i < localRanks comm" "xs c ! i = rank comm"
  shows "ringInfo (snd (ncclTopoPreset comm graphs tr)) c = placeInfo (map int (xs c)) (localRanks comm) i"
    "crossNicRing (snd (ncclTopoPreset comm graphs tr)) = crossNic (graphRing graphs)"
proof -
  let ?f = "presetChannel graphs (rank comm) (nRanks comm) (localRanks comm)"
  have "(c < k \<longrightarrow> ringInfo (fst (fold ?f [0..<k] s)) c = placeInfo (map int (xs c)) (localRanks comm) i) \<and>
        crossNicRing (fst (fold ?f [0..<k] s)) = crossNicRing (fst s)" if "k \<le> nChannels comm" for k s
    using that
  proof (induction k)
    case (Suc k)
    have k: "k < nChannels comm" using Suc.prems by simp
    obtain j where j: "j < localRanks comm" "xs k ! j = rank comm" using assms(3) [OF k] by blast
    have ij: "c = k \<Longrightarrow> j = i" using j assms(3) [OF k] assms(4,5) by (metis nth_eq_iff_index_eq)
    note p = presetChannel_ringInfo [OF assms(2) [OF k] _ _ j, of "nRanks comm" "fold ?f [0..<k] s" c]
    then show ?case using Suc assms(3) [OF k] ij by (auto simp: presetChannel_crossNic less_Suc_eq)
  qed simp
  from this [of "nChannels comm"] show
    "ringInfo (snd (ncclTopoPreset comm graphs tr)) c = placeInfo (map int (xs c)) (localRanks comm) i"
    "crossNicRing (snd (ncclTopoPreset comm graphs tr)) = crossNic (graphRing graphs)"
    using assms(1) by (simp_all add: ncclTopoPreset_def Let_def case_prod_beta ringInfo_def)
qed

text \<open>The array of children has room for two more.\<close>

definition treeRoom :: "ncclChannel \<Rightarrow> bool" where
  "treeRoom ch \<longleftrightarrow> (\<exists>d. tree_down (tree ch) = [d, - 1, - 1])"

lemma presetRank_treeRoom: "treeRoom (snd s) \<Longrightarrow> treeRoom (snd (presetRank graphs r nr l c i s))"
  by (auto simp: presetRank_def Let_def presetTree_def treeRoom_def case_prod_beta)

lemma presetChannel_treeRoom: "treeRoom (snd (presetChannel graphs r nr l c s) c)"
proof -
  have "treeRoom (resetChannel ch)" for ch
    by (simp add: treeRoom_def resetChannel_def NCCL_MAX_TREE_ARITY_def numeral_3_eq_3)
  moreover have "treeRoom (snd s) \<Longrightarrow> treeRoom (snd (fold (presetRank graphs r nr l c) is s))" for "is" s
    by (induction "is" arbitrary: s) (simp_all add: presetRank_treeRoom)
  ultimately show ?thesis
    by (simp add: presetChannel_def Let_def case_prod_beta)
qed

lemma presetChannel_other: "c' \<noteq> c \<Longrightarrow> snd (presetChannel graphs r nr l c s) c' = snd s c'"
  by (simp add: presetChannel_def Let_def case_prod_beta)

lemma ncclTopoPreset_treeRoom:
  assumes "c < 2 * nChannels comm"
  shows "treeRoom (channels (fst (ncclTopoPreset comm graphs tr)) c)"
proof -
  let ?f = "presetChannel graphs (rank comm) (nRanks comm) (localRanks comm)"
  have "c < k \<longrightarrow> treeRoom (snd (fold ?f [0..<k] s) c)" for c k s
    by (induction k) (auto simp: less_Suc_eq presetChannel_treeRoom presetChannel_other)
  then show ?thesis
    using assms by (simp add: ncclTopoPreset_def Let_def case_prod_beta)
qed

section \<open>The exchange between adjacent channels\<close>

lemma exchangeValues_eq: "exchangeValues f i j = f(i := f j, j := f i)"
  by (auto simp: exchangeValues_def Let_def)

lemma exchangeRing_info:
  "ringInfo (exchangeRing c tr) c' =
     (if c' = c then ringInfo tr (c XOR 1) else if c' = c XOR 1 then ringInfo tr c else ringInfo tr c')"
  by (auto simp: exchangeRing_def ringInfo_def exchangeValues_eq)

lemma xor_one_nat:
  fixes k :: nat
  shows "(2 * k) XOR 1 = 2 * k + 1" "(2 * k + 1) XOR 1 = 2 * k"
  by (simp_all add: xor_nat_unfold)

lemma exchangeRing_pair:
  "ringInfo (exchangeRing (2 * k) tr) c =
     (if c = 2 * k then ringInfo tr (2 * k + 1) else if c = 2 * k + 1 then ringInfo tr (2 * k) else ringInfo tr c)"
  unfolding exchangeRing_info xor_one_nat ..

lemma alternate_info:
  "ringInfo (fold (\<lambda>k. exchangeRing (2 * k)) [0..<h] tr) c = (if c < 2 * h then ringInfo tr (c XOR 1) else ringInfo tr c)"
proof (induction h arbitrary: c)
  case (Suc h)
  have "ringInfo (fold (\<lambda>k. exchangeRing (2 * k)) [0..<Suc h] tr) c =
      (if c = 2 * h then ringInfo tr (2 * h + 1) else if c = 2 * h + 1 then ringInfo tr (2 * h)
       else if c < 2 * h then ringInfo tr (c XOR 1) else ringInfo tr c)"
    by (simp add: exchangeRing_pair Suc)
  also have "\<dots> = (if c < 2 * Suc h then ringInfo tr (c XOR 1) else ringInfo tr c)"
    using xor_one_nat [of h] by auto
  finally show ?case .
qed simp

definition swapped :: "int \<Rightarrow> nat \<Rightarrow> nat \<Rightarrow> bool" where
  "swapped x nc n \<longleftrightarrow> x = 2 \<and> nc mod 2 = 0 \<and> n mod 2 = 1"

lemma alternateRings_info:
  assumes "c < nc"
  shows "ringInfo (alternateRings nc n tr) c = ringInfo tr (if swapped (crossNicRing tr) nc n then c XOR 1 else c)"
  using assms by (auto simp: alternateRings_def swapped_def alternate_info)

lemma swapped_channel:
  assumes "c < nc" "swapped x nc n"
  shows "c XOR 1 < nc"
proof (cases "even c")
  case True
  then obtain k where "c = 2 * k" by (rule evenE)
  then show ?thesis using assms xor_one_nat(1) [of k] by (simp add: swapped_def) presburger
next
  case False
  then obtain k where "c = 2 * k + 1" by (rule oddE)
  then show ?thesis using assms xor_one_nat(2) [of k] by simp
qed

section \<open>The ring through all nodes\<close>

text \<open>The order of the ranks in channel \<open>c\<close>, given the order of the ranks on every node.\<close>

definition nodeOrder :: "(nat \<Rightarrow> int) \<Rightarrow> nat \<Rightarrow> (nat \<Rightarrow> nat \<Rightarrow> nat list) \<Rightarrow> nat \<Rightarrow> nat \<Rightarrow> nat list" where
  "nodeOrder x nc order c n = order (if swapped (x n) nc n then c XOR 1 else c) n"

definition wholeRing :: "(nat \<Rightarrow> int) \<Rightarrow> nat \<Rightarrow> nat \<Rightarrow> (nat \<Rightarrow> nat \<Rightarrow> nat list) \<Rightarrow> nat \<Rightarrow> nat list" where
  "wholeRing x nc nn order c = concat (map (nodeOrder x nc order c) [0..<nn])"

text \<open>\<open>ringLinks\<close>: the arrays link the list \<open>W\<close> to a ring.\<close>

definition ringLinks :: "nat list \<Rightarrow> (nat \<Rightarrow> int) \<Rightarrow> (nat \<Rightarrow> int) \<Rightarrow> bool" where
  "ringLinks W prev nxt \<longleftrightarrow>
     (\<forall>j < length W. nxt (W ! j) = int (W ! ((j + 1) mod length W)) \<and> prev (W ! ((j + 1) mod length W)) = int (W ! j))"

text \<open>\<open>nodeLinks\<close>: inside the list the arrays link its elements; what is before the first and after the last is left open.\<close>

definition chainLinks :: "nat list \<Rightarrow> (nat \<Rightarrow> int) \<Rightarrow> (nat \<Rightarrow> int) \<Rightarrow> bool" where
  "chainLinks L prev nxt \<longleftrightarrow> (\<forall>j. j + 1 < length L \<longrightarrow> nxt (L ! j) = int (L ! (j + 1)) \<and> prev (L ! (j + 1)) = int (L ! j))"

lemma chainLinks_append:
  assumes "chainLinks A prev nxt" "chainLinks B prev nxt" "A \<noteq> []" "B \<noteq> []"
    "nxt (last A) = int (hd B)" "prev (hd B) = int (last A)"
  shows "chainLinks (A @ B) prev nxt"
  unfolding chainLinks_def
proof (intro allI impI)
  fix j assume j: "j + 1 < length (A @ B)"
  consider "j + 1 < length A" | "j + 1 = length A" | "length A \<le> j" by linarith
  then show "nxt ((A @ B) ! j) = int ((A @ B) ! (j + 1)) \<and> prev ((A @ B) ! (j + 1)) = int ((A @ B) ! j)"
  proof cases
    case 1
    then show ?thesis using assms(1) by (simp add: chainLinks_def nth_append)
  next
    case 2
    then have "length A - Suc 0 = j" by simp
    then have "(A @ B) ! j = last A" "(A @ B) ! (j + 1) = hd B"
      using 2 assms(3,4) by (simp_all add: nth_append last_conv_nth hd_conv_nth)
    then show ?thesis using assms(5,6) by simp
  next
    case 3
    then obtain k where "j = length A + k" by (metis le_Suc_ex)
    then show ?thesis using assms(2) j by (simp add: chainLinks_def nth_append)
  qed
qed

lemma chainLinks_concat:
  assumes "\<forall>n < m. L n \<noteq> [] \<and> chainLinks (L n) prev nxt"
    "\<forall>n. n + 1 < m \<longrightarrow> nxt (last (L n)) = int (hd (L (n + 1))) \<and> prev (hd (L (n + 1))) = int (last (L n))"
  shows "chainLinks (concat (map L [0..<m])) prev nxt"
  using assms
proof (induction m)
  case (Suc m)
  show ?case
  proof (cases "m = 0")
    case True
    then show ?thesis using Suc.prems by simp
  next
    case False
    then obtain k where k: "m = Suc k" using not0_implies_Suc by blast
    have ch: "chainLinks (concat (map L [0..<m])) prev nxt" using Suc.IH Suc.prems by auto
    have ne: "concat (map L [0..<m]) \<noteq> []" "last (concat (map L [0..<m])) = last (L k)"
      using Suc.prems(1) k by simp_all
    show ?thesis
      using chainLinks_append [OF ch, of "L m"] ne Suc.prems k by simp
  qed
qed (simp add: chainLinks_def)

lemma chainLinks_ring:
  assumes "chainLinks W prev nxt" "W \<noteq> []" "nxt (last W) = int (hd W)" "prev (hd W) = int (last W)"
  shows "ringLinks W prev nxt"
  unfolding ringLinks_def
proof (intro allI impI)
  fix j assume j: "j < length W"
  show "nxt (W ! j) = int (W ! ((j + 1) mod length W)) \<and> prev (W ! ((j + 1) mod length W)) = int (W ! j)"
  proof (cases "j + 1 = length W")
    case True
    then have "W ! j = last W" "W ! ((j + 1) mod length W) = hd W"
      using assms(2) by (simp_all add: last_conv_nth hd_conv_nth flip: True)
    then show ?thesis using assms(3,4) by simp
  next
    case False
    then show ?thesis using assms(1) j by (simp add: chainLinks_def)
  qed
qed

lemma fold_connectRing:
  assumes L: "\<forall>n < nn. recv n = int (hd (L n)) \<and> send n = int (last (L n))"
    and inj: "\<forall>n < nn. \<forall>n' < nn. n \<noteq> n' \<longrightarrow> hd (L n) \<noteq> hd (L n') \<and> last (L n) \<noteq> last (L n')"
    and m: "m \<le> nn"
  shows "case fold (connectRing nn recv send) [0..<m] (prev, nxt) of (p, x) \<Rightarrow>
    (\<forall>n < m. x (last (L n)) = int (hd (L ((n + 1) mod nn))) \<and> p (hd (L n)) = int (last (L ((n + nn - 1) mod nn)))) \<and>
    (\<forall>y. (\<forall>n < m. y \<noteq> last (L n)) \<longrightarrow> x y = nxt y) \<and> (\<forall>y. (\<forall>n < m. y \<noteq> hd (L n)) \<longrightarrow> p y = prev y)"
  using m
proof (induction m)
  case (Suc m)
  obtain p x where px: "fold (connectRing nn recv send) [0..<m] (prev, nxt) = (p, x)" by fastforce
  have m: "m < nn" "(m + 1) mod nn < nn" "(m + nn - 1) mod nn < nn" using Suc.prems by simp_all
  have step: "fold (connectRing nn recv send) [0..<Suc m] (prev, nxt) =
      (p(hd (L m) := int (last (L ((m + nn - 1) mod nn)))), x(last (L m) := int (hd (L ((m + 1) mod nn)))))"
    using L m px by (simp add: connectRing_def Let_def)
  have IH: "\<forall>n < m. x (last (L n)) = int (hd (L ((n + 1) mod nn))) \<and> p (hd (L n)) = int (last (L ((n + nn - 1) mod nn)))"
    "\<forall>y. (\<forall>n < m. y \<noteq> last (L n)) \<longrightarrow> x y = nxt y" "\<forall>y. (\<forall>n < m. y \<noteq> hd (L n)) \<longrightarrow> p y = prev y"
    using Suc px by auto
  have other: "last (L n) \<noteq> last (L m)" "hd (L n) \<noteq> hd (L m)" if "n < m" for n
    using inj m(1) that by auto
  show ?case
    unfolding step using IH other by (auto simp: less_Suc_eq)
qed simp

text \<open>The ranks and their order on every node.\<close>

definition ringWorld :: "nat \<Rightarrow> nat \<Rightarrow> nat \<Rightarrow> (nat \<Rightarrow> nat) \<Rightarrow> (nat \<Rightarrow> nat \<Rightarrow> nat list) \<Rightarrow> bool" where
  "ringWorld nr nn nc nodeOf order \<longleftrightarrow> 0 < nn \<and> (\<forall>r < nr. nodeOf r < nn) \<and>
     (\<forall>c < nc. \<forall>n < nn. order c n \<noteq> [] \<and> distinct (order c n) \<and> set (order c n) = {r. r < nr \<and> nodeOf r = n})"

text \<open>Every rank describes its place in the order of its node.\<close>

definition describes :: "nat \<Rightarrow> nat \<Rightarrow> (nat \<Rightarrow> int) \<Rightarrow> (nat \<Rightarrow> nat) \<Rightarrow> (nat \<Rightarrow> nat \<Rightarrow> nat list) \<Rightarrow> (nat \<Rightarrow> ncclTopoRanks) \<Rightarrow> bool" where
  "describes nr nc x nodeOf order tr \<longleftrightarrow>
     (\<forall>r < nr. crossNicRing (tr r) = x (nodeOf r) \<and>
        (\<forall>c < nc. \<forall>i < length (order c (nodeOf r)). order c (nodeOf r) ! i = r \<longrightarrow>
           ringInfo (tr r) c = placeInfo (map int (order c (nodeOf r))) (length (order c (nodeOf r))) i))"

lemma nodeOrder_props:
  assumes "ringWorld nr nn nc nodeOf order" "c < nc" "n < nn"
  shows "nodeOrder x nc order c n \<noteq> []" "distinct (nodeOrder x nc order c n)"
    "set (nodeOrder x nc order c n) = {r. r < nr \<and> nodeOf r = n}"
  using assms swapped_channel [of c nc "x n" n] by (simp_all add: ringWorld_def nodeOrder_def)

lemma wholeRing_props:
  assumes "ringWorld nr nn nc nodeOf order" "c < nc"
  shows "distinct (wholeRing x nc nn order c)" "set (wholeRing x nc nn order c) = {..<nr}"
    "length (wholeRing x nc nn order c) = nr"
proof -
  note props = nodeOrder_props [OF assms]
  have "distinct (concat (map (nodeOrder x nc order c) [0..<m]))" if "m \<le> nn" for m
    using that
  proof (induction m)
    case (Suc m)
    have "y \<notin> set (nodeOrder x nc order c n)" if "n < m" "y \<in> set (nodeOrder x nc order c m)" for n y
      using props(3) [of m] props(3) [of n] Suc.prems that by auto
    then show ?case using Suc props(2) [of m] by auto
  qed simp
  then show d: "distinct (wholeRing x nc nn order c)" by (simp add: wholeRing_def)
  have "nodeOf r < nn" if "r < nr" for r using assms(1) that by (simp add: ringWorld_def)
  then show s: "set (wholeRing x nc nn order c) = {..<nr}"
    using props(3) by (auto simp: wholeRing_def)
  show "length (wholeRing x nc nn order c) = nr"
    using distinct_card [OF d] s by simp
qed

lemma alternated_info:
  assumes "ringWorld nr nn nc nodeOf order" "describes nr nc x nodeOf order tr" "c < nc" "n < nn"
    "j < length (nodeOrder x nc order c n)" "r = nodeOrder x nc order c n ! j"
  shows "ringInfo (alternateRings nc (nodeOf r) (tr r)) c =
    placeInfo (map int (nodeOrder x nc order c n)) (length (nodeOrder x nc order c n)) j"
proof -
  have r: "r < nr" "nodeOf r = n"
    using nodeOrder_props(3) [OF assms(1,3,4)] nth_mem [OF assms(5)] assms(6) by auto
  let ?c = "if swapped (x n) nc n then c XOR 1 else c"
  have c: "?c < nc" using swapped_channel assms(3) by auto
  have eq: "nodeOrder x nc order c n = order ?c n" by (simp add: nodeOrder_def)
  have "ringInfo (alternateRings nc (nodeOf r) (tr r)) c = ringInfo (tr r) ?c"
    using alternateRings_info [OF assms(3)] assms(2) r by (simp add: describes_def)
  then show ?thesis
    using assms(2,5,6) c r unfolding describes_def eq by auto
qed

lemma connectRings_row:
  assumes "c < nc" "connectRings nc nn recv send prev nxt = (P, X)"
  shows "fold (connectRing nn (recv c) (send c)) [0..<nn] (prev c, nxt c) = (P c, X c)"
proof -
  let ?f = "\<lambda>c (prev, nxt). let (p, x) = fold (connectRing nn (recv c) (send c)) [0..<nn] (prev c, nxt c) in (prev(c := p), nxt(c := x))"
  have "case fold ?f [0..<k] (prev, nxt) of (P, X) \<Rightarrow>
      if c < k then fold (connectRing nn (recv c) (send c)) [0..<nn] (prev c, nxt c) = (P c, X c)
      else P c = prev c \<and> X c = nxt c" for k
  proof (induction k)
    case (Suc k)
    then show ?case by (auto simp: Let_def split: prod.splits if_splits)
  qed simp
  from this [of nc] show ?thesis using assms by (simp add: connectRings_def)
qed

lemma placeInfo_sel:
  assumes "ringInfo tr c = placeInfo (map int L) (length L) j" "j < length L"
  shows "ringRecv tr c = int (hd L)" "ringSend tr c = int (last L)"
    "0 < j \<Longrightarrow> ringPrev tr c = int (L ! (j - 1))" "j + 1 < length L \<Longrightarrow> ringNext tr c = int (L ! (j + 1))"
proof -
  have "L \<noteq> []" using assms(2) by auto
  then show "ringRecv tr c = int (hd L)" "ringSend tr c = int (last L)"
      "0 < j \<Longrightarrow> ringPrev tr c = int (L ! (j - 1))" "j + 1 < length L \<Longrightarrow> ringNext tr c = int (L ! (j + 1))"
    using assms by (auto simp: ringInfo_def placeInfo_def hd_conv_nth last_conv_nth)
qed

lemma row_ringLinks:
  assumes world: "ringWorld nr nn nc nodeOf order" and desc: "describes nr nc x nodeOf order tr"
    and first: "\<forall>n < nn. firstRanks n < nr \<and> nodeOf (firstRanks n) = n" and c: "c < nc"
    and all: "all = (\<lambda>r. alternateRings nc (nodeOf r) (tr r))"
    and fold: "fold (connectRing nn (\<lambda>n. ringRecv (all (firstRanks n)) c) (\<lambda>n. ringSend (all (firstRanks n)) c)) [0..<nn]
      (\<lambda>r. ringPrev (all r) c, \<lambda>r. ringNext (all r) c) = (p, y)"
  shows "ringLinks (wholeRing x nc nn order c) p y"
proof -
  define L where "L = nodeOrder x nc order c"
  note props = nodeOrder_props [OF world c, of _ x, folded L_def]
  note info = alternated_info [OF world desc c, folded L_def, folded all [symmetric]]
  have ends: "ringRecv (all (firstRanks n)) c = int (hd (L n)) \<and> ringSend (all (firstRanks n)) c = int (last (L n))" if "n < nn" for n
  proof -
    have "firstRanks n \<in> set (L n)" using first props(3) that by auto
    then obtain j where j: "j < length (L n)" "firstRanks n = L n ! j" by (metis in_set_conv_nth)
    show ?thesis using placeInfo_sel(1,2) info [OF that j] j(1) all by metis
  qed
  have sep: "L n ! j \<noteq> L n' ! j'" if "n < nn" "n' < nn" "n \<noteq> n'" "j < length (L n)" "j' < length (L n')" for n n' j j'
    using props(3) that nth_mem by (metis (mono_tags, lifting) mem_Collect_eq)
  have inj: "\<forall>n < nn. \<forall>n' < nn. n \<noteq> n' \<longrightarrow> hd (L n) \<noteq> hd (L n') \<and> last (L n) \<noteq> last (L n')"
    using sep props(1) by (simp add: hd_conv_nth last_conv_nth)
  have res: "\<forall>n < nn. y (last (L n)) = int (hd (L ((n + 1) mod nn))) \<and> p (hd (L n)) = int (last (L ((n + nn - 1) mod nn)))"
    "\<forall>z. (\<forall>n < nn. z \<noteq> last (L n)) \<longrightarrow> y z = ringNext (all z) c" "\<forall>z. (\<forall>n < nn. z \<noteq> hd (L n)) \<longrightarrow> p z = ringPrev (all z) c"
    using fold_connectRing [of nn "\<lambda>n. ringRecv (all (firstRanks n)) c" L "\<lambda>n. ringSend (all (firstRanks n)) c" nn
        "\<lambda>r. ringNext (all r) c" "\<lambda>r. ringPrev (all r) c", OF _ inj order.refl] ends unfolding fold by auto
  have nn: "0 < nn" using world by (simp add: ringWorld_def)
  have inner: "chainLinks (L n) p y" if n: "n < nn" for n
    unfolding chainLinks_def
  proof (intro allI impI)
    fix j assume j: "j + 1 < length (L n)"
    have d: "distinct (L n)" using props(2) n .
    have "\<forall>n' < nn. L n ! j \<noteq> last (L n')"
      using sep [OF n, of _ j] d j props(1) by (metis (no_types, lifting) add_lessD1 diff_less last_conv_nth length_greater_0_conv less_diff_conv less_not_refl nth_eq_iff_index_eq zero_less_one)
    moreover have "\<forall>n' < nn. L n ! (j + 1) \<noteq> hd (L n')"
      using sep [OF n, of _ "j + 1"] d j props(1) by (metis Suc_eq_plus1 hd_conv_nth length_greater_0_conv nat.distinct(1) nth_eq_iff_index_eq)
    ultimately show "y (L n ! j) = int (L n ! (j + 1)) \<and> p (L n ! (j + 1)) = int (L n ! j)"
      using res(2,3) placeInfo_sel(4) [OF info [OF n _ refl, of j]] placeInfo_sel(3) [OF info [OF n _ refl, of "j + 1"]] j
      unfolding all by simp
  qed
  have joint: "y (last (L n)) = int (hd (L (n + 1))) \<and> p (hd (L (n + 1))) = int (last (L n))" if "n + 1 < nn" for n
  proof -
    have "(n + 1 + nn - 1) mod nn = n" using that by simp
    then show ?thesis using res(1) that by (metis add_lessD1 mod_less)
  qed
  have "chainLinks (wholeRing x nc nn order c) p y"
    unfolding wholeRing_def L_def [symmetric] using chainLinks_concat [of nn L p y] inner joint props(1) by blast
  moreover obtain k where k: "nn = Suc k" using nn gr0_implies_Suc by blast
  have "wholeRing x nc nn order c = concat (map L [0..<k]) @ L k"
    by (simp add: wholeRing_def L_def k)
  then have "wholeRing x nc nn order c \<noteq> []" "last (wholeRing x nc nn order c) = last (L k)"
    using props(1) k by simp_all
  moreover have "wholeRing x nc nn order c = L 0 @ concat (map L [1..<nn])"
    using nn by (simp add: wholeRing_def L_def [symmetric] upt_conv_Cons)
  then have "hd (wholeRing x nc nn order c) = hd (L 0)"
    using props(1) nn by simp
  ultimately show ?thesis
    using chainLinks_ring res(1) k nn by simp
qed

lemma ringLinks_accepted:
  assumes links: "ringLinks W p y" and W: "distinct W" "set W = {..<nr}" "length W = nr" and j: "j < nr"
  shows "ring_from (map y [0..<nr]) (W ! j) nr = rotate j W" "ring_ok (map y [0..<nr]) (W ! j) nr"
    "\<forall>z \<in> set (map y [0..<nr]). 0 \<le> z \<and> z < int nr"
proof -
  have elem: "W ! i < nr" if "i < nr" for i using W(2,3) nth_mem that by blast
  have succ: "succ_of (map y [0..<nr]) (W ! i) = W ! ((i + 1) mod nr)" if "i < nr" for i
    using links that elem [OF that] W(3) by (simp add: succ_of_def ringLinks_def)
  have pow: "(succ_of (map y [0..<nr]) ^^ i) (W ! j) = W ! ((j + i) mod nr)" for i
  proof (induction i)
    case 0
    then show ?case using j by simp
  next
    case (Suc i)
    then show ?case using succ [of "(j + i) mod nr"] j by (simp add: mod_Suc_eq)
  qed
  show r: "ring_from (map y [0..<nr]) (W ! j) nr = rotate j W"
    unfolding ring_from_def pow using W(3) by (intro nth_equalityI) (simp_all add: nth_rotate)
  show "ring_ok (map y [0..<nr]) (W ! j) nr"
    unfolding ring_ok_def r pow using W j by simp
  show "\<forall>z \<in> set (map y [0..<nr]). 0 \<le> z \<and> z < int nr"
  proof
    fix z assume "z \<in> set (map y [0..<nr])"
    then obtain r where r: "r < nr" "z = y r" by auto
    then obtain i where i: "i < nr" "r = W ! i" using W(2,3) by (metis in_set_conv_nth lessThan_iff)
    then have "z = int (W ! ((i + 1) mod nr))" using links r W(3) by (simp add: ringLinks_def)
    then show "0 \<le> z \<and> z < int nr" using elem [of "(i + 1) mod nr"] j by simp
  qed
qed

section \<open>Multiplication of the channels\<close>

text \<open>A row describes a channel: its ring, and the tree of the own rank in it. The ring is in the arrays of all ranks and
in the own channel.\<close>

type_synonym ringRow = "nat list \<times> ncclTree"

definition goodRow :: "ringRow \<Rightarrow> postset \<Rightarrow> nat \<Rightarrow> bool" where
  "goodRow row s c \<longleftrightarrow> (case s of (comm, prev, nxt) \<Rightarrow>
     ringLinks (fst row) (prev c) (nxt c) \<and> ring_prev (ring (channels comm c)) = prev c (rank comm) \<and>
     ring_next (ring (channels comm c)) = nxt c (rank comm) \<and> tree (channels comm c) = snd row)"

text \<open>The runs of two ranks are followed together, so that a channel has rows with the same index on both.\<close>

definition goodRows :: "(nat \<Rightarrow> ringRow) \<Rightarrow> (nat \<Rightarrow> ringRow) \<Rightarrow> nat \<Rightarrow> nat \<Rightarrow> postset \<Rightarrow> postset \<Rightarrow> bool" where
  "goodRows V V' K m s s' \<longleftrightarrow> (\<forall>c < m. \<exists>k < K. goodRow (V k) s c \<and> goodRow (V' k) s' c)"

lemma goodRow_cong:
  assumes "rank comm' = rank comm" "ring (channels comm' c) = ring (channels comm c)" "tree (channels comm' c) = tree (channels comm c)"
  shows "goodRow w (comm', prev, nxt) c = goodRow w (comm, prev, nxt) c"
  using assms by (simp add: goodRow_def)

text \<open>What decides about the number of channels.\<close>

definition commConf :: "ncclComm \<Rightarrow> nat \<times> nat \<times> bool \<times> int \<times> bool \<times> int \<times> int \<times> bool \<times> int" where
  "commConf comm = (nRanks comm, nNodes comm, collnetEnable comm, minCompCap comm, netDeviceUnpack comm, minCTAs comm, maxCTAs comm,
     ownsSharedRes comm, tpNChannels comm)"

definition sameRank :: "ncclComm \<Rightarrow> ncclComm \<Rightarrow> bool" where
  "sameRank comm comm' \<longleftrightarrow> rank comm' = rank comm \<and> commConf comm' = commConf comm"

lemma sameRank_refl: "sameRank a a"
  by (simp add: sameRank_def)

lemma sameRank_trans: "sameRank a b \<Longrightarrow> sameRank b c \<Longrightarrow> sameRank a c"
  by (simp add: sameRank_def)

lemma copyChannel_row:
  "goodRow w s (c - start) \<Longrightarrow> goodRow w (copyChannel start c s) c"
  "d \<noteq> c \<Longrightarrow> goodRow w (copyChannel start c s) d = goodRow w s d"
  "sameRank (fst s) (fst (copyChannel start c s))"
  by (cases s; simp add: goodRow_def copyChannel_def sameRank_def commConf_def)+

lemma copyChannel_good:
  assumes "goodRows V V' K c s s'" "0 < start" "start \<le> c"
  shows "goodRows V V' K (Suc c) (copyChannel start c s) (copyChannel start c s')"
proof -
  have less: "c - start < c" using assms(2,3) by simp
  then obtain k where k: "k < K" "goodRow (V k) s (c - start)" "goodRow (V' k) s' (c - start)"
    using assms(1) by (auto simp: goodRows_def)
  show ?thesis
    unfolding goodRows_def
  proof (intro allI impI)
    fix d assume "d < Suc c"
    then consider "d = c" | "d < c" by linarith
    then show "\<exists>k < K. goodRow (V k) (copyChannel start c s) d \<and> goodRow (V' k) (copyChannel start c s') d"
    proof cases
      case 1
      then show ?thesis using k copyChannel_row(1) by blast
    next
      case 2
      then show ?thesis using assms(1) copyChannel_row(2) [of d c] by (simp add: goodRows_def)
    qed
  qed
qed

lemma copyChannels_same:
  "sameRank (fst s) (fst (copyChannels start m s))" "nChannels (fst (copyChannels start m s)) = max start m"
proof -
  have "sameRank (fst s) (fst (fold (copyChannel start) cs s))" for cs
  proof (induction cs rule: rev_induct)
    case (snoc c cs)
    show ?case using sameRank_trans [OF snoc copyChannel_row(3) [of "fold (copyChannel start) cs s" start c]] by simp
  qed (simp add: sameRank_refl)
  then show "sameRank (fst s) (fst (copyChannels start m s))" "nChannels (fst (copyChannels start m s)) = max start m"
    by (simp_all add: copyChannels_def Let_def case_prod_beta sameRank_def commConf_def)
qed

lemma copyChannels_rows: "goodRow w (copyChannels start m s) c = goodRow w (fold (copyChannel start) [start..<m] s) c"
  by (simp add: copyChannels_def Let_def case_prod_beta goodRow_def)

lemma copyChannels_good:
  assumes "goodRows V V' K start s s'" "0 < start"
  shows "goodRows V V' K (max start m) (copyChannels start m s) (copyChannels start m s')"
proof -
  have "goodRows V V' K (max start m) (fold (copyChannel start) [start..<m] s) (fold (copyChannel start) [start..<m] s')"
  proof (induction m)
    case 0
    then show ?case using assms(1) by simp
  next
    case (Suc m)
    show ?case
    proof (cases "start \<le> m")
      case True
      then show ?thesis
        using copyChannel_good [OF _ assms(2) True] Suc by (simp add: max_absorb2)
    next
      case False
      then show ?thesis using assms(1) by (simp add: max_absorb1)
    qed
  qed
  then show ?thesis by (simp add: goodRows_def copyChannels_rows)
qed

text \<open>What a step of the multiplication keeps: the rings of all channels, and at least one channel.\<close>

definition postInv :: "(nat \<Rightarrow> ringRow) \<Rightarrow> (nat \<Rightarrow> ringRow) \<Rightarrow> nat \<Rightarrow> ncclComm \<Rightarrow> ncclComm \<Rightarrow> postset \<Rightarrow> postset \<Rightarrow> bool" where
  "postInv V V' K comm0 comm0' s s' \<longleftrightarrow> goodRows V V' K (nChannels (fst s)) s s' \<and> 0 < nChannels (fst s) \<and>
     nChannels (fst s') = nChannels (fst s) \<and> sameRank comm0 (fst s) \<and> sameRank comm0' (fst s') \<and> commConf comm0' = commConf comm0"

lemma postInv_conf: "postInv V V' K comm0 comm0' s s' \<Longrightarrow> commConf (fst s') = commConf (fst s)"
  by (simp add: postInv_def sameRank_def)

lemma copyChannels_postInv:
  assumes "postInv V V' K comm0 comm0' s s'"
  shows "postInv V V' K comm0 comm0' (copyChannels (nChannels (fst s)) m s) (copyChannels (nChannels (fst s)) m s')"
proof -
  have i: "goodRows V V' K (nChannels (fst s)) s s'" "0 < nChannels (fst s)" "sameRank comm0 (fst s)" "sameRank comm0' (fst s')"
    "commConf comm0' = commConf comm0"
    using assms by (simp_all add: postInv_def)
  show ?thesis
    using copyChannels_good [OF i(1,2), of m] i(2,5) sameRank_trans [OF i(3) copyChannels_same(1)] sameRank_trans [OF i(4) copyChannels_same(1)]
    by (simp add: postInv_def copyChannels_same(2))
qed

text \<open>A change of the communicator that leaves the rings alone.\<close>

definition keepsRings :: "ncclComm \<Rightarrow> ncclComm \<Rightarrow> bool" where
  "keepsRings comm comm' \<longleftrightarrow> (\<forall>c. ring (channels comm' c) = ring (channels comm c) \<and> tree (channels comm' c) = tree (channels comm c)) \<and>
     nChannels comm' = nChannels comm \<and> sameRank comm comm'"

lemma update_postInv:
  assumes inv: "postInv V V' K comm0 comm0' s s'" and keep: "keepsRings (fst s) (fst u)" "keepsRings (fst s') (fst u')"
    and arrays: "snd u = snd s" "snd u' = snd s'"
  shows "postInv V V' K comm0 comm0' u u'"
proof -
  have row: "goodRow w u c = goodRow w s c" if "keepsRings (fst s) (fst u)" "snd u = snd s" for w c and s u :: postset
    using that goodRow_cong [of "fst u" "fst s" c w] by (cases s; cases u) (simp add: keepsRings_def sameRank_def)
  have "goodRows V V' K (nChannels (fst u)) u u'"
    using inv keep(1) unfolding postInv_def goodRows_def row [OF keep(1) arrays(1)] row [OF keep(2) arrays(2)] by (simp add: keepsRings_def)
  moreover have "sameRank comm0 (fst u)" "sameRank comm0' (fst u')"
    using inv keep sameRank_trans unfolding postInv_def keepsRings_def by blast+
  ultimately show ?thesis
    using inv keep by (simp add: postInv_def keepsRings_def)
qed

definition collNetStep :: "topoGraphs \<Rightarrow> postset \<Rightarrow> postset" where
  "collNetStep graphs s =
     (let (comm, prev, nxt) = s;
          comm = comm\<lparr>channels := (\<lambda>c. if c < nChannels comm
            then (channels comm c)\<lparr>collnetChain := (collnetChain (channels comm c))\<lparr>tree_depth := int (nRanks comm div nNodes comm)\<rparr>\<rparr>
            else channels comm c)\<rparr>;
          comm = (if maxLocalRanks comm \<le> NCCL_MAX_DIRECT_ARITY + 1 then connectCollNet comm (graphCollNetDirect graphs) else comm)
      in (comm, prev, nxt))"

lemma collNetStep_keeps: "keepsRings (fst s) (fst (collNetStep graphs s))" "snd (collNetStep graphs s) = snd s"
  by (simp_all add: collNetStep_def Let_def case_prod_beta keepsRings_def sameRank_def commConf_def connectCollNet_def)


lemma let_intro2:
  "R x x' \<Longrightarrow> (\<And>y y'. R y y' \<Longrightarrow> Q (f y) (f' y')) \<Longrightarrow> Q (let y = x in f y) (let y = x' in f' y)"
  by simp

lemma dup_postInv:
  assumes "postInv V V' K comm0 comm0' s s'" "b = b'" "m = m'"
  shows "postInv V V' K comm0 comm0' (if b then copyChannels (nChannels (fst s)) m s else s) (if b' then copyChannels (nChannels (fst s')) m' s' else s')"
  using copyChannels_postInv [OF assms(1), of m] assms by (simp add: postInv_def)

lemma postInv_fields:
  assumes "postInv V V' K comm0 comm0' s s'"
  shows "nChannels (fst s') = nChannels (fst s)" "nRanks (fst s') = nRanks (fst s)" "nNodes (fst s') = nNodes (fst s)"
    "collnetEnable (fst s') = collnetEnable (fst s)" "minCompCap (fst s') = minCompCap (fst s)" "netDeviceUnpack (fst s') = netDeviceUnpack (fst s)"
    "minCTAs (fst s') = minCTAs (fst s)" "maxCTAs (fst s') = maxCTAs (fst s)" "ownsSharedRes (fst s') = ownsSharedRes (fst s)"
    "tpNChannels (fst s') = tpNChannels (fst s)"
  using postInv_conf [OF assms] assms by (simp_all add: commConf_def postInv_def)

text \<open>The bandwidths of the graphs are aligned over all ranks, and so is the outcome of their comparisons.\<close>

definition sameSpeeds :: "topoGraphs \<Rightarrow> topoGraphs \<Rightarrow> bool" where
  "sameSpeeds g g' \<longleftrightarrow> intraFaster (graphCollNetChain g') = intraFaster (graphCollNetChain g) \<and> intraHigh (graphRing g') = intraHigh (graphRing g)"

lemma growChannels_postInv:
  assumes inv: "postInv V V' K comm0 comm0' s s'" and sp: "sameSpeeds g g'"
  shows "postInv V V' K comm0 comm0' (growChannels params g s) (growChannels params g' s')"
proof -
  have coll: "postInv V V' K comm0 comm0' (collNetStep g s) (collNetStep g' s')" if "postInv V V' K comm0 comm0' s s'" for s s'
    using update_postInv [OF that collNetStep_keeps(1) collNetStep_keeps(1) collNetStep_keeps(2) collNetStep_keeps(2)] .
  show ?thesis
    unfolding growChannels_def collNetStep_def [symmetric]
    apply (rule let_intro2 [where R = "postInv V V' K comm0 comm0'"])
     apply (cases "collnetEnable (fst s)")
      apply (simp only: if_True postInv_fields [OF inv])
      apply (rule let_intro2 [where R = "postInv V V' K comm0 comm0'"])
       apply (rule dup_postInv [OF inv, unfolded postInv_fields(1) [OF inv]])
        apply (use sp in \<open>simp add: sameSpeeds_def\<close>)
       apply (rule refl)
      apply (erule coll)
     apply (simp only: if_False postInv_fields [OF inv] inv)
    apply (rule let_intro2 [where R = "postInv V V' K comm0 comm0'"])
     apply (rule dup_postInv, assumption)
      apply (use sp in \<open>simp add: sameSpeeds_def postInv_fields\<close>)
     apply (simp add: postInv_fields)
    apply (rule dup_postInv, assumption)
     apply (simp add: postInv_fields)
    apply (simp add: postInv_fields)
    done
qed

definition limitsOk :: "ncclComm \<Rightarrow> bool" where
  "limitsOk comm \<longleftrightarrow> 0 < maxCTAs comm \<and> (ownsSharedRes comm \<or> 0 < tpNChannels comm)"

lemma cut_postInv:
  assumes inv: "postInv V V' K comm0 comm0' s s'" and n: "0 < n" "n \<le> nChannels (fst s)"
  shows "postInv V V' K comm0 comm0' (copyChannels n m ((fst s)\<lparr>nChannels := n\<rparr>, snd s)) (copyChannels n m ((fst s')\<lparr>nChannels := n\<rparr>, snd s'))"
proof -
  have row: "goodRow w ((fst s)\<lparr>nChannels := n\<rparr>, snd s) c = goodRow w s c" for w c and s :: postset
    by (cases s) (simp add: goodRow_def)
  have "postInv V V' K comm0 comm0' ((fst s)\<lparr>nChannels := n\<rparr>, snd s) ((fst s')\<lparr>nChannels := n\<rparr>, snd s')"
    using inv n by (simp add: postInv_def goodRows_def row sameRank_def commConf_def)
  from copyChannels_postInv [OF this, of m] show ?thesis by simp
qed

lemma limitChannels_postInv:
  assumes inv: "postInv V V' K comm0 comm0' s s'" and ok: "limitsOk comm0"
  shows "postInv V V' K comm0 comm0' (limitChannels params s) (limitChannels params s')"
proof -
  define n where "n = (if \<not> ownsSharedRes (fst s)
    then nat (min (min (min (ncclMaxNchannels params) (int (nChannels (fst s)))) (maxCTAs (fst s))) (tpNChannels (fst s)))
    else nat (min (min (ncclMaxNchannels params) (int (nChannels (fst s)))) (maxCTAs (fst s))))"
  define m where "m = (if \<not> ownsSharedRes (fst s)
    then nat (min (max (ncclMinNchannels params) (minCTAs (fst s))) (tpNChannels (fst s))) else nat (max (ncclMinNchannels params) (minCTAs (fst s))))"
  have eq: "limitChannels params s = copyChannels n m ((fst s)\<lparr>nChannels := n\<rparr>, snd s)"
    "limitChannels params s' = copyChannels n m ((fst s')\<lparr>nChannels := n\<rparr>, snd s')"
    by (simp_all add: limitChannels_def n_def m_def Let_def case_prod_beta postInv_fields [OF inv])
  have "sameRank comm0 (fst s)" "0 < nChannels (fst s)" using inv by (simp_all add: postInv_def)
  then have "0 < maxCTAs (fst s)" "ownsSharedRes (fst s) \<or> 0 < tpNChannels (fst s)" "0 < nChannels (fst s)"
    using ok by (auto simp: limitsOk_def sameRank_def commConf_def)
  moreover have "1 \<le> ncclMaxNchannels params" by (simp add: ncclMaxNchannels_def Let_def)
  ultimately have "0 < n" "n \<le> nChannels (fst s)" by (auto simp: n_def)
  then show ?thesis unfolding eq by (rule cut_postInv [OF inv])
qed

lemma connectNvls_same:
  "ring (channels (connectNvls comm h k) c) = ring (channels comm c)" "tree (channels (connectNvls comm h k) c) = tree (channels comm c)" "nChannels (connectNvls comm h k) = nChannels comm"
  "rank (connectNvls comm h k) = rank comm" "nRanks (connectNvls comm h k) = nRanks comm"
  by (simp_all add: connectNvls_def Let_def case_prod_beta)

lemma finishChannels_same:
  "ring (channels (finishChannels par h k comm) c) = ring (channels comm c)" "tree (channels (finishChannels par h k comm) c) = tree (channels comm c)"
  "nChannels (finishChannels par h k comm) = (case par of Some p \<Rightarrow> min (nChannels comm) (parentTpNChannels p) | None \<Rightarrow> nChannels comm)"
  "rank (finishChannels par h k comm) = rank comm"
  by (auto simp: finishChannels_def Let_def connectNvls_same split: option.splits)

lemma fold_setRing:
  "c < 2 * nc \<Longrightarrow> ring_prev (ring (fold (setRing nc r prev nxt) [0..<nc] chs c)) = prev (if c < nc then c else c - nc) r \<and>
     ring_next (ring (fold (setRing nc r prev nxt) [0..<nc] chs c)) = nxt (if c < nc then c else c - nc) r"
proof -
  have "(c < m \<or> nc \<le> c \<and> c < nc + m) \<longrightarrow>
      ring_prev (ring (fold (setRing nc r prev nxt) [0..<m] chs c)) = prev (if c < nc then c else c - nc) r \<and>
      ring_next (ring (fold (setRing nc r prev nxt) [0..<m] chs c)) = nxt (if c < nc then c else c - nc) r" if "m \<le> nc" for m
    using that by (induction m) (auto simp: setRing_def Let_def less_Suc_eq)
  from this [of nc] show "c < 2 * nc \<Longrightarrow> ?thesis" by auto
qed

lemma fold_setRing_tree: "tree (fold (setRing nc r prev nxt) cs chs c) = tree (chs c)"
  by (induction cs arbitrary: chs) (simp_all add: setRing_def Let_def)

section \<open>The trees have room for the joints\<close>

lemma setTreeDown_two: "tree_down t = [a, b, - 1] \<Longrightarrow> \<exists>t'. setTreeDown t idx d = Inr t'"
  by (auto simp: setTreeDown_def NCCL_MAX_TREE_ARITY_def Let_def)

lemma setTreeDown_one:
  "tree_down t = [a, - 1, - 1] \<Longrightarrow> \<exists>t' a b. setTreeDown t idx d = Inr t' \<and> tree_down t' = [a, b, - 1]"
  by (auto simp: setTreeDown_def NCCL_MAX_TREE_ARITY_def Let_def)

lemma connectTree_room:
  assumes "tree_down t = [d, - 1, - 1]"
  shows "\<exists>t'. connectTree comm bt ttp ttc0 ttc1 depth t = Inr t'"
proof -
  define t0 where "t0 = (if int (rank comm) = ttp (node comm)
    then setTreeUp t (if (case parentChildType bt of None \<Rightarrow> 0 | Some x \<Rightarrow> x) = 0 then ttc0 else ttc1) (up bt) else t)"
  have "tree_down t0 = [d, - 1, - 1]" using assms by (simp add: t0_def setTreeUp_def)
  then have "\<exists>t1 a b. (if int (rank comm) = ttc0 (node comm) then setTreeDown t0 ttp (down0 bt) else Inr t0) = Inr t1 \<and> tree_down t1 = [a, b, - 1]"
    using setTreeDown_one [of t0 d ttp "down0 bt"] by (cases "int (rank comm) = ttc0 (node comm)") simp_all
  then obtain t1 a b where t1: "(if int (rank comm) = ttc0 (node comm) then setTreeDown t0 ttp (down0 bt) else Inr t0) = Inr t1" "tree_down t1 = [a, b, - 1]"
    by blast
  then have "\<exists>t2. (if int (rank comm) = ttc1 (node comm) then setTreeDown t1 ttp (down1 bt) else Inr t1) = Inr t2"
    using setTreeDown_two [of t1 a b ttp "down1 bt"] by (cases "int (rank comm) = ttc1 (node comm)") simp_all
  then obtain t2 where "(if int (rank comm) = ttc1 (node comm) then setTreeDown t1 ttp (down1 bt) else Inr t1) = Inr t2"
    by blast
  then show ?thesis
    unfolding connectTree_def Let_def t0_def [symmetric] t1(1) by simp
qed

lemma connectTreesFrom_room:
  assumes "\<forall>c < 2 * nChannels comm. (c < nChannels comm \<and> c \<in> set cs \<or> nChannels comm \<le> c \<and> c - nChannels comm \<in> set cs) \<longrightarrow> treeRoom (chs c)"
    "distinct cs" "set cs \<subseteq> {..<nChannels comm}"
  shows "\<exists>chs'. connectTreesFrom comm t0 t1 ttp ttc0 ttc1 depth cs chs = Inr chs'"
  using assms
proof (induction cs arbitrary: chs)
  case (Cons c cs)
  have c: "c < nChannels comm" using Cons.prems(3) by simp
  then have "treeRoom (chs c)" "treeRoom (chs (c + nChannels comm))" using Cons.prems(1) by auto
  then obtain d0 d1 where "tree_down (tree (chs c)) = [d0, - 1, - 1]" "tree_down (tree (chs (c + nChannels comm))) = [d1, - 1, - 1]"
    unfolding treeRoom_def by blast
  then obtain tr0 tr1 where tr: "connectTree comm t0 (ttp c) (ttc0 c) (ttc1 c) depth (tree (chs c)) = Inr tr0"
    "connectTree comm t1 (ttp c) (ttc0 c) (ttc1 c) depth (tree (chs (c + nChannels comm))) = Inr tr1"
    using connectTree_room by metis
  define chs1 where "chs1 = chs(c := (chs c)\<lparr>tree := tr0\<rparr>, c + nChannels comm := (chs (c + nChannels comm))\<lparr>tree := tr1\<rparr>)"
  have "\<forall>d < 2 * nChannels comm. (d < nChannels comm \<and> d \<in> set cs \<or> nChannels comm \<le> d \<and> d - nChannels comm \<in> set cs) \<longrightarrow> treeRoom (chs1 d)"
    using Cons.prems c unfolding chs1_def by auto
  then obtain chs' where "connectTreesFrom comm t0 t1 ttp ttc0 ttc1 depth cs chs1 = Inr chs'"
    using Cons.IH [of chs1] Cons.prems(2,3) by auto
  then show ?case using tr by (simp add: chs1_def)
qed simp

lemma connectTrees_room:
  assumes "\<forall>c < 2 * nChannels comm. treeRoom (channels comm c)"
  shows "\<exists>chs'. connectTrees comm ttp ttc0 ttc1 = Inr (comm\<lparr>channels := chs'\<rparr>)"
proof -
  obtain t0 t1 where t: "ncclGetDtree (nNodes comm) (node comm) = (t0, t1)" by fastforce
  have "\<exists>chs'. connectTreesFrom comm t0 t1 ttp ttc0 ttc1 depth [0..<nChannels comm] (channels comm) = Inr chs'" for depth
    using assms by (intro connectTreesFrom_room) auto
  then obtain chs' where "connectTreesFrom comm t0 t1 ttp ttc0 ttc1
      (int (nRanks comm div nNodes comm) - 1 + log2Down (of_nat (nNodes comm) :: u64)) [0..<nChannels comm] (channels comm) = Inr chs'"
    by blast
  then show ?thesis
    unfolding connectTrees_def Let_def t prod.case by (simp only: map_sum.simps) blast
qed

section \<open>The rings of the communicator\<close>

text \<open>The ring \<open>W\<close>, seen from the rank \<open>me\<close>: its neighbours and the order of all ranks.\<close>

definition ringView :: "nat list \<Rightarrow> nat \<Rightarrow> ncclRing \<Rightarrow> int list \<Rightarrow> bool" where
  "ringView W me rg userRanks \<longleftrightarrow>
     (\<exists>j < length W. W ! j = me \<and> userRanks = map int (rotate j W) \<and> ring_next rg = int (W ! ((j + 1) mod length W)) \<and>
        ring_prev rg = int (W ! ((j + length W - 1) mod length W)))"

lemma goodRow_ringView:
  assumes good: "goodRow (W, t) (comm, prev, nxt) c"
    and W: "distinct W" "set W = {..<nr}" "length W = nr" and r: "rank comm < nr"
  shows "ringView W (rank comm) (ring (channels comm c)) (map int (ring_from (map (nxt c) [0..<nr]) (rank comm) nr))"
    "ring_ok (map (nxt c) [0..<nr]) (rank comm) nr" "\<forall>z \<in> set (map (nxt c) [0..<nr]). 0 \<le> z \<and> z < int nr"
proof -
  have links: "ringLinks W (prev c) (nxt c)" using good by (simp add: goodRow_def)
  obtain j where j: "j < nr" "W ! j = rank comm" using r W(2,3) by (metis in_set_conv_nth lessThan_iff)
  note acc = ringLinks_accepted [OF links W j(1), unfolded j(2)]
  define i where "i = (j + nr - 1) mod nr"
  have i: "i < nr" "(i + 1) mod nr = j"
  proof -
    show "i < nr" using j(1) by (simp add: i_def)
    have "(i + 1) mod nr = (j + nr - 1 + 1) mod nr" unfolding i_def by (rule mod_add_left_eq)
    then show "(i + 1) mod nr = j" using j(1) by simp
  qed
  have "nxt c (rank comm) = int (W ! ((j + 1) mod nr))" "prev c (rank comm) = int (W ! i)"
    using links j i W(3) unfolding ringLinks_def by metis+
  then have "ring_next (ring (channels comm c)) = int (W ! ((j + 1) mod nr))" "ring_prev (ring (channels comm c)) = int (W ! i)"
    using good by (simp_all add: goodRow_def)
  then show "ringView W (rank comm) (ring (channels comm c)) (map int (ring_from (map (nxt c) [0..<nr]) (rank comm) nr))"
    unfolding ringView_def acc(1) using j W(3) unfolding i_def by blast
  show "ring_ok (map (nxt c) [0..<nr]) (rank comm) nr" "\<forall>z \<in> set (map (nxt c) [0..<nr]). 0 \<le> z \<and> z < int nr"
    using acc(2,3) by blast+
qed

lemma accepted_rings:
  assumes rows: "\<forall>c < m. \<exists>k < K. goodRow (V k) (comm, prev, nxt) c"
    and W: "\<forall>k < K. distinct (fst (V k)) \<and> set (fst (V k)) = {..<nr} \<and> length (fst (V k)) = nr" and r: "rank comm < nr"
  shows "ncclBuildRings True (map (\<lambda>c. map (nxt c) [0..<nr]) [0..<m]) (rank comm) nr =
    Some (Inr (map (\<lambda>c. map int (ring_from (map (nxt c) [0..<nr]) (rank comm) nr)) [0..<m]))"
proof -
  have row: "ring_ok (map (nxt c) [0..<nr]) (rank comm) nr \<and> (\<forall>z \<in> set (map (nxt c) [0..<nr]). 0 \<le> z \<and> z < int nr)" if c: "c < m" for c
  proof -
    obtain k where k: "k < K" "goodRow (V k) (comm, prev, nxt) c" using rows c by blast
    show ?thesis using goodRow_ringView [of "fst (V k)" "snd (V k)" comm prev nxt c nr] k W r by simp
  qed
  let ?nexts = "map (\<lambda>c. map (nxt c) [0..<nr]) [0..<m]"
  have "ncclBuildRings True ?nexts (rank comm) nr = Some (Inr (map (\<lambda>next. map int (ring_from next (rank comm) nr)) ?nexts))"
    using buildRingsFrom_correct [OF r, of ?nexts] row by (auto simp: ncclBuildRings_def)
  then show ?thesis by (simp add: comp_def)
qed

text \<open>The rows after the joints, before the multiplication.\<close>

lemma joined_row:
  assumes links: "\<forall>c < nc. ringLinks (W c) (P c) (X c)"
    and P': "P' = (\<lambda>c. if nc \<le> c \<and> c < 2 * nc then P (c - nc) else P c)" and X': "X' = (\<lambda>c. if nc \<le> c \<and> c < 2 * nc then X (c - nc) else X c)"
    and comm': "comm' = comm\<lparr>channels := fold (setRing nc (rank comm) P' X') [0..<nc] chs, nChannels := min MAXCHANNELS (nc * 2)\<rparr>"
    and c: "c < 2 * nc"
  shows "goodRow (W (if c < nc then c else c - nc), tree (chs c)) (comm', P', X') c"
proof -
  define k where "k = (if c < nc then c else c - nc)"
  have k: "k < nc" "P' c = P k" "X' c = X k" "P' k = P k" "X' k = X k"
    using c by (auto simp: k_def P' X')
  have "goodRow (W k, tree (chs c)) (comm', P', X') c"
    using fold_setRing [OF c, of "rank comm" P' X' chs] links k unfolding goodRow_def comm' k_def [symmetric] by (simp add: fold_setRing_tree)
  then show ?thesis unfolding k_def .
qed

text \<open>The state before the multiplication, and the result from the state after it.\<close>

definition joinedState :: "ncclComm \<Rightarrow> (nat \<Rightarrow> nat) \<Rightarrow> (nat \<Rightarrow> ncclTopoRanks) \<Rightarrow> (nat \<Rightarrow> ncclChannel) \<Rightarrow> postset" where
  "joinedState comm firstRanks tr chs =
     (let nc = nChannels comm; nn = nNodes comm;
          all = (\<lambda>r. alternateRings nc (rankToNode comm r) (tr r));
          row = (\<lambda>f c n. if c < nc then f (all (firstRanks n)) c else 0);
          (prev, nxt) = connectRings nc nn (row ringRecv) (row ringSend)
            (\<lambda>c r. if c < nc then ringPrev (all r) c else 0) (\<lambda>c r. if c < nc then ringNext (all r) c else 0);
          prev = (\<lambda>c. if nc \<le> c \<and> c < 2 * nc then prev (c - nc) else prev c);
          nxt = (\<lambda>c. if nc \<le> c \<and> c < 2 * nc then nxt (c - nc) else nxt c)
      in (comm\<lparr>channels := fold (setRing nc (rank comm) prev nxt) [0..<nc] chs, nChannels := min MAXCHANNELS (nc * 2)\<rparr>, prev, nxt))"

definition finishedComm :: "sharedParent option \<Rightarrow> ncclComm \<Rightarrow> (nat \<Rightarrow> nat) \<Rightarrow> (nat \<Rightarrow> ncclTopoRanks) \<Rightarrow> postset \<Rightarrow> ncclComm" where
  "finishedComm par comm firstRanks tr s =
     (let all = (\<lambda>r. alternateRings (nChannels comm) (rankToNode comm r) (tr r))
      in finishChannels par (\<lambda>c n. topoNvlsHeads (all (firstRanks n)) ! c) (minHeads (nNodes comm) firstRanks all) (fst s))"

text \<open>The joint of the trees, with the arrays of the first ranks of the nodes.\<close>

definition joinedTrees :: "ncclComm \<Rightarrow> (nat \<Rightarrow> nat) \<Rightarrow> (nat \<Rightarrow> ncclTopoRanks) \<Rightarrow> ncclComm nccl" where
  "joinedTrees comm firstRanks tr =
     (let row = (\<lambda>f c n. if c < nChannels comm then f (alternateRings (nChannels comm) (rankToNode comm (firstRanks n)) (tr (firstRanks n))) c else 0)
      in connectTrees comm (row treeToParent) (row treeToChild0) (row treeToChild1))"

lemma ncclTopoPostset_eval:
  assumes room: "\<forall>c < 2 * nChannels comm. treeRoom (channels comm c)"
  shows "\<exists>chs. joinedTrees comm firstRanks tr = Inr (comm\<lparr>channels := chs\<rparr>) \<and> (\<forall>s. s = limitChannels params (growChannels params graphs (joinedState comm firstRanks tr chs)) \<longrightarrow>
    ncclTopoPostset True params comm firstRanks tr graphs par =
      (let comm' = finishedComm par comm firstRanks tr s
       in (case ncclBuildRings True (map (\<lambda>c. map (snd (snd s) c) [0..<nRanks comm]) [0..<nChannels comm']) (rank comm') (nRanks comm) of None \<Rightarrow> None
           | Some (Inl e) \<Rightarrow> Some (Inl e) | Some (Inr rings) \<Rightarrow> Some (Inr (comm', rings)))))"
proof -
  define nc where "nc = nChannels comm"
  define all where "all = (\<lambda>r. alternateRings nc (rankToNode comm r) (tr r))"
  define row where "row = (\<lambda>(f :: ncclTopoRanks \<Rightarrow> nat \<Rightarrow> int) c n. if c < nc then f (all (firstRanks n)) c else 0)"
  have app: "alternateRings nc (rankToNode comm r) (tr r) = all r" for r by (simp add: all_def)
  have rows: "row f = (\<lambda>c n. if c < nc then f (all (firstRanks n)) c else 0)" for f by (simp add: row_def)
  obtain P X where cr: "connectRings nc (nNodes comm) (row ringRecv) (row ringSend)
      (\<lambda>c r. if c < nc then ringPrev (all r) c else 0) (\<lambda>c r. if c < nc then ringNext (all r) c else 0) = (P, X)"
    by fastforce
  obtain chs where tree: "connectTrees comm (row treeToParent) (row treeToChild0) (row treeToChild1) = Inr (comm\<lparr>channels := chs\<rparr>)"
    using connectTrees_room [OF room] by blast
  have upd: "comm\<lparr>channels := chs\<rparr>\<lparr>channels := fold (setRing nc (rank (comm\<lparr>channels := chs\<rparr>)) P2 X2) [0..<nc] (channels (comm\<lparr>channels := chs\<rparr>)),
      nChannels := min MAXCHANNELS (nc * 2)\<rparr> = comm\<lparr>channels := fold (setRing nc (rank comm) P2 X2) [0..<nc] chs, nChannels := min MAXCHANNELS (nc * 2)\<rparr>" for P2 X2
    by simp
  have "joinedTrees comm firstRanks tr = Inr (comm\<lparr>channels := chs\<rparr>)"
    unfolding joinedTrees_def Let_def nc_def [symmetric] app rows [symmetric] by (rule tree)
  then show ?thesis
    unfolding ncclTopoPostset_def joinedState_def finishedComm_def not_True_eq_False if_False Let_def nc_def [symmetric] app rows [symmetric] cr
      prod.case tree sum.case upd case_prod_beta
    by (intro exI [of _ chs] conjI allI impI) (assumption, simp only: snd_conv)
qed

lemma joinedState_good:
  assumes world: "ringWorld (nRanks comm) (nNodes comm) (nChannels comm) (rankToNode comm) order"
    and desc: "describes (nRanks comm) (nChannels comm) x (rankToNode comm) order tr"
    and first: "\<forall>n < nNodes comm. firstRanks n < nRanks comm \<and> rankToNode comm (firstRanks n) = n"
    and c: "c < 2 * nChannels comm"
  shows "goodRow (wholeRing x (nChannels comm) (nNodes comm) order (if c < nChannels comm then c else c - nChannels comm), tree (chs c))
    (joinedState comm firstRanks tr chs) c"
proof -
  define nc where "nc = nChannels comm"
  define all where "all = (\<lambda>r. alternateRings nc (rankToNode comm r) (tr r))"
  obtain P X where cr: "connectRings nc (nNodes comm) (\<lambda>c n. if c < nc then ringRecv (all (firstRanks n)) c else 0)
      (\<lambda>c n. if c < nc then ringSend (all (firstRanks n)) c else 0)
      (\<lambda>c r. if c < nc then ringPrev (all r) c else 0) (\<lambda>c r. if c < nc then ringNext (all r) c else 0) = (P, X)"
    by fastforce
  have links: "\<forall>c < nc. ringLinks (wholeRing x nc (nNodes comm) order c) (P c) (X c)"
  proof (intro allI impI)
    fix c assume c: "c < nc"
    have "fold (connectRing (nNodes comm) (\<lambda>n. ringRecv (all (firstRanks n)) c) (\<lambda>n. ringSend (all (firstRanks n)) c)) [0..<nNodes comm]
        (\<lambda>r. ringPrev (all r) c, \<lambda>r. ringNext (all r) c) = (P c, X c)"
      using connectRings_row [OF c cr] c by simp
    from row_ringLinks [OF world [folded nc_def] desc [folded nc_def] first c all_def this]
    show "ringLinks (wholeRing x nc (nNodes comm) order c) (P c) (X c)" .
  qed
  have app: "alternateRings nc (rankToNode comm r) (tr r) = all r" for r by (simp add: all_def)
  show ?thesis
    unfolding joinedState_def Let_def nc_def [symmetric] app cr prod.case
    by (rule joined_row [OF links refl refl refl]) (use c in \<open>simp add: nc_def\<close>)
qed

lemma joinedState_same:
  "sameRank comm (fst (joinedState comm firstRanks tr chs))" "nChannels (fst (joinedState comm firstRanks tr chs)) = min MAXCHANNELS (nChannels comm * 2)"
  by (simp_all add: joinedState_def Let_def case_prod_beta sameRank_def commConf_def)

text \<open>The two ranks whose runs are compared.\<close>

definition samePlan :: "ncclComm \<Rightarrow> ncclComm \<Rightarrow> bool" where
  "samePlan comm comm' \<longleftrightarrow> commConf comm' = commConf comm \<and> nChannels comm' = nChannels comm \<and> rankToNode comm' = rankToNode comm"

definition connectable :: "ncclComm \<Rightarrow> bool" where
  "connectable comm \<longleftrightarrow> 0 < nChannels comm \<and> rank comm < nRanks comm \<and> limitsOk comm \<and> (\<forall>c < 2 * nChannels comm. treeRoom (channels comm c))"

lemma built_rings:
  assumes rows: "\<forall>c < nChannels (fst s). \<exists>k < K. goodRow (V k) s c"
    and W: "\<forall>k < K. distinct (fst (V k)) \<and> set (fst (V k)) = {..<nRanks comm} \<and> length (fst (V k)) = nRanks comm"
    and r: "rank comm < nRanks comm" "rank (fst s) = rank comm" and comm': "comm' = finishedComm par comm firstRanks tr s"
    and post: "ncclTopoPostset True params comm firstRanks tr graphs par =
      (let comm' = finishedComm par comm firstRanks tr s
       in (case ncclBuildRings True (map (\<lambda>c. map (snd (snd s) c) [0..<nRanks comm]) [0..<nChannels comm']) (rank comm') (nRanks comm) of None \<Rightarrow> None
           | Some (Inl e) \<Rightarrow> Some (Inl e) | Some (Inr rings) \<Rightarrow> Some (Inr (comm', rings))))"
  shows "ncclTopoPostset True params comm firstRanks tr graphs par =
      Some (Inr (comm', map (\<lambda>c. map int (ring_from (map (snd (snd s) c) [0..<nRanks comm]) (rank comm) (nRanks comm))) [0..<nChannels comm']))"
    "rank comm' = rank comm" "nChannels comm' = (case par of Some p \<Rightarrow> min (nChannels (fst s)) (parentTpNChannels p) | None \<Rightarrow> nChannels (fst s))"
    "goodRow w s c \<Longrightarrow> goodRow w (comm', snd s) c"
proof -
  have c': "rank comm' = rank (fst s)" "\<And>c. ring (channels comm' c) = ring (channels (fst s) c)" "\<And>c. tree (channels comm' c) = tree (channels (fst s) c)"
    and n: "nChannels comm' = (case par of Some p \<Rightarrow> min (nChannels (fst s)) (parentTpNChannels p) | None \<Rightarrow> nChannels (fst s))"
    by (simp_all add: comm' finishedComm_def Let_def finishChannels_same)
  obtain comm3 prev nxt where s: "s = (comm3, prev, nxt)" by (cases s)
  have le: "nChannels comm' \<le> nChannels (fst s)" unfolding n by (simp split: option.split)
  have "\<forall>c < nChannels comm'. \<exists>k < K. goodRow (V k) (comm3, prev, nxt) c" using rows le unfolding s by auto
  from accepted_rings [OF this W] r have "ncclBuildRings True (map (\<lambda>c. map (nxt c) [0..<nRanks comm]) [0..<nChannels comm']) (rank comm) (nRanks comm) =
    Some (Inr (map (\<lambda>c. map int (ring_from (map (nxt c) [0..<nRanks comm]) (rank comm) (nRanks comm))) [0..<nChannels comm']))"
    by (simp add: s)
  then show "ncclTopoPostset True params comm firstRanks tr graphs par =
      Some (Inr (comm', map (\<lambda>c. map int (ring_from (map (snd (snd s) c) [0..<nRanks comm]) (rank comm) (nRanks comm))) [0..<nChannels comm']))"
    using post c'(1) r(2) unfolding comm' [symmetric] Let_def by (simp add: s)
  show "rank comm' = rank comm" using c'(1) r(2) by simp
  show "nChannels comm' = (case par of Some p \<Rightarrow> min (nChannels (fst s)) (parentTpNChannels p) | None \<Rightarrow> nChannels (fst s))" by (rule n)
  show "goodRow w s c \<Longrightarrow> goodRow w (comm', snd s) c" using goodRow_cong [OF c'(1,2,3)] by (simp add: s)
qed

text \<open>The ring of row \<open>k\<close>: the rows of a channel and of its duplicate have the same ring.\<close>

definition rowRing :: "(nat \<Rightarrow> int) \<Rightarrow> nat \<Rightarrow> nat \<Rightarrow> (nat \<Rightarrow> nat \<Rightarrow> nat list) \<Rightarrow> nat \<Rightarrow> nat list" where
  "rowRing x nc nn order k = wholeRing x nc nn order (if k < nc then k else k - nc)"

text \<open>The multiplication of the channels does not look at the trees, and all ranks do it alike.  The row that a channel has in the end
is read off from a run in which the tree of every row carries its number.\<close>

definition numberedRun :: "channelParams \<Rightarrow> topoGraphs \<Rightarrow> ncclComm \<Rightarrow> (nat \<Rightarrow> nat) \<Rightarrow> (nat \<Rightarrow> ncclTopoRanks) \<Rightarrow> postset" where
  "numberedRun params graphs comm firstRanks tr = limitChannels params (growChannels params graphs
     (joinedState comm firstRanks tr (\<lambda>k. (channels comm k)\<lparr>tree := (tree (channels comm k))\<lparr>tree_up := int k\<rparr>\<rparr>)))"

definition rowIndex :: "channelParams \<Rightarrow> topoGraphs \<Rightarrow> ncclComm \<Rightarrow> (nat \<Rightarrow> nat) \<Rightarrow> (nat \<Rightarrow> ncclTopoRanks) \<Rightarrow> nat \<Rightarrow> nat" where
  "rowIndex params graphs comm firstRanks tr c = nat (tree_up (tree (channels (fst (numberedRun params graphs comm firstRanks tr)) c)))"

definition rowCount :: "channelParams \<Rightarrow> topoGraphs \<Rightarrow> sharedParent option \<Rightarrow> ncclComm \<Rightarrow> (nat \<Rightarrow> nat) \<Rightarrow> (nat \<Rightarrow> ncclTopoRanks) \<Rightarrow> nat" where
  "rowCount params graphs par comm firstRanks tr =
     (let n = nChannels (fst (numberedRun params graphs comm firstRanks tr)) in case par of Some p \<Rightarrow> min n (parentTpNChannels p) | None \<Rightarrow> n)"

lemma ncclTopoPostset_rows:
  assumes world: "ringWorld (nRanks comm) (nNodes comm) (nChannels comm) (rankToNode comm) order"
    and desc: "describes (nRanks comm) (nChannels comm) x (rankToNode comm) order tr"
    and first: "\<forall>n < nNodes comm. firstRanks n < nRanks comm \<and> rankToNode comm (firstRanks n) = n"
    and con: "connectable comm" "connectable comm'" and plan: "samePlan comm comm'" and sp: "sameSpeeds graphs graphs'"
    and row: "row = rowIndex params graphs' comm' firstRanks tr" and m: "m = rowCount params graphs' par comm' firstRanks tr"
  shows "\<exists>comm1 rings chs. ncclTopoPostset True params comm firstRanks tr graphs par = Some (Inr (comm1, rings)) \<and>
    joinedTrees comm firstRanks tr = Inr (comm\<lparr>channels := chs\<rparr>) \<and> nChannels comm1 = m \<and> length rings = m \<and>
    (\<forall>c < m. row c < 2 * nChannels comm \<and>
       ringView (rowRing x (nChannels comm) (nNodes comm) order (row c)) (rank comm) (ring (channels comm1 c)) (rings ! c) \<and>
       tree (channels comm1 c) = tree (chs (row c)))"
proof -
  define W where "W = rowRing x (nChannels comm) (nNodes comm) order"
  define K where "K = 2 * nChannels comm"
  have eq: "nChannels comm' = nChannels comm" "rankToNode comm' = rankToNode comm" "nRanks comm' = nRanks comm" "nNodes comm' = nNodes comm"
    "commConf comm' = commConf comm"
    using plan by (simp_all add: samePlan_def commConf_def)
  have W: "distinct (W k) \<and> set (W k) = {..<nRanks comm} \<and> length (W k) = nRanks comm" if "k < K" for k
  proof -
    have "(if k < nChannels comm then k else k - nChannels comm) < nChannels comm" using that by (auto simp: K_def)
    from wholeRing_props [OF world this] show ?thesis unfolding W_def rowRing_def by blast
  qed
  obtain chs where e: "joinedTrees comm firstRanks tr = Inr (comm\<lparr>channels := chs\<rparr>)"
    "\<forall>s. s = limitChannels params (growChannels params graphs (joinedState comm firstRanks tr chs)) \<longrightarrow>
    ncclTopoPostset True params comm firstRanks tr graphs par =
      (let comm' = finishedComm par comm firstRanks tr s
       in (case ncclBuildRings True (map (\<lambda>c. map (snd (snd s) c) [0..<nRanks comm]) [0..<nChannels comm']) (rank comm') (nRanks comm) of None \<Rightarrow> None
           | Some (Inl e) \<Rightarrow> Some (Inl e) | Some (Inr rings) \<Rightarrow> Some (Inr (comm', rings))))"
    using ncclTopoPostset_eval con(1) unfolding connectable_def by blast
  define chs' where "chs' = (\<lambda>k. (channels comm' k)\<lparr>tree := (tree (channels comm' k))\<lparr>tree_up := int k\<rparr>\<rparr>)"
  define V where "V = (\<lambda>k. (W k, tree (chs k)))"
  define V' where "V' = (\<lambda>k. (W k, tree (chs' k)))"
  define s where "s = limitChannels params (growChannels params graphs (joinedState comm firstRanks tr chs))"
  define s' where "s' = numberedRun params graphs' comm' firstRanks tr"
  have "postInv V V' K comm comm' (joinedState comm firstRanks tr chs) (joinedState comm' firstRanks tr chs')"
    unfolding postInv_def goodRows_def
  proof (intro conjI allI impI)
    fix c assume "c < nChannels (fst (joinedState comm firstRanks tr chs))"
    then have c: "c < 2 * nChannels comm" by (simp add: joinedState_same)
    have "goodRow (V c) (joinedState comm firstRanks tr chs) c" "goodRow (V' c) (joinedState comm' firstRanks tr chs') c"
      using joinedState_good [OF world desc first c, of chs] joinedState_good [of comm' order x tr firstRanks c chs'] world desc first c
      unfolding eq V_def V'_def W_def rowRing_def by blast+
    then show "\<exists>k < K. goodRow (V k) (joinedState comm firstRanks tr chs) c \<and> goodRow (V' k) (joinedState comm' firstRanks tr chs') c"
      using c unfolding K_def by blast
  qed (use con(1) eq in \<open>simp_all add: joinedState_same connectable_def MAXCHANNELS_def\<close>)
  then have inv: "postInv V V' K comm comm' s s'"
    unfolding s_def s'_def numberedRun_def chs'_def using limitChannels_postInv growChannels_postInv sp con(1) unfolding connectable_def by blast
  have n: "nChannels (fst s') = nChannels (fst s)" "rank (fst s) = rank comm" using inv by (simp_all add: postInv_def sameRank_def)
  have all: "\<forall>c < nChannels (fst s). \<exists>k < K. goodRow (V k) s c \<and> goodRow (V' k) s' c"
    using inv unfolding postInv_def goodRows_def by (rule conjunct1)
  have rows: "row c < K \<and> goodRow (V (row c)) s c" if "c < nChannels (fst s)" for c
  proof -
    have "\<exists>k < K. goodRow (V k) s c \<and> goodRow (V' k) s' c" by (rule all [rule_format, OF that])
    then obtain k where k: "k < K" "goodRow (V k) s c" "goodRow (V' k) s' c" by (elim exE conjE)
    then have "tree (channels (fst s') c) = tree (chs' k)" by (simp add: goodRow_def V'_def split: prod.splits)
    then have "row c = k" unfolding row rowIndex_def s'_def [symmetric] by (simp add: chs'_def)
    with k show ?thesis by simp
  qed
  define comm1 where "comm1 = finishedComm par comm firstRanks tr s"
  have me: "rank comm < nRanks comm" using con by (simp add: connectable_def)
  have rows1: "\<forall>c < nChannels (fst s). \<exists>k < K. goodRow (V k) s c" using rows by blast
  have WV: "\<forall>k < K. distinct (fst (V k)) \<and> set (fst (V k)) = {..<nRanks comm} \<and> length (fst (V k)) = nRanks comm"
    using W unfolding V_def by simp
  note b = built_rings [OF rows1 WV me n(2) comm1_def e(2) [rule_format, OF s_def]]
  have nm: "nChannels comm1 = m" "m \<le> nChannels (fst s)"
    unfolding m rowCount_def b(3) s'_def [symmetric] n(1) Let_def by (simp_all split: option.split)
  have view: "row c < K \<and>
      ringView (W (row c)) (rank comm) (ring (channels comm1 c)) (map int (ring_from (map (snd (snd s) c) [0..<nRanks comm]) (rank comm) (nRanks comm))) \<and>
      tree (channels comm1 c) = tree (chs (row c))"
    if c: "c < m" for c
  proof -
    have k: "row c < K" "goodRow (V (row c)) s c" using rows [OF less_le_trans [OF c nm(2)]] by blast+
    have g: "goodRow (W (row c), tree (chs (row c))) (comm1, fst (snd s), snd (snd s)) c" using b(4) [OF k(2)] by (simp add: V_def)
    have "tree (channels comm1 c) = tree (chs (row c))" using g by (simp add: goodRow_def split: prod.splits)
    then show ?thesis using goodRow_ringView(1) [OF g] W [OF k(1)] k(1) me unfolding b(2) by blast
  qed
  define R where "R = map (\<lambda>c. map int (ring_from (map (snd (snd s) c) [0..<nRanks comm]) (rank comm) (nRanks comm))) [0..<nChannels comm1]"
  have "\<forall>c < m. row c < K \<and> ringView (W (row c)) (rank comm) (ring (channels comm1 c)) (R ! c) \<and> tree (channels comm1 c) = tree (chs (row c))"
    using view by (simp add: R_def nm(1))
  moreover have "length R = m" by (simp add: R_def nm(1))
  ultimately show ?thesis
    using b(1) nm(1) e(1) unfolding W_def [symmetric] K_def [symmetric] R_def [symmetric] by blast
qed

end
