(* ===== verification/Topo_Init.thy ===== *)
theory Topo_Init
  imports Topo_Rings
begin

unbundle bit_operations_syntax

text \<open>
  The part of \<^verbatim>\<open>initTransportsRank\<close> (\<^verbatim>\<open>src/src/init.cc\<close>) around the third exchange between all ranks: every
  rank publishes the description that \<^verbatim>\<open>ncclTopoPreset\<close> made, the nodes are recognised from the first ranks of
  the rings, the ranks of a node are numbered, the numbers of channels are aligned and \<^verbatim>\<open>ncclTopoPostset\<close> joins
  the nodes.  The main theorem composes both calls over all ranks.
\<close>

section \<open>The code\<close>

text \<open>What is used of the entry of a rank in the exchanged data.\<close>

record allGather3 =
  topoRanks :: ncclTopoRanks
  infoTreePattern :: topoPattern
  infoTreeChannels :: nat
  infoRingChannels :: nat
  infoCollNetChannels :: nat
  infoCollNetDirectChannels :: nat
  infoNvlsChannels :: nat

record nodeDiscovery =
  nodesFirstRank :: "int list"
  nodesTreePatterns :: "topoPattern list"
  nodeOfRank :: "nat list"

definition discoverNode :: "allGather3 \<Rightarrow> nodeDiscovery \<Rightarrow> nodeDiscovery" where
  "discoverNode info d =
     (let firstRank = ringRecv (topoRanks info) 0;
          nd = length (takeWhile (\<lambda>f. f \<noteq> firstRank) (nodesFirstRank d));
          d = (if nd = length (nodesFirstRank d)
               then d\<lparr>nodesFirstRank := nodesFirstRank d @ [firstRank], nodesTreePatterns := nodesTreePatterns d @ [infoTreePattern info]\<rparr> else d)
      in d\<lparr>nodeOfRank := nodeOfRank d @ [nd]\<rparr>)"

definition discoverNodes :: "allGather3 list \<Rightarrow> nodeDiscovery" where
  "discoverNodes infos = fold discoverNode infos \<lparr>nodesFirstRank = [], nodesTreePatterns = [], nodeOfRank = []\<rparr>"

text \<open>The numbers of the ranks on their nodes: how many there are on every node, and the number of every rank.\<close>

definition countLocalRanks :: "nat list \<Rightarrow> (nat \<Rightarrow> nat) \<times> nat list" where
  "countLocalRanks r2n = fold (\<lambda>nd (counts, locals). (counts(nd := counts nd + 1), locals @ [counts nd])) r2n (\<lambda>_. 0, [])"

text \<open>The ranks of every node in the order of their numbers.\<close>

definition fillNodeRanks :: "nat list \<Rightarrow> (nat \<Rightarrow> nat list)" where
  "fillNodeRanks r2n = fold (\<lambda>r ranks. ranks(r2n ! r := ranks (r2n ! r) @ [r])) [0..<length r2n] (\<lambda>_. [])"

definition initLocalRanks :: "ncclComm \<Rightarrow> nodeDiscovery \<Rightarrow> ncclComm nccl" where
  "initLocalRanks comm d =
     (let r2n = nodeOfRank d; nn = length (nodesFirstRank d); (counts, locals) = countLocalRanks r2n; ranks = fillNodeRanks r2n;
          comm = comm\<lparr>nNodes := nn, rankToNode := (\<lambda>r. r2n ! r), maxLocalRanks := fold (\<lambda>n m. max m (counts n)) [0..<nn] (maxLocalRanks comm),
            node := r2n ! rank comm, localRanks := length (ranks (r2n ! rank comm))\<rparr>
      in if localRanks comm = 0 then Inl ncclInternalError else Inr comm)"

text \<open>The least number of channels of any rank, for the graphs of the algorithms that are used here.\<close>

definition alignChannels :: "(allGather3 \<Rightarrow> nat) \<Rightarrow> allGather3 list \<Rightarrow> nat \<Rightarrow> nat" where
  "alignChannels f infos own = fold (\<lambda>info m. min (f info) m) infos own"

text \<open>The move of the duplicated channels when channels have been removed.\<close>

definition moveChannels :: "nat \<Rightarrow> nat \<Rightarrow> (nat \<Rightarrow> ncclChannel) \<Rightarrow> (nat \<Rightarrow> ncclChannel)" where
  "moveChannels nOrig n chs = (if n < nOrig then fold (\<lambda>i chs. chs(n + i := chs (nOrig + i))) [0..<n] chs else chs)"

definition withChannels :: "nat \<Rightarrow> ncclTopoGraph \<Rightarrow> ncclTopoGraph" where
  "withChannels n g = g\<lparr>graph_nChannels := n\<rparr>"

definition alignGraphs :: "allGather3 list \<Rightarrow> topoGraphs \<Rightarrow> topoGraphs" where
  "alignGraphs infos graphs =
     (let al = (\<lambda>f g. withChannels (alignChannels f infos (graph_nChannels g)) g)
      in graphs\<lparr>graphRing := al infoRingChannels (graphRing graphs), graphTree := al infoTreeChannels (graphTree graphs),
           graphCollNetChain := al infoCollNetChannels (graphCollNetChain graphs),
           graphCollNetDirect := al infoCollNetDirectChannels (graphCollNetDirect graphs), graphNvls := al infoNvlsChannels (graphNvls graphs)\<rparr>)"

text \<open>The changes of the communicator with the aligned graphs. \<open>nvlsTuned\<close> is the number of channels that the tuning of NVLS
gives, when NVLS is enabled; the tuning itself is not modelled.\<close>

definition alignComm :: "topoGraphs \<Rightarrow> nat option \<Rightarrow> nat \<Rightarrow> ncclComm \<Rightarrow> ncclComm" where
  "alignComm graphs nvlsTuned collNetThreshold comm =
     (let nOrig = nChannels comm; nc = min (graph_nChannels (graphTree graphs)) (graph_nChannels (graphRing graphs));
          comm = comm\<lparr>collnetEnable := collnetEnable comm \<and> graph_nChannels (graphCollNetChain graphs) \<noteq> 0,
            nvlsChannels := (case nvlsTuned of Some n \<Rightarrow> n | None \<Rightarrow> if graph_nChannels (graphNvls graphs) = 0 then 0 else nvlsChannels comm)\<rparr>;
          comm = comm\<lparr>nChannels := nc, channels := moveChannels nOrig nc (channels comm)\<rparr>
      in comm\<lparr>collnetEnable := collnetEnable comm \<and> \<not> nNodes comm < collNetThreshold\<rparr>)"

text \<open>What a rank does before the exchange: its channels, its description and its entry. The comparisons of bandwidths in
\<open>graphs\<close> are those after the alignment, which only the join of the nodes reads.\<close>

definition publishRank :: "ncclComm \<Rightarrow> topoGraphs \<Rightarrow> ncclTopoRanks \<Rightarrow> ncclComm \<times> allGather3" where
  "publishRank comm graphs tr =
     (let comm = comm\<lparr>nChannels := min (graph_nChannels (graphTree graphs)) (graph_nChannels (graphRing graphs))\<rparr>;
          (comm, tr) = ncclTopoPreset comm graphs tr
      in (comm, \<lparr>topoRanks = tr, infoTreePattern = pattern (graphTree graphs), infoTreeChannels = graph_nChannels (graphTree graphs),
            infoRingChannels = graph_nChannels (graphRing graphs), infoCollNetChannels = graph_nChannels (graphCollNetChain graphs),
            infoCollNetDirectChannels = graph_nChannels (graphCollNetDirect graphs),
            infoNvlsChannels = graph_nChannels (graphNvls graphs)\<rparr>))"

text \<open>From the exchanged data to the joined nodes.\<close>

definition connectNodes :: "channelParams \<Rightarrow> allGather3 list \<Rightarrow> topoGraphs \<Rightarrow> nat option \<Rightarrow> nat \<Rightarrow> sharedParent option \<Rightarrow> ncclComm
    \<Rightarrow> (ncclComm \<times> int list list) nccl option" where
  "connectNodes params infos graphs nvlsTuned collNetThreshold par comm =
     (let d = discoverNodes infos; graphs = alignGraphs infos graphs
      in case initLocalRanks comm d of Inl e \<Rightarrow> Some (Inl e)
         | Inr comm \<Rightarrow>
             (let comm = alignComm graphs nvlsTuned collNetThreshold comm;
                  graphs = graphs\<lparr>graphTree := withChannels (nChannels comm) (graphTree graphs), graphRing := withChannels (nChannels comm) (graphRing graphs)\<rparr>
              in ncclTopoPostset True params comm (\<lambda>n. nat (nodesFirstRank d ! n)) (\<lambda>r. topoRanks (infos ! r)) graphs par))"

section \<open>The nodes\<close>

lemma takeWhile_neq_length: "length (takeWhile (\<lambda>y. y \<noteq> x) xs) = length xs \<longleftrightarrow> x \<notin> set xs"
  by (induction xs) auto

text \<open>The nodes so far are the different first ranks so far, and every rank has the place of its first rank.\<close>

lemma discoverNodes_inv:
  "distinct (nodesFirstRank (discoverNodes infos)) \<and>
   set (nodesFirstRank (discoverNodes infos)) = (\<lambda>info. ringRecv (topoRanks info) 0) ` set infos \<and>
   length (nodeOfRank (discoverNodes infos)) = length infos \<and> length (nodesTreePatterns (discoverNodes infos)) = length (nodesFirstRank (discoverNodes infos)) \<and>
   (\<forall>r < length infos. nodeOfRank (discoverNodes infos) ! r < length (nodesFirstRank (discoverNodes infos)) \<and>
      nodesFirstRank (discoverNodes infos) ! (nodeOfRank (discoverNodes infos) ! r) = ringRecv (topoRanks (infos ! r)) 0)"
proof (induction infos rule: rev_induct)
  case Nil
  then show ?case by (simp add: discoverNodes_def)
next
  case (snoc info infos)
  define d where "d = discoverNodes infos"
  define f where "f = ringRecv (topoRanks info) 0"
  define k where "k = length (takeWhile (\<lambda>y. y \<noteq> f) (nodesFirstRank d))"
  have eq: "discoverNodes (infos @ [info]) = discoverNode info d" by (simp add: discoverNodes_def d_def)
  note IH = snoc [folded d_def]
  show ?case
  proof (cases "f \<in> set (nodesFirstRank d)")
    case True
    then have k: "k < length (nodesFirstRank d)" "nodesFirstRank d ! k = f"
      unfolding k_def using length_takeWhile_le takeWhile_neq_length by (metis le_neq_implies_less, metis (mono_tags, lifting) le_neq_implies_less length_takeWhile_le nth_length_takeWhile takeWhile_neq_length)
    have step: "discoverNode info d = d\<lparr>nodeOfRank := nodeOfRank d @ [k]\<rparr>"
      using k(1) by (simp add: discoverNode_def Let_def f_def [symmetric] k_def [symmetric])
    show ?thesis
      unfolding eq step using IH k True by (auto simp: nth_append less_Suc_eq f_def)
  next
    case False
    then have k: "k = length (nodesFirstRank d)" by (simp add: k_def takeWhile_neq_length)
    have step: "discoverNode info d = d\<lparr>nodesFirstRank := nodesFirstRank d @ [f], nodesTreePatterns := nodesTreePatterns d @ [infoTreePattern info],
        nodeOfRank := nodeOfRank d @ [k]\<rparr>"
      using k by (simp add: discoverNode_def Let_def f_def [symmetric] k_def [symmetric])
    show ?thesis
      unfolding eq step using IH k False by (auto simp: nth_append less_Suc_eq f_def)
  qed
qed

section \<open>The numbers of the ranks on their nodes\<close>

lemma countLocalRanks_eq:
  "countLocalRanks r2n = (\<lambda>n. length (filter (\<lambda>m. m = n) r2n), map (\<lambda>r. length (filter (\<lambda>m. m = r2n ! r) (take r r2n))) [0..<length r2n])"
proof (induction r2n rule: rev_induct)
  case Nil
  then show ?case by (simp add: countLocalRanks_def)
next
  case (snoc n r2n)
  have "countLocalRanks (r2n @ [n]) = (\<lambda>(counts, locals). (counts(n := counts n + 1), locals @ [counts n])) (countLocalRanks r2n)"
    by (simp add: countLocalRanks_def)
  then show ?case
    unfolding snoc by (auto simp: nth_append intro!: map_cong)
qed

lemma fillNodeRanks_eq: "fillNodeRanks r2n = (\<lambda>n. filter (\<lambda>r. r2n ! r = n) [0..<length r2n])"
proof -
  have "fold (\<lambda>r ranks. ranks(r2n ! r := ranks (r2n ! r) @ [r])) [0..<m] (\<lambda>_. []) = (\<lambda>n. filter (\<lambda>r. r2n ! r = n) [0..<m])" for m
    by (induction m) (auto simp: fun_eq_iff)
  then show ?thesis by (simp add: fillNodeRanks_def)
qed

lemma filter_upt_nth:
  "length (filter (\<lambda>m. P m) (take r xs)) = length (filter (\<lambda>i. P (xs ! i)) [0..<r])" if "r \<le> length xs"
proof -
  have "take r xs = map (\<lambda>i. xs ! i) [0..<r]" using that by (intro nth_equalityI) auto
  then show ?thesis by (simp add: filter_map comp_def)
qed

text \<open>
  The numbering of the ranks on their nodes is consistent: the number of a rank is below the number of ranks of its
  node, and it is the place of the rank in the list of the ranks of the node, which is increasing and has exactly the
  ranks of the node.
\<close>

theorem local_ranks_consistent:
  assumes "r < length r2n"
  shows "fillNodeRanks r2n (r2n ! r) ! (snd (countLocalRanks r2n) ! r) = r \<and>
    snd (countLocalRanks r2n) ! r < fst (countLocalRanks r2n) (r2n ! r) \<and>
    length (fillNodeRanks r2n (r2n ! r)) = fst (countLocalRanks r2n) (r2n ! r) \<and>
    sorted_wrt (<) (fillNodeRanks r2n (r2n ! r)) \<and> set (fillNodeRanks r2n (r2n ! r)) = {q. q < length r2n \<and> r2n ! q = r2n ! r}"
proof -
  let ?P = "\<lambda>i. r2n ! i = r2n ! r"
  define A where "A = filter ?P [0..<r]"
  define B where "B = filter ?P [Suc r..<length r2n]"
  have "[0..<length r2n] = [0..<r] @ r # [Suc r..<length r2n]"
    using upt_add_eq_append [of 0 r "length r2n - r"] assms by (simp add: upt_conv_Cons)
  then have f: "fillNodeRanks r2n (r2n ! r) = A @ r # B" by (simp add: fillNodeRanks_eq A_def B_def)
  have l: "snd (countLocalRanks r2n) ! r = length A"
    using assms filter_upt_nth [of r r2n "\<lambda>m. m = r2n ! r"] by (simp add: countLocalRanks_eq A_def)
  have c: "fst (countLocalRanks r2n) (r2n ! r) = length (A @ r # B)"
    using filter_upt_nth [of "length r2n" r2n "\<lambda>m. m = r2n ! r"] f by (simp add: countLocalRanks_eq fillNodeRanks_eq)
  have "sorted_wrt (<) (fillNodeRanks r2n (r2n ! r))" unfolding fillNodeRanks_eq by (rule sorted_wrt_filter) simp
  moreover have "set (fillNodeRanks r2n (r2n ! r)) = {q. q < length r2n \<and> r2n ! q = r2n ! r}" by (auto simp: fillNodeRanks_eq)
  ultimately show ?thesis using l c unfolding f by simp
qed

theorem local_ranks_consistent_witness:
  "fillNodeRanks [0, 1, 0, 1] 1 ! (snd (countLocalRanks [0, 1, 0, 1]) ! 3) = 3"
  using local_ranks_consistent [of 3 "[0, 1, 0, 1]"] by simp

section \<open>All ranks\<close>

lemma alignChannels_min: "alignChannels f infos own = Min (insert own (f ` set infos))"
proof (induction infos rule: rev_induct)
  case (snoc info infos)
  have "alignChannels f (infos @ [info]) own = min (f info) (alignChannels f infos own)" by (simp add: alignChannels_def)
  moreover have "Min (insert (f info) (insert own (f ` set infos))) = min (f info) (Min (insert own (f ` set infos)))" by (rule Min_insert) auto
  ultimately show ?case using snoc by (simp add: insert_commute del: Min_insert)
qed (simp add: alignChannels_def)

lemma moveChannels_fold:
  "n < nOrig \<Longrightarrow> m \<le> n \<Longrightarrow> fold (\<lambda>i chs. chs(n + i := chs (nOrig + i))) [0..<m] chs c = (if n \<le> c \<and> c < n + m then chs (nOrig + (c - n)) else chs c)"
  by (induction m arbitrary: c) auto

lemma moveChannels_rows:
  assumes "n \<le> nOrig" "c < n"
  shows "moveChannels nOrig n chs c = chs c" "moveChannels nOrig n chs (c + n) = chs (c + nOrig)"
  using assms moveChannels_fold [of n nOrig n chs c] moveChannels_fold [of n nOrig n chs "c + n"]
  by (auto simp: moveChannels_def add.commute)

lemma moveChannels_room:
  assumes "n \<le> nOrig" "\<forall>c < 2 * nOrig. treeRoom (chs c)" "c < 2 * n"
  shows "treeRoom (moveChannels nOrig n chs c)"
  using assms moveChannels_fold [of n nOrig n chs c] by (auto simp: moveChannels_def)

text \<open>The cluster: \<open>hostOf\<close> is the host of a rank, \<open>order c h\<close> the order of its ranks in channel \<open>c\<close> of the graph that the
search found on host \<open>h\<close>, and \<open>crossing h\<close> the crossing of network devices in this graph. All ranks run with the same
configuration.\<close>

definition hostRings :: "nat \<Rightarrow> (nat \<Rightarrow> nat) \<Rightarrow> (nat \<Rightarrow> nat \<Rightarrow> nat list) \<Rightarrow> (nat \<Rightarrow> int) \<Rightarrow> (nat \<Rightarrow> topoGraphs) \<Rightarrow> bool" where
  "hostRings nr hostOf order crossing graphs \<longleftrightarrow>
     (\<forall>r < nr. 0 < graph_nChannels (graphTree (graphs r)) \<and> 0 < graph_nChannels (graphRing (graphs r)) \<and>
        crossNic (graphRing (graphs r)) = crossing (hostOf r) \<and>
        (\<forall>c < min (graph_nChannels (graphTree (graphs r))) (graph_nChannels (graphRing (graphs r))).
           distinct (order c (hostOf r)) \<and> set (order c (hostOf r)) = {q. q < nr \<and> hostOf q = hostOf r} \<and>
           intra (graphRing (graphs r)) c = map int (order c (hostOf r))))"

definition hostComms :: "nat \<Rightarrow> (nat \<Rightarrow> nat) \<Rightarrow> (nat \<Rightarrow> nat \<Rightarrow> nat list) \<Rightarrow> (nat \<Rightarrow> ncclComm) \<Rightarrow> bool" where
  "hostComms nr hostOf order comms \<longleftrightarrow>
     (\<forall>r < nr. rank (comms r) = r \<and> nRanks (comms r) = nr \<and> localRanks (comms r) = length (order 0 (hostOf r)) \<and>
        limitsOk (comms r) \<and> (\<forall>q < nr. commConf (comms q) = commConf (comms r)))"

definition exchanged :: "nat \<Rightarrow> (nat \<Rightarrow> ncclComm) \<Rightarrow> (nat \<Rightarrow> topoGraphs) \<Rightarrow> ncclTopoRanks \<Rightarrow> allGather3 list" where
  "exchanged nr comms graphs tr = map (\<lambda>r. snd (publishRank (comms r) (graphs r) tr)) [0..<nr]"

lemma publishRank_info:
  assumes rings: "hostRings nr hostOf order crossing graphs" and comms: "hostComms nr hostOf order comms" and r: "r < nr"
    and c: "c < min (graph_nChannels (graphTree (graphs r))) (graph_nChannels (graphRing (graphs r)))"
    and i: "i < length (order c (hostOf r))" "order c (hostOf r) ! i = r"
  shows "ringInfo (topoRanks (snd (publishRank (comms r) (graphs r) tr))) c = placeInfo (map int (order c (hostOf r))) (length (order c (hostOf r))) i"
    "crossNicRing (topoRanks (snd (publishRank (comms r) (graphs r) tr))) = crossing (hostOf r)"
proof -
  define nc where "nc = min (graph_nChannels (graphTree (graphs r))) (graph_nChannels (graphRing (graphs r)))"
  define comm where "comm = (comms r)\<lparr>nChannels := nc\<rparr>"
  have o: "distinct (order c (hostOf r))" "set (order c (hostOf r)) = {q. q < nr \<and> hostOf q = hostOf r}"
    "intra (graphRing (graphs r)) c = map int (order c (hostOf r))" if "c < nc" for c
    using rings r that unfolding hostRings_def nc_def by blast+
  have nc: "0 < nc" using rings r by (simp add: hostRings_def nc_def)
  have len: "length (order c (hostOf r)) = card {q. q < nr \<and> hostOf q = hostOf r}" if "c < nc" for c
    using distinct_card [OF o(1) [OF that]] o(2) [OF that] by simp
  have comm: "nChannels comm = nc" "localRanks comm = card {q. q < nr \<and> hostOf q = hostOf r}" "rank comm = r"
    using comms r len [OF nc] by (simp_all add: comm_def hostComms_def)
  have c: "c < nChannels comm" using c by (simp add: comm nc_def)
  have ex: "\<exists>i < localRanks comm. order c (hostOf r) ! i = rank comm" if "c < nc" for c
    using o(2) [OF that] r len [OF that] unfolding comm by (metis (mono_tags, lifting) in_set_conv_nth mem_Collect_eq)
  have "ringInfo (snd (ncclTopoPreset comm (graphs r) tr)) c = placeInfo (map int (order c (hostOf r))) (localRanks comm) i"
    "crossNicRing (snd (ncclTopoPreset comm (graphs r) tr)) = crossNic (graphRing (graphs r))"
    using ncclTopoPreset_ringInfo [of c comm "graphs r" "\<lambda>c. order c (hostOf r)" i tr] c o ex len i unfolding comm(1) by (simp_all add: comm)
  moreover have "topoRanks (snd (publishRank (comms r) (graphs r) tr)) = snd (ncclTopoPreset comm (graphs r) tr)"
    by (simp add: publishRank_def Let_def case_prod_beta comm_def nc_def)
  moreover have "crossNic (graphRing (graphs r)) = crossing (hostOf r)" using rings r by (simp add: hostRings_def)
  ultimately show "ringInfo (topoRanks (snd (publishRank (comms r) (graphs r) tr))) c = placeInfo (map int (order c (hostOf r))) (length (order c (hostOf r))) i"
    "crossNicRing (topoRanks (snd (publishRank (comms r) (graphs r) tr))) = crossing (hostOf r)"
    using len c comm by simp_all
qed

text \<open>The nodes that are recognised are the hosts.\<close>

lemma nodes_are_hosts:
  assumes rings: "hostRings nr hostOf order crossing graphs" and comms: "hostComms nr hostOf order comms"
    and d: "d = discoverNodes (exchanged nr comms graphs tr)" and first: "first = (\<lambda>n. nat (nodesFirstRank d ! n))"
  shows "\<forall>r < nr. nodeOfRank d ! r < length (nodesFirstRank d)" "length (nodeOfRank d) = nr"
    "\<forall>n < length (nodesFirstRank d). first n < nr \<and> nodeOfRank d ! first n = n"
    "\<forall>r < nr. \<forall>q < nr. nodeOfRank d ! r = nodeOfRank d ! q \<longleftrightarrow> hostOf r = hostOf q"
proof -
  let ?infos = "exchanged nr comms graphs tr"
  have len: "length ?infos = nr" by (simp add: exchanged_def)
  have nth: "?infos ! r = snd (publishRank (comms r) (graphs r) tr)" if "r < nr" for r using that by (simp add: exchanged_def)
  have o: "distinct (order 0 (hostOf r))" "set (order 0 (hostOf r)) = {q. q < nr \<and> hostOf q = hostOf r}" if "r < nr" for r
    using rings that unfolding hostRings_def by auto
  have hd: "hd (order 0 (hostOf r)) < nr \<and> hostOf (hd (order 0 (hostOf r))) = hostOf r" if "r < nr" for r
  proof -
    have "r \<in> set (order 0 (hostOf r))" unfolding o(2) [OF that] using that by simp
    then have "order 0 (hostOf r) \<noteq> []" by (metis empty_iff list.set(1))
    from hd_in_set [OF this] show ?thesis unfolding o(2) [OF that] by simp
  qed
  have recv: "ringRecv (topoRanks (?infos ! r)) 0 = int (hd (order 0 (hostOf r)))" if r: "r < nr" for r
  proof -
    obtain i where i: "i < length (order 0 (hostOf r))" "order 0 (hostOf r) ! i = r"
      using o(2) [OF r] r by (metis (mono_tags, lifting) in_set_conv_nth mem_Collect_eq)
    have "0 < min (graph_nChannels (graphTree (graphs r))) (graph_nChannels (graphRing (graphs r)))"
      using rings r by (simp add: hostRings_def)
    from placeInfo_sel(1) [OF publishRank_info(1) [OF rings comms r this i] i(1)] show ?thesis unfolding nth [OF r] .
  qed
  note inv = discoverNodes_inv [of ?infos, folded d, unfolded len]
  have dist: "distinct (nodesFirstRank d)" using inv by blast
  show node: "\<forall>r < nr. nodeOfRank d ! r < length (nodesFirstRank d)" and "length (nodeOfRank d) = nr"
    using inv by auto
  have fr: "nodesFirstRank d ! (nodeOfRank d ! r) = int (hd (order 0 (hostOf r)))" if "r < nr" for r
    using inv recv that by auto
  show iff: "\<forall>r < nr. \<forall>q < nr. nodeOfRank d ! r = nodeOfRank d ! q \<longleftrightarrow> hostOf r = hostOf q"
  proof (intro allI impI)
    fix r q assume rq: "r < nr" "q < nr"
    have "nodeOfRank d ! r = nodeOfRank d ! q \<longleftrightarrow> nodesFirstRank d ! (nodeOfRank d ! r) = nodesFirstRank d ! (nodeOfRank d ! q)"
      using nth_eq_iff_index_eq [OF dist] node rq by blast
    also have "\<dots> \<longleftrightarrow> hd (order 0 (hostOf r)) = hd (order 0 (hostOf q))" using fr rq by simp
    also have "\<dots> \<longleftrightarrow> hostOf r = hostOf q" using hd rq by metis
    finally show "nodeOfRank d ! r = nodeOfRank d ! q \<longleftrightarrow> hostOf r = hostOf q" .
  qed
  show "\<forall>n < length (nodesFirstRank d). first n < nr \<and> nodeOfRank d ! first n = n"
  proof (intro allI impI)
    fix n assume n: "n < length (nodesFirstRank d)"
    have "nodesFirstRank d ! n \<in> (\<lambda>info. ringRecv (topoRanks info) 0) ` set ?infos" using inv nth_mem [OF n] by metis
    then obtain r where r: "r < nr" "nodesFirstRank d ! n = ringRecv (topoRanks (?infos ! r)) 0"
      using len by (auto simp: in_set_conv_nth)
    have f: "first n = hd (order 0 (hostOf r))" using r recv by (simp add: first)
    have "nodesFirstRank d ! (nodeOfRank d ! r) = nodesFirstRank d ! n" using fr r recv by simp
    then have "nodeOfRank d ! r = n" using nth_eq_iff_index_eq [OF dist] node n r(1) by blast
    then show "first n < nr \<and> nodeOfRank d ! first n = n" using iff hd [OF r(1)] r(1) unfolding f by metis
  qed
qed

lemma aligned_channels:
  assumes "r < nr" "\<forall>r < nr. f (snd (publishRank (comms r) (graphs r) tr)) = g (graphs r)"
  shows "alignChannels f (exchanged nr comms graphs tr) (g (graphs r)) = Min ((\<lambda>r. g (graphs r)) ` {..<nr})"
proof -
  have "insert (g (graphs r)) (f ` set (exchanged nr comms graphs tr)) = (\<lambda>r. g (graphs r)) ` {..<nr}"
    using assms by (auto simp: exchanged_def image_image)
  then show ?thesis by (simp only: alignChannels_min)
qed

text \<open>The number of channels after the alignment.\<close>

definition commonChannels :: "nat \<Rightarrow> (nat \<Rightarrow> topoGraphs) \<Rightarrow> nat" where
  "commonChannels nr graphs = min (Min ((\<lambda>r. graph_nChannels (graphTree (graphs r))) ` {..<nr})) (Min ((\<lambda>r. graph_nChannels (graphRing (graphs r))) ` {..<nr}))"

lemma commonChannels_le:
  "r < nr \<Longrightarrow> commonChannels nr graphs \<le> min (graph_nChannels (graphTree (graphs r))) (graph_nChannels (graphRing (graphs r)))"
  unfolding commonChannels_def by (intro min.mono Min_le) auto

lemma commonChannels_pos:
  assumes "hostRings nr hostOf order crossing graphs" "r < nr"
  shows "0 < commonChannels nr graphs"
proof -
  have "(\<lambda>r. graph_nChannels (graphTree (graphs r))) ` {..<nr} \<noteq> {}" "(\<lambda>r. graph_nChannels (graphRing (graphs r))) ` {..<nr} \<noteq> {}"
    using assms(2) by auto
  then show ?thesis
    using assms(1) unfolding commonChannels_def hostRings_def by (simp add: Min_gr_iff)
qed

lemma publishRank_comm:
  fixes comm :: ncclComm and graphs :: topoGraphs
  defines "nc \<equiv> min (graph_nChannels (graphTree graphs)) (graph_nChannels (graphRing graphs))"
  shows "rank (fst (publishRank comm graphs tr)) = rank comm" "commConf (fst (publishRank comm graphs tr)) = commConf comm"
    "nChannels (fst (publishRank comm graphs tr)) = nc"
    "c < 2 * nc \<Longrightarrow> treeRoom (channels (fst (publishRank comm graphs tr)) c)"
proof -
  have eq: "fst (publishRank comm graphs tr) = fst (ncclTopoPreset (comm\<lparr>nChannels := nc\<rparr>) graphs tr)"
    by (simp add: publishRank_def Let_def case_prod_beta nc_def)
  show "rank (fst (publishRank comm graphs tr)) = rank comm" "commConf (fst (publishRank comm graphs tr)) = commConf comm"
    "nChannels (fst (publishRank comm graphs tr)) = nc"
    unfolding eq by (simp_all add: ncclTopoPreset_def Let_def case_prod_beta commConf_def)
  show "c < 2 * nc \<Longrightarrow> treeRoom (channels (fst (publishRank comm graphs tr)) c)"
    unfolding eq by (rule ncclTopoPreset_treeRoom) simp
qed

text \<open>The configuration of all ranks when the nodes are joined.\<close>

definition commonConf :: "nat \<Rightarrow> nat \<Rightarrow> nat \<Rightarrow> ncclComm \<Rightarrow> nat \<times> nat \<times> bool \<times> int \<times> bool \<times> int \<times> int \<times> bool \<times> int" where
  "commonConf nn ncn thr comm = (case commConf comm of (nr, _, coll, rest) \<Rightarrow> (nr, nn, coll \<and> ncn \<noteq> 0 \<and> \<not> nn < thr, rest))"

text \<open>The communicator of rank \<open>r\<close> when the nodes are joined.\<close>

definition plannedComm :: "nat \<Rightarrow> (nat \<Rightarrow> ncclComm) \<Rightarrow> (nat \<Rightarrow> topoGraphs) \<Rightarrow> ncclTopoRanks \<Rightarrow> nodeDiscovery \<Rightarrow> nat \<Rightarrow> ncclComm \<Rightarrow> bool" where
  "plannedComm nr comms graphs tr d r A \<longleftrightarrow> rank A = r \<and> nRanks A = nr \<and> nNodes A = length (nodesFirstRank d) \<and> node A = nodeOfRank d ! r \<and>
     rankToNode A = (\<lambda>r. nodeOfRank d ! r) \<and> nChannels A = commonChannels nr graphs \<and>
     (\<forall>c < commonChannels nr graphs. channels A c = channels (fst (publishRank (comms r) (graphs r) tr)) c \<and>
       channels A (c + commonChannels nr graphs) = channels (fst (publishRank (comms r) (graphs r) tr))
         (c + min (graph_nChannels (graphTree (graphs r))) (graph_nChannels (graphRing (graphs r)))))"

lemma connectNodes_eval:
  assumes rings: "hostRings nr hostOf order crossing graphs" and comms: "hostComms nr hostOf order comms" and r: "r < nr"
    and infos: "infos = exchanged nr comms graphs tr" and d: "d = discoverNodes infos"
  shows "\<exists>A G. connectNodes params infos (graphs r) nvlsTuned thr par (fst (publishRank (comms r) (graphs r) tr)) =
      ncclTopoPostset True params A (\<lambda>n. nat (nodesFirstRank d ! n)) (\<lambda>r. topoRanks (infos ! r)) G par \<and> sameSpeeds (graphs r) G \<and>
    plannedComm nr comms graphs tr d r A \<and> connectable A \<and>
    commConf A = commonConf (length (nodesFirstRank d)) (Min ((\<lambda>r. graph_nChannels (graphCollNetChain (graphs r))) ` {..<nr})) thr (comms r)"
proof -
  define comm where "comm = fst (publishRank (comms r) (graphs r) tr)"
  define nOrig where "nOrig = min (graph_nChannels (graphTree (graphs r))) (graph_nChannels (graphRing (graphs r)))"
  note pub = publishRank_comm [where comm = "comms r" and graphs = "graphs r" and tr = tr, folded comm_def nOrig_def]
  have cr: "rank (comms r) = r" "nRanks (comms r) = nr" "limitsOk (comms r)" using comms r by (simp_all add: hostComms_def)
  have hosts: "length (nodeOfRank d) = nr" using nodes_are_hosts(2) [OF rings comms] d infos by blast
  have "r \<in> set (fillNodeRanks (nodeOfRank d) (nodeOfRank d ! r))" using r hosts by (simp add: fillNodeRanks_eq)
  then have ne: "fillNodeRanks (nodeOfRank d) (nodeOfRank d ! r) \<noteq> []" by (metis empty_iff list.set(1))
  obtain counts locals where cl: "countLocalRanks (nodeOfRank d) = (counts, locals)" by fastforce
  define commL where "commL = comm\<lparr>nNodes := length (nodesFirstRank d), rankToNode := (\<lambda>r. nodeOfRank d ! r),
    maxLocalRanks := fold (\<lambda>n m. max m (counts n)) [0..<length (nodesFirstRank d)] (maxLocalRanks comm), node := nodeOfRank d ! rank comm,
    localRanks := length (fillNodeRanks (nodeOfRank d) (nodeOfRank d ! rank comm))\<rparr>"
  have L: "initLocalRanks comm d = Inr commL"
    using ne pub(1) cr(1) by (simp add: initLocalRanks_def cl commL_def Let_def)
  define G where "G = alignGraphs infos (graphs r)"
  define A where "A = alignComm G nvlsTuned thr commL"
  have al: "alignChannels infoTreeChannels infos (graph_nChannels (graphTree (graphs r))) = Min ((\<lambda>r. graph_nChannels (graphTree (graphs r))) ` {..<nr})"
    "alignChannels infoRingChannels infos (graph_nChannels (graphRing (graphs r))) = Min ((\<lambda>r. graph_nChannels (graphRing (graphs r))) ` {..<nr})"
    "alignChannels infoCollNetChannels infos (graph_nChannels (graphCollNetChain (graphs r))) = Min ((\<lambda>r. graph_nChannels (graphCollNetChain (graphs r))) ` {..<nr})"
    unfolding infos by (rule aligned_channels [OF r], simp add: publishRank_def Let_def case_prod_beta)+
  have A: "rank A = r" "rankToNode A = (\<lambda>r. nodeOfRank d ! r)" "nChannels A = commonChannels nr graphs"
    "channels A = moveChannels nOrig (commonChannels nr graphs) (channels comm)" "node A = nodeOfRank d ! r"
    "commConf A = commonConf (length (nodesFirstRank d)) (Min ((\<lambda>r. graph_nChannels (graphCollNetChain (graphs r))) ` {..<nr})) thr (comms r)"
    using pub(1-3) cr al
    by (simp_all add: A_def G_def alignComm_def alignGraphs_def withChannels_def commL_def Let_def commonChannels_def commonConf_def commConf_def)
  have "limitsOk A" "nRanks A = nr"
    using cr A(6) by (simp_all add: limitsOk_def commonConf_def commConf_def)
  moreover have le: "commonChannels nr graphs \<le> nOrig" unfolding nOrig_def by (rule commonChannels_le [OF r])
  have "treeRoom (channels A c)" if "c < 2 * commonChannels nr graphs" for c
    unfolding A(4) using moveChannels_room [OF le _ that] pub(4) by blast
  ultimately have "connectable A"
    using A(1,3) r commonChannels_pos [OF rings r] by (simp add: connectable_def)
  moreover define G' where "G' = G\<lparr>graphTree := withChannels (nChannels A) (graphTree G), graphRing := withChannels (nChannels A) (graphRing G)\<rparr>"
  have "connectNodes params infos (graphs r) nvlsTuned thr par comm =
      ncclTopoPostset True params A (\<lambda>n. nat (nodesFirstRank d ! n)) (\<lambda>r. topoRanks (infos ! r)) G' par"
    unfolding connectNodes_def d [symmetric] Let_def L sum.case G_def [symmetric] A_def [symmetric] G'_def [symmetric] ..
  moreover have "sameSpeeds (graphs r) G'"
    by (simp add: sameSpeeds_def G'_def G_def alignGraphs_def withChannels_def Let_def)
  moreover have "plannedComm nr comms graphs tr d r A"
    using A(1-3,5,6) cr(2) moveChannels_rows [OF le, of _ "channels comm", folded A(4)]
    unfolding plannedComm_def comm_def nOrig_def by (simp add: commonConf_def commConf_def)
  ultimately show ?thesis using A(6) unfolding comm_def by blast
qed

lemma cluster_world:
  assumes rings: "hostRings nr hostOf order crossing graphs" and comms: "hostComms nr hostOf order comms" and nr: "0 < nr"
    and infos: "infos = exchanged nr comms graphs tr" and d: "d = discoverNodes infos" and first: "first = (\<lambda>n. nat (nodesFirstRank d ! n))"
  shows "ringWorld nr (length (nodesFirstRank d)) (commonChannels nr graphs) (\<lambda>r. nodeOfRank d ! r) (\<lambda>c n. order c (hostOf (first n)))"
    "describes nr (commonChannels nr graphs) (\<lambda>n. crossing (hostOf (first n))) (\<lambda>r. nodeOfRank d ! r) (\<lambda>c n. order c (hostOf (first n)))
       (\<lambda>r. topoRanks (infos ! r))"
proof -
  note hosts = nodes_are_hosts [OF rings comms d [unfolded infos] first]
  have same: "hostOf (first (nodeOfRank d ! r)) = hostOf r" if "r < nr" for r
    using hosts(1,3,4) that by metis
  have o: "distinct (order c (hostOf r))" "set (order c (hostOf r)) = {q. q < nr \<and> hostOf q = hostOf r}" if "r < nr" "c < commonChannels nr graphs" for r c
    using rings that less_le_trans [OF that(2) commonChannels_le [OF that(1)]] unfolding hostRings_def by blast+
  show "ringWorld nr (length (nodesFirstRank d)) (commonChannels nr graphs) (\<lambda>r. nodeOfRank d ! r) (\<lambda>c n. order c (hostOf (first n)))"
    unfolding ringWorld_def
  proof (intro conjI allI impI)
    show "0 < length (nodesFirstRank d)" using hosts(1) nr by fastforce
    show "nodeOfRank d ! r < length (nodesFirstRank d)" if "r < nr" for r using hosts(1) that by blast
    fix c n assume c: "c < commonChannels nr graphs" and n: "n < length (nodesFirstRank d)"
    have f: "first n < nr" "nodeOfRank d ! first n = n" using hosts(3) n by auto
    show "distinct (order c (hostOf (first n)))" by (rule o(1) [OF f(1) c])
    show s: "set (order c (hostOf (first n))) = {r. r < nr \<and> nodeOfRank d ! r = n}"
      unfolding o(2) [OF f(1) c] using hosts(4) f by (metis (no_types, opaque_lifting))
    have "first n \<in> set (order c (hostOf (first n)))" unfolding s using f by simp
    then show "order c (hostOf (first n)) \<noteq> []" by (metis empty_iff list.set(1))
  qed
  show "describes nr (commonChannels nr graphs) (\<lambda>n. crossing (hostOf (first n))) (\<lambda>r. nodeOfRank d ! r) (\<lambda>c n. order c (hostOf (first n)))
       (\<lambda>r. topoRanks (infos ! r))"
    unfolding describes_def
  proof (intro allI impI conjI)
    fix r assume r: "r < nr"
    have nth: "infos ! r = snd (publishRank (comms r) (graphs r) tr)" using r by (simp add: infos exchanged_def)
    have le: "c < commonChannels nr graphs \<Longrightarrow> c < min (graph_nChannels (graphTree (graphs r))) (graph_nChannels (graphRing (graphs r)))" for c
      by (rule less_le_trans [OF _ commonChannels_le [OF r]])
    note info = publishRank_info [OF rings comms r le, where tr = tr]
    obtain i where "i < length (order 0 (hostOf r))" "order 0 (hostOf r) ! i = r"
      using o(2) [OF r commonChannels_pos [OF rings r]] r by (metis (mono_tags, lifting) in_set_conv_nth mem_Collect_eq)
    then show "crossNicRing (topoRanks (infos ! r)) = crossing (hostOf (first (nodeOfRank d ! r)))"
      unfolding same [OF r] nth by (rule info(2) [OF commonChannels_pos [OF rings r]])
    fix c i assume "c < commonChannels nr graphs" "i < length (order c (hostOf (first (nodeOfRank d ! r))))" "order c (hostOf (first (nodeOfRank d ! r))) ! i = r"
    then show "ringInfo (topoRanks (infos ! r)) c = placeInfo (map int (order c (hostOf (first (nodeOfRank d ! r))))) (length (order c (hostOf (first (nodeOfRank d ! r))))) i"
      unfolding same [OF r] nth by (rule info(1))
  qed
qed

lemma ringView_mutual:
  assumes "ringView W r rg us" "ringView W q rg' us'" "distinct W"
  shows "ring_next rg = int q \<longleftrightarrow> ring_prev rg' = int r"
proof -
  obtain i where i: "i < length W" "W ! i = r" "ring_next rg = int (W ! ((i + 1) mod length W))" using assms(1) by (auto simp: ringView_def)
  obtain j where j: "j < length W" "W ! j = q" "ring_prev rg' = int (W ! ((j + length W - 1) mod length W))" using assms(2) by (auto simp: ringView_def)
  have l: "(i + 1) mod length W < length W" "(j + length W - 1) mod length W < length W" by (rule mod_less_divisor, use i(1) in linarith)+
  have "ring_next rg = int q \<longleftrightarrow> (i + 1) mod length W = j"
    using i j l nth_eq_iff_index_eq [OF assms(3) l(1) j(1)] by auto
  also have "\<dots> \<longleftrightarrow> (j + length W - 1) mod length W = i"
    using i(1) j(1) by (cases "i + 1 = length W"; cases j) (auto simp: mod_if)
  also have "\<dots> \<longleftrightarrow> ring_prev rg' = int r"
    using i j l nth_eq_iff_index_eq [OF assms(3) l(2) i(1)] by auto
  finally show ?thesis .
qed

text \<open>The run of two ranks from the exchange to the joined nodes.\<close>

text \<open>All ranks of a set with the same speeds multiply their channels alike: channel \<open>c\<close> of every rank has row \<open>row c\<close>.\<close>

lemma cluster_rows:
  assumes "hostRings nr hostOf order crossing graphs" and "hostComms nr hostOf order comms" and r0: "r0 < nr"
    and infos: "infos = exchanged nr comms graphs tr" and d: "d = discoverNodes infos" and first: "first = (\<lambda>n. nat (nodesFirstRank d ! n))"
    and W: "W = rowRing (\<lambda>n. crossing (hostOf (first n))) (commonChannels nr graphs) (length (nodesFirstRank d)) (\<lambda>c n. order c (hostOf (first n)))"
  obtains row m where "\<And>r nvlsTuned. r < nr \<Longrightarrow> sameSpeeds (graphs r0) (graphs r) \<Longrightarrow> \<exists>A comm rings chs.
    connectNodes params infos (graphs r) nvlsTuned thr par (fst (publishRank (comms r) (graphs r) tr)) = Some (Inr (comm, rings)) \<and>
    plannedComm nr comms graphs tr d r A \<and> joinedTrees A first (\<lambda>r. topoRanks (infos ! r)) = Inr (A\<lparr>channels := chs\<rparr>) \<and>
    nChannels comm = m \<and> length rings = m \<and>
    (\<forall>c < m. row c < 2 * commonChannels nr graphs \<and> distinct (W (row c)) \<and> set (W (row c)) = {..<nr} \<and>
       ringView (W (row c)) r (ring (channels comm c)) (rings ! c) \<and> tree (channels comm c) = tree (chs (row c)))"
proof -
  define conf where "conf = commonConf (length (nodesFirstRank d)) (Min ((\<lambda>r. graph_nChannels (graphCollNetChain (graphs r))) ` {..<nr})) thr"
  have eval: "\<exists>A G. connectNodes params infos (graphs r) nvlsTuned thr par (fst (publishRank (comms r) (graphs r) tr)) =
      ncclTopoPostset True params A first (\<lambda>r. topoRanks (infos ! r)) G par \<and> sameSpeeds (graphs r) G \<and> plannedComm nr comms graphs tr d r A \<and>
      connectable A \<and> commConf A = conf (comms r)" if "r < nr" for r nvlsTuned
    using connectNodes_eval [OF assms(1,2) that infos d, of params nvlsTuned thr par, folded first] unfolding conf_def by blast
  obtain B H where planB: "plannedComm nr comms graphs tr d r0 B" and spB: "sameSpeeds (graphs r0) H" and B': "connectable B" "commConf B = conf (comms r0)"
    using eval [OF r0, of None] by blast
  define row where "row = rowIndex params H B first (\<lambda>r. topoRanks (infos ! r))"
  define m where "m = rowCount params H par B first (\<lambda>r. topoRanks (infos ! r))"
  have pos: "0 < nr" using r0 by simp
  note world = cluster_world [OF assms(1,2) pos infos d first]
  have Wk: "distinct (W k) \<and> set (W k) = {..<nr}" if "k < 2 * commonChannels nr graphs" for k
  proof -
    have "(if k < commonChannels nr graphs then k else k - commonChannels nr graphs) < commonChannels nr graphs" using that by auto
    from wholeRing_props(1,2) [OF world(1) this] show ?thesis unfolding W rowRing_def by blast
  qed
  show thesis
  proof (rule that [of m row])
    fix r nvlsTuned
    assume r: "r < nr" and sp0: "sameSpeeds (graphs r0) (graphs r)"
    obtain A G where A: "connectNodes params infos (graphs r) nvlsTuned thr par (fst (publishRank (comms r) (graphs r) tr)) =
        ncclTopoPostset True params A first (\<lambda>r. topoRanks (infos ! r)) G par" and spA: "sameSpeeds (graphs r) G" and planA: "plannedComm nr comms graphs tr d r A"
        and A': "connectable A" "commConf A = conf (comms r)"
      using eval [OF r] by blast
    have conf: "commConf (comms r0) = commConf (comms r)" using assms(2) r r0 unfolding hostComms_def by blast
    have pA: "rank A = r" "nRanks A = nr" "nNodes A = length (nodesFirstRank d)" "rankToNode A = (\<lambda>r. nodeOfRank d ! r)" "nChannels A = commonChannels nr graphs"
      using planA by (simp_all add: plannedComm_def)
    have pB: "nChannels B = nChannels A" "rankToNode B = rankToNode A" using planB pA by (simp_all add: plannedComm_def)
    have plan: "samePlan A B" using A'(2) B'(2) conf pB by (simp add: samePlan_def conf_def commonConf_def)
    have sp: "sameSpeeds G H" using sp0 spA spB by (simp add: sameSpeeds_def)
    have fst: "\<forall>n < nNodes A. first n < nRanks A \<and> rankToNode A (first n) = n"
      using nodes_are_hosts(3) [OF assms(1,2) d [unfolded infos] first] unfolding pA by blast
    have wA: "ringWorld (nRanks A) (nNodes A) (nChannels A) (rankToNode A) (\<lambda>c n. order c (hostOf (first n)))"
      "describes (nRanks A) (nChannels A) (\<lambda>n. crossing (hostOf (first n))) (rankToNode A) (\<lambda>c n. order c (hostOf (first n))) (\<lambda>r. topoRanks (infos ! r))"
      unfolding pA by (rule world)+
    obtain comm rings chs where res:
      "ncclTopoPostset True params A first (\<lambda>r. topoRanks (infos ! r)) G par = Some (Inr (comm, rings))"
      "joinedTrees A first (\<lambda>r. topoRanks (infos ! r)) = Inr (A\<lparr>channels := chs\<rparr>)" "nChannels comm = m" "length rings = m"
      "\<forall>c < m. row c < 2 * commonChannels nr graphs \<and> ringView (W (row c)) r (ring (channels comm c)) (rings ! c) \<and> tree (channels comm c) = tree (chs (row c))"
      using ncclTopoPostset_rows [OF wA fst A'(1) B'(1) plan sp row_def m_def, unfolded pA(1,3,5), folded W] by (elim exE conjE) (rule that; assumption)
    have "\<forall>c < m. row c < 2 * commonChannels nr graphs \<and> distinct (W (row c)) \<and> set (W (row c)) = {..<nr} \<and>
       ringView (W (row c)) r (ring (channels comm c)) (rings ! c) \<and> tree (channels comm c) = tree (chs (row c))"
      using res(5) Wk by blast
    then show "\<exists>A comm rings chs. connectNodes params infos (graphs r) nvlsTuned thr par (fst (publishRank (comms r) (graphs r) tr)) = Some (Inr (comm, rings)) \<and>
      plannedComm nr comms graphs tr d r A \<and> joinedTrees A first (\<lambda>r. topoRanks (infos ! r)) = Inr (A\<lparr>channels := chs\<rparr>) \<and>
      nChannels comm = m \<and> length rings = m \<and>
      (\<forall>c < m. row c < 2 * commonChannels nr graphs \<and> distinct (W (row c)) \<and> set (W (row c)) = {..<nr} \<and>
         ringView (W (row c)) r (ring (channels comm c)) (rings ! c) \<and> tree (channels comm c) = tree (chs (row c)))"
      unfolding A using res(1-4) planA by (intro exI [of _ A] exI [of _ comm] exI [of _ rings] exI [of _ chs]) simp
  qed
qed

text \<open>
  C7: Joining the nodes gives every rank the same rings. When on every host the search found, for every channel, an order
  of exactly the ranks of the host, then the description of the places, the exchange, the recognition of the nodes, the
  alignment of the channels and the join succeed on all ranks; any two ranks have the same number of channels, and in every
  channel both see, from their own place, one ring through all ranks: its order is what the check of the rings returns, and
  the next rank of one is the other exactly when the previous rank of the other is the one.
\<close>

theorem all_ranks_join_in_rings:
  assumes "hostRings nr hostOf order crossing graphs" and "hostComms nr hostOf order comms" and "r < nr" "q < nr"
    and "sameSpeeds (graphs r) (graphs q)"
  shows "\<exists>comm rings comm' rings'.
    connectNodes params (exchanged nr comms graphs tr) (graphs r) nvlsTuned thr par (fst (publishRank (comms r) (graphs r) tr)) = Some (Inr (comm, rings)) \<and>
    connectNodes params (exchanged nr comms graphs tr) (graphs q) nvlsTuned' thr par (fst (publishRank (comms q) (graphs q) tr)) = Some (Inr (comm', rings')) \<and>
    nChannels comm' = nChannels comm \<and> length rings = nChannels comm \<and> length rings' = nChannels comm \<and>
    (\<forall>c < nChannels comm. \<exists>W. distinct W \<and> set W = {..<nr} \<and>
       ringView W r (ring (channels comm c)) (rings ! c) \<and> ringView W q (ring (channels comm' c)) (rings' ! c) \<and>
       (ring_next (ring (channels comm c)) = int q \<longleftrightarrow> ring_prev (ring (channels comm' c)) = int r))"
proof -
  define first where "first = (\<lambda>n. nat (nodesFirstRank (discoverNodes (exchanged nr comms graphs tr)) ! n))"
  define W where "W = rowRing (\<lambda>n. crossing (hostOf (first n))) (commonChannels nr graphs)
    (length (nodesFirstRank (discoverNodes (exchanged nr comms graphs tr)))) (\<lambda>c n. order c (hostOf (first n)))"
  obtain row m where rows: "\<And>x nvlsTuned. x < nr \<Longrightarrow> sameSpeeds (graphs r) (graphs x) \<Longrightarrow> \<exists>A comm rings chs.
    connectNodes params (exchanged nr comms graphs tr) (graphs x) nvlsTuned thr par (fst (publishRank (comms x) (graphs x) tr)) = Some (Inr (comm, rings)) \<and>
    plannedComm nr comms graphs tr (discoverNodes (exchanged nr comms graphs tr)) x A \<and>
    joinedTrees A first (\<lambda>r. topoRanks (exchanged nr comms graphs tr ! r)) = Inr (A\<lparr>channels := chs\<rparr>) \<and> nChannels comm = m \<and> length rings = m \<and>
    (\<forall>c < m. row c < 2 * commonChannels nr graphs \<and> distinct (W (row c)) \<and> set (W (row c)) = {..<nr} \<and>
       ringView (W (row c)) x (ring (channels comm c)) (rings ! c) \<and> tree (channels comm c) = tree (chs (row c)))"
    by (rule cluster_rows [OF assms(1-3) refl refl first_def W_def, of params thr par]) (rule that)
  have "sameSpeeds (graphs r) (graphs r)" by (simp add: sameSpeeds_def)
  from rows [OF assms(3) this, of nvlsTuned] obtain comm rings and chs :: "nat \<Rightarrow> ncclChannel" where one:
    "connectNodes params (exchanged nr comms graphs tr) (graphs r) nvlsTuned thr par (fst (publishRank (comms r) (graphs r) tr)) = Some (Inr (comm, rings))"
    "nChannels comm = m" "length rings = m" "\<forall>c < m. row c < 2 * commonChannels nr graphs \<and> distinct (W (row c)) \<and> set (W (row c)) = {..<nr} \<and>
       ringView (W (row c)) r (ring (channels comm c)) (rings ! c) \<and> tree (channels comm c) = tree (chs (row c))"
    by (elim exE conjE) (rule that; assumption)
  from rows [OF assms(4,5), of nvlsTuned'] obtain comm' rings' and chs :: "nat \<Rightarrow> ncclChannel" where two:
    "connectNodes params (exchanged nr comms graphs tr) (graphs q) nvlsTuned' thr par (fst (publishRank (comms q) (graphs q) tr)) = Some (Inr (comm', rings'))"
    "nChannels comm' = m" "length rings' = m" "\<forall>c < m. row c < 2 * commonChannels nr graphs \<and> distinct (W (row c)) \<and> set (W (row c)) = {..<nr} \<and>
       ringView (W (row c)) q (ring (channels comm' c)) (rings' ! c) \<and> tree (channels comm' c) = tree (chs (row c))"
    by (elim exE conjE) (rule that; assumption)
  have view: "\<exists>W. distinct W \<and> set W = {..<nr} \<and> ringView W r (ring (channels comm c)) (rings ! c) \<and> ringView W q (ring (channels comm' c)) (rings' ! c) \<and>
       (ring_next (ring (channels comm c)) = int q \<longleftrightarrow> ring_prev (ring (channels comm' c)) = int r)" if c: "c < nChannels comm" for c
  proof -
    have k: "distinct (W (row c))" "set (W (row c)) = {..<nr}" "ringView (W (row c)) r (ring (channels comm c)) (rings ! c)"
        "ringView (W (row c)) q (ring (channels comm' c)) (rings' ! c)"
      using one(2,4) two(4) c by simp_all
    show ?thesis using k ringView_mutual [OF k(3,4,1)] by blast
  qed
  show ?thesis
    unfolding one(1) two(1) using one(2,3) two(2,3) view
    by (intro exI [of _ comm] exI [of _ rings] exI [of _ comm'] exI [of _ rings']) simp
qed

text \<open>Four ranks on two hosts, with one channel that both hosts pass in different orders.\<close>

definition exampleOrder :: "nat \<Rightarrow> nat \<Rightarrow> nat list" where
  "exampleOrder c h = (if h = 0 then [0, 1] else [3, 2])"

definition exampleGraph :: "nat \<Rightarrow> ncclTopoGraph" where
  "exampleGraph r = \<lparr>pattern = PATTERN_RING, crossNic = 0, graph_nChannels = 1, intra = (\<lambda>c. map int (exampleOrder c (r div 2))),
     intraFaster = False, intraHigh = False\<rparr>"

definition exampleGraphs :: "nat \<Rightarrow> topoGraphs" where
  "exampleGraphs r = \<lparr>graphRing = exampleGraph r, graphTree = exampleGraph r, graphCollNetChain = exampleGraph r,
     graphCollNetDirect = exampleGraph r, graphNvls = exampleGraph r\<rparr>"

definition exampleChannel :: ncclChannel where
  "exampleChannel = \<lparr>ring = \<lparr>ring_prev = 0, ring_next = 0\<rparr>, tree = \<lparr>tree_depth = 0, tree_up = 0, tree_down = []\<rparr>,
     collnetChain = \<lparr>tree_depth = 0, tree_up = 0, tree_down = []\<rparr>,
     collnetDirect = \<lparr>direct_depth = 0, direct_out = 0, direct_nHeads = 0, direct_headRank = 0, direct_shift = 0, direct_heads = [], direct_up = [], direct_down = []\<rparr>,
     nvls = \<lparr>nvls_out = 0, nvls_nHeads = 0, nvls_headRank = 0, nvls_up = [], nvls_down = 0, nvls_treeUp = 0, nvls_treeDown = []\<rparr>\<rparr>"

definition exampleComm :: "nat \<Rightarrow> ncclComm" where
  "exampleComm r = \<lparr>rank = r, nRanks = 4, nNodes = 0, node = 0, localRanks = 2, maxLocalRanks = 0, rankToNode = (\<lambda>_. 0), nChannels = 0, nvlsChannels = 0,
     collChannels = 0, channels = (\<lambda>_. exampleChannel), comm_nvlsHeads = [], collnetEnable = False, minCompCap = 80, netDeviceUnpack = False,
     minCTAs = 1, maxCTAs = 32, ownsSharedRes = True, tpNChannels = 0\<rparr>"

definition exampleParams :: channelParams where
  "exampleParams = \<lparr>paramMinNrings = - 2, paramMaxNrings = - 2, paramMinNchannels = - 2, paramMaxNchannels = - 2, paramWorkArgsBytes = 4096,
     paramUnpackDoubleNChannels = False\<rparr>"

definition exampleRanks :: ncclTopoRanks where
  "exampleRanks = \<lparr>crossNicRing = 0, ringRecv = (\<lambda>_. 0), ringSend = (\<lambda>_. 0), ringPrev = (\<lambda>_. 0), ringNext = (\<lambda>_. 0),
     treeToParent = (\<lambda>_. 0), treeToChild0 = (\<lambda>_. 0), treeToChild1 = (\<lambda>_. 0), topoNvlsHeads = []\<rparr>"

lemma example_cluster:
  "hostRings 4 (\<lambda>r. r div 2) exampleOrder (\<lambda>_. 0) exampleGraphs" "hostComms 4 (\<lambda>r. r div 2) exampleOrder exampleComm"
  "sameSpeeds (exampleGraphs 1) (exampleGraphs 3)"
proof -
  have sets: "{q::nat. q < 4 \<and> q div 2 = 0} = {0, 1}" "{q::nat. q < 4 \<and> q div 2 = 1} = {3, 2}" by auto
  have half: "r div 2 = 0 \<or> r div 2 = 1" if "r < 4" for r :: nat using that by auto
  have o: "distinct (exampleOrder c h)" "length (exampleOrder c h) = 2" for c h by (simp_all add: exampleOrder_def)
  have s: "set (exampleOrder c (r div 2)) = {q. q < 4 \<and> q div 2 = r div 2}" if r: "r < 4" for c r
  proof (cases "r div 2 = 0")
    case True
    then show ?thesis unfolding True sets by (simp add: exampleOrder_def)
  next
    case False
    then have one: "r div 2 = 1" using half [OF r] by simp
    show ?thesis unfolding one sets by (simp add: exampleOrder_def)
  qed
  show "hostRings 4 (\<lambda>r. r div 2) exampleOrder (\<lambda>_. 0) exampleGraphs"
    unfolding hostRings_def by (simp add: exampleGraphs_def exampleGraph_def o s)
  show "hostComms 4 (\<lambda>r. r div 2) exampleOrder exampleComm"
    unfolding hostComms_def by (simp add: exampleComm_def o limitsOk_def commConf_def)
  show "sameSpeeds (exampleGraphs 1) (exampleGraphs 3)" by (simp add: sameSpeeds_def exampleGraphs_def exampleGraph_def)
qed

theorem all_ranks_join_in_rings_witness:
  "\<exists>comm rings comm' rings'.
    connectNodes exampleParams (exchanged 4 exampleComm exampleGraphs exampleRanks) (exampleGraphs 1) None 2 None
      (fst (publishRank (exampleComm 1) (exampleGraphs 1) exampleRanks)) = Some (Inr (comm, rings)) \<and>
    connectNodes exampleParams (exchanged 4 exampleComm exampleGraphs exampleRanks) (exampleGraphs 3) None 2 None
      (fst (publishRank (exampleComm 3) (exampleGraphs 3) exampleRanks)) = Some (Inr (comm', rings')) \<and>
    nChannels comm' = nChannels comm"
  using all_ranks_join_in_rings [OF example_cluster(1,2) _ _ example_cluster(3), of exampleParams exampleRanks None 2 None None] by auto

end
