(* ===== verification/Topo_Trees.thy ===== *)
theory Topo_Trees
  imports Topo_Init
begin
unbundle bit_operations_syntax

text \<open>
  The trees of all ranks.  On every node the ranks of a channel form a chain; the joints of
  \<^verbatim>\<open>connectTrees\<close> hang the chain of a node below a rank of the parent node in one of the two trees between nodes.
  The parent that a rank gets and the children that the other ranks get agree.
\<close>

section \<open>The two children of a node are different\<close>

lemma down1Loop_above: "d = - 1 \<or> int r < d \<Longrightarrow> down1Loop n r l d = - 1 \<or> int r < down1Loop n r l d"
proof (induction n r l d rule: down1Loop.induct)
  case (1 n r l d)
  show ?case
  proof (cases "d \<ge> int n")
    case True
    then show ?thesis using 1(1) [OF True] by (subst (1 2) down1Loop.simps) (auto split: if_splits)
  next
    case False
    then show ?thesis using 1(2) by (subst (1 2) down1Loop.simps) simp
  qed
qed

definition childrenDiffer :: "btree \<Rightarrow> bool" where
  "childrenDiffer t \<longleftrightarrow> down0 t = - 1 \<or> down0 t \<noteq> down1 t"

lemma btree_children:
  assumes "r < n"
  shows "childrenDiffer (ncclGetBtree n r)"
proof (cases "r = 0")
  case True
  then show ?thesis by (simp add: childrenDiffer_def ncclGetBtree_def Let_def)
next
  case False
  define l :: nat where "l = 2 ^ btreeBit n r 0 div 2"
  have d0: "down0 (ncclGetBtree n r) = (if l = 0 then - 1 else int r - int l)"
    and d1: "down1 (ncclGetBtree n r) = down1Loop n r l (if l = 0 then - 1 else int r + int l)"
    using False by (simp_all add: ncclGetBtree_def Let_def l_def)
  have "down1 (ncclGetBtree n r) = - 1 \<or> int r < down1 (ncclGetBtree n r)"
    unfolding d1 by (rule down1Loop_above) simp
  then show ?thesis unfolding childrenDiffer_def d0 by auto
qed

lemma relabel_children:
  assumes "childrenDiffer t" "inj_on f {..<n}" "down0 t = - 1 \<or> 0 \<le> down0 t \<and> down0 t < int n" "down1 t = - 1 \<or> 0 \<le> down1 t \<and> down1 t < int n"
  shows "childrenDiffer (relabel f t)"
  using assms by (auto simp: childrenDiffer_def dest!: inj_onD [of f _ "nat (down0 t)" "nat (down1 t)"])

lemma dtree_children:
  assumes "r < n"
  shows "childrenDiffer (fst (ncclGetDtree n r))" "childrenDiffer (snd (ncclGetDtree n r))"
proof -
  show "childrenDiffer (fst (ncclGetDtree n r))" using btree_children [OF assms] by (simp add: ncclGetDtree_def Let_def)
  show "childrenDiffer (snd (ncclGetDtree n r))"
  proof (cases "n mod 2 = 1")
    case True
    have k: "(r + n - 1) mod n < n" using assms by simp
    have "inj_on (\<lambda>i. (i + 1) mod n) {..<n}"
      by (rule inj_onI) (auto simp: mod_if split: if_splits)
    then show ?thesis unfolding second_tree_odd [OF assms True]
      using relabel_children [OF btree_children [OF k]] btree_range [OF k] by blast
  next
    case False
    have k: "n - 1 - r < n" using assms by simp
    have "inj_on (\<lambda>i. n - 1 - i) {..<n}" by (rule inj_onI) auto
    then show ?thesis unfolding second_tree_even [OF assms False]
      using relabel_children [OF btree_children [OF k]] btree_range [OF k] by blast
  qed
qed

section \<open>Chains below a tree of nodes\<close>

text \<open>\<open>L n\<close> is the chain of node \<open>n\<close>, \<open>a n\<close> and \<open>b n\<close> are the places below which the first and the second child of the node hang.\<close>

definition joinUp :: "(nat \<Rightarrow> nat list) \<Rightarrow> (nat \<Rightarrow> nat) \<Rightarrow> (nat \<Rightarrow> nat) \<Rightarrow> (nat \<Rightarrow> btree) \<Rightarrow> nat \<Rightarrow> nat \<Rightarrow> int" where
  "joinUp L a b T n i =
     (if 0 < i then int (L n ! (i - 1)) else if up (T n) = - 1 then - 1
      else let u = nat (up (T n)) in int (L u ! (if parentChildType (T n) = Some 0 then a u else b u)))"

definition joinKids :: "(nat \<Rightarrow> nat list) \<Rightarrow> (nat \<Rightarrow> nat) \<Rightarrow> (nat \<Rightarrow> nat) \<Rightarrow> (nat \<Rightarrow> btree) \<Rightarrow> nat \<Rightarrow> nat \<Rightarrow> int set" where
  "joinKids L a b T n i =
     (if i + 1 < length (L n) then {int (L n ! (i + 1))} else {}) \<union>
     (if i = a n \<and> down0 (T n) \<noteq> - 1 then {int (L (nat (down0 (T n))) ! 0)} else {}) \<union>
     (if i = b n \<and> down1 (T n) \<noteq> - 1 then {int (L (nat (down1 (T n))) ! 0)} else {})"

definition chains :: "nat \<Rightarrow> (nat \<Rightarrow> nat list) \<Rightarrow> (nat \<Rightarrow> nat) \<Rightarrow> (nat \<Rightarrow> nat) \<Rightarrow> bool" where
  "chains nn L a b \<longleftrightarrow> (\<forall>n < nn. L n \<noteq> [] \<and> a n < length (L n) \<and> b n < length (L n)) \<and>
     (\<forall>n < nn. \<forall>m < nn. \<forall>i < length (L n). \<forall>j < length (L m). L n ! i = L m ! j \<longrightarrow> n = m \<and> i = j)"

lemma chains_inj:
  assumes "chains nn L a b" "n < nn" "m < nn" "i < length (L n)" "j < length (L m)"
  shows "int (L n ! i) = int (L m ! j) \<longleftrightarrow> n = m \<and> i = j"
  using assms by (auto simp: chains_def)

lemma node_children:
  assumes T: "tree_consistent nn root T" and differ: "\<forall>n < nn. childrenDiffer (T n)" and n: "n < nn" "n \<noteq> root" and m: "m < nn"
  shows "down0 (T m) = int n \<longleftrightarrow> up (T n) = int m \<and> parentChildType (T n) = Some 0"
    "down1 (T m) = int n \<longleftrightarrow> up (T n) = int m \<and> parentChildType (T n) \<noteq> Some 0"
proof -
  obtain u where u: "u < nn" "up (T n) = int u" "parentChildType (T n) = Some 0 \<and> down0 (T u) = int n \<or> parentChildType (T n) = Some 1 \<and> down1 (T u) = int n"
    using T n unfolding tree_consistent_def by blast
  have par: "up (T n) = int m" if "down0 (T m) = int n \<or> down1 (T m) = int n"
    using T m that unfolding tree_consistent_def child_def by force
  have d: "\<not> (down0 (T m) = int n \<and> down1 (T m) = int n)" using differ m by (auto simp: childrenDiffer_def)
  show "down0 (T m) = int n \<longleftrightarrow> up (T n) = int m \<and> parentChildType (T n) = Some 0"
    "down1 (T m) = int n \<longleftrightarrow> up (T n) = int m \<and> parentChildType (T n) \<noteq> Some 0"
    using u par d by auto
qed

lemma root_not_child:
  assumes T: "tree_consistent nn root T" and m: "m < nn"
  shows "down0 (T m) \<noteq> int root" "down1 (T m) \<noteq> int root"
  using T m unfolding tree_consistent_def child_def by force+

lemma child_range:
  assumes T: "tree_consistent nn root T" and m: "m < nn"
  shows "down0 (T m) \<noteq> - 1 \<Longrightarrow> \<exists>n < nn. down0 (T m) = int n" "down1 (T m) \<noteq> - 1 \<Longrightarrow> \<exists>n < nn. down1 (T m) = int n"
  using T m unfolding tree_consistent_def child_def by blast+

lemma join_consistent:
  assumes T: "tree_consistent nn root T" and differ: "\<forall>n < nn. childrenDiffer (T n)" and L: "chains nn L a b"
    and n: "n < nn" "i < length (L n)" and m: "m < nn" "j < length (L m)"
  shows "joinUp L a b T n i = int (L m ! j) \<longleftrightarrow> int (L n ! i) \<in> joinKids L a b T m j"
    "joinUp L a b T n i = - 1 \<longleftrightarrow> n = root \<and> i = 0"
proof -
  note inj = chains_inj [OF L]
  have ne: "L k \<noteq> []" "a k < length (L k)" "b k < length (L k)" if "k < nn" for k using L that by (auto simp: chains_def)
  have joint0: "int (L n ! i) = int (L (nat (down0 (T m))) ! 0) \<longleftrightarrow> down0 (T m) = int n \<and> i = 0" if d: "down0 (T m) \<noteq> - 1"
  proof -
    obtain k where k: "k < nn" "down0 (T m) = int k" using child_range(1) [OF T m(1) d] by blast
    show ?thesis using inj [OF n(1) k(1) n(2), of 0] ne(1) [OF k(1)] k(2) by auto
  qed
  have joint1: "int (L n ! i) = int (L (nat (down1 (T m))) ! 0) \<longleftrightarrow> down1 (T m) = int n \<and> i = 0" if d: "down1 (T m) \<noteq> - 1"
  proof -
    obtain k where k: "k < nn" "down1 (T m) = int k" using child_range(2) [OF T m(1) d] by blast
    show ?thesis using inj [OF n(1) k(1) n(2), of 0] ne(1) [OF k(1)] k(2) by auto
  qed
  have chain: "j + 1 < length (L m) \<Longrightarrow> int (L n ! i) = int (L m ! (j + 1)) \<longleftrightarrow> n = m \<and> i = j + 1"
    using inj [OF n(1) m(1) n(2)] by simp
  have kids: "int (L n ! i) \<in> joinKids L a b T m j \<longleftrightarrow> j + 1 < length (L m) \<and> n = m \<and> i = j + 1 \<or>
      j = a m \<and> down0 (T m) = int n \<and> i = 0 \<or> j = b m \<and> down1 (T m) = int n \<and> i = 0"
    unfolding joinKids_def using joint0 joint1 chain by auto
  show "joinUp L a b T n i = int (L m ! j) \<longleftrightarrow> int (L n ! i) \<in> joinKids L a b T m j"
  proof (cases "0 < i")
    case True
    then have "joinUp L a b T n i = int (L m ! j) \<longleftrightarrow> n = m \<and> i - 1 = j"
      using inj [OF n(1) m(1) _ m(2), of "i - 1"] n(2) by (simp add: joinUp_def)
    then show ?thesis unfolding kids using True n(2) by auto
  next
    case False
    then have i: "i = 0" by simp
    show ?thesis
    proof (cases "n = root")
      case True
      then have "joinUp L a b T n i = - 1" using T i by (simp add: joinUp_def tree_consistent_def)
      then show ?thesis unfolding kids using root_not_child [OF T m(1)] True i by auto
    next
      case False
      obtain u where u: "u < nn" "up (T n) = int u" using T n(1) False unfolding tree_consistent_def by blast
      have "joinUp L a b T n i = int (L m ! j) \<longleftrightarrow> u = m \<and> (if parentChildType (T n) = Some 0 then a u else b u) = j"
        using inj [OF u(1) m(1) _ m(2), of "if parentChildType (T n) = Some 0 then a u else b u"] ne [OF u(1)] u(2) i by (simp add: joinUp_def)
      then show ?thesis unfolding kids node_children [OF T differ n(1) False m(1)] u(2) using i by auto
    qed
  qed
  show "joinUp L a b T n i = - 1 \<longleftrightarrow> n = root \<and> i = 0"
  proof (cases "n = root")
    case True
    then show ?thesis using T by (auto simp: joinUp_def tree_consistent_def)
  next
    case False
    then obtain u where "up (T n) = int u" using T n(1) unfolding tree_consistent_def by blast
    then show ?thesis using False by (simp add: joinUp_def Let_def)
  qed
qed

section \<open>What the joints do to a tree\<close>

definition kids :: "ncclTree \<Rightarrow> int set" where
  "kids t = {x \<in> set (tree_down t). 0 \<le> x}"

lemma set_update_negative:
  fixes xs :: "int list"
  assumes "i < length xs" "xs ! i < 0"
  shows "{x \<in> set (xs[i := v]). 0 \<le> x} = {x \<in> set xs. 0 \<le> x} \<union> (if 0 \<le> v then {v} else {})"
proof -
  define A where "A = set (take i xs) \<union> set (drop (Suc i) xs)"
  have xs: "xs = take i xs @ xs ! i # drop (Suc i) xs" by (rule id_take_nth_drop [OF assms(1)])
  have new: "set (xs[i := v]) = insert v A" unfolding upd_conv_take_nth_drop [OF assms(1)] A_def by simp
  have old: "set xs = insert (xs ! i) A" unfolding A_def using arg_cong [OF xs, of set] unfolding set_append list.set by blast
  show ?thesis unfolding new old using assms(2) by auto
qed

lemma setTreeDown_effect:
  assumes "setTreeDown t idx d = Inr t'" "length (tree_down t) = 3" "d \<noteq> - 1 \<Longrightarrow> 0 \<le> idx (nat d)"
  shows "length (tree_down t') = 3" "tree_up t' = tree_up t" "kids t' = kids t \<union> (if d = - 1 then {} else {idx (nat d)})"
proof -
  define x where "x = length (takeWhile (\<lambda>v. v \<ge> 0) (tree_down t))"
  have tk: "take NCCL_MAX_TREE_ARITY (tree_down t) = tree_down t" using assms(2) by (simp add: NCCL_MAX_TREE_ARITY_def)
  have t': "t' = (if d = - 1 then t else t\<lparr>tree_down := (tree_down t)[x := idx (nat d)]\<rparr>)" "d = - 1 \<or> x \<noteq> 3"
    using assms(1) unfolding setTreeDown_def tk x_def [symmetric] Let_def by (auto simp: NCCL_MAX_TREE_ARITY_def split: if_splits)
  have "x < 3" if "d \<noteq> - 1"
    using t'(2) that length_takeWhile_le [of "\<lambda>v. v \<ge> 0" "tree_down t"] assms(2) unfolding x_def by linarith
  moreover have "tree_down t ! x < 0" if "x < 3"
    using nth_length_takeWhile [of "\<lambda>v. v \<ge> 0" "tree_down t"] that assms(2) unfolding x_def by auto
  ultimately show "length (tree_down t') = 3" "tree_up t' = tree_up t" "kids t' = kids t \<union> (if d = - 1 then {} else {idx (nat d)})"
    using assms(2,3) set_update_negative [of x "tree_down t" "idx (nat d)"] by (auto simp: t'(1) kids_def)
qed

lemma connectTree_effect:
  assumes "connectTree comm bt ttp ttc0 ttc1 depth t = Inr t'" "length (tree_down t) = 3"
    and nn: "down0 bt \<noteq> - 1 \<Longrightarrow> 0 \<le> ttp (nat (down0 bt))" "down1 bt \<noteq> - 1 \<Longrightarrow> 0 \<le> ttp (nat (down1 bt))"
  shows "tree_up t' = (if int (rank comm) = ttp (node comm) \<and> up bt \<noteq> - 1
      then (if (case parentChildType bt of None \<Rightarrow> 0 | Some x \<Rightarrow> x) = 0 then ttc0 else ttc1) (nat (up bt)) else tree_up t)"
    "kids t' = kids t \<union> (if int (rank comm) = ttc0 (node comm) \<and> down0 bt \<noteq> - 1 then {ttp (nat (down0 bt))} else {}) \<union>
      (if int (rank comm) = ttc1 (node comm) \<and> down1 bt \<noteq> - 1 then {ttp (nat (down1 bt))} else {})"
proof -
  define t0 where "t0 = (if int (rank comm) = ttp (node comm)
    then setTreeUp t (if (case parentChildType bt of None \<Rightarrow> 0 | Some x \<Rightarrow> x) = 0 then ttc0 else ttc1) (up bt) else t)"
  have t0: "tree_down t0 = tree_down t" "tree_up t0 = (if int (rank comm) = ttp (node comm) \<and> up bt \<noteq> - 1
      then (if (case parentChildType bt of None \<Rightarrow> 0 | Some x \<Rightarrow> x) = 0 then ttc0 else ttc1) (nat (up bt)) else tree_up t)"
    by (simp_all add: t0_def setTreeUp_def)
  obtain t1 where t1: "(if int (rank comm) = ttc0 (node comm) then setTreeDown t0 ttp (down0 bt) else Inr t0) = Inr t1"
    using assms(1) unfolding connectTree_def Let_def t0_def [symmetric] by (auto split: sum.splits)
  obtain t2 where t2: "(if int (rank comm) = ttc1 (node comm) then setTreeDown t1 ttp (down1 bt) else Inr t1) = Inr t2"
    using assms(1) unfolding connectTree_def Let_def t0_def [symmetric] t1 by (auto split: sum.splits)
  have t': "t' = t2\<lparr>tree_depth := depth\<rparr>"
    using assms(1) unfolding connectTree_def Let_def t0_def [symmetric] t1 sum.case t2 by simp
  have e1: "length (tree_down t1) = 3 \<and> tree_up t1 = tree_up t0 \<and>
      kids t1 = kids t0 \<union> (if int (rank comm) = ttc0 (node comm) \<and> down0 bt \<noteq> - 1 then {ttp (nat (down0 bt))} else {})"
    using setTreeDown_effect [of t0 ttp "down0 bt" t1] t1 assms(2) t0(1) nn(1) by (cases "int (rank comm) = ttc0 (node comm)") auto
  have e2: "tree_up t2 = tree_up t1 \<and>
      kids t2 = kids t1 \<union> (if int (rank comm) = ttc1 (node comm) \<and> down1 bt \<noteq> - 1 then {ttp (nat (down1 bt))} else {})"
    using setTreeDown_effect [of t1 ttp "down1 bt" t2] t2 e1 nn(2) by (cases "int (rank comm) = ttc1 (node comm)") auto
  have k0: "kids t0 = kids t" by (simp add: kids_def t0(1))
  show "tree_up t' = (if int (rank comm) = ttp (node comm) \<and> up bt \<noteq> - 1
      then (if (case parentChildType bt of None \<Rightarrow> 0 | Some x \<Rightarrow> x) = 0 then ttc0 else ttc1) (nat (up bt)) else tree_up t)"
    using e1 e2 t0(2) by (simp add: t')
  have "kids t' = kids t2" by (simp add: t' kids_def)
  then show "kids t' = kids t \<union> (if int (rank comm) = ttc0 (node comm) \<and> down0 bt \<noteq> - 1 then {ttp (nat (down0 bt))} else {}) \<union>
      (if int (rank comm) = ttc1 (node comm) \<and> down1 bt \<noteq> - 1 then {ttp (nat (down1 bt))} else {})"
    using e1 e2 k0 by simp
qed

lemma connectTreesFrom_channel:
  assumes "connectTreesFrom comm t0 t1 ttp ttc0 ttc1 depth cs chs = Inr chs'" "distinct cs" "set cs \<subseteq> {..<nChannels comm}" "c < nChannels comm"
  shows "if c \<in> set cs
    then connectTree comm t0 (ttp c) (ttc0 c) (ttc1 c) depth (tree (chs c)) = Inr (tree (chs' c)) \<and>
      connectTree comm t1 (ttp c) (ttc0 c) (ttc1 c) depth (tree (chs (c + nChannels comm))) = Inr (tree (chs' (c + nChannels comm)))
    else chs' c = chs c \<and> chs' (c + nChannels comm) = chs (c + nChannels comm)"
  using assms(1-3)
proof (induction cs arbitrary: chs)
  case (Cons d cs)
  obtain tr0 tr1 where tr: "connectTree comm t0 (ttp d) (ttc0 d) (ttc1 d) depth (tree (chs d)) = Inr tr0"
      "connectTree comm t1 (ttp d) (ttc0 d) (ttc1 d) depth (tree (chs (d + nChannels comm))) = Inr tr1"
    using Cons.prems(1) by (auto split: sum.splits)
  define chs1 where "chs1 = chs(d := (chs d)\<lparr>tree := tr0\<rparr>, d + nChannels comm := (chs (d + nChannels comm))\<lparr>tree := tr1\<rparr>)"
  have "connectTreesFrom comm t0 t1 ttp ttc0 ttc1 depth cs chs1 = Inr chs'"
    using Cons.prems(1) tr by (simp add: chs1_def)
  note IH = Cons.IH [OF this]
  have d: "d < nChannels comm" "d \<notin> set cs" using Cons.prems(2,3) by simp_all
  have same: "chs1 d = (chs d)\<lparr>tree := tr0\<rparr>" "chs1 (d + nChannels comm) = (chs (d + nChannels comm))\<lparr>tree := tr1\<rparr>"
    "c \<noteq> d \<Longrightarrow> chs1 c = chs c \<and> chs1 (c + nChannels comm) = chs (c + nChannels comm)"
    using d(1) assms(4) by (simp_all add: chs1_def)
  show ?case
  proof (cases "c = d")
    case True
    then show ?thesis using IH Cons.prems(2,3) d(2) same tr by simp
  next
    case False
    then have e: "chs1 c = chs c" "chs1 (c + nChannels comm) = chs (c + nChannels comm)" using same(3) by simp_all
    show ?thesis using IH Cons.prems(2,3) False unfolding e by simp
  qed
qed simp

lemma connectTrees_channel:
  assumes "connectTrees comm ttp ttc0 ttc1 = Inr (comm\<lparr>channels := chs\<rparr>)" "c < nChannels comm"
  shows "\<exists>depth. connectTree comm (fst (ncclGetDtree (nNodes comm) (node comm))) (ttp c) (ttc0 c) (ttc1 c) depth (tree (channels comm c)) = Inr (tree (chs c)) \<and>
    connectTree comm (snd (ncclGetDtree (nNodes comm) (node comm))) (ttp c) (ttc0 c) (ttc1 c) depth (tree (channels comm (c + nChannels comm))) =
      Inr (tree (chs (c + nChannels comm)))"
proof -
  obtain t0 t1 where t: "ncclGetDtree (nNodes comm) (node comm) = (t0, t1)" by fastforce
  define depth where "depth = int (nRanks comm div nNodes comm) - 1 + log2Down (of_nat (nNodes comm) :: u64)"
  have m: "map_sum id (\<lambda>chs. comm\<lparr>channels := chs\<rparr>) (connectTreesFrom comm t0 t1 ttp ttc0 ttc1 depth [0..<nChannels comm] (channels comm)) =
      Inr (comm\<lparr>channels := chs\<rparr>)"
    using assms(1) unfolding connectTrees_def t Let_def prod.case depth_def .
  have "connectTreesFrom comm t0 t1 ttp ttc0 ttc1 depth [0..<nChannels comm] (channels comm) = Inr chs"
  proof (cases "connectTreesFrom comm t0 t1 ttp ttc0 ttc1 depth [0..<nChannels comm] (channels comm)")
    case (Inl e)
    then show ?thesis using m by simp
  next
    case (Inr chs')
    then have "comm\<lparr>channels := chs'\<rparr> = comm\<lparr>channels := chs\<rparr>" using m by simp
    then have "channels (comm\<lparr>channels := chs'\<rparr>) = channels (comm\<lparr>channels := chs\<rparr>)" by (rule arg_cong)
    then show ?thesis using Inr by simp
  qed
  moreover have "set [0..<nChannels comm] \<subseteq> {..<nChannels comm}" by auto
  ultimately have "if c \<in> set [0..<nChannels comm]
    then connectTree comm t0 (ttp c) (ttc0 c) (ttc1 c) depth (tree (channels comm c)) = Inr (tree (chs c)) \<and>
      connectTree comm t1 (ttp c) (ttc0 c) (ttc1 c) depth (tree (channels comm (c + nChannels comm))) = Inr (tree (chs (c + nChannels comm)))
    else chs c = channels comm c \<and> chs (c + nChannels comm) = channels comm (c + nChannels comm)"
    using connectTreesFrom_channel [OF _ distinct_upt _ assms(2)] by blast
  then show ?thesis unfolding t using assms(2) by (intro exI [of _ depth]) simp
qed

section \<open>The chain of a rank on its node\<close>

definition treeInfo :: "ncclTopoRanks \<Rightarrow> nat \<Rightarrow> int \<times> int \<times> int" where
  "treeInfo tr c = (treeToParent tr c, treeToChild0 tr c, treeToChild1 tr c)"

definition child0Index :: "topoPattern \<Rightarrow> nat" where
  "child0Index pat = (if pat = PATTERN_TREE then 0 else 1)"

definition child1Index :: "topoPattern \<Rightarrow> nat" where
  "child1Index pat = (if pat = PATTERN_SPLIT_TREE then 1 else 0)"

definition chainTree :: "int list \<Rightarrow> nat \<Rightarrow> nat \<Rightarrow> ncclTree \<Rightarrow> ncclTree" where
  "chainTree xs l i t = t\<lparr>tree_up := (if i = 0 then - 1 else xs ! (i - 1)), tree_down := (tree_down t)[0 := if i = l - 1 then - 1 else xs ! (i + 1)]\<rparr>"

lemma fold_filter_step:
  assumes "\<And>j s. Q (f j s) = (if P j then g j (Q s) else Q s)"
  shows "Q (fold f js s) = fold g (filter P js) (Q s)"
  by (induction js arbitrary: s) (simp_all add: assms)

lemma presetChannel_tree:
  assumes xs: "intra (graphTree graphs) c = map int xs" "distinct xs" "length xs = l" "i < l" "xs ! i = r"
  shows "tree (snd (presetChannel graphs r nr l c s) c) = chainTree (map int xs) l i (tree (resetChannel (snd s c)))"
    "treeInfo (fst (presetChannel graphs r nr l c s)) c' = (if c' = c then (int (xs ! 0), map int xs ! child0Index (pattern (graphTree graphs)),
       map int xs ! child1Index (pattern (graphTree graphs))) else treeInfo (fst s) c')"
proof -
  let ?f = "presetRank graphs r nr l c" let ?P = "\<lambda>j. map int xs ! j = int r"
  have f: "filter ?P [0..<l] = [i]" using filter_place [of xs i] assms(2-5) by simp
  have ne: "xs \<noteq> []" using assms(3,4) by auto
  have "tree (snd (?f j s)) = (if ?P j then chainTree (map int xs) l j (tree (snd s)) else tree (snd s))" for j s
    by (simp add: presetRank_def Let_def presetTree_def chainTree_def assms(1) case_prod_beta)
  from fold_filter_step [where Q = "\<lambda>s. tree (snd s)" and f = ?f and P = ?P, OF this, of "[0..<l]"]
  show "tree (snd (presetChannel graphs r nr l c s) c) = chainTree (map int xs) l i (tree (resetChannel (snd s c)))"
    unfolding f by (simp add: presetChannel_def Let_def case_prod_beta)
  have "treeInfo (fst (?f j s)) c' = (if ?P j then (if c' = c then (map int xs ! 0, map int xs ! child0Index (pattern (graphTree graphs)),
       map int xs ! child1Index (pattern (graphTree graphs))) else treeInfo (fst s) c') else treeInfo (fst s) c')" for j s
    by (simp add: presetRank_def Let_def presetTree_def presetRing_def treeInfo_def child0Index_def child1Index_def assms(1) case_prod_beta)
  from fold_filter_step [where Q = "\<lambda>s. treeInfo (fst s) c'" and f = ?f and P = ?P and
      g = "\<lambda>_ x. if c' = c then (map int xs ! 0, map int xs ! child0Index (pattern (graphTree graphs)), map int xs ! child1Index (pattern (graphTree graphs))) else x",
      OF this, of "[0..<l]"]
  show "treeInfo (fst (presetChannel graphs r nr l c s)) c' = (if c' = c then (int (xs ! 0), map int xs ! child0Index (pattern (graphTree graphs)),
       map int xs ! child1Index (pattern (graphTree graphs))) else treeInfo (fst s) c')"
    unfolding f using ne by (simp add: presetChannel_def Let_def case_prod_beta)
qed

text \<open>The tree of a rank at place \<open>i\<close> of the chain \<open>xs\<close>, before the joints.\<close>

definition isChain :: "nat list \<Rightarrow> nat \<Rightarrow> ncclTree \<Rightarrow> bool" where
  "isChain xs i t \<longleftrightarrow> tree_up t = (if i = 0 then - 1 else int (xs ! (i - 1))) \<and>
     tree_down t = [if i = length xs - 1 then - 1 else int (xs ! (i + 1)), - 1, - 1]"

lemma chainTree_isChain:
  "i < length xs \<Longrightarrow> isChain xs i (chainTree (map int xs) (length xs) i (tree (resetChannel ch)))"
  by (auto simp: isChain_def chainTree_def resetChannel_def NCCL_MAX_TREE_ARITY_def numeral_3_eq_3)

lemma ncclTopoPreset_tree:
  fixes comm :: ncclComm
  assumes c: "c < nChannels comm" and xs: "\<And>c. c < nChannels comm \<Longrightarrow> intra (graphTree graphs) c = map int (xs c)"
    and ok: "\<And>c. c < nChannels comm \<Longrightarrow> distinct (xs c) \<and> length (xs c) = localRanks comm \<and> (\<exists>i < localRanks comm. xs c ! i = rank comm)"
    and i: "i < localRanks comm" "xs c ! i = rank comm"
  shows "isChain (xs c) i (tree (channels (fst (ncclTopoPreset comm graphs tr)) c))"
    "isChain (xs c) i (tree (channels (fst (ncclTopoPreset comm graphs tr)) (c + nChannels comm)))"
    "treeInfo (snd (ncclTopoPreset comm graphs tr)) c =
       (int (xs c ! 0), map int (xs c) ! child0Index (pattern (graphTree graphs)), map int (xs c) ! child1Index (pattern (graphTree graphs)))"
proof -
  let ?f = "presetChannel graphs (rank comm) (nRanks comm) (localRanks comm)"
  let ?info = "(int (xs c ! 0), map int (xs c) ! child0Index (pattern (graphTree graphs)), map int (xs c) ! child1Index (pattern (graphTree graphs)))"
  have main: "c < k \<longrightarrow> treeInfo (fst (fold ?f [0..<k] s)) c = ?info \<and> isChain (xs c) i (tree (snd (fold ?f [0..<k] s) c))" if "k \<le> nChannels comm" for k s
    using that
  proof (induction k)
    case (Suc k)
    have k: "k < nChannels comm" using Suc.prems by simp
    obtain j where j: "j < localRanks comm" "xs k ! j = rank comm" using ok [OF k] by blast
    have o: "distinct (xs k)" "length (xs k) = localRanks comm" using ok [OF k] by auto
    have ij: "c = k \<Longrightarrow> j = i" using j o i by (metis nth_eq_iff_index_eq)
    note p = presetChannel_tree [OF xs [OF k] o j, of "nRanks comm" "fold ?f [0..<k] s"]
    show ?case
    proof (cases "c = k")
      case True
      then have "isChain (xs c) i (tree (snd (fold ?f [0..<Suc k] s) c))"
        using p(1) chainTree_isChain [of i "xs c"] o(2) i(1) ij by simp
      then show ?thesis using p(2) [of c] True by simp
    next
      case False
      then show ?thesis using Suc p(2) [of c] presetChannel_other [of c k] by (auto simp: less_Suc_eq)
    qed
  qed simp
  define s0 where "s0 = (tr\<lparr>crossNicRing := crossNic (graphRing graphs), topoNvlsHeads := []\<rparr>, channels comm)"
  have eq: "snd (fold ?f [0..<nChannels comm] s0) c = channels (fst (ncclTopoPreset comm graphs tr)) c"
    "snd (fold ?f [0..<nChannels comm] s0) c = channels (fst (ncclTopoPreset comm graphs tr)) (c + nChannels comm)"
    "treeInfo (fst (fold ?f [0..<nChannels comm] s0)) c = treeInfo (snd (ncclTopoPreset comm graphs tr)) c"
    using c by (simp_all add: ncclTopoPreset_def Let_def case_prod_beta s0_def treeInfo_def)
  have m: "treeInfo (fst (fold ?f [0..<nChannels comm] s0)) c = ?info" "isChain (xs c) i (tree (snd (fold ?f [0..<nChannels comm] s0) c))"
    using main [OF order.refl, of s0] c by blast+
  show "isChain (xs c) i (tree (channels (fst (ncclTopoPreset comm graphs tr)) c))" using m(2) unfolding eq(1) .
  show "isChain (xs c) i (tree (channels (fst (ncclTopoPreset comm graphs tr)) (c + nChannels comm)))" using m(2) unfolding eq(2) .
  show "treeInfo (snd (ncclTopoPreset comm graphs tr)) c = ?info" using m(1) unfolding eq(3) .
qed

lemma alternateRings_treeInfo: "treeInfo (alternateRings nc nd tr) c = treeInfo tr c"
proof -
  have step: "treeInfo (exchangeRing k tr) c = treeInfo tr c" for k tr by (simp add: exchangeRing_def treeInfo_def)
  have "treeInfo (fold (\<lambda>k. exchangeRing (2 * k)) ks tr) c = treeInfo tr c" for ks
    by (induction ks arbitrary: tr) (simp_all add: step)
  then show ?thesis by (simp add: alternateRings_def)
qed

section \<open>One tree over all ranks\<close>

text \<open>A tree over the ranks below \<open>nr\<close>, given by the parent of each rank: only the root has none, and the parents lead to it.\<close>

definition spanTree :: "nat \<Rightarrow> nat \<Rightarrow> (nat \<Rightarrow> int) \<Rightarrow> bool" where
  "spanTree nr root P \<longleftrightarrow> root < nr \<and> P root = - 1 \<and> (\<forall>r < nr. r \<noteq> root \<longrightarrow> (\<exists>p < nr. P r = int p)) \<and>
     (\<forall>r < nr. \<exists>k. ((\<lambda>x. nat (P x)) ^^ k) r = root)"

text \<open>The place of a rank in the chain of its node.\<close>

definition place :: "nat list \<Rightarrow> nat \<Rightarrow> nat" where
  "place xs r = length (takeWhile (\<lambda>x. x \<noteq> r) xs)"

lemma place_nth: "r \<in> set xs \<Longrightarrow> place xs r < length xs \<and> xs ! place xs r = r"
proof (induction xs)
  case (Cons x xs)
  then show ?case by (cases "x = r") (auto simp: place_def)
qed simp

lemma place_unique:
  assumes "distinct xs" "i < length xs"
  shows "place xs (xs ! i) = i"
  using place_nth [of "xs ! i" xs] assms by (metis nth_eq_iff_index_eq nth_mem)

definition joinParent :: "(nat \<Rightarrow> nat list) \<Rightarrow> (nat \<Rightarrow> nat) \<Rightarrow> (nat \<Rightarrow> nat) \<Rightarrow> (nat \<Rightarrow> btree) \<Rightarrow> (nat \<Rightarrow> nat) \<Rightarrow> nat \<Rightarrow> int" where
  "joinParent L a b T nd r = joinUp L a b T (nd r) (place (L (nd r)) r)"

definition nodeChains :: "nat \<Rightarrow> nat \<Rightarrow> (nat \<Rightarrow> nat list) \<Rightarrow> (nat \<Rightarrow> nat) \<Rightarrow> bool" where
  "nodeChains nr nn L nd \<longleftrightarrow> (\<forall>n < nn. distinct (L n) \<and> set (L n) = {r. r < nr \<and> nd r = n}) \<and> (\<forall>r < nr. nd r < nn)"

lemma nodeChains_rank:
  assumes "nodeChains nr nn L nd" "r < nr"
  shows "nd r < nn" "place (L (nd r)) r < length (L (nd r))" "L (nd r) ! place (L (nd r)) r = r"
  using assms place_nth [of r "L (nd r)"] by (auto simp: nodeChains_def)

lemma nodeChains_place:
  assumes "nodeChains nr nn L nd" "n < nn" "i < length (L n)"
  shows "L n ! i < nr" "nd (L n ! i) = n" "place (L n) (L n ! i) = i"
proof -
  have "L n ! i \<in> set (L n)" using assms(3) by simp
  then show "L n ! i < nr" "nd (L n ! i) = n" using assms(1,2) by (auto simp: nodeChains_def)
  show "place (L n) (L n ! i) = i" using assms by (simp add: place_unique nodeChains_def)
qed

lemma joinParent_children:
  assumes T: "tree_consistent nn root T" "\<forall>n < nn. childrenDiffer (T n)" and L: "chains nn L a b" "nodeChains nr nn L nd" and r: "r < nr"
  shows "joinKids L a b T (nd r) (place (L (nd r)) r) = {int x | x. x < nr \<and> joinParent L a b T nd x = int r}"
proof -
  note p = nodeChains_rank [OF L(2)]
  have eq: "joinParent L a b T nd x = int r \<longleftrightarrow> int x \<in> joinKids L a b T (nd r) (place (L (nd r)) r)" if "x < nr" for x
    using join_consistent(1) [OF T L(1) p(1,2) [OF that] p(1,2) [OF r]] p(3) [OF that] p(3) [OF r] by (simp add: joinParent_def)
  have first: "\<exists>x < nr. int (L n ! 0) = int x" if "n < nn" for n
    using nodeChains_place(1) [OF L(2) that, of 0] L(1) that by (auto simp: chains_def)
  have "\<exists>x < nr. y = int x" if y: "y \<in> joinKids L a b T (nd r) (place (L (nd r)) r)" for y
  proof -
    consider "place (L (nd r)) r + 1 < length (L (nd r))" "y = int (L (nd r) ! (place (L (nd r)) r + 1))"
      | "down0 (T (nd r)) \<noteq> - 1" "y = int (L (nat (down0 (T (nd r)))) ! 0)" | "down1 (T (nd r)) \<noteq> - 1" "y = int (L (nat (down1 (T (nd r)))) ! 0)"
      using y unfolding joinKids_def by (auto split: if_splits)
    then show ?thesis
    proof cases
      case 1
      then show ?thesis using nodeChains_place(1) [OF L(2) p(1) [OF r] 1(1)] by blast
    next
      case 2
      obtain n where "n < nn" "down0 (T (nd r)) = int n" using child_range(1) [OF T(1) p(1) [OF r] 2(1)] by blast
      then show ?thesis using first [of n] 2(2) by simp
    next
      case 3
      obtain n where "n < nn" "down1 (T (nd r)) = int n" using child_range(2) [OF T(1) p(1) [OF r] 3(1)] by blast
      then show ?thesis using first [of n] 3(2) by simp
    qed
  qed
  then show ?thesis using eq by blast
qed

lemma joinParent_root:
  assumes T: "tree_consistent nn root T" "\<forall>n < nn. childrenDiffer (T n)" and L: "chains nn L a b" "nodeChains nr nn L nd" and n: "n < nn" "i < length (L n)"
    and k: "(parent T ^^ k) n = root"
  shows "\<exists>j. ((\<lambda>x. nat (joinParent L a b T nd x)) ^^ j) (L n ! i) = L root ! 0"
  using n k
proof (induction k arbitrary: n i)
  let ?P = "\<lambda>x. nat (joinParent L a b T nd x)"
  have chain: "(?P ^^ i) (L n ! i) = L n ! 0" if "n < nn" "i < length (L n)" for n i
    using that(2)
  proof (induction i)
    case (Suc i)
    have "?P (L n ! Suc i) = L n ! i"
      using nodeChains_place(2,3) [OF L(2) that(1) Suc.prems] by (simp add: joinParent_def joinUp_def)
    then show ?case unfolding funpow_Suc_right o_apply using Suc by simp
  qed simp
  {
    case 0
    then show ?case using chain [OF 0(1,2)] by (intro exI [of _ i]) simp
  next
    case (Suc k)
    show ?case
    proof (cases "n = root")
      case True
      then show ?thesis using chain [OF Suc.prems(1,2)] by blast
    next
      case False
      obtain u where u: "u < nn" "up (T n) = int u" using T(1) Suc.prems(1) False unfolding tree_consistent_def by blast
      define v where "v = (if parentChildType (T n) = Some 0 then a u else b u)"
      have v: "v < length (L u)" using L(1) u(1) by (simp add: v_def chains_def)
      have ne: "0 < length (L n)" using Suc.prems(2) by linarith
      have "(parent T ^^ k) u = root" using Suc.prems(3) u(2) unfolding funpow_Suc_right o_apply by (simp add: parent_def)
      then obtain j where j: "(?P ^^ j) (L u ! v) = L root ! 0" using Suc.IH [OF u(1) v] by blast
      have "?P (L n ! 0) = L u ! v"
        using nodeChains_place(2,3) [OF L(2) Suc.prems(1) ne] u(2) by (simp add: joinParent_def joinUp_def v_def)
      then have "(?P ^^ (j + (1 + i))) (L n ! i) = L root ! 0"
        unfolding funpow_add o_apply chain [OF Suc.prems(1,2)] using j by simp
      then show ?thesis by blast
    qed
  }
qed

lemma joinParent_spanTree:
  assumes T: "tree_consistent nn root T" "\<forall>n < nn. childrenDiffer (T n)" and L: "chains nn L a b" "nodeChains nr nn L nd"
    and k: "\<forall>n < nn. \<exists>k. (parent T ^^ k) n = root"
  shows "spanTree nr (L root ! 0) (joinParent L a b T nd)"
  unfolding spanTree_def
proof (intro conjI allI impI)
  have root: "root < nn" using T(1) by (simp add: tree_consistent_def)
  then have ne: "0 < length (L root)" using L(1) by (simp add: chains_def)
  note p = nodeChains_rank [OF L(2)] and q = nodeChains_place [OF L(2) root ne]
  show "L root ! 0 < nr" by (rule q(1))
  show "joinParent L a b T nd (L root ! 0) = - 1"
    using join_consistent(2) [OF T L(1) root ne root ne] q(2,3) by (simp add: joinParent_def)
  fix r assume r: "r < nr"
  show "\<exists>k. ((\<lambda>x. nat (joinParent L a b T nd x)) ^^ k) r = L root ! 0"
    using joinParent_root [OF T L p(1,2) [OF r]] k p(1,3) [OF r] by metis
  assume neq: "r \<noteq> L root ! 0"
  have up: "joinUp L a b T (nd r) (place (L (nd r)) r) \<noteq> - 1"
    using join_consistent(2) [OF T L(1) p(1,2) [OF r] root ne] p(3) [OF r] neq by metis
  have "\<exists>m < nn. \<exists>j < length (L m). joinUp L a b T (nd r) (place (L (nd r)) r) = int (L m ! j)"
  proof (cases "0 < place (L (nd r)) r")
    case True
    then show ?thesis using p(1,2) [OF r] by (intro exI [of _ "nd r"] conjI exI [of _ "place (L (nd r)) r - 1"]) (simp_all add: joinUp_def)
  next
    case False
    then have "up (T (nd r)) \<noteq> - 1" using up by (auto simp: joinUp_def)
    then obtain u where u: "u < nn" "up (T (nd r)) = int u" using T(1) p(1) [OF r] unfolding tree_consistent_def by blast
    have "a u < length (L u)" "b u < length (L u)" using L(1) u(1) by (simp_all add: chains_def)
    then show ?thesis using False u
      by (intro exI [of _ u] conjI exI [of _ "if parentChildType (T (nd r)) = Some 0 then a u else b u"]) (simp_all add: joinUp_def)
  qed
  then show "\<exists>p < nr. joinParent L a b T nd r = int p"
    using nodeChains_place(1) [OF L(2)] unfolding joinParent_def by metis
qed

lemma connectTree_joins:
  assumes conn: "connectTree comm (T n) ttp ttc0 ttc1 depth t = Inr t'" and chain: "isChain (L n) i t" and comm: "node comm = n" "rank comm = L n ! i"
    and T: "tree_consistent nn root T" and L: "chains nn L a b" and n: "n < nn" "i < length (L n)"
    and info: "\<And>m. m < nn \<Longrightarrow> ttp m = int (L m ! 0) \<and> ttc0 m = int (L m ! a m) \<and> ttc1 m = int (L m ! b m)"
  shows "tree_up t' = joinUp L a b T n i" "kids t' = joinKids L a b T n i"
proof -
  note inj = chains_inj [OF L]
  have ne: "0 < length (L m)" "a m < length (L m)" "b m < length (L m)" if "m < nn" for m using L that by (auto simp: chains_def)
  have three: "length (tree_down t) = 3" using chain by (simp add: isChain_def)
  have d0: "\<exists>m < nn. down0 (T n) = int m" if "down0 (T n) \<noteq> - 1" using child_range(1) [OF T n(1) that] .
  have d1: "\<exists>m < nn. down1 (T n) = int m" if "down1 (T n) \<noteq> - 1" using child_range(2) [OF T n(1) that] .
  have pos: "down0 (T n) \<noteq> - 1 \<Longrightarrow> 0 \<le> ttp (nat (down0 (T n)))" "down1 (T n) \<noteq> - 1 \<Longrightarrow> 0 \<le> ttp (nat (down1 (T n)))"
    using d0 d1 info by fastforce+
  note eff = connectTree_effect [OF conn three pos, unfolded comm]
  have at: "int (L n ! i) = ttp n \<longleftrightarrow> i = 0" "int (L n ! i) = ttc0 n \<longleftrightarrow> i = a n" "int (L n ! i) = ttc1 n \<longleftrightarrow> i = b n"
    using inj [OF n(1) n(1) n(2)] ne [OF n(1)] info [OF n(1)] by auto
  have k: "kids t = (if i + 1 < length (L n) then {int (L n ! (i + 1))} else {})"
    using chain n(2) by (auto simp: isChain_def kids_def)
  show "tree_up t' = joinUp L a b T n i"
  proof (cases "i = 0 \<and> up (T n) \<noteq> - 1")
    case False
    then show ?thesis using eff(1) at(1) chain by (auto simp: joinUp_def isChain_def)
  next
    case True
    then have "n \<noteq> root" using T by (auto simp: tree_consistent_def)
    then obtain u where u: "u < nn" "up (T n) = int u" "parentChildType (T n) = Some 0 \<or> parentChildType (T n) = Some 1"
      using T n(1) unfolding tree_consistent_def by blast
    then show ?thesis using eff(1) at(1) True info [OF u(1)] by (auto simp: joinUp_def)
  qed
  have c0: "ttp (nat (down0 (T n))) = int (L (nat (down0 (T n))) ! 0)" if "down0 (T n) \<noteq> - 1" using d0 [OF that] info by auto
  have c1: "ttp (nat (down1 (T n))) = int (L (nat (down1 (T n))) ! 0)" if "down1 (T n) \<noteq> - 1" using d1 [OF that] info by auto
  show "kids t' = joinKids L a b T n i" using c0 c1 by (subst eff(2)) (simp_all only: joinKids_def k at simp_thms cong: if_cong)
qed

section \<open>The trees of a cluster\<close>

text \<open>What the search found for the trees: on every host, for every channel, a chain of exactly the ranks of the host, long enough for
the places at which the pattern hangs the children.\<close>

definition hostTrees :: "nat \<Rightarrow> (nat \<Rightarrow> nat) \<Rightarrow> (nat \<Rightarrow> nat \<Rightarrow> nat list) \<Rightarrow> (nat \<Rightarrow> topoPattern) \<Rightarrow> (nat \<Rightarrow> topoGraphs) \<Rightarrow> bool" where
  "hostTrees nr hostOf order pat graphs \<longleftrightarrow>
     (\<forall>r < nr. pattern (graphTree (graphs r)) = pat (hostOf r) \<and>
        (\<forall>c < min (graph_nChannels (graphTree (graphs r))) (graph_nChannels (graphRing (graphs r))).
           distinct (order c (hostOf r)) \<and> set (order c (hostOf r)) = {q. q < nr \<and> hostOf q = hostOf r} \<and>
           intra (graphTree (graphs r)) c = map int (order c (hostOf r)) \<and>
           child0Index (pat (hostOf r)) < length (order c (hostOf r)) \<and> child1Index (pat (hostOf r)) < length (order c (hostOf r))))"

lemma publishRank_tree:
  assumes trees: "hostTrees nr hostOf torder pat graphs" and rings: "hostRings nr hostOf order crossing graphs" and comms: "hostComms nr hostOf order comms"
    and r: "r < nr" and c: "c < min (graph_nChannels (graphTree (graphs r))) (graph_nChannels (graphRing (graphs r)))"
    and i: "i < length (torder c (hostOf r))" "torder c (hostOf r) ! i = r"
  shows "isChain (torder c (hostOf r)) i (tree (channels (fst (publishRank (comms r) (graphs r) tr)) c))"
    "isChain (torder c (hostOf r)) i (tree (channels (fst (publishRank (comms r) (graphs r) tr))
       (c + min (graph_nChannels (graphTree (graphs r))) (graph_nChannels (graphRing (graphs r))))))"
    "treeInfo (topoRanks (snd (publishRank (comms r) (graphs r) tr))) c =
       (int (torder c (hostOf r) ! 0), int (torder c (hostOf r) ! child0Index (pat (hostOf r))), int (torder c (hostOf r) ! child1Index (pat (hostOf r))))"
proof -
  define nc where "nc = min (graph_nChannels (graphTree (graphs r))) (graph_nChannels (graphRing (graphs r)))"
  define comm where "comm = (comms r)\<lparr>nChannels := nc\<rparr>"
  have o: "distinct (torder c (hostOf r))" "set (torder c (hostOf r)) = {q. q < nr \<and> hostOf q = hostOf r}"
    "intra (graphTree (graphs r)) c = map int (torder c (hostOf r))" if "c < nc" for c
    using trees r that unfolding hostTrees_def nc_def by blast+
  have idx: "child0Index (pat (hostOf r)) < length (torder c (hostOf r))" "child1Index (pat (hostOf r)) < length (torder c (hostOf r))"
    using trees r c unfolding hostTrees_def by blast+
  have pat: "pattern (graphTree (graphs r)) = pat (hostOf r)" using trees r by (simp add: hostTrees_def)
  have nc: "0 < nc" using c by (simp add: nc_def)
  have len: "length (torder c (hostOf r)) = card {q. q < nr \<and> hostOf q = hostOf r}" if "c < nc" for c
    using distinct_card [OF o(1) [OF that]] o(2) [OF that] by simp
  have "distinct (order 0 (hostOf r)) \<and> set (order 0 (hostOf r)) = {q. q < nr \<and> hostOf q = hostOf r}"
    using rings r nc unfolding hostRings_def nc_def by blast
  then have "length (order 0 (hostOf r)) = card {q. q < nr \<and> hostOf q = hostOf r}" using distinct_card by metis
  then have comm: "nChannels comm = nc" "localRanks comm = card {q. q < nr \<and> hostOf q = hostOf r}" "rank comm = r"
    using comms r by (simp_all add: comm_def hostComms_def)
  have cn: "c < nChannels comm" using c by (simp add: comm nc_def)
  have ex: "\<exists>i < localRanks comm. torder c (hostOf r) ! i = rank comm" if "c < nc" for c
    using o(2) [OF that] r len [OF that] unfolding comm by (metis (mono_tags, lifting) in_set_conv_nth mem_Collect_eq)
  have i': "i < localRanks comm" "torder c (hostOf r) ! i = rank comm" using i len [of c] cn comm by simp_all
  have xs: "intra (graphTree (graphs r)) c = map int (torder c (hostOf r))"
    "distinct (torder c (hostOf r)) \<and> length (torder c (hostOf r)) = localRanks comm \<and> (\<exists>i < localRanks comm. torder c (hostOf r) ! i = rank comm)"
    if "c < nChannels comm" for c using that o ex len unfolding comm(1,2) by simp_all
  note p = ncclTopoPreset_tree [of c comm "graphs r" "\<lambda>c. torder c (hostOf r)" i tr, OF cn xs i']
  have eq: "topoRanks (snd (publishRank (comms r) (graphs r) tr)) = snd (ncclTopoPreset comm (graphs r) tr)"
    "channels (fst (publishRank (comms r) (graphs r) tr)) = channels (fst (ncclTopoPreset comm (graphs r) tr))"
    by (simp_all add: publishRank_def Let_def case_prod_beta comm_def nc_def)
  show "isChain (torder c (hostOf r)) i (tree (channels (fst (publishRank (comms r) (graphs r) tr)) c))"
    "isChain (torder c (hostOf r)) i (tree (channels (fst (publishRank (comms r) (graphs r) tr))
       (c + min (graph_nChannels (graphTree (graphs r))) (graph_nChannels (graphRing (graphs r))))))"
    unfolding eq nc_def [symmetric] using p(1,2) unfolding comm(1) by simp_all
  show "treeInfo (topoRanks (snd (publishRank (comms r) (graphs r) tr))) c =
       (int (torder c (hostOf r) ! 0), int (torder c (hostOf r) ! child0Index (pat (hostOf r))), int (torder c (hostOf r) ! child1Index (pat (hostOf r))))"
    using p(3) idx unfolding eq pat by simp
qed

lemma cluster_chains:
  assumes trees: "hostTrees nr hostOf torder pat graphs" and rings: "hostRings nr hostOf order crossing graphs" and comms: "hostComms nr hostOf order comms"
    and infos: "infos = exchanged nr comms graphs tr" and d: "d = discoverNodes infos" and first: "first = (\<lambda>n. nat (nodesFirstRank d ! n))"
    and c: "c < commonChannels nr graphs" and L: "L = (\<lambda>n. torder c (hostOf (first n)))"
    and ab: "a = (\<lambda>n. child0Index (pat (hostOf (first n))))" "b = (\<lambda>n. child1Index (pat (hostOf (first n))))"
  shows "nodeChains nr (length (nodesFirstRank d)) L (\<lambda>r. nodeOfRank d ! r)" "chains (length (nodesFirstRank d)) L a b"
    "\<And>r. r < nr \<Longrightarrow> L (nodeOfRank d ! r) = torder c (hostOf r)"
    "\<And>m. m < length (nodesFirstRank d) \<Longrightarrow> treeInfo (topoRanks (infos ! first m)) c = (int (L m ! 0), int (L m ! a m), int (L m ! b m))"
proof -
  note hosts = nodes_are_hosts [OF rings comms d [unfolded infos] first]
  have lt: "c < min (graph_nChannels (graphTree (graphs r))) (graph_nChannels (graphRing (graphs r)))" if "r < nr" for r
    using c commonChannels_le [OF that] by (rule less_le_trans)
  have o: "distinct (torder c (hostOf r))" "set (torder c (hostOf r)) = {q. q < nr \<and> hostOf q = hostOf r}"
    "child0Index (pat (hostOf r)) < length (torder c (hostOf r))" "child1Index (pat (hostOf r)) < length (torder c (hostOf r))" if "r < nr" for r
    using trees that lt [OF that] unfolding hostTrees_def by blast+
  have f: "first n < nr" "nodeOfRank d ! first n = n" if "n < length (nodesFirstRank d)" for n using hosts(3) that by auto
  have same: "hostOf (first (nodeOfRank d ! r)) = hostOf r" if "r < nr" for r
    using hosts(1,3,4) that by metis
  show "L (nodeOfRank d ! r) = torder c (hostOf r)" if "r < nr" for r using same [OF that] by (simp add: L)
  have set_L: "set (L n) = {r. r < nr \<and> nodeOfRank d ! r = n}" if "n < length (nodesFirstRank d)" for n
    unfolding L o(2) [OF f(1) [OF that]] using hosts(4) f [OF that] by (metis (no_types, opaque_lifting))
  have dist: "distinct (L n)" if "n < length (nodesFirstRank d)" for n unfolding L by (rule o(1) [OF f(1) [OF that]])
  show nc: "nodeChains nr (length (nodesFirstRank d)) L (\<lambda>r. nodeOfRank d ! r)"
    using set_L dist hosts(1) by (simp add: nodeChains_def)
  have room: "a n < length (L n)" "b n < length (L n)" if "n < length (nodesFirstRank d)" for n
    using o(3,4) [OF f(1) [OF that]] by (simp_all add: L ab)
  show "chains (length (nodesFirstRank d)) L a b"
    unfolding chains_def using room nodeChains_place(2,3) [OF nc] by (metis length_greater_0_conv less_nat_zero_code list.size(3))
  fix m assume m: "m < length (nodesFirstRank d)"
  have "first m \<in> set (torder c (hostOf (first m)))" using o(2) f(1) [OF m] by simp
  then obtain i where i: "i < length (torder c (hostOf (first m)))" "torder c (hostOf (first m)) ! i = first m" by (metis in_set_conv_nth)
  have "infos ! first m = snd (publishRank (comms (first m)) (graphs (first m)) tr)" using f(1) [OF m] by (simp add: infos exchanged_def)
  then show "treeInfo (topoRanks (infos ! first m)) c = (int (L m ! 0), int (L m ! a m), int (L m ! b m))"
    using publishRank_tree(3) [OF trees rings comms f(1) [OF m] lt [OF f(1) [OF m]] i] by (simp add: L ab)
qed

text \<open>The tree between the nodes that a row of the channels uses.\<close>

definition nodeTree :: "nat \<Rightarrow> bool \<Rightarrow> nat \<Rightarrow> btree" where
  "nodeTree nn second n = (if second then snd (ncclGetDtree nn n) else fst (ncclGetDtree nn n))"

lemma nodeTree_props:
  assumes "0 < nn"
  shows "\<exists>root. tree_consistent nn root (nodeTree nn second) \<and> (\<forall>n < nn. \<exists>k. (parent (nodeTree nn second) ^^ k) n = root)"
    "\<forall>n < nn. childrenDiffer (nodeTree nn second n)"
proof -
  have eq: "nodeTree nn second = (if second then (\<lambda>n. snd (ncclGetDtree nn n)) else ncclGetBtree nn)"
    unfolding dtree_first [symmetric] by (auto simp: nodeTree_def)
  have pow: "nn \<le> 2 ^ nn" by simp
  show "\<exists>root. tree_consistent nn root (nodeTree nn second) \<and> (\<forall>n < nn. \<exists>k. (parent (nodeTree nn second) ^^ k) n = root)"
    unfolding eq using btree_consistent [OF assms] dtree_second_consistent [OF assms] btree_depth [OF _ pow] dtree_second_depth [OF _ pow]
    by (cases second) (simp_all, blast+)
  show "\<forall>n < nn. childrenDiffer (nodeTree nn second n)" using dtree_children by (simp add: nodeTree_def)
qed

text \<open>The tree of a rank is its place in the tree that the parents \<open>P\<close> describe.\<close>

definition treeView :: "nat \<Rightarrow> (nat \<Rightarrow> int) \<Rightarrow> nat \<Rightarrow> ncclTree \<Rightarrow> bool" where
  "treeView nr P r t \<longleftrightarrow> tree_up t = P r \<and> kids t = {int x | x. x < nr \<and> P x = int r}"

lemma joined_tree:
  assumes trees: "hostTrees nr hostOf torder pat graphs" and rings: "hostRings nr hostOf order crossing graphs" and comms: "hostComms nr hostOf order comms"
    and infos: "infos = exchanged nr comms graphs tr" and d: "d = discoverNodes infos" and first: "first = (\<lambda>n. nat (nodesFirstRank d ! n))"
    and c: "c < commonChannels nr graphs" and L: "L = (\<lambda>n. torder c (hostOf (first n)))"
    and ab: "a = (\<lambda>n. child0Index (pat (hostOf (first n))))" "b = (\<lambda>n. child1Index (pat (hostOf (first n))))"
    and r: "r < nr" and plan: "plannedComm nr comms graphs tr d r A" and joined: "joinedTrees A first (\<lambda>r. topoRanks (infos ! r)) = Inr (A\<lparr>channels := chs\<rparr>)"
  shows "treeView nr (joinParent L a b (nodeTree (length (nodesFirstRank d)) second) (\<lambda>r. nodeOfRank d ! r)) r
    (tree (chs (c + (if second then commonChannels nr graphs else 0))))"
proof -
  define nn where "nn = length (nodesFirstRank d)"
  define n where "n = nodeOfRank d ! r"
  define i where "i = place (L n) r"
  define k where "k = c + (if second then commonChannels nr graphs else 0)"
  let ?T = "nodeTree nn second"
  note ch = cluster_chains [OF trees rings comms infos d first c L ab, folded nn_def]
  have i: "n < nn" "i < length (L n)" "L n ! i = r" unfolding n_def i_def by (rule nodeChains_rank [OF ch(1) r])+
  have pA: "rank A = r" "nNodes A = nn" "node A = n" "nChannels A = commonChannels nr graphs"
    using plan by (simp_all add: plannedComm_def nn_def n_def)
  define row where "row = (\<lambda>f m. f (alternateRings (nChannels A) (rankToNode A (first m)) (topoRanks (infos ! first m))) c :: int)"
  have "\<exists>depth. connectTree A (?T n) (row treeToParent) (row treeToChild0) (row treeToChild1) depth (tree (channels A k)) = Inr (tree (chs k))"
    using connectTrees_channel [OF joined [unfolded joinedTrees_def Let_def], of c] c
    unfolding row_def k_def nodeTree_def pA by (cases second) auto
  then obtain depth where conn: "connectTree A (?T n) (row treeToParent) (row treeToChild0) (row treeToChild1) depth (tree (channels A k)) = Inr (tree (chs k))" ..
  have lt: "c < min (graph_nChannels (graphTree (graphs r))) (graph_nChannels (graphRing (graphs r)))"
    using c commonChannels_le [OF r] by (rule less_le_trans)
  have Ln: "L n = torder c (hostOf r)" unfolding n_def by (rule ch(3) [OF r])
  have chain: "isChain (L n) i (tree (channels A k))"
    using publishRank_tree(1,2) [OF trees rings comms r lt, of i] i(2,3) plan c unfolding Ln plannedComm_def k_def by simp
  have info: "row treeToParent m = int (L m ! 0) \<and> row treeToChild0 m = int (L m ! a m) \<and> row treeToChild1 m = int (L m ! b m)" if "m < nn" for m
    using ch(4) [OF that] alternateRings_treeInfo [of "nChannels A" "rankToNode A (first m)" "topoRanks (infos ! first m)" c]
    unfolding row_def treeInfo_def by simp
  obtain root where root: "tree_consistent nn root ?T" using nodeTree_props(1) [of nn second] i(1) by auto
  have "rank A = L n ! i" using pA(1) i(3) by simp
  then have res: "tree_up (tree (chs k)) = joinUp L a b ?T n i" "kids (tree (chs k)) = joinKids L a b ?T n i"
    using connectTree_joins [where L = L and T = ?T and n = n and i = i and comm = A, OF conn chain pA(3) _ root ch(2) i(1,2) info] by blast+
  have "childrenDiffer (?T n)" if "n < nn" for n using nodeTree_props(2) [of nn second] that by auto
  then have "joinKids L a b ?T n i = {int x | x. x < nr \<and> joinParent L a b ?T (\<lambda>r. nodeOfRank d ! r) x = int r}"
    using joinParent_children [OF root _ ch(2,1) r] unfolding n_def i_def by blast
  then show ?thesis
    using res unfolding treeView_def nn_def [symmetric] k_def [symmetric] by (simp add: joinParent_def n_def i_def)
qed

text \<open>
  C8: Joining the nodes gives all ranks the same trees. When on every host the search found, for every channel, a chain
  of exactly the ranks of the host, then the join succeeds on all ranks with the same number of channels, and for every
  channel there is one tree over all ranks: it has one root, the parents of every rank lead to the root, and every rank
  holds its parent in this tree and, as children, exactly the ranks whose parent it is.
\<close>

theorem all_ranks_join_in_trees:
  assumes "hostTrees nr hostOf torder pat graphs" and "hostRings nr hostOf order crossing graphs" and "hostComms nr hostOf order comms"
    and "0 < nr" and "\<forall>r < nr. sameSpeeds (graphs 0) (graphs r)"
  shows "\<exists>m root P. (\<forall>c < m. spanTree nr (root c) (P c)) \<and>
    (\<forall>r < nr. \<exists>comm rings.
       connectNodes params (exchanged nr comms graphs tr) (graphs r) (nvlsTuned r) thr par (fst (publishRank (comms r) (graphs r) tr)) = Some (Inr (comm, rings)) \<and>
       nChannels comm = m \<and> (\<forall>c < m. treeView nr (P c) r (tree (channels comm c))))"
proof -
  define infos where "infos = exchanged nr comms graphs tr"
  define d where "d = discoverNodes infos"
  define nc where "nc = commonChannels nr graphs"
  define nn where "nn = length (nodesFirstRank d)"
  define first where "first = (\<lambda>n. nat (nodesFirstRank d ! n))"
  define W where "W = rowRing (\<lambda>n. crossing (hostOf (first n))) (commonChannels nr graphs) (length (nodesFirstRank d)) (\<lambda>c n. order c (hostOf (first n)))"
  define a b where ab: "a = (\<lambda>n. child0Index (pat (hostOf (first n))))" "b = (\<lambda>n. child1Index (pat (hostOf (first n))))"
  define chain where "chain = (\<lambda>k n. torder (if nc \<le> k then k - nc else k) (hostOf (first n)))"
  define Q where "Q = (\<lambda>k. joinParent (chain k) a b (nodeTree nn (nc \<le> k)) (\<lambda>r. nodeOfRank d ! r))"
  obtain row m where rows: "\<And>r nvlsTuned. r < nr \<Longrightarrow> sameSpeeds (graphs 0) (graphs r) \<Longrightarrow> \<exists>A comm rings chs.
    connectNodes params infos (graphs r) nvlsTuned thr par (fst (publishRank (comms r) (graphs r) tr)) = Some (Inr (comm, rings)) \<and>
    plannedComm nr comms graphs tr d r A \<and> joinedTrees A first (\<lambda>r. topoRanks (infos ! r)) = Inr (A\<lparr>channels := chs\<rparr>) \<and>
    nChannels comm = m \<and> length rings = m \<and>
    (\<forall>c < m. row c < 2 * commonChannels nr graphs \<and> distinct (W (row c)) \<and> set (W (row c)) = {..<nr} \<and>
       ringView (W (row c)) r (ring (channels comm c)) (rings ! c) \<and> tree (channels comm c) = tree (chs (row c)))"
    by (rule cluster_rows [OF assms(2-4) infos_def d_def first_def W_def, of params thr par]) (rule that)
  have index: "(if nc \<le> k then k - nc else k) < commonChannels nr graphs"
    "k = (if nc \<le> k then k - nc else k) + (if nc \<le> k then commonChannels nr graphs else 0)" if "k < 2 * nc" for k
    using that by (auto simp: nc_def)
  have span: "\<exists>root. spanTree nr root (Q k)" if k: "k < 2 * nc" for k
  proof -
    note ch = cluster_chains [OF assms(1-3) infos_def d_def first_def index(1) [OF k] _ ab, where L = "chain k", folded nn_def]
    have L: "chain k = (\<lambda>n. torder (if nc \<le> k then k - nc else k) (hostOf (first n)))" by (simp add: chain_def)
    have nn: "0 < nn" using ch(1) [OF L] assms(4) unfolding nodeChains_def by fastforce
    obtain root where root: "tree_consistent nn root (nodeTree nn (nc \<le> k))" "\<forall>n < nn. \<exists>j. (parent (nodeTree nn (nc \<le> k)) ^^ j) n = root"
      using nodeTree_props(1) [OF nn] by blast
    show ?thesis using joinParent_spanTree [OF root(1) nodeTree_props(2) [OF nn] ch(2) [OF L] ch(1) [OF L] root(2)] unfolding Q_def by blast
  qed
  have run: "\<exists>comm rings. connectNodes params infos (graphs r) (nvlsTuned r) thr par (fst (publishRank (comms r) (graphs r) tr)) = Some (Inr (comm, rings)) \<and>
      nChannels comm = m \<and> (\<forall>c < m. row c < 2 * nc \<and> treeView nr (Q (row c)) r (tree (channels comm c)))" if r: "r < nr" for r
  proof -
    from rows [OF r assms(5) [rule_format, OF r], of "nvlsTuned r"] obtain A comm rings chs where one:
      "connectNodes params infos (graphs r) (nvlsTuned r) thr par (fst (publishRank (comms r) (graphs r) tr)) = Some (Inr (comm, rings))"
      "plannedComm nr comms graphs tr d r A" "joinedTrees A first (\<lambda>r. topoRanks (infos ! r)) = Inr (A\<lparr>channels := chs\<rparr>)" "nChannels comm = m"
      "\<forall>c < m. row c < 2 * commonChannels nr graphs \<and> distinct (W (row c)) \<and> set (W (row c)) = {..<nr} \<and>
         ringView (W (row c)) r (ring (channels comm c)) (rings ! c) \<and> tree (channels comm c) = tree (chs (row c))"
      by (elim exE conjE) (rule that; assumption)
    have "treeView nr (Q (row c)) r (tree (channels comm c))" if c: "c < m" for c
    proof -
      have k: "row c < 2 * nc" and t: "tree (channels comm c) = tree (chs (row c))" using one(5) c by (simp_all add: nc_def)
      note join = joined_tree [OF assms(1-3) infos_def d_def first_def index(1) [OF k] _ ab r one(2,3), where L = "chain (row c)" and second = "nc \<le> row c", folded nn_def index(2) [OF k]]
      show ?thesis unfolding t Q_def by (rule join) (simp add: chain_def)
    qed
    then have "\<forall>c < m. row c < 2 * nc \<and> treeView nr (Q (row c)) r (tree (channels comm c))" using one(5) by (simp add: nc_def)
    with one(1,4) show ?thesis by blast
  qed
  define root where "root = (\<lambda>c. SOME x. spanTree nr x (Q (row c)))"
  have "\<forall>c < m. spanTree nr (root c) (Q (row c))"
    using span run [OF assms(4)] unfolding root_def by (metis (no_types, lifting) someI_ex)
  then show ?thesis using run unfolding infos_def [symmetric] by (intro exI [of _ m] exI [of _ root] exI [of _ "\<lambda>c. Q (row c)"]) blast
qed

lemma example_trees: "hostTrees 4 (\<lambda>r. r div 2) exampleOrder (\<lambda>_. PATTERN_RING) exampleGraphs"
proof -
  have "distinct (exampleOrder c (r div 2)) \<and> set (exampleOrder c (r div 2)) = {q. q < 4 \<and> q div 2 = r div 2}" if "r < 4" "c < 1" for c r
    using example_cluster(1) that unfolding hostRings_def by (simp add: exampleGraphs_def exampleGraph_def)
  moreover have "length (exampleOrder c h) = 2" for c h by (simp add: exampleOrder_def)
  ultimately show ?thesis
    unfolding hostTrees_def by (simp add: exampleGraphs_def exampleGraph_def child0Index_def child1Index_def)
qed

lemma example_speeds: "sameSpeeds (exampleGraphs 0) (exampleGraphs r)"
  by (simp add: sameSpeeds_def exampleGraphs_def exampleGraph_def)

theorem all_ranks_join_in_trees_witness:
  "\<exists>m root P. (\<forall>c < m. spanTree 4 (root c) (P c)) \<and>
    (\<forall>r < 4. \<exists>comm rings.
       connectNodes exampleParams (exchanged 4 exampleComm exampleGraphs exampleRanks) (exampleGraphs r) None 2 None
         (fst (publishRank (exampleComm r) (exampleGraphs r) exampleRanks)) = Some (Inr (comm, rings)) \<and>
       nChannels comm = m \<and> (\<forall>c < m. treeView 4 (P c) r (tree (channels comm c))))"
  using all_ranks_join_in_trees [OF example_trees example_cluster(1,2), of exampleParams exampleRanks "\<lambda>_. None" 2 None] example_speeds
  by simp

end
