(* ===== verification/Red_Ops.thy ===== *)
theory Red_Ops
  imports Prims "HOL-Library.Signed_Division"
begin

unbundle bit_operations_syntax

text \<open>
  The reduction functors for integer elements (\<^verbatim>\<open>src/src/device/reduce_kernel.h\<close>) at the width of
  the element: sum, product, minimum and maximum through an exclusive-or mask, pre-multiplied sum,
  sum with a final division by a precomputed reciprocal, and the specialised versions that reduce
  four bytes of a 32-bit pack at once.  Signed types use the code of the unsigned ones.
\<close>

section \<open>Functors\<close>

definition FuncSum :: "'a::len word redop" where
  "FuncSum = \<lparr>preOp = (\<lambda>x. x), redFn = (+), postOp = (\<lambda>x. x)\<rparr>"

definition FuncProd :: "'a::len word redop" where
  "FuncProd = \<lparr>preOp = (\<lambda>x. x), redFn = (*), postOp = (\<lambda>x. x)\<rparr>"

text \<open>
  The mask of \<^verbatim>\<open>FuncMinMax\<close> is the operator's argument cut to the width of the element.  This is the
  functor of the integer types; its specialisations for floating-point types are not modelled.
\<close>

definition minMax_reduce :: "'a::len word \<Rightarrow> 'a word \<Rightarrow> 'a word \<Rightarrow> 'a word" where
  "minMax_reduce xormask a b = (if a XOR xormask < b XOR xormask then a else b)"

definition FuncMinMax :: "u64 \<Rightarrow> 'a::len word redop" where
  "FuncMinMax opArg = \<lparr>preOp = (\<lambda>x. x), redFn = minMax_reduce (ucast opArg), postOp = (\<lambda>x. x)\<rparr>"

definition FuncPreMulSum :: "u64 \<Rightarrow> 'a::len word redop" where
  "FuncPreMulSum opArg = (let scalar = ucast opArg in \<lparr>preOp = (\<lambda>x. x * scalar), redFn = (+), postOp = (\<lambda>x. x)\<rparr>)"

text \<open>
  \<^verbatim>\<open>FuncSumPostDiv\<close>: the element has type \<open>'a word\<close> and the computation is done in \<open>'u word\<close>, which is
  64 bits for 64-bit elements and 32 bits otherwise.  The intrinsics \<^verbatim>\<open>__umulhi\<close> and \<^verbatim>\<open>__umul64hi\<close> return
  the upper half of a product.
\<close>

definition umulhi :: "'u::len word \<Rightarrow> 'u word \<Rightarrow> 'u word" where
  "umulhi a b = word_of_nat (unat a * unat b div 2 ^ LENGTH('u))"

record 'r sumPostDiv =
  isSigned :: bool
  divisor :: u32
  recip :: 'r

definition SumPostDiv :: "u64 \<Rightarrow> 'u::len word sumPostDiv" where
  "SumPostDiv opArg =
     (let d = take_bit 31 (ucast (drop_bit 1 opArg) :: u32)
      in \<lparr>isSigned = (opArg AND 1 \<noteq> 0), divisor = d, recip = (- 1) div ucast d\<rparr>)"

definition divide :: "'u::len word sumPostDiv \<Rightarrow> 'a::len word \<Rightarrow> 'a word" where
  "divide fn x =
     (let xneg = (isSigned fn \<and> x AND NOT (drop_bit 1 (- 1)) \<noteq> 0);
          xabs = ucast (if xneg then - x else x);
          q = umulhi xabs (recip fn);
          q = (if xabs - q * ucast (divisor fn) \<ge> ucast (divisor fn) then q + 1 else q)
      in if xneg then - ucast q else ucast q)"

definition FuncSumPostDiv :: "'u::len itself \<Rightarrow> u64 \<Rightarrow> 'a::len word redop" where
  "FuncSumPostDiv u opArg = \<lparr>preOp = (\<lambda>x. x), redFn = (+), postOp = divide (SumPostDiv opArg :: 'u word sumPostDiv)\<rparr>"

section \<open>Division by the reciprocal\<close>

lemma rcp_pred_bounds:
  fixes N x y :: nat
  assumes "0 < y" "x < N"
  defines "q \<equiv> x * ((N - 1) div y) div N"
  shows "q \<le> x div y" and "x div y \<le> q + 1"
proof -
  let ?r = "(N - 1) div y"
  have N: "0 < N" using assms(2) by simp
  have r: "y * ?r \<le> N - 1" "N - 1 < y * ?r + y"
    using dividend_less_times_div [OF assms(1), of "N - 1"] by (simp_all add: add.commute)
  have "q * N \<le> x * ?r" unfolding q_def by simp
  then have "y * q * N \<le> x * (y * ?r)" by (metis mult.assoc mult.left_commute mult_le_mono2)
  also have "\<dots> \<le> x * N" using r(1) N by (intro mult_le_mono2) linarith
  finally have "y * q \<le> x" using N by simp
  then show "q \<le> x div y" using assms(1) by (simp add: less_eq_div_iff_mult_less_eq mult.commute)
  have "x * ?r < N * (q + 1)" unfolding q_def using N by (simp add: dividend_less_times_div)
  then have a: "y * (x * ?r) < y * (N * (q + 1))" using assms(1) by simp
  have "x * N \<le> x * (y * ?r + y)" using r(2) N by (intro mult_le_mono2) linarith
  also have "\<dots> = y * (x * ?r) + x * y" by (simp add: algebra_simps)
  also have "\<dots> < y * (N * (q + 1)) + N * y" using a assms(2) by (intro add_less_le_mono) simp_all
  also have "\<dots> = (y * (q + 2)) * N" by (simp add: algebra_simps)
  finally have "x < y * (q + 2)" using N by simp
  then have "x div y < q + 2" using assms(1) by (simp add: div_less_iff_less_mult mult.commute)
  then show "x div y \<le> q + 1" by simp
qed

lemma unat_umulhi: "unat (umulhi a b) = unat a * unat b div 2 ^ LENGTH('u)" for a b :: "'u::len word"
proof -
  have "unat a * unat b < 2 ^ LENGTH('u) * 2 ^ LENGTH('u)"
    using unsigned_less [of a, where 'a = nat] unsigned_less [of b, where 'a = nat] by (intro mult_strict_mono) simp_all
  then have "unat a * unat b div 2 ^ LENGTH('u) < 2 ^ LENGTH('u)" by (simp add: div_less_iff_less_mult)
  then show ?thesis by (simp add: umulhi_def unsigned_of_nat take_bit_nat_eq_self)
qed

text \<open>The quotient is off by at most one before the fix-up and exact after it.\<close>

lemma sumPostDiv_quotient:
  fixes x d :: "'u::len word"
  assumes "d \<noteq> 0"
  defines "q \<equiv> umulhi x ((- 1) div d)"
  shows "(if x - q * d \<ge> d then q + 1 else q) = x div d"
proof -
  have d: "0 < unat d" using assms(1) by (simp add: unat_gt_0)
  have "unat (- 1 :: 'u word) = 2 ^ LENGTH('u) - 1" by (simp add: unsigned_minus_1_eq_mask mask_eq_exp_minus_1)
  then have q: "unat q = unat x * ((2 ^ LENGTH('u) - 1) div unat d) div 2 ^ LENGTH('u)"
    unfolding q_def unat_umulhi by (simp add: unat_div_distrib)
  have "unat q \<le> unat x div unat d" "unat x div unat d \<le> unat q + 1"
    unfolding q using rcp_pred_bounds [OF d, of "unat x" "2 ^ LENGTH('u)"] unsigned_less [of x] by auto
  from quotient_correction [OF assms(1) this] show ?thesis
    by (auto simp: Let_def mult.commute split: if_splits)
qed

lemma and_not_half: "x AND NOT (drop_bit 1 (- 1)) \<noteq> 0 \<longleftrightarrow> bit x (LENGTH('a) - 1)" for x :: "'a::len word"
proof -
  have "bit (x AND NOT (drop_bit 1 (- 1))) i \<longleftrightarrow> i = LENGTH('a) - 1 \<and> bit x i" for i
    by (cases "i < LENGTH('a)") (auto simp: bit_simps dest: bit_imp_le_length)
  then show ?thesis by (metis bit_eqI bit_0_eq bot_apply bot_bool_def)
qed

lemma bit_top_iff: "bit x (LENGTH('a) - 1) \<longleftrightarrow> 2 ^ (LENGTH('a) - 1) \<le> unat x" for x :: "'a::len word"
proof -
  obtain n where n: "LENGTH('a) = Suc n" using len_gt_0 [where 'a = 'a] gr0_conv_Suc by blast
  have lt: "unat x < 2 * 2 ^ n" using unsigned_less [of x, where 'a = nat] n by simp
  have "bit x n \<longleftrightarrow> bit (unat x) n" by (simp add: bit_unsigned_iff n)
  also have "\<dots> \<longleftrightarrow> odd (unat x div 2 ^ n)" by (simp add: bit_iff_odd)
  also have "\<dots> \<longleftrightarrow> 2 ^ n \<le> unat x"
  proof
    assume "odd (unat x div 2 ^ n)"
    then have "unat x div 2 ^ n \<noteq> 0" by (metis even_zero)
    then show "2 ^ n \<le> unat x" by (simp add: div_eq_0_iff)
  next
    assume "2 ^ n \<le> unat x"
    then have "unat x div 2 ^ n = 1" using lt by (intro div_nat_eqI) simp_all
    then show "odd (unat x div 2 ^ n)" by simp
  qed
  finally show ?thesis by (simp add: n)
qed

lemma sint_unat: "sint x = (if bit x (LENGTH('a) - 1) then int (unat x) - 2 ^ LENGTH('a) else int (unat x))" for x :: "'a::len word"
proof -
  obtain n where n: "LENGTH('a) = Suc n" using len_gt_0 [where 'a = 'a] gr0_conv_Suc by blast
  have "sint x = signed_take_bit n (uint x)" using sint_uint [of x] n by simp
  also have "\<dots> = uint x - 2 * 2 ^ n * of_bool (bit x n)"
    using unsigned_less [of x, where 'a = int] n
    by (simp add: signed_take_bit_eq_take_bit_minus bit_unsigned_iff take_bit_int_eq_self)
  finally show ?thesis by (simp add: n)
qed

text \<open>The result is the quotient of the values, rounded towards zero.\<close>

lemma SumPostDiv_sel:
  assumes "0 < n" "n < 2 ^ 31"
  shows "isSigned (SumPostDiv (word_of_nat (2 * n + of_bool s)) :: 'u::len word sumPostDiv) \<longleftrightarrow> s"
    and "divisor (SumPostDiv (word_of_nat (2 * n + of_bool s)) :: 'u::len word sumPostDiv) = word_of_nat n"
    and "recip (SumPostDiv (word_of_nat (2 * n + of_bool s)) :: 'u::len word sumPostDiv) = (- 1) div ucast (word_of_nat n :: u32)"
proof -
  let ?a = "word_of_nat (2 * n + of_bool s) :: u64"
  have a: "unat ?a = 2 * n + of_bool s" using assms(2)
    by (simp only: unsigned_of_nat) (auto simp: take_bit_nat_eq_self)
  have "unat (?a AND 1) = of_bool s" unfolding unsigned_and_eq a by simp
  then show "isSigned (SumPostDiv ?a :: 'u::len word sumPostDiv) \<longleftrightarrow> s"
    by (auto simp: SumPostDiv_def Let_def word_unat_eq_iff)
  have "unat (drop_bit 1 ?a) = n" unfolding unat_drop_bit a by simp
  then have "unat (ucast (drop_bit 1 ?a) :: u32) = n" using assms(2) by (simp add: unat_ucast_mod)
  then have "unat (take_bit 31 (ucast (drop_bit 1 ?a) :: u32)) = n"
    using assms(2) by (simp add: unsigned_take_bit_eq take_bit_nat_eq_self)
  moreover have "unat (word_of_nat n :: u32) = n" using assms(2) by (simp add: unsigned_of_nat take_bit_nat_eq_self)
  ultimately have "take_bit 31 (ucast (drop_bit 1 ?a) :: u32) = word_of_nat n" by (simp add: word_unat_eq_iff)
  then show "divisor (SumPostDiv ?a :: 'u::len word sumPostDiv) = word_of_nat n"
    "recip (SumPostDiv ?a :: 'u::len word sumPostDiv) = (- 1) div ucast (word_of_nat n :: u32)"
    by (simp_all add: SumPostDiv_def Let_def)
qed

lemma divide_eq:
  fixes x :: "'a::len word"
  assumes "0 < n" "n < 2 ^ 31" "LENGTH('a) \<le> LENGTH('u)" "32 \<le> LENGTH('u)"
  shows "divide (SumPostDiv (word_of_nat (2 * n + of_bool s)) :: 'u::len word sumPostDiv) x =
    (if s \<and> bit x (LENGTH('a) - 1) then - word_of_nat (unat (- x) div n) else word_of_nat (unat x div n))"
proof -
  let ?d = "ucast (word_of_nat n :: u32) :: 'u word"
  have "unat (word_of_nat n :: u32) = n" using assms(2) by (simp add: unsigned_of_nat take_bit_nat_eq_self)
  then have d: "unat ?d = n" using assms(4) by (simp add: unat_ucast_up)
  then have nz: "?d \<noteq> 0" using assms(1) by auto
  have "unat ((ucast y :: 'u word) div ?d) = unat y div n" for y :: "'a word"
    using assms(3) by (simp add: unat_div_distrib d unat_ucast_up)
  then have "ucast ((ucast y :: 'u word) div ?d) = (word_of_nat (unat y div n) :: 'a word)" for y :: "'a word"
    by (metis of_nat_unat)
  then show ?thesis
    unfolding divide_def Let_def SumPostDiv_sel [OF assms(1,2)] and_not_half sumPostDiv_quotient [OF nz]
    by (simp split: if_splits)
qed

lemma sint_word_of_nat: "k < 2 ^ (LENGTH('a) - 1) \<Longrightarrow> sint (word_of_nat k :: 'a::len word) = int k"
proof -
  assume k: "k < 2 ^ (LENGTH('a) - 1)"
  also have "\<dots> < (2::nat) ^ LENGTH('a)" by (simp add: power_strict_increasing)
  finally have "unat (word_of_nat k :: 'a word) = k" by (simp add: unsigned_of_nat take_bit_nat_eq_self)
  moreover then have "\<not> bit (word_of_nat k :: 'a word) (LENGTH('a) - 1)" unfolding bit_top_iff using k by simp
  ultimately show ?thesis by (simp add: sint_unat)
qed

lemma sint_uminus_word_of_nat: "k \<le> 2 ^ (LENGTH('a) - 1) \<Longrightarrow> sint (- word_of_nat k :: 'a::len word) = - int k"
proof -
  assume k: "k \<le> 2 ^ (LENGTH('a) - 1)"
  let ?N = "2 ^ LENGTH('a) :: nat"
  have N: "?N = 2 * 2 ^ (LENGTH('a) - 1)" using power_Suc [of 2 "LENGTH('a) - 1"] by simp
  then have kN: "k < ?N" using k zero_less_power [of "2::nat" "LENGTH('a) - 1"] by linarith
  show ?thesis
  proof (cases "k = 0")
    case False
    have w: "unat (word_of_nat k :: 'a word) = k" using kN by (simp add: unsigned_of_nat take_bit_nat_eq_self)
    then have nz: "(word_of_nat k :: 'a word) \<noteq> 0" using False by auto
    have u: "unat (- word_of_nat k :: 'a word) = ?N - k" unfolding unat_uminus_word [OF nz] w ..
    then have "bit (- word_of_nat k :: 'a word) (LENGTH('a) - 1)" unfolding bit_top_iff using N k by simp
    then have "sint (- word_of_nat k :: 'a word) = int (?N - k) - 2 ^ LENGTH('a)" unfolding sint_unat u by simp
    then show ?thesis using kN by (simp add: of_nat_diff)
  qed simp
qed

lemma divide_unsigned:
  fixes x :: "'a::len word"
  assumes "0 < n" "n < 2 ^ 31" "LENGTH('a) \<le> LENGTH('u)" "32 \<le> LENGTH('u)"
  shows "unat (divide (SumPostDiv (word_of_nat (2 * n)) :: 'u::len word sumPostDiv) x) = unat x div n"
proof -
  have "unat x div n < 2 ^ LENGTH('a)" using unsigned_less [of x, where 'a = nat] div_le_dividend [of "unat x" n] by linarith
  then show ?thesis
    using divide_eq [OF assms, of False x] by (simp add: unsigned_of_nat take_bit_nat_eq_self)
qed

lemma divide_signed:
  fixes x :: "'a::len word"
  assumes "0 < n" "n < 2 ^ 31" "LENGTH('a) \<le> LENGTH('u)" "32 \<le> LENGTH('u)"
  shows "sint (divide (SumPostDiv (word_of_nat (2 * n + 1)) :: 'u::len word sumPostDiv) x) = sint x sdiv int n"
proof -
  let ?h = "2 ^ (LENGTH('a) - 1) :: nat"
  have N: "2 ^ LENGTH('a) = 2 * ?h" using power_Suc [of 2 "LENGTH('a) - 1"] by simp
  have eq: "divide (SumPostDiv (word_of_nat (2 * n + 1)) :: 'u::len word sumPostDiv) x =
    (if bit x (LENGTH('a) - 1) then - word_of_nat (unat (- x) div n) else word_of_nat (unat x div n))"
    using divide_eq [OF assms, of True x] by simp
  show ?thesis
  proof (cases "bit x (LENGTH('a) - 1)")
    case True
    then have h: "?h \<le> unat x" unfolding bit_top_iff .
    then have nz: "x \<noteq> 0" by auto
    have u: "unat (- x) = 2 ^ LENGTH('a) - unat x" by (rule unat_uminus_word [OF nz])
    then have "unat (- x) \<le> ?h" using h N by simp
    then have le: "unat (- x) div n \<le> ?h" using div_le_dividend [of "unat (- x)" n] by linarith
    have "int (2 ^ LENGTH('a) - unat x) = 2 ^ LENGTH('a) - int (unat x)"
      using unsigned_less [of x, where 'a = nat] by (simp only: of_nat_diff less_imp_le) simp
    then have sx: "sint x = - int (unat (- x))" unfolding sint_unat u using True by simp
    have pos: "0 < unat (- x)" using nz by (simp add: unat_gt_0)
    show ?thesis
      unfolding eq if_P [OF True] sint_uminus_word_of_nat [OF le] sx
      using assms(1) pos by (simp add: signed_divide_int_def sgn_if zdiv_int)
  next
    case False
    then have "unat x < ?h" unfolding bit_top_iff by simp
    then have lt: "unat x div n < ?h" using div_le_dividend [of "unat x" n] by linarith
    show ?thesis
      unfolding eq if_not_P [OF False] sint_word_of_nat [OF lt] using False assms(1)
      by (simp add: sint_unat signed_divide_int_def sgn_if zdiv_int)
  qed
qed

section \<open>Minimum and maximum\<close>

lemma minMax_assoc: "minMax_reduce m (minMax_reduce m a b) c = minMax_reduce m a (minMax_reduce m b c)"
  by (auto simp: minMax_reduce_def)

lemma xor_cancel: "a XOR m = b XOR m \<longleftrightarrow> a = b" for a b m :: "'a::len word"
  by (metis xor.assoc xor_self_eq xor.right_neutral)

lemma minMax_comm: "minMax_reduce m a b = minMax_reduce m b a"
  using xor_cancel [of a m b] by (auto simp: minMax_reduce_def)

text \<open>The four masks of \<^verbatim>\<open>hostToDevRedOp\<close>: the order of the masked values is the one wanted.\<close>

lemma uint_xor_full: "uint (a XOR (- 1)) = 2 ^ LENGTH('a) - 1 - uint a" for a :: "'a::len word"
proof -
  have "uint (NOT a) = take_bit LENGTH('a) (NOT (uint a))" by (simp add: unsigned_not_eq)
  then have "uint (NOT a) = mask LENGTH('a) - take_bit LENGTH('a) (uint a)" by (simp only: take_bit_not_eq_mask_diff)
  moreover have "take_bit LENGTH('a) (uint a) = uint a" by (intro take_bit_int_eq_self) simp_all
  ultimately show ?thesis by (simp add: mask_eq_exp_minus_1)
qed

lemma uint_xor_sign: "uint (a XOR 2 ^ (LENGTH('a) - 1)) = sint a + 2 ^ (LENGTH('a) - 1)" for a :: "'a::len word"
proof -
  define n where "n = LENGTH('a) - 1"
  have N: "LENGTH('a) = Suc n" by (simp add: n_def)
  have "uint (2 ^ n :: 'a word) = int (unat (2 ^ n :: 'a word))" by simp
  then have "uint (2 ^ n :: 'a word) = 2 ^ n" using unat_pow2 [of n, where 'a = 'a] N by simp
  then have "uint (a XOR 2 ^ n) = uint a XOR 2 ^ n" by (simp add: unsigned_xor_eq)
  also have "\<dots> = flip_bit n (uint a)" by (simp add: flip_bit_def push_bit_eq_mult)
  also have "\<dots> = (if bit (uint a) n then uint a - 2 ^ n else uint a + 2 ^ n)"
    by (simp add: flip_bit_eq_if set_bit_eq unset_bit_eq)
  also have "\<dots> = sint a + 2 ^ n"
    using sint_unat [of a] by (simp add: n_def [symmetric] N bit_unsigned_iff)
  finally show ?thesis by (simp only: n_def)
qed

section \<open>Four bytes at once\<close>

text \<open>
  The bytes of a 32-bit pack, and the intrinsic \<^verbatim>\<open>__byte_perm\<close>: each of the four low nibbles of the selector
  chooses one of the eight bytes of the pair.
\<close>

definition byte_of :: "u32 \<Rightarrow> nat \<Rightarrow> u8" where
  "byte_of w i = ucast (drop_bit (8 * i) w)"

definition bytes4 :: "u8 \<Rightarrow> u8 \<Rightarrow> u8 \<Rightarrow> u8 \<Rightarrow> u32" where
  "bytes4 b0 b1 b2 b3 = ucast b0 OR push_bit 8 (ucast b1) OR push_bit 16 (ucast b2) OR push_bit 24 (ucast b3)"

definition byte_perm :: "u32 \<Rightarrow> u32 \<Rightarrow> u32 \<Rightarrow> u32" where
  "byte_perm x y s =
     (let byte = (\<lambda>k. let n = unat (drop_bit (4 * k) s AND 7) in if n < 4 then byte_of x n else byte_of y (n - 4))
      in bytes4 (byte 0) (byte 1) (byte 2) (byte 3))"

definition sum4 :: "u32 \<Rightarrow> u32 \<Rightarrow> u32" where
  "sum4 a b =
     (let even = 0x00ff00ff;
          x = (a AND even) + (b AND even);
          y = (a AND NOT even) + (b AND NOT even)
      in byte_perm x y 0x7250)"

definition minMax4 :: "u8 \<Rightarrow> u32 \<Rightarrow> u32 \<Rightarrow> u32" where
  "minMax4 xormask a b =
     (let ones = 0x01010101; even = 0x00ff00ff;
          x = ucast xormask * ones;
          ax = a XOR x;
          bx = b XOR x;
          d0 = (ax AND even) + (NOT bx AND even) + ones;
          d1 = (drop_bit 8 ax AND even) + (NOT (drop_bit 8 bx) AND even) + ones;
          s = byte_perm d0 d1 0x7351 AND ones;
          s = s * 0xff
      in (a AND s) OR (b AND NOT s))"

text \<open>The instructions \<^verbatim>\<open>mad.lo\<close>, \<^verbatim>\<open>mul.hi\<close> and \<^verbatim>\<open>mad.hi\<close> use the lower and upper half of a product.\<close>

definition prod4 :: "u32 \<Rightarrow> u32 \<Rightarrow> u32" where
  "prod4 a b =
     (let ab0 = (a * b) AND 0xff;
          ab0 = (a AND 0xff00) * (b AND 0xff00) + ab0;
          ab1 = umulhi (a AND 0xff0000) (b AND 0xff0000);
          ab1 = umulhi (a AND 0xff000000) (b AND 0xff000000) + ab1
      in byte_perm ab0 ab1 0x6420)"

lemma bit_byte_of: "bit (byte_of w i) n \<longleftrightarrow> n < 8 \<and> bit w (8 * i + n)"
  by (auto simp: byte_of_def bit_simps)

lemma bit_bytes4:
  "bit (bytes4 b0 b1 b2 b3) n \<longleftrightarrow>
   (if n < 8 then bit b0 n else if n < 16 then bit b1 (n - 8) else if n < 24 then bit b2 (n - 16) else n < 32 \<and> bit b3 (n - 24))"
  by (auto simp: bytes4_def bit_simps dest: bit_imp_le_length)

lemma bytes4_byte_of: "bytes4 (byte_of w 0) (byte_of w 1) (byte_of w 2) (byte_of w 3) = w"
  by (rule bit_eqI) (auto simp: bit_bytes4 bit_byte_of dest: bit_imp_le_length)

lemma byte_of_bytes4 [simp]:
  "byte_of (bytes4 b0 b1 b2 b3) 0 = b0" "byte_of (bytes4 b0 b1 b2 b3) (Suc 0) = b1"
  "byte_of (bytes4 b0 b1 b2 b3) 2 = b2" "byte_of (bytes4 b0 b1 b2 b3) 3 = b3"
  by (rule bit_eqI; auto simp: bit_bytes4 bit_byte_of dest: bit_imp_le_length)+

lemma bytes4_and: "bytes4 a0 a1 a2 a3 AND bytes4 b0 b1 b2 b3 = bytes4 (a0 AND b0) (a1 AND b1) (a2 AND b2) (a3 AND b3)"
  by (rule bit_eqI) (auto simp: bit_bytes4 bit_and_iff)

lemma bytes4_or: "bytes4 a0 a1 a2 a3 OR bytes4 b0 b1 b2 b3 = bytes4 (a0 OR b0) (a1 OR b1) (a2 OR b2) (a3 OR b3)"
  by (rule bit_eqI) (auto simp: bit_bytes4 bit_or_iff)

lemma bytes4_xor: "bytes4 a0 a1 a2 a3 XOR bytes4 b0 b1 b2 b3 = bytes4 (a0 XOR b0) (a1 XOR b1) (a2 XOR b2) (a3 XOR b3)"
  by (rule bit_eqI) (auto simp: bit_bytes4 bit_xor_iff)

lemma bytes4_not: "NOT (bytes4 a0 a1 a2 a3) = bytes4 (NOT a0) (NOT a1) (NOT a2) (NOT a3)"
  by (rule bit_eqI) (auto simp: bit_bytes4 bit_not_iff)

lemma bytes4_shift: "drop_bit 8 (bytes4 a0 a1 a2 a3) = bytes4 a1 a2 a3 0"
  by (rule bit_eqI) (auto simp: bit_bytes4 bit_simps)

lemma bytes4_num: "bytes4 a0 a1 a2 a3 = word_of_nat (unat a0 + 256 * unat a1 + 65536 * unat a2 + 16777216 * unat a3)"
proof -
  have "bytes4 a0 a1 a2 a3 = ucast a0 + push_bit 8 (ucast a1) + push_bit 16 (ucast a2) + push_bit 24 (ucast a3)"
    unfolding bytes4_def
    by (subst disjunctive_add_eq_or [symmetric], (rule bit_eqI, auto simp: bit_simps dest: bit_imp_le_length)[1])+
       (simp add: add.assoc)
  then show ?thesis by (simp add: push_bit_eq_mult mult.commute)
qed

lemma byte_of_word_of_nat: "i < 4 \<Longrightarrow> byte_of (word_of_nat y) i = word_of_nat (y div 256 ^ i)"
proof (rule bit_eqI)
  fix n assume i: "i < 4" and "possible_bit TYPE(u8) n"
  then have n: "n < 8" by (simp add: possible_bit_word)
  have "bit (byte_of (word_of_nat y) i) n \<longleftrightarrow> bit y (8 * i + n)" using i n by (simp add: bit_byte_of bit_simps)
  also have "\<dots> \<longleftrightarrow> bit (drop_bit (8 * i) y) n" by (simp add: bit_drop_bit_eq)
  also have "drop_bit (8 * i) y = y div 256 ^ i" by (simp add: drop_bit_eq_div power_mult)
  finally show "bit (byte_of (word_of_nat y) i) n = bit (word_of_nat (y div 256 ^ i) :: u8) n" using n by (simp add: bit_simps)
qed

text \<open>The constants of the packed versions.\<close>

lemma pack_constants:
  "0x00ff00ff = bytes4 255 0 255 0" "0x01010101 = bytes4 1 1 1 1" "0xff = bytes4 255 0 0 0" "0xff00 = bytes4 0 255 0 0"
  "0xff0000 = bytes4 0 0 255 0" "0xff000000 = bytes4 0 0 0 255"
  by (simp_all add: bytes4_def)

lemma byte_full [simp]: "b AND 255 = b" "255 AND b = b" "b AND - 256 = 0" for b :: u8
proof -
  have "(255 :: u8) = - 1" "(- 256 :: u8) = 0" by simp_all
  then show "b AND 255 = b" "255 AND b = b" "b AND - 256 = 0" by (metis and.right_neutral and.left_neutral and_zero_eq)+
qed

lemma byte_perm_selectors:
  "byte_perm x y 0x7250 = bytes4 (byte_of x 0) (byte_of y 1) (byte_of x 2) (byte_of y 3)"
  "byte_perm x y 0x7351 = bytes4 (byte_of x 1) (byte_of y 1) (byte_of x 3) (byte_of y 3)"
  "byte_perm x y 0x6420 = bytes4 (byte_of x 0) (byte_of x 2) (byte_of y 0) (byte_of y 2)"
  by (simp_all add: byte_perm_def Let_def)

lemma pack_even:
  "bytes4 a0 a1 a2 a3 AND 0x00ff00ff = bytes4 a0 0 a2 0" "bytes4 a0 a1 a2 a3 AND NOT 0x00ff00ff = bytes4 0 a1 0 a3"
  by (simp_all add: pack_constants bytes4_and bytes4_not)

lemma unat_byte_less: "unat (b :: u8) < 256"
  using unsigned_less [of b, where 'a = nat] by simp

lemma word_of_nat_byte_256 [simp]: "(256 * word_of_nat k :: u8) = 0" "(65536 * word_of_nat k :: u8) = 0"
proof -
  have "(256 :: u8) = 0" "(65536 :: u8) = 0" by simp_all
  then show "(256 * word_of_nat k :: u8) = 0" "(65536 * word_of_nat k :: u8) = 0" by (metis mult_zero_left)+
qed

text \<open>The bytes of a word given as two 16-bit halves, when the lower half does not overflow.\<close>

lemma byte_of_halves:
  assumes "l < 65536"
  shows "byte_of (word_of_nat (l + 65536 * h)) 0 = word_of_nat l"
    and "byte_of (word_of_nat (l + 65536 * h)) 1 = word_of_nat (l div 256)"
    and "byte_of (word_of_nat (l + 65536 * h)) 2 = word_of_nat h"
    and "byte_of (word_of_nat (l + 65536 * h)) 3 = word_of_nat (h div 256)"
proof -
  let ?w = "word_of_nat (l + 65536 * h) :: u32"
  have 1: "(l + 65536 * h) div 256 = l div 256 + 256 * h"
  proof -
    have "l + 65536 * h = l + (256 * h) * 256" by simp
    then show ?thesis by (simp only: div_mult_self1 [OF zero_neq_numeral [symmetric]])
  qed
  have 2: "(l + 65536 * h) div 65536 = h" using assms by simp
  have 3: "(l + 65536 * h) div 16777216 = h div 256"
    using div_mult2_eq [of "l + 65536 * h" 65536 256] 2 by simp
  show "byte_of ?w 0 = word_of_nat l" using byte_of_word_of_nat [of 0 "l + 65536 * h"] by simp
  show "byte_of ?w 1 = word_of_nat (l div 256)" using byte_of_word_of_nat [of 1 "l + 65536 * h"] 1 by simp
  show "byte_of ?w 2 = word_of_nat h" using byte_of_word_of_nat [of 2 "l + 65536 * h"] 2 by simp
  show "byte_of ?w 3 = word_of_nat (h div 256)" using byte_of_word_of_nat [of 3 "l + 65536 * h"] 3 by simp
qed

lemma bytes4_halves:
  "bytes4 a0 a1 a2 a3 = word_of_nat ((unat a0 + 256 * unat a1) + 65536 * (unat a2 + 256 * unat a3))"
  unfolding bytes4_num by (rule arg_cong [where f = word_of_nat]) (simp add: distrib_left)

lemma add_halves:
  "(word_of_nat (l + 65536 * h) :: u32) + word_of_nat (l' + 65536 * h') = word_of_nat ((l + l') + 65536 * (h + h'))"
  by (simp only: of_nat_add [symmetric]) (simp add: algebra_simps)

lemma byte_of_odd:
  assumes "s < 65536"
  shows "byte_of (word_of_nat (256 * s + 65536 * (256 * t))) 1 = word_of_nat s"
    and "byte_of (word_of_nat (256 * s + 65536 * (256 * t))) 3 = word_of_nat t"
proof -
  have eq: "256 * s + 65536 * (256 * t) = (s + 65536 * t) * 256" by simp
  have 1: "(256 * s + 65536 * (256 * t)) div 256 = s + 65536 * t"
    unfolding eq by (rule nonzero_mult_div_cancel_right) simp
  have 3: "(256 * s + 65536 * (256 * t)) div 16777216 = t"
    using div_mult2_eq [of "256 * s + 65536 * (256 * t)" 256 65536] assms unfolding 1 by simp
  show "byte_of (word_of_nat (256 * s + 65536 * (256 * t))) 1 = word_of_nat s"
    using byte_of_word_of_nat [of 1 "256 * s + 65536 * (256 * t)"] unfolding power_one_right 1 by simp
  show "byte_of (word_of_nat (256 * s + 65536 * (256 * t))) 3 = word_of_nat t"
    using byte_of_word_of_nat [of 3 "256 * s + 65536 * (256 * t)"] 3 by simp
qed

lemma sum4_bytes: "sum4 (bytes4 a0 a1 a2 a3) (bytes4 b0 b1 b2 b3) = bytes4 (a0 + b0) (a1 + b1) (a2 + b2) (a3 + b3)"
proof -
  let ?x = "bytes4 a0 0 a2 0 + bytes4 b0 0 b2 0" let ?y = "bytes4 0 a1 0 a3 + bytes4 0 b1 0 b3"
  have x: "?x = word_of_nat ((unat a0 + unat b0) + 65536 * (unat a2 + unat b2))"
    unfolding bytes4_halves add_halves by simp
  have y: "?y = word_of_nat (256 * (unat a1 + unat b1) + 65536 * (256 * (unat a3 + unat b3)))"
    unfolding bytes4_halves add_halves by (simp add: distrib_left)
  have lt: "unat a0 + unat b0 < 65536" "unat a1 + unat b1 < 65536"
    using unat_byte_less [of a0] unat_byte_less [of b0] unat_byte_less [of a1] unat_byte_less [of b1] by linarith+
  show ?thesis
    unfolding sum4_def Let_def pack_even byte_perm_selectors x y byte_of_halves [OF lt(1)] byte_of_odd [OF lt(2)] by simp
qed

lemma unat_bytes4: "unat (bytes4 a0 a1 a2 a3) = unat a0 + 256 * unat a1 + 65536 * unat a2 + 16777216 * unat a3"
proof -
  have "unat a0 + 256 * unat a1 + 65536 * unat a2 + 16777216 * unat a3 < 2 ^ 32"
    using unat_byte_less [of a0] unat_byte_less [of a1] unat_byte_less [of a2] unat_byte_less [of a3] by simp
  then show ?thesis unfolding bytes4_num by (simp only: unsigned_of_nat) (simp add: take_bit_nat_eq_self)
qed

lemma byte_of_mult: "byte_of (a * b) 0 = byte_of a 0 * byte_of b 0"
proof -
  have "unat a * unat b mod 4294967296 mod 256 = unat a mod 256 * (unat b mod 256) mod 256"
    by (simp add: mod_mod_cancel mod_mult_eq)
  then show ?thesis by (simp add: byte_of_def word_unat_eq_iff unat_ucast_mod unat_word_ariths)
qed

lemma bytes4_mult_low: "(a * b) AND 0xff = bytes4 (byte_of a 0 * byte_of b 0) 0 0 0"
proof -
  have "(a * b) AND 0xff = bytes4 (byte_of (a * b) 0) (byte_of (a * b) 1) (byte_of (a * b) 2) (byte_of (a * b) 3) AND bytes4 255 0 0 0"
    unfolding bytes4_byte_of pack_constants(3) ..
  then show ?thesis by (simp add: bytes4_and byte_of_mult)
qed

lemma mult_less_half: "unat (a::u8) * unat (b::u8) < 65536"
proof -
  have "unat a * unat b \<le> 255 * 255" using unat_byte_less [of a] unat_byte_less [of b] by (intro mult_le_mono) simp_all
  then show ?thesis by simp
qed

lemma prod4_bytes: "prod4 (bytes4 a0 a1 a2 a3) (bytes4 b0 b1 b2 b3) = bytes4 (a0 * b0) (a1 * b1) (a2 * b2) (a3 * b3)"
proof -
  have m: "bytes4 c0 c1 c2 c3 AND 0xff00 = bytes4 0 c1 0 0" "bytes4 c0 c1 c2 c3 AND 0xff0000 = bytes4 0 0 c2 0"
    "bytes4 c0 c1 c2 c3 AND 0xff000000 = bytes4 0 0 0 c3" for c0 c1 c2 c3
    by (simp_all add: pack_constants bytes4_and)
  have h: "bytes4 0 c 0 0 = word_of_nat (256 * unat c)" for c by (simp add: bytes4_num)
  have 1: "bytes4 0 a1 0 0 * bytes4 0 b1 0 0 + bytes4 (a0 * b0) 0 0 0 = word_of_nat (unat (a0 * b0) + 65536 * (unat a1 * unat b1))"
    unfolding h by (simp add: bytes4_num)
  have 2: "unat (a0 * b0) < 65536" using unat_byte_less [of "a0 * b0"] by simp
  have 3: "umulhi (bytes4 0 0 a2 0) (bytes4 0 0 b2 0) = word_of_nat (unat a2 * unat b2)"
    unfolding umulhi_def unat_bytes4 by (rule arg_cong [where f = word_of_nat]) simp
  have 4: "umulhi (bytes4 0 0 0 a3) (bytes4 0 0 0 b3) = word_of_nat (65536 * (unat a3 * unat b3))"
    unfolding umulhi_def unat_bytes4 by (rule arg_cong [where f = word_of_nat]) simp
  have 5: "(word_of_nat (65536 * (unat a3 * unat b3)) :: u32) + word_of_nat (unat a2 * unat b2) =
      word_of_nat (unat a2 * unat b2 + 65536 * (unat a3 * unat b3))"
    by (simp only: of_nat_add [symmetric] add.commute)
  show ?thesis
    unfolding prod4_def Let_def bytes4_mult_low m byte_perm_selectors byte_of_bytes4 1 3 4 5
      byte_of_halves [OF 2] byte_of_halves [OF mult_less_half] by simp
qed

lemma unat_not_byte: "unat (NOT b) = 255 - unat b" for b :: u8
proof -
  have "uint (NOT b) = 255 - uint b" using uint_xor_full [of b] by simp
  then have "int (unat (NOT b)) = 255 - int (unat b)" by simp
  then show ?thesis by linarith
qed

lemma and_one_of_bool: "(w :: u8) AND 1 = of_bool (odd (unat w))"
proof -
  have "unat (w AND 1) = unat w AND 1" by (simp only: unsigned_and_eq unsigned_1)
  also have "\<dots> = of_bool (odd (unat w))" by (simp only: and_one_eq mod_2_eq_odd)
  finally show ?thesis by (simp add: word_unat_eq_iff split: if_splits)
qed

text \<open>The ninth bit of the difference is set when the first operand is smaller.\<close>

lemma delta_bit: "(word_of_nat ((unat a + unat (NOT b) + 257) div 256) :: u8) AND 1 = of_bool (a < b)" for a b :: u8
proof -
  note lt = unat_byte_less [of a] unat_byte_less [of b]
  let ?l = "unat a + unat (NOT b) + 257"
  have l: "?l = 512 + unat a - unat b" using lt by (simp add: unat_not_byte)
  have "?l div 256 = (if a < b then 1 else 2)"
    unfolding l word_less_nat_alt using lt by (auto intro!: div_nat_eqI)
  then show ?thesis unfolding and_one_of_bool by (simp add: of_bool_def)
qed

lemma minMax4_delta:
  "bytes4 (byte_of (bytes4 a 0 c 0 + bytes4 (NOT b) 0 (NOT d) 0 + 0x01010101) 1 AND 1) q
     (byte_of (bytes4 a 0 c 0 + bytes4 (NOT b) 0 (NOT d) 0 + 0x01010101) 3 AND 1) r = bytes4 (of_bool (a < b)) q (of_bool (c < d)) r"
proof -
  have "bytes4 a 0 c 0 + bytes4 (NOT b) 0 (NOT d) 0 + 0x01010101 =
    word_of_nat ((unat a + unat (NOT b) + 257) + 65536 * (unat c + unat (NOT d) + 257))"
    unfolding pack_constants(2) bytes4_halves add_halves by simp
  moreover have "unat a + unat (NOT b) + 257 < 65536" using unat_byte_less [of a] unat_byte_less [of "NOT b"] by simp
  ultimately show ?thesis by (simp only: byte_of_halves delta_bit)
qed

lemma pack_select:
  "bytes4 (of_bool p) (of_bool q) (of_bool r) (of_bool s) * 0xff =
   bytes4 (if p then 255 else 0) (if q then 255 else 0) (if r then 255 else 0) (if s then 255 else 0)"
  by (cases p; cases q; cases r; cases s) (simp_all add: bytes4_def)

lemma select_byte: "(a AND (if p then 255 else 0)) OR (b AND NOT (if p then 255 else 0)) = (if p then a else b)" for a b :: u8
  by simp

lemma replicate_byte: "ucast m * 0x01010101 = bytes4 m m m m"
  by (simp add: bytes4_num)

lemma minMax4_bytes:
  "minMax4 m (bytes4 a0 a1 a2 a3) (bytes4 b0 b1 b2 b3) =
   bytes4 (minMax_reduce m a0 b0) (minMax_reduce m a1 b1) (minMax_reduce m a2 b2) (minMax_reduce m a3 b3)"
proof -
  have one: "bytes4 c0 c1 c2 c3 AND 0x01010101 = bytes4 (c0 AND 1) (c1 AND 1) (c2 AND 1) (c3 AND 1)" for c0 c1 c2 c3
    by (simp only: pack_constants(2) bytes4_and)
  have d: "byte_of (bytes4 a 0 c 0 + bytes4 (NOT b) 0 (NOT d) 0 + 0x01010101) 1 AND 1 = of_bool (a < b)"
    "byte_of (bytes4 a 0 c 0 + bytes4 (NOT b) 0 (NOT d) 0 + 0x01010101) 3 AND 1 = of_bool (c < d)" for a b c d
    using arg_cong [OF minMax4_delta [of a c b d 0 0], of "\<lambda>w. byte_of w 0"]
      arg_cong [OF minMax4_delta [of a c b d 0 0], of "\<lambda>w. byte_of w 2"] by (simp_all only: byte_of_bytes4)
  show ?thesis
    unfolding minMax4_def Let_def replicate_byte bytes4_xor bytes4_not bytes4_shift pack_even byte_perm_selectors one d
      pack_select bytes4_and bytes4_or select_byte minMax_reduce_def ..
qed

text \<open>
  Reduction of a pack of byte elements, by halves down to the specialised four-byte version or to
  single elements.  A pack is the list of its elements, the lowest address first.
\<close>

definition toPack4 :: "u8 list \<Rightarrow> u32" where
  "toPack4 xs = bytes4 (xs ! 0) (xs ! 1) (xs ! 2) (xs ! 3)"

definition fromPack4 :: "u32 \<Rightarrow> u8 list" where
  "fromPack4 w = map (byte_of w) [0..<4]"

function Apply_Reduce :: "(u8 \<Rightarrow> u8 \<Rightarrow> u8) \<Rightarrow> (u32 \<Rightarrow> u32 \<Rightarrow> u32) \<Rightarrow> nat \<Rightarrow> u8 list \<Rightarrow> u8 list \<Rightarrow> u8 list" where
  "Apply_Reduce fn fn4 eltPerPack a b =
     (if eltPerPack = 0 then []
      else if eltPerPack = 1 then [fn (a ! 0) (b ! 0)]
      else if eltPerPack = 4 then fromPack4 (fn4 (toPack4 a) (toPack4 b))
      else let h = eltPerPack div 2
           in Apply_Reduce fn fn4 h (take h a) (take h b) @ Apply_Reduce fn fn4 h (drop h a) (drop h b))"
  by pat_completeness auto
termination by (relation "measure (\<lambda>(_, _, n, _). n)") auto

declare Apply_Reduce.simps [simp del]

lemma length_4_cases: "length xs = 4 \<Longrightarrow> \<exists>a b c d. xs = [a, b, c, d]"
  by (auto simp: numeral_eq_Suc length_Suc_conv)

lemma Apply_Reduce_map2:
  assumes "\<And>a0 a1 a2 a3 b0 b1 b2 b3. fn4 (bytes4 a0 a1 a2 a3) (bytes4 b0 b1 b2 b3) = bytes4 (fn a0 b0) (fn a1 b1) (fn a2 b2) (fn a3 b3)"
    and "length a = 2 ^ k" "length b = 2 ^ k"
  shows "Apply_Reduce fn fn4 (2 ^ k) a b = map2 fn a b"
  using assms(2,3)
proof (induction k arbitrary: a b)
  case 0
  then obtain x y where "a = [x]" "b = [y]" by (metis One_nat_def length_0_conv length_Suc_conv power_0)
  then show ?case by (simp add: Apply_Reduce.simps)
next
  case (Suc k)
  show ?case
  proof (cases "k = 1")
    case True
    then obtain a0 a1 a2 a3 b0 b1 b2 b3 where "a = [a0, a1, a2, a3]" "b = [b0, b1, b2, b3]"
      using Suc.prems length_4_cases [of a] length_4_cases [of b] by auto
    then show ?thesis using True
      by (simp add: Apply_Reduce.simps toPack4_def fromPack4_def assms(1) upt_conv_Cons numeral_2_eq_2 [symmetric] numeral_3_eq_3 [symmetric])
  next
    case False
    have "2 ^ Suc k \<noteq> (4::nat)"
    proof
      assume "2 ^ Suc k = (4::nat)"
      then have "2 ^ Suc k = (2::nat) ^ 2" by simp
      then show False using False by (simp only: power_inject_exp)
    qed
    then have eq: "Apply_Reduce fn fn4 (2 ^ Suc k) a b =
        Apply_Reduce fn fn4 (2 ^ k) (take (2 ^ k) a) (take (2 ^ k) b) @ Apply_Reduce fn fn4 (2 ^ k) (drop (2 ^ k) a) (drop (2 ^ k) b)"
      by (subst Apply_Reduce.simps) (simp add: Let_def)
    have "map2 fn a b = map2 fn (take (2 ^ k) a) (take (2 ^ k) b) @ map2 fn (drop (2 ^ k) a) (drop (2 ^ k) b)"
      by (simp only: map_append [symmetric] take_zip [symmetric] drop_zip [symmetric] append_take_drop_id)
    then show ?thesis unfolding eq using Suc by simp
  qed
qed

text \<open>
  C14: The packed byte reductions are the element-wise ones.  For every pack of a power of two of
  byte elements, reducing it by halves with the 32-bit routines for four bytes at once gives the
  wrapping sum, the wrapping product, and the minimum or maximum selected by the mask, of each pair
  of elements: no carry or borrow crosses between the bytes.
\<close>

theorem packed_bytes_correct:
  assumes "length a = 2 ^ k" and "length b = 2 ^ k"
  shows "Apply_Reduce (+) sum4 (2 ^ k) a b = map2 (+) a b \<and>
    Apply_Reduce (*) prod4 (2 ^ k) a b = map2 (*) a b \<and>
    Apply_Reduce (minMax_reduce m) (minMax4 m) (2 ^ k) a b = map2 (minMax_reduce m) a b"
  using Apply_Reduce_map2 [of sum4 "(+)", OF sum4_bytes assms] Apply_Reduce_map2 [of prod4 "(*)", OF prod4_bytes assms]
    Apply_Reduce_map2 [of "minMax4 m" "minMax_reduce m", OF minMax4_bytes assms] by blast

theorem packed_bytes_correct_witness:
  "Apply_Reduce (+) sum4 4 [250, 1, 255, 128] [10, 2, 255, 128] = [4, 3, 254, 0]"
  using packed_bytes_correct [of "[250, 1, 255, 128]" 2 "[10, 2, 255, 128]"] by simp

end
