(* ===== verification/User_RedOps.thy ===== *)
theory User_RedOps
  imports Red_Ops Work_Part
begin

unbundle bit_operations_syntax

text \<open>
  Reduction operators of a communicator on the host: creation and destruction of user-defined
  operators and the translation of an operator and a data type to the device functor
  (\<^verbatim>\<open>src/src/enqueue/enqueue.cc\<close>), the handles (\<^verbatim>\<open>src/src/include/comm.h\<close>) and the check of the arguments of
  a collective (\<^verbatim>\<open>src/src/misc/argcheck.cc\<close>).
\<close>

section \<open>Types\<close>

datatype ncclDataType = ncclInt8 | ncclUint8 | ncclInt32 | ncclUint32 | ncclInt64 | ncclUint64
  | ncclFloat16 | ncclFloat32 | ncclFloat64 | ncclBfloat16 | ncclFloat8e4m3 | ncclFloat8e5m2
  | ncclInvalidType int

fun ncclTypeSize :: "ncclDataType \<Rightarrow> int" where
  "ncclTypeSize ncclInt8 = 1"
| "ncclTypeSize ncclUint8 = 1"
| "ncclTypeSize ncclFloat8e4m3 = 1"
| "ncclTypeSize ncclFloat8e5m2 = 1"
| "ncclTypeSize ncclFloat16 = 2"
| "ncclTypeSize ncclBfloat16 = 2"
| "ncclTypeSize ncclInt32 = 4"
| "ncclTypeSize ncclUint32 = 4"
| "ncclTypeSize ncclFloat32 = 4"
| "ncclTypeSize ncclInt64 = 8"
| "ncclTypeSize ncclUint64 = 8"
| "ncclTypeSize ncclFloat64 = 8"
| "ncclTypeSize (ncclInvalidType t) = -1"

text \<open>The values of \<^verbatim>\<open>ncclRedOp_t\<close>: five built-in operators, larger values are handles of user-defined ones.\<close>

definition ncclSum :: int where "ncclSum = 0"
definition ncclProd :: int where "ncclProd = 1"
definition ncclMax :: int where "ncclMax = 2"
definition ncclMin :: int where "ncclMin = 3"
definition ncclAvg :: int where "ncclAvg = 4"
definition ncclNumOps :: int where "ncclNumOps = 5"
definition ncclMaxRedOp :: int where "ncclMaxRedOp = 0x7fffffff"

lemmas redOp_values = ncclSum_def ncclProd_def ncclMax_def ncclMin_def ncclAvg_def ncclNumOps_def ncclMaxRedOp_def

datatype ncclDevRedOp = ncclDevSum | ncclDevProd | ncclDevMinMax | ncclDevPreMulSum | ncclDevSumPostDiv

record ncclDevRedOpFull =
  devOp :: ncclDevRedOp
  proxyOp :: int
  scalarArgIsPtr :: bool
  scalarArg :: u64

record ncclUserRedOp =
  freeNext :: int
  userType :: ncclDataType
  opFull :: ncclDevRedOpFull

text \<open>The fields of the communicator that the operators use, with its address.\<close>

record redComm =
  commAddr :: u64
  startMagic :: u64
  endMagic :: u64
  commRanks :: int
  userRedOpCapacity :: int
  userRedOpFreeHead :: int
  userRedOps :: "ncclUserRedOp list"

datatype residence = ncclScalarDevice | ncclScalarHostImmediate

section \<open>Handles\<close>

definition ncclUserRedOpMangle :: "redComm \<Rightarrow> int \<Rightarrow> int" where
  "ncclUserRedOpMangle comm rop =
     (if rop < ncclNumOps then rop else
      let h = commAddr comm;
          h = h XOR drop_bit 32 h;
          h = h * 0x9e3779b97f4a7c13;
          h = drop_bit 32 h;
          h = h AND word_of_int ncclMaxRedOp;
          op1 = uint h XOR rop
      in if op1 < ncclNumOps then rop else op1)"

section \<open>Operations\<close>

definition NCCL_MAGIC :: u64 where "NCCL_MAGIC = 0x0280028002800280"

text \<open>The argument is \<open>None\<close> for a null pointer.\<close>

definition CommCheck :: "redComm option \<Rightarrow> ncclResult" where
  "CommCheck comm =
     (case comm of None \<Rightarrow> ncclInvalidArgument
      | Some c \<Rightarrow> if startMagic c \<noteq> NCCL_MAGIC \<or> endMagic c \<noteq> NCCL_MAGIC then ncclInvalidArgument else ncclSuccess)"

text \<open>
  The array is doubled when the free list is empty.  The new entries have undefined contents but for
  their link; \<open>junk\<close> is what they hold.
\<close>

definition growRedOps :: "(nat \<Rightarrow> ncclUserRedOp) \<Rightarrow> redComm \<Rightarrow> redComm" where
  "growRedOps junk comm =
     (if userRedOpFreeHead comm = userRedOpCapacity comm then
        let cap = 2 * userRedOpCapacity comm;
            cap = (if cap < 4 then 4 else cap)
        in comm\<lparr>userRedOps := take (nat (userRedOpCapacity comm)) (userRedOps comm) @
                  map (\<lambda>ix. junk ix\<lparr>freeNext := int ix + 1\<rparr>) [nat (userRedOpCapacity comm)..<nat cap],
                userRedOpCapacity := cap\<rparr>
      else comm)"

text \<open>
  The result code, the handle and the communicator.  \<open>ready\<close> is the result of \<^verbatim>\<open>ncclCommEnsureReady\<close> and
  \<open>deref\<close> the 64 bits of host memory at an address.
\<close>

definition ncclRedOpCreatePreMulSum ::
  "(nat \<Rightarrow> ncclUserRedOp) \<Rightarrow> ncclResult \<Rightarrow> (u64 \<Rightarrow> u64) \<Rightarrow> u64 \<Rightarrow> ncclDataType \<Rightarrow> residence \<Rightarrow> redComm \<Rightarrow>
   ncclResult \<times> int option \<times> redComm" where
  "ncclRedOpCreatePreMulSum junk ready deref scalar datatype resid comm =
     (let r = CommCheck (Some comm) in if ncclCheckFails r then (r, None, comm) else
      if ncclCheckFails ready then (ready, None, comm) else
      let comm = growRedOps junk comm;
          ix = nat (userRedOpFreeHead comm);
          user = userRedOps comm ! ix;
          comm = comm\<lparr>userRedOpFreeHead := freeNext user\<rparr>;
          user = user\<lparr>freeNext := -1, userType := datatype, opFull := (opFull user)\<lparr>devOp := ncclDevPreMulSum\<rparr>\<rparr>;
          size = ncclTypeSize datatype
      in if resid = ncclScalarHostImmediate \<and> size < 1
         then (ncclInternalError, None, comm\<lparr>userRedOps := (userRedOps comm)[ix := user]\<rparr>)
         else let full = (if resid = ncclScalarHostImmediate
                          then (opFull user)\<lparr>scalarArgIsPtr := False,
                                 scalarArg := (scalarArg (opFull user) AND NOT (mask (8 * nat size))) OR take_bit (8 * nat size) (deref scalar)\<rparr>
                          else (opFull user)\<lparr>scalarArgIsPtr := True, scalarArg := scalar\<rparr>);
                  comm = comm\<lparr>userRedOps := (userRedOps comm)[ix := user\<lparr>opFull := full\<rparr>]\<rparr>
              in (ncclSuccess, Some (ncclUserRedOpMangle comm (ncclNumOps + int ix)), comm))"

definition redOpKnown :: "redComm \<Rightarrow> int \<Rightarrow> bool" where
  "redOpKnown comm ix \<longleftrightarrow> \<not> (userRedOpCapacity comm \<le> ix \<or> freeNext (userRedOps comm ! nat ix) \<noteq> -1)"

definition ncclRedOpDestroy :: "int \<Rightarrow> redComm option \<Rightarrow> ncclResult \<times> redComm option" where
  "ncclRedOpDestroy rop comm =
     (if 0 \<le> rop \<and> rop < ncclNumOps then (ncclInvalidArgument, comm)
      else if rop < 0 \<or> ncclMaxRedOp < rop then (ncclInvalidArgument, comm)
      else case comm of None \<Rightarrow> (ncclInvalidArgument, comm)
      | Some c \<Rightarrow>
          let ix = ncclUserRedOpMangle c rop - ncclNumOps
          in if \<not> redOpKnown c ix then (ncclInvalidArgument, comm)
             else (ncclSuccess, Some (c\<lparr>userRedOps := (userRedOps c)[nat ix := (userRedOps c ! nat ix)\<lparr>freeNext := userRedOpFreeHead c\<rparr>],
                                         userRedOpFreeHead := ix\<rparr>)))"

text \<open>
  The functor and its argument for an operator and a data type.  \<open>floatRecip\<close> is the bit pattern of
  \<open>1 / nRanks\<close> in a floating point type.
\<close>

definition hostToDevRedOp ::
  "(ncclDataType \<Rightarrow> int \<Rightarrow> u64) \<Rightarrow> ncclDevRedOpFull \<Rightarrow> int \<Rightarrow> ncclDataType \<Rightarrow> redComm \<Rightarrow> ncclResult \<times> ncclDevRedOpFull" where
  "hostToDevRedOp floatRecip full rop datatype comm =
     (let full = full\<lparr>scalarArgIsPtr := False, proxyOp := rop\<rparr>;
          nbits = 8 * ncclTypeSize datatype
      in if nbits \<le> 0 then (ncclInvalidArgument, full) else
      let allBits = drop_bit (nat (64 - nbits)) (- 1 :: u64);
          signBit = allBits XOR drop_bit 1 allBits;
          isSignedInt = (datatype = ncclInt8 \<or> datatype = ncclInt32 \<or> datatype = ncclInt64);
          isUnsignedInt = (datatype = ncclUint8 \<or> datatype = ncclUint32 \<or> datatype = ncclUint64)
      in if rop = ncclSum then (ncclSuccess, full\<lparr>devOp := ncclDevSum\<rparr>)
      else if rop = ncclProd then (ncclSuccess, full\<lparr>devOp := ncclDevProd\<rparr>)
      else if rop = ncclMin \<or> rop = ncclMax then
        let arg = 0;
            arg = (if isSignedInt then arg XOR signBit else arg);
            arg = arg XOR (if rop = ncclMax then allBits else 0)
        in (ncclSuccess, full\<lparr>devOp := ncclDevMinMax, scalarArg := arg\<rparr>)
      else if rop = ncclAvg then
        (ncclSuccess,
         if isSignedInt \<or> isUnsignedInt
         then full\<lparr>devOp := ncclDevSumPostDiv, scalarArgIsPtr := False,
                   scalarArg := word_of_int (push_bit 1 (commRanks comm) OR of_bool isSignedInt)\<rparr>
         else full\<lparr>devOp := ncclDevPreMulSum, scalarArgIsPtr := False, scalarArg := floatRecip datatype (commRanks comm)\<rparr>)
      else let user = userRedOps comm ! nat (ncclUserRedOpMangle comm rop - ncclNumOps)
           in if datatype \<noteq> userType user then (ncclInvalidArgument, full)
              else (ncclSuccess, opFull user))"

section \<open>Handles are mangled by an involution\<close>

definition mangleHash :: "u64 \<Rightarrow> int" where
  "mangleHash a = uint (drop_bit 32 ((a XOR drop_bit 32 a) * 0x9e3779b97f4a7c13) AND word_of_int ncclMaxRedOp)"

lemma mangleHash_bounds: "0 \<le> mangleHash a" "mangleHash a < 2 ^ 31"
proof -
  have "mangleHash a = uint (drop_bit 32 ((a XOR drop_bit 32 a) * 0x9e3779b97f4a7c13)) AND 0x7fffffff"
    by (simp add: mangleHash_def ncclMaxRedOp_def unsigned_and_eq)
  moreover have "(0x7fffffff :: int) = mask 31" by (simp add: mask_eq_exp_minus_1)
  ultimately have "mangleHash a = take_bit 31 (uint (drop_bit 32 ((a XOR drop_bit 32 a) * 0x9e3779b97f4a7c13)))"
    by (simp only: take_bit_eq_mask)
  then show "0 \<le> mangleHash a" "mangleHash a < 2 ^ 31" by (metis take_bit_nonnegative take_bit_int_less_exp)+
qed

lemma mangle_eq:
  "ncclUserRedOpMangle c rop =
   (if rop < ncclNumOps then rop else let op1 = mangleHash (commAddr c) XOR rop in if op1 < ncclNumOps then rop else op1)"
  by (simp add: ncclUserRedOpMangle_def mangleHash_def Let_def)

lemma xor_31_bounds:
  fixes a b :: int
  assumes "0 \<le> a" "a < 2 ^ 31" "0 \<le> b" "b < 2 ^ 31"
  shows "0 \<le> a XOR b" "a XOR b < 2 ^ 31"
proof -
  have "take_bit 31 (a XOR b) = a XOR b"
    using assms by (simp add: take_bit_xor take_bit_int_eq_self)
  then show "0 \<le> a XOR b" "a XOR b < 2 ^ 31" by (metis take_bit_nonnegative take_bit_int_less_exp)+
qed

lemma mangle_involution: "ncclUserRedOpMangle c (ncclUserRedOpMangle c rop) = rop"
proof -
  have "mangleHash (commAddr c) XOR (mangleHash (commAddr c) XOR rop) = rop"
    by (metis xor.assoc xor_self_eq xor.left_neutral)
  then show ?thesis unfolding mangle_eq Let_def by (auto split: if_splits)
qed

lemma mangle_builtin: "ncclUserRedOpMangle c rop < ncclNumOps \<longleftrightarrow> rop < ncclNumOps"
  unfolding mangle_eq Let_def by auto

lemma mangle_le: "0 \<le> rop \<Longrightarrow> rop \<le> ncclMaxRedOp \<Longrightarrow> ncclUserRedOpMangle c rop \<le> ncclMaxRedOp"
  using xor_31_bounds(2) [OF mangleHash_bounds, of rop "commAddr c"] unfolding mangle_eq Let_def
  by (auto simp: ncclMaxRedOp_def)

text \<open>
  The handles of user-defined operators are mangled by an involution that keeps the built-in
  operators and the range of valid handles.
\<close>

theorem ncclUserRedOpMangle_involution:
  assumes "0 \<le> rop" and "rop \<le> ncclMaxRedOp"
  shows "ncclUserRedOpMangle c (ncclUserRedOpMangle c rop) = rop \<and>
    (ncclUserRedOpMangle c rop < ncclNumOps \<longleftrightarrow> rop < ncclNumOps) \<and> ncclUserRedOpMangle c rop \<le> ncclMaxRedOp"
  using mangle_involution mangle_builtin mangle_le [OF assms] by blast

section \<open>The free list\<close>

fun free_path :: "ncclUserRedOp list \<Rightarrow> int \<Rightarrow> int \<Rightarrow> nat list \<Rightarrow> bool" where
  "free_path ops cap h [] \<longleftrightarrow> h = cap"
| "free_path ops cap h (i # is) \<longleftrightarrow> h = int i \<and> i < length ops \<and> free_path ops cap (freeNext (ops ! i)) is"

definition free_entries :: "redComm \<Rightarrow> nat list \<Rightarrow> bool" where
  "free_entries c fl \<longleftrightarrow> free_path (userRedOps c) (userRedOpCapacity c) (userRedOpFreeHead c) fl \<and> distinct fl \<and>
     (\<forall>i < length (userRedOps c). i \<notin> set fl \<longrightarrow> freeNext (userRedOps c ! i) = -1)"

definition redop_inv :: "redComm \<Rightarrow> bool" where
  "redop_inv c \<longleftrightarrow> 0 \<le> userRedOpCapacity c \<and> length (userRedOps c) = nat (userRedOpCapacity c) \<and> (\<exists>fl. free_entries c fl)"

lemma free_path_append: "free_path ops cap h fl \<Longrightarrow> free_path (ops @ ys) cap h fl"
  by (induction fl arbitrary: h) (auto simp: nth_append)

lemma free_path_update: "i \<notin> set fl \<Longrightarrow> free_path (ops[i := u]) cap h fl \<longleftrightarrow> free_path ops cap h fl"
  by (induction fl arbitrary: h) auto

lemma free_path_nonneg: "0 \<le> cap \<Longrightarrow> free_path ops cap h fl \<Longrightarrow> 0 \<le> h"
  by (cases fl) auto

lemma free_path_linked: "0 \<le> cap \<Longrightarrow> free_path ops cap h fl \<Longrightarrow> i \<in> set fl \<Longrightarrow> freeNext (ops ! i) \<noteq> -1"
  using free_path_nonneg by (induction fl arbitrary: h) (auto, force)

lemma free_path_less: "free_path ops cap h fl \<Longrightarrow> i \<in> set fl \<Longrightarrow> i < length ops"
  by (induction fl arbitrary: h) auto

lemma free_path_upt:
  assumes "\<And>i. a \<le> i \<Longrightarrow> i < b \<Longrightarrow> freeNext (ops ! i) = int i + 1" "b \<le> length ops" "a \<le> b"
  shows "free_path ops (int b) (int a) [a..<b]"
  using assms
proof (induction "b - a" arbitrary: a)
  case (Suc k)
  then have "[a..<b] = a # [Suc a..<b]" by (simp add: upt_conv_Cons)
  moreover have "free_path ops (int b) (int (Suc a)) [Suc a..<b]" using Suc by (intro Suc.hyps(1)) auto
  ultimately show ?case using Suc.prems(1) [of a] Suc.prems(2,3) Suc.hyps(2) by (simp add: add.commute)
qed simp

lemma redOpKnown_iff:
  assumes "redop_inv c" "free_entries c fl" "0 \<le> ix"
  shows "redOpKnown c ix \<longleftrightarrow> ix < userRedOpCapacity c \<and> nat ix \<notin> set fl"
  using assms free_path_linked [of "userRedOpCapacity c" "userRedOps c" "userRedOpFreeHead c" fl "nat ix"]
  by (auto simp: redOpKnown_def redop_inv_def free_entries_def)


lemma redop_inv_initial: "userRedOpCapacity c = 0 \<Longrightarrow> userRedOpFreeHead c = 0 \<Longrightarrow> userRedOps c = [] \<Longrightarrow> redop_inv c"
  by (auto simp: redop_inv_def free_entries_def intro: exI [of _ "[]"])

text \<open>Growing the array keeps the invariant and leaves at least one free entry.\<close>

lemma growRedOps_inv:
  assumes "redop_inv c"
  shows "redop_inv (growRedOps junk c)" "userRedOpFreeHead (growRedOps junk c) < userRedOpCapacity (growRedOps junk c)"
    "commAddr (growRedOps junk c) = commAddr c" "userRedOpCapacity c \<le> userRedOpCapacity (growRedOps junk c)"
    "userRedOpCapacity (growRedOps junk c) \<le> max 4 (2 * userRedOpCapacity c)"
    "0 \<le> ix \<Longrightarrow> redOpKnown (growRedOps junk c) ix \<longleftrightarrow> redOpKnown c ix"
    "0 \<le> ix \<Longrightarrow> redOpKnown c ix \<Longrightarrow> userRedOps (growRedOps junk c) ! nat ix = userRedOps c ! nat ix"
proof -
  let ?g = "growRedOps junk c" let ?cap = "userRedOpCapacity c"
  obtain fl where fl: "free_entries c fl" using assms by (auto simp: redop_inv_def)
  have cap: "0 \<le> ?cap" "length (userRedOps c) = nat ?cap" using assms by (auto simp: redop_inv_def)
  have "redop_inv ?g \<and> userRedOpFreeHead ?g < userRedOpCapacity ?g \<and> commAddr ?g = commAddr c \<and> ?cap \<le> userRedOpCapacity ?g \<and>
    userRedOpCapacity ?g \<le> max 4 (2 * ?cap) \<and>
    (\<forall>ix \<ge> 0. (redOpKnown ?g ix \<longleftrightarrow> redOpKnown c ix) \<and> (redOpKnown c ix \<longrightarrow> userRedOps ?g ! nat ix = userRedOps c ! nat ix))"
  proof (cases "userRedOpFreeHead c = ?cap")
    case True
    define n where "n = (if 2 * ?cap < 4 then 4 else 2 * ?cap)"
    have n: "?cap < n" "n \<le> max 4 (2 * ?cap)" using cap by (auto simp: n_def)
    have g: "?g = c\<lparr>userRedOps := userRedOps c @ map (\<lambda>ix. junk ix\<lparr>freeNext := int ix + 1\<rparr>) [nat ?cap..<nat n], userRedOpCapacity := n\<rparr>"
      unfolding growRedOps_def Let_def n_def [symmetric] using True cap by simp
    have "fl = []"
      using fl True cap by (cases fl) (auto simp: free_entries_def)
    then have used: "freeNext (userRedOps c ! i) = -1" if "i < nat ?cap" for i
      using fl cap that by (simp add: free_entries_def)
    have new: "freeNext (userRedOps ?g ! i) = int i + 1" if "nat ?cap \<le> i" "i < nat n" for i
      using that cap nth_upt [of "nat ?cap" "i - nat ?cap" "nat n"] by (simp add: g nth_append)
    have "free_path (userRedOps ?g) (int (nat n)) (int (nat ?cap)) [nat ?cap..<nat n]"
      using new cap n by (intro free_path_upt) (simp_all add: g)
    then have fe: "free_entries ?g [nat ?cap..<nat n]"
      using cap n True used by (auto simp: free_entries_def g nth_append)
    then have inv: "redop_inv ?g" using cap n by (auto simp: redop_inv_def g)
    have "(redOpKnown ?g ix \<longleftrightarrow> redOpKnown c ix) \<and> (redOpKnown c ix \<longrightarrow> userRedOps ?g ! nat ix = userRedOps c ! nat ix)" if ix: "0 \<le> ix" for ix
      using redOpKnown_iff [OF inv fe ix] redOpKnown_iff [OF assms fl ix] \<open>fl = []\<close> cap n ix by (auto simp: g nth_append)
    then show ?thesis using inv n True by (simp add: g)
  next
    case False
    then have "?g = c" by (simp add: growRedOps_def)
    moreover have "userRedOpFreeHead c < ?cap"
      using fl False cap by (cases fl) (auto simp: free_entries_def)
    ultimately show ?thesis using assms by simp
  qed
  then show "redop_inv ?g" "userRedOpFreeHead ?g < userRedOpCapacity ?g" "commAddr ?g = commAddr c" "?cap \<le> userRedOpCapacity ?g"
    "userRedOpCapacity ?g \<le> max 4 (2 * ?cap)" "0 \<le> ix \<Longrightarrow> redOpKnown ?g ix \<longleftrightarrow> redOpKnown c ix"
    "0 \<le> ix \<Longrightarrow> redOpKnown c ix \<Longrightarrow> userRedOps ?g ! nat ix = userRedOps c ! nat ix" by blast+
qed

section \<open>The table of operators\<close>

text \<open>What the communicator knows about a handle: the abstract state of the component.\<close>

definition redop_table :: "redComm \<Rightarrow> int \<Rightarrow> (ncclDataType \<times> ncclDevRedOpFull) option" where
  "redop_table c rop =
     (let ix = ncclUserRedOpMangle c rop - ncclNumOps
      in if ncclNumOps \<le> rop \<and> rop \<le> ncclMaxRedOp \<and> redOpKnown c ix
         then Some (userType (userRedOps c ! nat ix), opFull (userRedOps c ! nat ix)) else None)"

lemma mangle_cong: "commAddr c = commAddr c' \<Longrightarrow> ncclUserRedOpMangle c = ncclUserRedOpMangle c'"
  by (rule ext) (simp add: mangle_eq)

lemma mangle_ix_nonneg: "ncclNumOps \<le> rop \<Longrightarrow> 0 \<le> ncclUserRedOpMangle c rop - ncclNumOps"
  using mangle_builtin [of c rop] by linarith

lemma redop_table_grow: "redop_inv c \<Longrightarrow> redop_table (growRedOps junk c) = redop_table c"
proof (rule ext)
  fix r assume inv: "redop_inv c"
  show "redop_table (growRedOps junk c) r = redop_table c r"
  proof (cases "ncclNumOps \<le> r")
    case True
    note k = growRedOps_inv(6,7) [OF inv mangle_ix_nonneg [OF True]]
    show ?thesis unfolding redop_table_def Let_def mangle_cong [OF growRedOps_inv(3) [OF inv]] k(1) using k(2) by auto
  qed (simp add: redop_table_def Let_def)
qed

text \<open>Taking the first entry of the free list, and giving an entry back.\<close>

lemma redop_take:
  assumes "redop_inv c" "userRedOpFreeHead c < userRedOpCapacity c" "userRedOpCapacity c \<le> ncclMaxRedOp - ncclNumOps"
    "freeNext u = -1"
  defines "ix \<equiv> nat (userRedOpFreeHead c)"
  defines "c' \<equiv> c\<lparr>userRedOpFreeHead := freeNext (userRedOps c ! ix), userRedOps := (userRedOps c)[ix := u]\<rparr>"
  defines "h \<equiv> ncclUserRedOpMangle c' (ncclNumOps + int ix)"
  shows "redop_inv c'" "redop_table c h = None" "redop_table c' = (redop_table c)(h \<mapsto> (userType u, opFull u))"
    "ncclNumOps \<le> h" "h \<le> ncclMaxRedOp"
proof -
  obtain fl where fl: "free_entries c fl" using assms(1) by (auto simp: redop_inv_def)
  have cap: "0 \<le> userRedOpCapacity c" "length (userRedOps c) = nat (userRedOpCapacity c)" using assms(1) by (auto simp: redop_inv_def)
  have "fl \<noteq> []" using fl assms(2) by (auto simp: free_entries_def)
  then obtain i fl' where i: "fl = i # fl'" by (cases fl) blast+
  then have "userRedOpFreeHead c = int i" using fl by (simp add: free_entries_def)
  then have fl': "fl = ix # fl'" "userRedOpFreeHead c = int ix" using i by (simp_all add: ix_def)
  have il: "ix < length (userRedOps c)" using fl by (simp add: free_entries_def fl')
  have fe: "free_entries c' fl'"
    using fl assms(4) by (auto simp: free_entries_def fl' c'_def free_path_update nth_list_update)
  show inv: "redop_inv c'" using fe cap by (auto simp: redop_inv_def c'_def)
  have mg: "ncclUserRedOpMangle c' = ncclUserRedOpMangle c" by (rule mangle_cong) (simp add: c'_def)
  have hx: "ncclUserRedOpMangle c h = ncclNumOps + int ix" unfolding h_def mg by (rule mangle_involution)
  have ixb: "int ix < userRedOpCapacity c" using il cap by linarith
  show hb: "ncclNumOps \<le> h" unfolding h_def using mangle_builtin [of c' "ncclNumOps + int ix"] by linarith
  show hm: "h \<le> ncclMaxRedOp" unfolding h_def using ixb assms(3) by (intro mangle_le) (simp_all add: ncclNumOps_def)
  show "redop_table c h = None"
    unfolding redop_table_def Let_def hx using redOpKnown_iff [OF assms(1) fl, of "int ix"] by (simp add: fl')
  show "redop_table c' = (redop_table c)(h \<mapsto> (userType u, opFull u))"
  proof (rule ext)
    fix r
    let ?i = "ncclUserRedOpMangle c r - ncclNumOps"
    show "redop_table c' r = ((redop_table c)(h \<mapsto> (userType u, opFull u))) r"
    proof (cases "r = h")
      case True
      have "redOpKnown c' (int ix)" using redOpKnown_iff [OF inv fe, of "int ix"] fl ixb
        by (simp add: fl' free_entries_def c'_def)
      then show ?thesis unfolding True redop_table_def Let_def mg hx using hb hm il by (simp add: c'_def)
    next
      case False
      show ?thesis
      proof (cases "ncclNumOps \<le> r")
        case r: True
        have i0: "0 \<le> ?i" using r by (rule mangle_ix_nonneg)
        have "?i \<noteq> int ix"
        proof
          assume "?i = int ix"
          then have "ncclUserRedOpMangle c r = ncclUserRedOpMangle c h" unfolding hx by simp
          then show False using False mangle_involution by metis
        qed
        then have ni: "nat ?i \<noteq> ix" using i0 by linarith
        then have "redOpKnown c' ?i \<longleftrightarrow> redOpKnown c ?i" "userRedOps c' ! nat ?i = userRedOps c ! nat ?i"
          by (simp_all add: redOpKnown_def c'_def)
        then show ?thesis using False by (simp add: redop_table_def Let_def mg)
      qed (use False in \<open>simp add: redop_table_def Let_def\<close>)
    qed
  qed
qed

lemma redop_give:
  assumes "redop_inv c" "0 \<le> ix" "redOpKnown c ix"
  defines "c' \<equiv> c\<lparr>userRedOps := (userRedOps c)[nat ix := (userRedOps c ! nat ix)\<lparr>freeNext := userRedOpFreeHead c\<rparr>], userRedOpFreeHead := ix\<rparr>"
  shows "redop_inv c'" "redop_table c' = (redop_table c)(ncclUserRedOpMangle c (ncclNumOps + ix) := None)"
proof -
  obtain fl where fl: "free_entries c fl" using assms(1) by (auto simp: redop_inv_def)
  have cap: "0 \<le> userRedOpCapacity c" "length (userRedOps c) = nat (userRedOpCapacity c)" using assms(1) by (auto simp: redop_inv_def)
  have k: "ix < userRedOpCapacity c" "nat ix \<notin> set fl" using redOpKnown_iff [OF assms(1) fl assms(2)] assms(3) by auto
  have il: "nat ix < length (userRedOps c)" using k cap assms(2) by simp
  have fe: "free_entries c' (nat ix # fl)"
    using fl k il assms(2) by (auto simp: free_entries_def c'_def free_path_update nth_list_update)
  show inv: "redop_inv c'" using fe cap by (auto simp: redop_inv_def c'_def)
  have mg: "ncclUserRedOpMangle c' = ncclUserRedOpMangle c" by (rule mangle_cong) (simp add: c'_def)
  show "redop_table c' = (redop_table c)(ncclUserRedOpMangle c (ncclNumOps + ix) := None)"
  proof (rule ext)
    fix r
    let ?i = "ncclUserRedOpMangle c r - ncclNumOps"
    show "redop_table c' r = ((redop_table c)(ncclUserRedOpMangle c (ncclNumOps + ix) := None)) r"
    proof (cases "r = ncclUserRedOpMangle c (ncclNumOps + ix)")
      case True
      then have "?i = ix" by (simp add: mangle_involution)
      then show ?thesis
        using True redOpKnown_iff [OF inv fe assms(2)] by (simp add: redop_table_def Let_def mg)
    next
      case False
      show ?thesis
      proof (cases "ncclNumOps \<le> r")
        case r: True
        have i0: "0 \<le> ?i" using r by (rule mangle_ix_nonneg)
        have "?i \<noteq> ix"
        proof
          assume "?i = ix"
          then have "ncclUserRedOpMangle c r = ncclNumOps + ix" by simp
          then show False using False mangle_involution [of c r] by simp
        qed
        then have "nat ?i \<noteq> nat ix" using i0 assms(2) by linarith
        then have "redOpKnown c' ?i \<longleftrightarrow> redOpKnown c ?i" "userRedOps c' ! nat ?i = userRedOps c ! nat ?i"
          by (simp_all add: redOpKnown_def c'_def)
        then show ?thesis using False by (simp add: redop_table_def Let_def mg)
      qed (use False in \<open>simp add: redop_table_def Let_def\<close>)
    qed
  qed
qed

text \<open>A state of the communicator that the application can use.\<close>

definition redop_ok :: "redComm \<Rightarrow> bool" where
  "redop_ok c \<longleftrightarrow> startMagic c = NCCL_MAGIC \<and> endMagic c = NCCL_MAGIC \<and> redop_inv c \<and> userRedOpCapacity c \<le> 2 ^ 29"

text \<open>The scalar argument after the copy of the low bytes: the device reads only those.\<close>

lemma scalar_low_bits: "take_bit n ((old AND NOT (mask n)) OR take_bit n v) = take_bit n v" for old v :: u64
  by (rule bit_eqI) (auto simp: bit_simps)

lemma create_success:
  assumes "redop_ok c" "\<not> ncclCheckFails ready" "1 \<le> ncclTypeSize dt \<or> resid = ncclScalarDevice"
  shows "\<exists>h full c'. ncclRedOpCreatePreMulSum junk ready deref scalar dt resid c = (ncclSuccess, Some h, c') \<and>
    redop_inv c' \<and> redop_table c h = None \<and> ncclNumOps \<le> h \<and> h \<le> ncclMaxRedOp \<and>
    redop_table c' = (redop_table c)(h \<mapsto> (dt, full)) \<and>
    devOp full = ncclDevPreMulSum \<and> (scalarArgIsPtr full \<longleftrightarrow> resid = ncclScalarDevice) \<and>
    (if resid = ncclScalarDevice then scalarArg full = scalar
     else take_bit (8 * nat (ncclTypeSize dt)) (scalarArg full) = take_bit (8 * nat (ncclTypeSize dt)) (deref scalar))"
proof -
  define g where "g = growRedOps junk c"
  define ix where "ix = nat (userRedOpFreeHead g)"
  define u0 where "u0 = (opFull (userRedOps g ! ix))\<lparr>devOp := ncclDevPreMulSum\<rparr>"
  define full where "full = (if resid = ncclScalarHostImmediate
      then u0\<lparr>scalarArgIsPtr := False, scalarArg := (scalarArg u0 AND NOT (mask (8 * nat (ncclTypeSize dt)))) OR take_bit (8 * nat (ncclTypeSize dt)) (deref scalar)\<rparr>
      else u0\<lparr>scalarArgIsPtr := True, scalarArg := scalar\<rparr>)"
  define u where "u = (userRedOps g ! ix)\<lparr>freeNext := -1, userType := dt, opFull := full\<rparr>"
  define c' where "c' = g\<lparr>userRedOpFreeHead := freeNext (userRedOps g ! ix), userRedOps := (userRedOps g)[ix := u]\<rparr>"
  define h where "h = ncclUserRedOpMangle c' (ncclNumOps + int ix)"
  have ok: "redop_inv c" "CommCheck (Some c) = ncclSuccess" "userRedOpCapacity c \<le> 2 ^ 29"
    using assms(1) by (auto simp: redop_ok_def CommCheck_def)
  note g = growRedOps_inv(1,2,5) [OF ok(1), of junk, folded g_def]
  have "userRedOpCapacity g \<le> ncclMaxRedOp - ncclNumOps" using g(3) ok(3) by (simp add: redOp_values)
  from redop_take [OF g(1,2) this, of u, folded ix_def, folded c'_def, folded h_def]
  have t: "redop_inv c'" "redop_table g h = None" "redop_table c' = (redop_table g)(h \<mapsto> (dt, full))"
    "ncclNumOps \<le> h" "h \<le> ncclMaxRedOp" by (simp_all add: u_def)
  have res: "ncclRedOpCreatePreMulSum junk ready deref scalar dt resid c = (ncclSuccess, Some h, c')"
    unfolding ncclRedOpCreatePreMulSum_def Let_def ok(2) g_def [symmetric] ix_def [symmetric]
    using assms(2,3)
    by (cases resid) (simp_all add: ncclCheckFails_def c'_def u_def full_def u0_def h_def)
  have tab: "redop_table g = redop_table c" unfolding g_def by (rule redop_table_grow [OF ok(1)])
  have full: "devOp full = ncclDevPreMulSum" "scalarArgIsPtr full \<longleftrightarrow> resid = ncclScalarDevice"
    "if resid = ncclScalarDevice then scalarArg full = scalar
     else take_bit (8 * nat (ncclTypeSize dt)) (scalarArg full) = take_bit (8 * nat (ncclTypeSize dt)) (deref scalar)"
    by (cases resid; simp add: full_def u0_def scalar_low_bits del: take_bit_or)+
  show ?thesis using res t full unfolding tab by blast
qed

lemma destroy_cases:
  assumes "redop_inv c"
  shows "if redop_table c rop = None then ncclRedOpDestroy rop (Some c) = (ncclInvalidArgument, Some c)
    else \<exists>c'. ncclRedOpDestroy rop (Some c) = (ncclSuccess, Some c') \<and> redop_inv c' \<and> redop_table c' = (redop_table c)(rop := None)"
proof (cases "ncclNumOps \<le> rop \<and> rop \<le> ncclMaxRedOp")
  case True
  define ix where "ix = ncclUserRedOpMangle c rop - ncclNumOps"
  have i0: "0 \<le> ix" unfolding ix_def using True by (intro mangle_ix_nonneg) simp
  have rop: "ncclUserRedOpMangle c (ncclNumOps + ix) = rop" by (simp add: ix_def mangle_involution)
  have range: "\<not> (0 \<le> rop \<and> rop < ncclNumOps)" "\<not> (rop < 0 \<or> ncclMaxRedOp < rop)" using True by (auto simp: redOp_values)
  note give = redop_give [OF assms i0, unfolded rop]
  show ?thesis
    using range give True by (auto simp: redop_table_def Let_def ix_def [symmetric] ncclRedOpDestroy_def)
qed (auto simp: redop_table_def Let_def ncclRedOpDestroy_def)

text \<open>The life of a communicator's operators: creations, also failing ones, and destructions.\<close>

inductive redop_step :: "redComm \<Rightarrow> redComm \<Rightarrow> bool" where
  create: "redop_ok c \<Longrightarrow> ncclRedOpCreatePreMulSum junk ready deref scalar dt resid c = (r, h, c') \<Longrightarrow> redop_step c c'"
| destroy: "ncclRedOpDestroy rop (Some c) = (r, Some c') \<Longrightarrow> redop_step c c'"

lemma create_inv:
  assumes "redop_ok c"
  shows "redop_inv (snd (snd (ncclRedOpCreatePreMulSum junk ready deref scalar dt resid c)))"
proof -
  have ok: "redop_inv c" "userRedOpCapacity c \<le> 2 ^ 29" using assms by (auto simp: redop_ok_def)
  note g = growRedOps_inv(1,2,5) [OF ok(1), of junk]
  have "userRedOpCapacity (growRedOps junk c) \<le> ncclMaxRedOp - ncclNumOps" using g(3) ok(2) by (simp add: redOp_values)
  note take' = redop_take(1) [OF g(1,2) this]
  show ?thesis
    unfolding ncclRedOpCreatePreMulSum_def Let_def using ok(1) by (auto intro: take')
qed

lemma redop_step_inv: "redop_step c c' \<Longrightarrow> redop_inv c \<Longrightarrow> redop_inv c'"
proof (induction rule: redop_step.induct)
  case (create c junk ready deref scalar dt resid r h c')
  then show ?case using create_inv [of c junk ready deref scalar dt resid] by simp
next
  case (destroy rop c r c')
  then show ?case using destroy_cases [OF destroy.prems, of rop] by (auto split: if_splits)
qed

text \<open>
  C17: The free list of operators stays sound.  Whatever operators an application creates and
  destroys, starting from a communicator without operators, the entries of the array are either
  allocated or on the free list, which has no duplicates and ends at the capacity.
\<close>

theorem redOps_free_list_invariant:
  assumes "userRedOpCapacity c = 0" and "userRedOpFreeHead c = 0" and "userRedOps c = []" and "redop_step\<^sup>*\<^sup>* c c'"
  shows "\<exists>fl. free_path (userRedOps c') (userRedOpCapacity c') (userRedOpFreeHead c') fl \<and> distinct fl \<and>
    (\<forall>i < length (userRedOps c'). freeNext (userRedOps c' ! i) = -1 \<longleftrightarrow> i \<notin> set fl)"
proof -
  have "redop_inv c'" using assms(4) redop_inv_initial [OF assms(1-3)] by (induction rule: rtranclp_induct) (auto intro: redop_step_inv)
  then obtain fl where fl: "free_entries c' fl" and cap: "0 \<le> userRedOpCapacity c'" by (auto simp: redop_inv_def)
  then have "freeNext (userRedOps c' ! i) \<noteq> -1" if "i \<in> set fl" for i
    using free_path_linked [OF cap _ that] by (auto simp: free_entries_def)
  then show ?thesis using fl by (auto simp: free_entries_def)
qed

text \<open>
  C18: Creating an operator adds a fresh handle to the table of operators and leaves all others as
  they are.  The handle is in the valid range and stands for a pre-multiplied sum with the given
  scalar: the pointer for a device scalar, the bytes of the data type for a host scalar.
\<close>

theorem redOpCreate_refines:
  assumes "redop_ok c" and "\<not> ncclCheckFails ready" and "1 \<le> ncclTypeSize dt \<or> resid = ncclScalarDevice"
  shows "\<exists>h full c'. ncclRedOpCreatePreMulSum junk ready deref scalar dt resid c = (ncclSuccess, Some h, c') \<and>
    redop_inv c' \<and> redop_table c h = None \<and> ncclNumOps \<le> h \<and> h \<le> ncclMaxRedOp \<and>
    redop_table c' = (redop_table c)(h \<mapsto> (dt, full)) \<and>
    devOp full = ncclDevPreMulSum \<and> (scalarArgIsPtr full \<longleftrightarrow> resid = ncclScalarDevice) \<and>
    (if resid = ncclScalarDevice then scalarArg full = scalar
     else take_bit (8 * nat (ncclTypeSize dt)) (scalarArg full) = take_bit (8 * nat (ncclTypeSize dt)) (deref scalar))"
  using create_success [OF assms] by blast

text \<open>
  C19: Destroying an operator removes exactly its handle from the table.  A handle that is not in the
  table, a built-in operator included, is refused and nothing changes.
\<close>

theorem redOpDestroy_refines:
  assumes "redop_inv c"
  shows "if redop_table c rop = None then ncclRedOpDestroy rop (Some c) = (ncclInvalidArgument, Some c)
    else \<exists>c'. ncclRedOpDestroy rop (Some c) = (ncclSuccess, Some c') \<and> redop_inv c' \<and> redop_table c' = (redop_table c)(rop := None)"
  using destroy_cases [OF assms] .

text \<open>
  A creation that fails because of the data type has already taken an entry from the free list: the
  entry is marked as allocated although no handle is returned.
\<close>

lemma create_failure_leaks:
  assumes "redop_ok c" "\<not> ncclCheckFails ready" "ncclTypeSize dt < 1"
  shows "\<exists>h c'. ncclRedOpCreatePreMulSum junk ready deref scalar dt ncclScalarHostImmediate c = (ncclInternalError, None, c') \<and>
    redop_table c h = None \<and> redop_table c' h \<noteq> None"
proof -
  have ok: "redop_inv c" "CommCheck (Some c) = ncclSuccess" "userRedOpCapacity c \<le> 2 ^ 29"
    using assms(1) by (auto simp: redop_ok_def CommCheck_def)
  define g where "g = growRedOps junk c"
  define u where "u = (userRedOps g ! nat (userRedOpFreeHead g))\<lparr>freeNext := -1, userType := dt,
    opFull := (opFull (userRedOps g ! nat (userRedOpFreeHead g)))\<lparr>devOp := ncclDevPreMulSum\<rparr>\<rparr>"
  note g = growRedOps_inv(1,2,5) [OF ok(1), of junk, folded g_def]
  have "userRedOpCapacity g \<le> ncclMaxRedOp - ncclNumOps" using g(3) ok(3) by (simp add: redOp_values)
  from redop_take(2,3) [OF g(1,2) this, of u] show ?thesis
    unfolding ncclRedOpCreatePreMulSum_def Let_def ok(2) g_def [symmetric]
    using assms(2,3) redop_table_grow [OF ok(1), of junk, folded g_def] by (auto simp: ncclCheckFails_def u_def)
qed

definition redop_example :: redComm where
  "redop_example = \<lparr>commAddr = 0x7f0000001000, startMagic = NCCL_MAGIC, endMagic = NCCL_MAGIC, commRanks = 4,
     userRedOpCapacity = 0, userRedOpFreeHead = 0, userRedOps = []\<rparr>"

definition junk_example :: "nat \<Rightarrow> ncclUserRedOp" where
  "junk_example i = \<lparr>freeNext = 0, userType = ncclInt8,
     opFull = \<lparr>devOp = ncclDevSum, proxyOp = 0, scalarArgIsPtr = False, scalarArg = 0xabcd0000ffff1234\<rparr>\<rparr>"

lemma redop_ok_example: "redop_ok redop_example"
  by (simp add: redop_ok_def redop_example_def redop_inv_initial)

theorem ncclUserRedOpMangle_involution_witness:
  "ncclUserRedOpMangle redop_example (ncclUserRedOpMangle redop_example 7) = 7 \<and> ncclUserRedOpMangle redop_example 7 \<noteq> 7"
proof -
  have "ncclUserRedOpMangle redop_example 7 \<noteq> 7"
    by (simp add: ncclUserRedOpMangle_def redop_example_def redOp_values)
  then show ?thesis using ncclUserRedOpMangle_involution [of 7 redop_example] by (simp add: redOp_values)
qed

theorem redOps_free_list_invariant_witness:
  "\<exists>c' fl. redop_step redop_example c' \<and> free_path (userRedOps c') (userRedOpCapacity c') (userRedOpFreeHead c') fl \<and> distinct fl"
proof -
  obtain r h c' where "ncclRedOpCreatePreMulSum junk_example ncclSuccess (\<lambda>_. 3) 0 ncclInt32 ncclScalarHostImmediate redop_example = (r, h, c')"
    by (metis prod_cases3)
  then have s: "redop_step redop_example c'" by (rule redop_step.create [OF redop_ok_example])
  then show ?thesis
    using redOps_free_list_invariant [of redop_example c'] by (auto simp: redop_example_def)
qed

theorem redOpCreate_refines_witness:
  "\<exists>h full c'. ncclRedOpCreatePreMulSum junk_example ncclSuccess (\<lambda>_. 3) 0 ncclInt32 ncclScalarHostImmediate redop_example =
     (ncclSuccess, Some h, c') \<and> redop_table c' h = Some (ncclInt32, full) \<and> take_bit 32 (scalarArg full) = 3"
  using redOpCreate_refines [OF redop_ok_example, of ncclSuccess ncclInt32 ncclScalarHostImmediate junk_example "\<lambda>_. 3" 0]
  by (auto simp: ncclCheckFails_def)

theorem redOpDestroy_refines_witness:
  "ncclRedOpDestroy 9 (Some redop_example) = (ncclInvalidArgument, Some redop_example) \<and>
   (\<exists>c h c'. redop_table c h \<noteq> None \<and> ncclRedOpDestroy h (Some c) = (ncclSuccess, Some c') \<and> redop_table c' h = None)"
proof -
  have inv: "redop_inv redop_example" using redop_ok_example by (simp add: redop_ok_def)
  have "redop_table redop_example 9 = None"
    using mangle_ix_nonneg [of 9 redop_example] by (simp add: redop_table_def Let_def redOpKnown_def redop_example_def redOp_values)
  then have "ncclRedOpDestroy 9 (Some redop_example) = (ncclInvalidArgument, Some redop_example)"
    using redOpDestroy_refines [OF inv, of 9] by simp
  moreover obtain h full c where "redop_inv c" "redop_table c = (redop_table redop_example)(h \<mapsto> (ncclInt32, full))"
    using create_success [OF redop_ok_example, of ncclSuccess ncclInt32 ncclScalarHostImmediate junk_example "\<lambda>_. 3" 0]
    by (auto simp: ncclCheckFails_def)
  then have "\<exists>c'. ncclRedOpDestroy h (Some c) = (ncclSuccess, Some c') \<and> redop_table c' h = None" "redop_table c h \<noteq> None"
    using redOpDestroy_refines [of c h] by auto
  ultimately show ?thesis by blast
qed

section \<open>Built-in operators on integers\<close>

lemma allBits_cast: "LENGTH('a) \<le> 64 \<Longrightarrow> ucast (drop_bit (64 - LENGTH('a)) (- 1 :: u64)) = (- 1 :: 'a::len word)"
  by (rule bit_eqI) (auto simp: bit_simps)

lemma signBit_cast:
  "LENGTH('a) \<le> 64 \<Longrightarrow> ucast (drop_bit (64 - LENGTH('a)) (- 1 :: u64) XOR drop_bit 1 (drop_bit (64 - LENGTH('a)) (- 1))) = (2 ^ (LENGTH('a) - 1) :: 'a::len word)"
  by (rule bit_eqI) (auto simp: bit_simps bit_exp_iff)

definition signedInt :: "ncclDataType \<Rightarrow> bool" where
  "signedInt dt \<longleftrightarrow> dt = ncclInt8 \<or> dt = ncclInt32 \<or> dt = ncclInt64"

definition unsignedInt :: "ncclDataType \<Rightarrow> bool" where
  "unsignedInt dt \<longleftrightarrow> dt = ncclUint8 \<or> dt = ncclUint32 \<or> dt = ncclUint64"

lemma typeSize_le: "ncclTypeSize dt \<le> 8"
  by (cases dt) simp_all

lemma hostMinMax_arg:
  assumes "8 * ncclTypeSize dt = int LENGTH('a)" "rop = ncclMin \<or> rop = ncclMax"
  shows "ucast (scalarArg (snd (hostToDevRedOp fr f rop dt c))) =
    ((if signedInt dt then 2 ^ (LENGTH('a) - 1) else 0) XOR (if rop = ncclMax then - 1 else 0) :: 'a::len word)"
proof -
  have l: "LENGTH('a) \<le> 64" using assms(1) typeSize_le [of dt] by linarith
  have n: "nat (64 - 8 * ncclTypeSize dt) = 64 - LENGTH('a)" unfolding assms(1) by simp
  have pos: "\<not> 8 * ncclTypeSize dt \<le> 0" unfolding assms(1) by simp
  define ab where "ab = drop_bit (64 - LENGTH('a)) (- 1 :: u64)"
  define sb where "sb = ab XOR drop_bit 1 ab"
  have cast: "ucast ab = (- 1 :: 'a word)" "ucast sb = (2 ^ (LENGTH('a) - 1) :: 'a word)"
    unfolding sb_def ab_def using l by (rule allBits_cast, rule signBit_cast)
  have "scalarArg (snd (hostToDevRedOp fr f rop dt c)) = (if signedInt dt then sb else 0) XOR (if rop = ncclMax then ab else 0)"
    unfolding hostToDevRedOp_def Let_def n if_not_P [OF pos] ab_def [symmetric] sb_def [symmetric]
    using assms(2) by (auto simp: redOp_values signedInt_def)
  then show ?thesis
    by (simp only: unsigned_xor_eq if_distrib [of "unsigned :: u64 \<Rightarrow> 'a word"] cast unsigned_0)
qed

lemma uint_xor_both: "uint (a XOR (2 ^ (LENGTH('a) - 1) XOR - 1)) = 2 ^ (LENGTH('a) - 1) - 1 - sint a" for a :: "'a::len word"
proof -
  have "a XOR (2 ^ (LENGTH('a) - 1) XOR - 1) = (a XOR 2 ^ (LENGTH('a) - 1)) XOR - 1" by (simp only: xor.assoc)
  then have "uint (a XOR (2 ^ (LENGTH('a) - 1) XOR - 1)) = 2 ^ LENGTH('a) - 1 - (sint a + 2 ^ (LENGTH('a) - 1))"
    by (simp only: uint_xor_full uint_xor_sign)
  moreover have "(2::int) ^ LENGTH('a) = 2 * 2 ^ (LENGTH('a) - 1)" using power_Suc [of "2::int" "LENGTH('a) - 1"] by simp
  ultimately show ?thesis by simp
qed

lemma minMax_reduce_value:
  "sint (minMax_reduce (2 ^ (LENGTH('a) - 1)) a b) = min (sint a) (sint b)"
  "sint (minMax_reduce (2 ^ (LENGTH('a) - 1) XOR - 1) a b) = max (sint a) (sint b)"
  "unat (minMax_reduce 0 a b) = min (unat a) (unat b)"
  "unat (minMax_reduce (- 1) a b) = max (unat a) (unat b)" for a b :: "'a::len word"
  unfolding minMax_reduce_def word_less_def uint_xor_sign uint_xor_both uint_xor_full
  by (auto simp: word_less_def [symmetric] word_less_nat_alt min_def max_def)

text \<open>
  C16: Minimum and maximum on integers.  The mask that the host computes for an integer data type
  makes the functor of the device return the smaller or the larger of two elements, as signed or as
  unsigned numbers, although it only compares unsigned words.  The functor is the one of the integer
  types: the device has functors of its own for the minimum and maximum of floating-point elements, so for
  such a data type the statement is only about the words.
\<close>

theorem minMax_host_device:
  fixes a b :: "'a::len word"
  assumes "8 * ncclTypeSize dt = int LENGTH('a)"
  shows "let fn = (\<lambda>rop. redFn (FuncMinMax (scalarArg (snd (hostToDevRedOp fr f rop dt c)))) a b) in
    if signedInt dt then sint (fn ncclMin) = min (sint a) (sint b) \<and> sint (fn ncclMax) = max (sint a) (sint b)
    else unat (fn ncclMin) = min (unat a) (unat b) \<and> unat (fn ncclMax) = max (unat a) (unat b)"
  using minMax_reduce_value [of a b] unfolding Let_def
  by (simp add: FuncMinMax_def hostMinMax_arg [OF assms(1)]) (simp add: redOp_values)

theorem minMax_host_device_witness:
  "sint (redFn (FuncMinMax (scalarArg (snd (hostToDevRedOp (\<lambda>_ _. 0) (opFull (junk_example 0)) ncclMax ncclInt8 redop_example)))) (- 5) (3 :: u8)) = 3"
  using minMax_host_device [of ncclInt8, where 'a = 8 and a = "- 5" and b = 3 and fr = "\<lambda>_ _. 0" and f = "opFull (junk_example 0)" and c = redop_example]
  by (simp add: signedInt_def Let_def)


text \<open>
  C15: The average on integers.  For an integer data type the argument that the host computes makes
  the device divide the sum by the number of ranks, rounding towards zero, as signed or as unsigned
  numbers.  The division is exact although the device multiplies by a reciprocal.
\<close>

theorem average_host_device:
  fixes x :: "'a::len word"
  assumes "signedInt dt \<or> unsignedInt dt" and "LENGTH('a) \<le> LENGTH('u::len)" and "32 \<le> LENGTH('u)"
    and "0 < commRanks c" and "commRanks c < 2 ^ 30"
  shows "let y = postOp (FuncSumPostDiv TYPE('u) (scalarArg (snd (hostToDevRedOp fr f ncclAvg dt c)))) x in
    if signedInt dt then sint y = sint x sdiv commRanks c else unat y = unat x div nat (commRanks c)"
proof -
  have pos: "\<not> 8 * ncclTypeSize dt \<le> 0" using assms(1) by (auto simp: signedInt_def unsignedInt_def)
  define n where "n = nat (commRanks c)"
  have n: "0 < n" "n < 2 ^ 31" "commRanks c = int n" using assms(4,5) by (auto simp: n_def)
  have or: "push_bit 1 (int n) OR of_bool s = int (2 * n + of_bool s)" for s
  proof -
    have "push_bit 1 (int n) AND of_bool s = 0" by (cases s) (simp_all add: push_bit_eq_mult and_one_eq)
    then have "push_bit 1 (int n) + of_bool s = push_bit 1 (int n) OR of_bool s" by (rule disjunctive_add_eq_or)
    then show ?thesis by (simp add: push_bit_eq_mult)
  qed
  have "scalarArg (snd (hostToDevRedOp fr f ncclAvg dt c)) = word_of_int (push_bit 1 (int n) OR of_bool (signedInt dt))"
    unfolding hostToDevRedOp_def Let_def if_not_P [OF pos] n(3) using assms(1)
    by (auto simp: redOp_values signedInt_def unsignedInt_def)
  then have arg: "scalarArg (snd (hostToDevRedOp fr f ncclAvg dt c)) = word_of_nat (2 * n + of_bool (signedInt dt))"
    unfolding or by (simp only: of_int_of_nat_eq)
  show ?thesis
    unfolding arg Let_def using divide_signed [OF n(1,2) assms(2,3), of x] divide_unsigned [OF n(1,2) assms(2,3), of x]
    by (simp add: FuncSumPostDiv_def n(3) add.commute)
qed

theorem average_host_device_witness:
  "sint (postOp (FuncSumPostDiv TYPE(32) (scalarArg (snd (hostToDevRedOp (\<lambda>_ _. 0) (opFull (junk_example 0)) ncclAvg ncclInt8 redop_example)))) (- 7 :: u8)) = -1"
proof -
  have "sint (- 7 :: u8) = - 7" by simp
  then show ?thesis
    using average_host_device [of ncclInt8, where 'a = 8 and 'u = 32 and x = "- 7" and fr = "\<lambda>_ _. 0" and f = "opFull (junk_example 0)" and c = redop_example]
    by (simp add: signedInt_def Let_def redop_example_def signed_divide_int_def)
qed

section \<open>Check of the arguments\<close>

text \<open>What \<^verbatim>\<open>cudaPointerGetAttributes\<close> reports about an address.\<close>

record cudaPointerAttributes =
  attrError :: bool
  devicePointer :: u64
  memoryTypeDevice :: bool
  attrDevice :: int

datatype ncclCheckMode = ncclCheckModeDefault | ncclCheckModeDebugLocal | ncclCheckModeDebugGlobal

record ncclInfo =
  infoColl :: ncclFunc
  infoSendbuff :: u64
  infoRecvbuff :: u64
  infoCount :: nat
  infoType :: ncclDataType
  infoOp :: int
  infoRoot :: int

text \<open>The other fields of the communicator that the check reads, and its queue of calls to check globally.\<close>

record argsComm = redComm +
  commRank :: int
  cudaDev :: int
  checkMode :: ncclCheckMode
  argsInfoQueue :: "ncclInfo list"

definition CudaPtrCheck :: "(u64 \<Rightarrow> cudaPointerAttributes) \<Rightarrow> u64 \<Rightarrow> 'a argsComm_scheme \<Rightarrow> ncclResult" where
  "CudaPtrCheck attrs ptr comm =
     (let attr = attrs ptr
      in if attrError attr \<or> devicePointer attr = 0 then ncclInvalidArgument
         else if memoryTypeDevice attr \<and> attrDevice attr \<noteq> cudaDev comm then ncclInvalidArgument
         else ncclSuccess)"

text \<open>The pointers that a call has to have, in the order in which they are checked.\<close>

definition checkedPtrs :: "'a argsComm_scheme \<Rightarrow> ncclInfo \<Rightarrow> u64 list" where
  "checkedPtrs comm info =
     (if infoColl info = ncclFuncSend \<or> infoColl info = ncclFuncRecv
      then (if infoCount info > 0 then [infoRecvbuff info] else [])
      else if infoColl info = ncclFuncPutSignal \<or> infoColl info = ncclFuncSignal \<or> infoColl info = ncclFuncWaitSignal then []
      else (if infoColl info \<noteq> ncclFuncBroadcast \<or> commRank comm = infoRoot info then [infoSendbuff info] else []) @
           (if infoColl info \<noteq> ncclFuncReduce \<or> commRank comm = infoRoot info then [infoRecvbuff info] else []))"

fun checkPtrs :: "(u64 \<Rightarrow> cudaPointerAttributes) \<Rightarrow> 'a argsComm_scheme \<Rightarrow> u64 list \<Rightarrow> ncclResult" where
  "checkPtrs attrs comm [] = ncclSuccess"
| "checkPtrs attrs comm (p # ps) =
     (let r = CudaPtrCheck attrs p comm in if ncclCheckFails r then r else checkPtrs attrs comm ps)"

text \<open>\<open>callocOk\<close> is the success of the allocation for the queue of the global check.\<close>

definition ArgsCheck ::
  "bool \<Rightarrow> (u64 \<Rightarrow> cudaPointerAttributes) \<Rightarrow> ncclInfo \<Rightarrow> argsComm \<Rightarrow> ncclResult \<times> argsComm" where
  "ArgsCheck callocOk attrs info comm =
     (if infoRoot info < 0 \<or> infoRoot info \<ge> commRanks comm then (ncclInvalidArgument, comm)
      else if (case infoType info of ncclInvalidType t \<Rightarrow> True | _ \<Rightarrow> False) then (ncclInvalidArgument, comm)
      else if infoOp info < 0 \<or> ncclMaxRedOp < infoOp info then (ncclInvalidArgument, comm)
      else
        let opIx = ncclUserRedOpMangle (redComm.truncate comm) (infoOp info) - ncclNumOps
        in if ncclNumOps \<le> infoOp info \<and> \<not> redOpKnown (redComm.truncate comm) opIx then (ncclInvalidArgument, comm)
           else if checkMode comm \<noteq> ncclCheckModeDefault then
             let r = checkPtrs attrs comm (checkedPtrs comm info)
             in if ncclCheckFails r then (r, comm)
                else if checkMode comm = ncclCheckModeDebugGlobal
                then if \<not> callocOk then (ncclSystemError, comm)
                     else (ncclSuccess, comm\<lparr>argsInfoQueue := argsInfoQueue comm @ [info]\<rparr>)
                else (ncclSuccess, comm)
           else (ncclSuccess, comm))"

text \<open>
  The operators of a communicator that exist: those returned by a creation and not destroyed since.
  Calls that fail are left out: they change nothing, but for a creation that fails because of
  its data type, which leaks an entry.
\<close>

inductive redop_history :: "redComm \<Rightarrow> int set \<Rightarrow> bool" where
  init: "userRedOpCapacity c = 0 \<Longrightarrow> userRedOpFreeHead c = 0 \<Longrightarrow> userRedOps c = [] \<Longrightarrow> redop_history c {}"
| created: "redop_history c H \<Longrightarrow> redop_ok c \<Longrightarrow>
    ncclRedOpCreatePreMulSum junk ready deref scalar dt resid c = (ncclSuccess, Some h, c') \<Longrightarrow> redop_history c' (insert h H)"
| destroyed: "redop_history c H \<Longrightarrow> ncclRedOpDestroy rop (Some c) = (ncclSuccess, Some c') \<Longrightarrow> redop_history c' (H - {rop})"

lemma create_success_only:
  assumes "ncclRedOpCreatePreMulSum junk ready deref scalar dt resid c = (ncclSuccess, Some h, c')"
  shows "\<not> ncclCheckFails ready" "1 \<le> ncclTypeSize dt \<or> resid = ncclScalarDevice"
  using assms by (auto simp: ncclRedOpCreatePreMulSum_def Let_def ncclCheckFails_def split: if_splits intro: residence.exhaust [of resid])

lemma redop_history_table:
  assumes "redop_history c H"
  shows "redop_inv c \<and> dom (redop_table c) = H"
  using assms
proof (induction rule: redop_history.induct)
  case (init c)
  have "redop_table c rop = None" for rop
    using mangle_ix_nonneg [of rop c] init(1) by (auto simp: redop_table_def Let_def redOpKnown_def)
  then show ?case using redop_inv_initial [OF init] by (auto simp: dom_def)
next
  case (created c H junk ready deref scalar dt resid h c')
  from create_success [OF created.hyps(2) create_success_only [OF created.hyps(3)], of junk deref scalar] created.hyps(3)
  obtain full where "redop_inv c'" "redop_table c' = (redop_table c)(h \<mapsto> (dt, full))" by auto
  then show ?case using created.IH by auto
next
  case (destroyed c H rop c')
  then show ?case using destroy_cases [of c rop] by (auto split: if_splits)
qed

text \<open>
  Which buffers an operation uses, per operation: the root alone has a send buffer in a broadcast and
  a receive buffer in a reduction, a send or receive passes its buffer in place of the receive buffer, and one-sided
  operations have none.  A buffer is valid when it is memory of the device of the communicator, or
  memory of the host or managed memory that the device can access.
\<close>

fun usesSendbuff :: "ncclFunc \<Rightarrow> bool \<Rightarrow> bool" where
  "usesSendbuff ncclFuncBroadcast isRoot = isRoot"
| "usesSendbuff ncclFuncSend isRoot = False"
| "usesSendbuff ncclFuncRecv isRoot = False"
| "usesSendbuff ncclFuncPutSignal isRoot = False"
| "usesSendbuff ncclFuncSignal isRoot = False"
| "usesSendbuff ncclFuncWaitSignal isRoot = False"
| "usesSendbuff _ isRoot = True"

fun usesRecvbuff :: "ncclFunc \<Rightarrow> bool \<Rightarrow> nat \<Rightarrow> bool" where
  "usesRecvbuff ncclFuncReduce isRoot n = isRoot"
| "usesRecvbuff ncclFuncSend isRoot n = (0 < n)"
| "usesRecvbuff ncclFuncRecv isRoot n = (0 < n)"
| "usesRecvbuff ncclFuncPutSignal isRoot n = False"
| "usesRecvbuff ncclFuncSignal isRoot n = False"
| "usesRecvbuff ncclFuncWaitSignal isRoot n = False"
| "usesRecvbuff _ isRoot n = True"

definition validBuffer :: "(u64 \<Rightarrow> cudaPointerAttributes) \<Rightarrow> int \<Rightarrow> u64 \<Rightarrow> bool" where
  "validBuffer attrs dev p \<longleftrightarrow> \<not> attrError (attrs p) \<and> devicePointer (attrs p) \<noteq> 0 \<and>
     (memoryTypeDevice (attrs p) \<longrightarrow> attrDevice (attrs p) = dev)"

definition validBuffers :: "(u64 \<Rightarrow> cudaPointerAttributes) \<Rightarrow> argsComm \<Rightarrow> ncclInfo \<Rightarrow> bool" where
  "validBuffers attrs comm info \<longleftrightarrow>
     (usesSendbuff (infoColl info) (commRank comm = infoRoot info) \<longrightarrow> validBuffer attrs (cudaDev comm) (infoSendbuff info)) \<and>
     (usesRecvbuff (infoColl info) (commRank comm = infoRoot info) (infoCount info) \<longrightarrow> validBuffer attrs (cudaDev comm) (infoRecvbuff info))"

lemma CudaPtrCheck_valid: "CudaPtrCheck attrs p comm = (if validBuffer attrs (cudaDev comm) p then ncclSuccess else ncclInvalidArgument)"
  by (simp add: CudaPtrCheck_def Let_def validBuffer_def)

lemma checkPtrs_valid:
  "checkPtrs attrs comm ps = (if list_all (validBuffer attrs (cudaDev comm)) ps then ncclSuccess else ncclInvalidArgument)"
  by (induction ps) (auto simp: Let_def CudaPtrCheck_valid ncclCheckFails_def)

lemma checkedPtrs_valid: "list_all (validBuffer attrs (cudaDev comm)) (checkedPtrs comm info) \<longleftrightarrow> validBuffers attrs comm info"
  by (cases "infoColl info") (auto simp: checkedPtrs_def validBuffers_def)

text \<open>
  C20: The check of the arguments follows the life of the operators: a reduction operator is accepted
  when it is built in, or from the creation that returned it until its destruction, whatever
  other operators were created and destroyed.  A call with such an operator is accepted exactly when its root is in range, its data type is one of the
  library and, when pointers are checked, the buffers that the operation uses on this rank are valid;
  every other call reports an invalid argument and changes nothing.  An accepted call is queued once for
  the global check, in that mode only; when there is no memory for that, it reports a system error instead.
\<close>

theorem ArgsCheck_accepts:
  assumes "redop_history (redComm.truncate comm) H"
  shows "ArgsCheck callocOk attrs info comm =
    (if 0 \<le> infoRoot info \<and> infoRoot info < commRanks comm \<and> 1 \<le> ncclTypeSize (infoType info) \<and>
        (infoOp info \<in> {ncclSum, ncclProd, ncclMax, ncclMin, ncclAvg} \<or> infoOp info \<in> H) \<and>
        (checkMode comm = ncclCheckModeDefault \<or> validBuffers attrs comm info)
     then if checkMode comm = ncclCheckModeDebugGlobal
          then if callocOk then (ncclSuccess, comm\<lparr>argsInfoQueue := argsInfoQueue comm @ [info]\<rparr>) else (ncclSystemError, comm)
          else (ncclSuccess, comm)
     else (ncclInvalidArgument, comm))"
proof -
  let ?c = "redComm.truncate comm"
  have H: "x \<in> H \<longleftrightarrow> redop_table ?c x \<noteq> None" for x using redop_history_table [OF assms] by auto
  have ty: "(case infoType info of ncclInvalidType t \<Rightarrow> True | _ \<Rightarrow> False) \<longleftrightarrow> \<not> 1 \<le> ncclTypeSize (infoType info)"
    by (cases "infoType info") simp_all
  have root: "infoRoot info < 0 \<or> infoRoot info \<ge> commRanks comm \<longleftrightarrow> \<not> (0 \<le> infoRoot info \<and> infoRoot info < commRanks comm)" by linarith
  have op: "\<not> (infoOp info < 0 \<or> ncclMaxRedOp < infoOp info) \<and>
      \<not> (ncclNumOps \<le> infoOp info \<and> \<not> redOpKnown ?c (ncclUserRedOpMangle ?c (infoOp info) - ncclNumOps)) \<longleftrightarrow>
      infoOp info \<in> {ncclSum, ncclProd, ncclMax, ncclMin, ncclAvg} \<or> infoOp info \<in> H"
    unfolding H redop_table_def Let_def by (auto simp: redOp_values)
  show ?thesis
  proof (cases "0 \<le> infoRoot info \<and> infoRoot info < commRanks comm \<and> 1 \<le> ncclTypeSize (infoType info) \<and>
      (infoOp info \<in> {ncclSum, ncclProd, ncclMax, ncclMin, ncclAvg} \<or> infoOp info \<in> H)")
    case True
    then show ?thesis unfolding ArgsCheck_def Let_def ty root op [symmetric] checkPtrs_valid checkedPtrs_valid
      by (cases "checkMode comm") (auto simp: ncclCheckFails_def)
  next
    case False
    then have "ArgsCheck callocOk attrs info comm = (ncclInvalidArgument, comm)"
      unfolding ArgsCheck_def Let_def ty root op [symmetric] by argo
    then show ?thesis using False by auto
  qed
qed

definition args_example :: "redComm \<Rightarrow> argsComm" where
  "args_example c = redComm.extend c \<lparr>commRank = 1, cudaDev = 0, checkMode = ncclCheckModeDebugGlobal, argsInfoQueue = []\<rparr>"

definition info_example :: "int \<Rightarrow> ncclInfo" where
  "info_example rop = \<lparr>infoColl = ncclFuncBroadcast, infoSendbuff = 0, infoRecvbuff = 0x1000, infoCount = 5, infoType = ncclFloat32,
     infoOp = rop, infoRoot = 2\<rparr>"

definition attrs_example :: "int \<Rightarrow> u64 \<Rightarrow> cudaPointerAttributes" where
  "attrs_example dev p = \<lparr>attrError = False, devicePointer = p, memoryTypeDevice = True, attrDevice = dev\<rparr>"

lemma args_example_simps:
  "redComm.truncate (args_example c) = c" "commRanks (args_example c) = commRanks c" "checkMode (args_example c) = ncclCheckModeDebugGlobal"
  "commRank (args_example c) = 1" "cudaDev (args_example c) = 0"
  by (simp_all add: args_example_def redComm.defs)

lemma create_ranks: "commRanks (snd (snd (ncclRedOpCreatePreMulSum junk ready deref scalar dt resid c))) = commRanks c"
  by (simp add: ncclRedOpCreatePreMulSum_def growRedOps_def Let_def)

lemma destroy_ranks: "ncclRedOpDestroy rop (Some c) = (r, Some c') \<Longrightarrow> commRanks c' = commRanks c"
  by (auto simp: ncclRedOpDestroy_def Let_def split: if_splits)

text \<open>An operator is created, used and destroyed; a buffer on another device and an unknown operator are refused.\<close>

theorem ArgsCheck_accepts_witness:
  "\<exists>h c' c''. ncclRedOpCreatePreMulSum junk_example ncclSuccess (\<lambda>_. 3) 0 ncclInt32 ncclScalarHostImmediate redop_example = (ncclSuccess, Some h, c') \<and>
     ncclRedOpDestroy h (Some c') = (ncclSuccess, Some c'') \<and>
     fst (ArgsCheck True (attrs_example 0) (info_example h) (args_example c')) = ncclSuccess \<and>
     fst (ArgsCheck False (attrs_example 0) (info_example h) (args_example c')) = ncclSystemError \<and>
     fst (ArgsCheck True (attrs_example 1) (info_example h) (args_example c')) = ncclInvalidArgument \<and>
     fst (ArgsCheck True (attrs_example 0) (info_example h) (args_example c'')) = ncclInvalidArgument"
proof -
  have start: "redop_history redop_example {}" by (rule redop_history.init) (simp_all add: redop_example_def)
  obtain h full c' where c': "ncclRedOpCreatePreMulSum junk_example ncclSuccess (\<lambda>_. 3) 0 ncclInt32 ncclScalarHostImmediate redop_example = (ncclSuccess, Some h, c')"
      "redop_inv c'" "ncclNumOps \<le> h" "redop_table c' = (redop_table redop_example)(h \<mapsto> (ncclInt32, full))"
    using create_success [OF redop_ok_example, of ncclSuccess ncclInt32 ncclScalarHostImmediate junk_example "\<lambda>_. 3" 0]
    by (auto simp: ncclCheckFails_def)
  obtain c'' where c'': "ncclRedOpDestroy h (Some c') = (ncclSuccess, Some c'')" using destroy_cases [OF c'(2), of h] c'(4) by auto
  have "commRanks c' = 4" using create_ranks [of junk_example ncclSuccess "\<lambda>_. 3" 0 ncclInt32 ncclScalarHostImmediate redop_example]
    unfolding c'(1) by (simp add: redop_example_def)
  then have ranks: "commRanks c' = 4" "commRanks c'' = 4" using destroy_ranks [OF c''] by simp_all
  have h: "redop_history c' {h}" by (rule redop_history.created [OF start redop_ok_example c'(1)])
  then have "redop_history c'' {}" using redop_history.destroyed [OF h c''] by simp
  with h have hist: "redop_history (redComm.truncate (args_example c')) {h}" "redop_history (redComm.truncate (args_example c'')) {}"
    unfolding args_example_simps .
  have "h \<notin> {ncclSum, ncclProd, ncclMax, ncclMin, ncclAvg}" using c'(3) by (auto simp: redOp_values)
  then show ?thesis using c'(1) c''
    by (simp add: ArgsCheck_accepts [OF hist(1)] ArgsCheck_accepts [OF hist(2)] args_example_simps ranks info_example_def
        validBuffers_def validBuffer_def attrs_example_def)
qed

end
