(* ===== verification/Spec2Isabelle.thy ===== *)
theory Spec2Isabelle
  imports Address_Map Host_Strings Intru_Queue Mpsc_Queue P2p_Schedule Reg_Cache Ring_Chain Space Topo_Trees User_RedOps
begin

text \<open>
  A verification library for the NVIDIA Collective Communication Library (NCCL).  Source paths are relative to the directory
  \<^verbatim>\<open>src/src\<close> of the repository.

  \<^bold>\<open>The program.\<close>  The ranks of a communicator are threads or processes, each with a GPU.  At initialisation (\<^verbatim>\<open>init.cc\<close>) every rank
  describes itself and its place in the rings, trees and chains of its node, all ranks exchange these descriptions, and every rank
  derives from them, without further exchange, the same channels: rings and trees through all ranks
  (\<^verbatim>\<open>graph/connect.cc\<close>, \<^verbatim>\<open>graph/trees.cc\<close>, \<^verbatim>\<open>graph/rings.cc\<close>) and a schedule of the point-to-point transfers.  A call of the user is
  checked (\<^verbatim>\<open>misc/argcheck.cc\<close>), its reduction operator is translated to a functor of the device (\<^verbatim>\<open>enqueue/enqueue.cc\<close>), and its
  data is divided over channels and parts (\<^verbatim>\<open>include/device.h\<close>, \<^verbatim>\<open>include/channel.h\<close>).  On the device every channel runs the kernel
  of the collective (\<^verbatim>\<open>device/all_reduce.h\<close> and its siblings) as a sequence of primitive operations on chunks
  (\<^verbatim>\<open>device/prims_simple.h\<close>), which the GPUs execute in slices through a FIFO between neighbours.  Around this the host keeps queues,
  hash maps and allocators (\<^verbatim>\<open>include/utils.h\<close>, \<^verbatim>\<open>misc/utils.cc\<close>, \<^verbatim>\<open>allocator.cc\<close>) and a cache of registered buffers
  (\<^verbatim>\<open>register/register.cc\<close>).

  \<^bold>\<open>Conventions.\<close>  Fallible code returns \<^verbatim>\<open>ncclResult\<close> and a value as a sum (\<^verbatim>\<open>'a nccl\<close> of \<^verbatim>\<open>Nccl_Prelude\<close>) or a pair of the code and the
  state where the state changes on failure.  Undefined behaviour (an access outside an array or to freed memory) and a loop that does
  not end are the value \<^verbatim>\<open>None\<close>.  Pointers are natural numbers into an explicit store where aliasing matters, 0 is null.  Machine
  integers are words where the code relies on their width; elsewhere the theories say under which bounds the unbounded numbers agree
  with them.  The answers of CUDA, of malloc and of other ranks are arguments.

  \<^bold>\<open>Helpers of the host.\<close>
  \<^item> \<^verbatim>\<open>Bitops\<close>, \<^verbatim>\<open>Bit_Scans\<close> (\<^verbatim>\<open>include/bitops.h\<close>): rounding, alignment, division by reciprocal multiplication, bit counts and scans,
    bit reversal, the small floating formats for sizes, and the hash, at their word widths.  The division by multiplication equals
    the division, with the range in which this holds.
  \<^item> \<^verbatim>\<open>Linked_Lists\<close>: walks along linked lists in a store, shared by the queues and the map.
  \<^item> \<^verbatim>\<open>Intru_Queue\<close> (\<^verbatim>\<open>ncclIntruQueue\<close>): every operation on the store represents the operation on lists; the locale \<^verbatim>\<open>fifo_queue\<close> has the laws
    that give first-in first-out behaviour of every sequence of operations, and is interpreted on the code's operations.
  \<^item> \<^verbatim>\<open>Mpsc_Queue\<close> (\<^verbatim>\<open>ncclIntruQueueMpsc\<close>): producers and the consumer as threads whose accesses to shared memory interleave in a step
    relation; order of delivery, completeness of the returned lists, and no lost wake-up, by an invariant of all reachable states.
  \<^item> \<^verbatim>\<open>Address_Map\<close> (\<^verbatim>\<open>ncclIntruAddressMap\<close>): the hash map with growth refines a mathematical map (locale \<^verbatim>\<open>object_map\<close>).
  \<^item> \<^verbatim>\<open>Space\<close> (\<^verbatim>\<open>ncclSpace\<close> of \<^verbatim>\<open>allocator.cc\<close>): the first-fit allocator on its sorted cuts: allocated regions are aligned, free before and
    full after; release refuses everything that is not allocated as a whole; what the padding of an allocation costs.
  \<^item> \<^verbatim>\<open>Host_Strings\<close> (\<^verbatim>\<open>misc/utils.cc\<close>, \<^verbatim>\<open>os/linux.cc\<close>): PCI identifiers, interface lists and their matching, printing of bit sets, on C strings.
  \<^item> \<^verbatim>\<open>Reg_Cache\<close> (\<^verbatim>\<open>register/register.cc\<close>, \<^verbatim>\<open>include/register_inline.h\<close>): registration, release and search of buffers.  An inductive
    predicate has all caches that the operations reach together with the outstanding registrations; the invariant says that slots are
    sorted and counts are exact, so that registered buffers are always found.  The failures of allocations are modelled and shown to
    break the array.

  \<^bold>\<open>Topology and schedules.\<close>
  \<^item> \<^verbatim>\<open>Trees\<close> (\<^verbatim>\<open>graph/trees.cc\<close>): both binary trees are consistent, of logarithmic depth, and no rank is inner in both.
  \<^item> \<^verbatim>\<open>Ring_Check\<close> (\<^verbatim>\<open>graph/rings.cc\<close>): the check accepts exactly the cycles through all ranks and returns their order.
  \<^item> \<^verbatim>\<open>Topo_Connect\<close> (\<^verbatim>\<open>graph/connect.cc\<close>): \<^verbatim>\<open>ncclTopoPreset\<close> and \<^verbatim>\<open>ncclTopoPostset\<close> with everything they call.
  \<^item> \<^verbatim>\<open>Topo_Rings\<close>, \<^verbatim>\<open>Topo_Trees\<close>: the joints between nodes make one ring through all ranks, and two trees with one root each.
  \<^item> \<^verbatim>\<open>Topo_Init\<close> (the part of \<^verbatim>\<open>initTransportsRank\<close> of \<^verbatim>\<open>init.cc\<close> around the third exchange): node discovery, local ranks and alignment
    of the channels; composed with the theories above, all ranks of a cluster join in the same rings and trees.
  \<^item> \<^verbatim>\<open>P2p_Schedule\<close> (\<^verbatim>\<open>ncclP2pSchedule\<close> of \<^verbatim>\<open>init.cc\<close>, \<^verbatim>\<open>postTuneP2pChannelBase\<close>, \<^verbatim>\<open>computeLsaSize\<close> of \<^verbatim>\<open>dev_runtime.cc\<close>): the schedules of all ranks match
    round by round and both ends of a transfer derive the same channel.

  \<^bold>\<open>Calls and work.\<close>
  \<^item> \<^verbatim>\<open>User_RedOps\<close> (\<^verbatim>\<open>enqueue/enqueue.cc\<close>, \<^verbatim>\<open>misc/argcheck.cc\<close>): creation and destruction of user-defined operators refine a finite map of
    handles, with the invariant of the free list; the check of arguments; the device functor of an operator.
  \<^item> \<^verbatim>\<open>Red_Ops\<close> (\<^verbatim>\<open>device/reduce_kernel.h\<close>): the functors for integers with pre- and post-operation, and the packed versions for bytes; with
    \<^verbatim>\<open>User_RedOps\<close>, the average and the minimum and maximum that host and device compute together.
  \<^item> \<^verbatim>\<open>Work_Part\<close> (\<^verbatim>\<open>include/device.h\<close>, \<^verbatim>\<open>include/channel.h\<close>): the parts of point-to-point transfers and of collectives partition the data.

  \<^bold>\<open>Ring collectives.\<close>
  \<^item> \<^verbatim>\<open>Prims\<close> (\<^verbatim>\<open>device/prims_simple.h\<close>, \<^verbatim>\<open>device/common_kernel.h\<close>): \<^verbatim>\<open>genericOp\<close> as a list of slices, each with its waiting, data movement and
    posting, and the primitives as its instances.
  \<^item> \<^verbatim>\<open>Ring_Programs\<close> (\<^verbatim>\<open>device/all_reduce.h\<close>, \<^verbatim>\<open>all_gather.h\<close>, \<^verbatim>\<open>reduce_scatter.h\<close>, \<^verbatim>\<open>broadcast.h\<close>, \<^verbatim>\<open>reduce.h\<close>): the ring kernels with their loops over
    chunks, which are option-valued, and the order of the ring (\<^verbatim>\<open>init.cc\<close>).
  \<^item> \<^verbatim>\<open>Ring_Net\<close>: the step relation of all ranks with their FIFOs (\<^verbatim>\<open>waitPeer\<close>, copy, \<^verbatim>\<open>postPeer\<close>), and the locale \<^verbatim>\<open>ring_run\<close>, which gives the final
    memory and deadlock freedom of every interleaving from a rank-local description of the values; \<^verbatim>\<open>Lagged_Ring\<close> and \<^verbatim>\<open>Chain_Ring\<close> are its two
    shapes (sublocales).
  \<^item> \<^verbatim>\<open>Ring_AllReduce\<close>, \<^verbatim>\<open>Ring_AllGather\<close>, \<^verbatim>\<open>Ring_ReduceScatter\<close>, \<^verbatim>\<open>Ring_Chain\<close>: interpretations on the five kernels; every run ends, and
    every final memory is the one that the collective specifies, for all counts, chunk sizes and ring orders, also in place.

  \<^bold>\<open>Bounds.\<close>  The loops of the kernels and of the schedule are \<^verbatim>\<open>partial_function (option)\<close> or structural recursions, and the properties
  state that they return.  No theorem depends on fuel.  Page sizes are powers of two below \<open>2 ^ 64\<close>; buffers end below the top of the
  address space.

  \<^bold>\<open>Not modelled.\<close>
  \<^item> Transports, proxy threads, the bootstrap network, sockets, shared memory and the wrappers of CUDA, NVML, verbs and GDRCopy: they are
    drivers and input/output, and what they promise to the rest is not stated in the sources.
  \<^item> The search for rings and trees on a node, the paths and the XML description of the hardware: heuristics on bandwidths; the orders of
    local ranks that they produce are arguments of \<^verbatim>\<open>Topo_Init\<close>.  The cost model of the tuning is floating point and has no specification.
  \<^item> The group launch, the planning of kernels and CUDA graphs: their effects are calls of CUDA.
  \<^item> The LL and LL128 protocols, whose correctness rests on the memory model of the GPU, and the tree, CollNet, NVLS, PAT and symmetric
    kernels.  The step relations assume sequentially consistent memory.
  \<^item> Device runtime, windows, one-sided operations (GIN, RMA), copy-engine collectives, diagnostics, RAS, plugins, profilers, parameters,
    operating system layers, language bindings and \<^verbatim>\<open>contrib\<close>.
\<close>

end
